(* ===== verification/Prelude.thy ===== *)
theory Prelude
  imports Main "HOL-Library.Word" "HOL-Library.Monad_Syntax"
begin

section \<open>Shared types, statuses and generic lemmas\<close>

text \<open>
  What every component of the development uses.

  \<^item> A failed \<open>CHECK\<close>, a \<open>LOG(FATAL)\<close> and a \<open>DCHECK\<close> end the process in the source. An
    operation that contains one returns \<open>'a option\<close>, where \<open>None\<close> is "the process
    has aborted"; do-notation threads it.
  \<^item> A recoverable error is a value of type \<open>status\<close> (\<open>absl::Status\<close>, without the text
    of its message). An operation that mutates an object and returns a status
    returns the pair of both, because the mutations made before the error stay.
  \<^item> \<open>int64\<close> and \<open>int32\<close> are words of their width, read with \<open>sint\<close>.
\<close>

type_synonym int64 = "64 word"
type_synonym int32 = "32 word"

datatype status_code =
    InvalidArgument
  | FailedPrecondition
  | Unknown
  | OutOfRange
  | Internal
  | NotFound
  | AlreadyExists
  | Unavailable
  | Cancelled
  | Stop

datatype status = OkStatus | ErrorStatus status_code

fun ok :: "status \<Rightarrow> bool" where
  "ok OkStatus = True"
| "ok (ErrorStatus _) = False"

lemma not_ok_iff: "\<not> ok s \<longleftrightarrow> (\<exists>c. s = ErrorStatus c)"
  by (cases s) auto

lemma ok_iff [simp]: "ok s \<longleftrightarrow> s = OkStatus"
  by (cases s) auto

text \<open>\<open>check b\<close> is the source's \<open>CHECK(b)\<close> in the option monad.\<close>

definition check :: "bool \<Rightarrow> unit option" where
  "check b = (if b then Some () else None)"

lemma check_simps [simp]:
  "check True = Some ()"
  "check False = None"
  "check b = Some u \<longleftrightarrow> b"
  "check b = None \<longleftrightarrow> \<not> b"
  by (auto simp: check_def)

lemma bind_check [simp]: "check b \<bind> f = (if b then f () else None)"
  by (simp add: check_def)

text \<open>
  \<open>absl::StatusOr\<close>: the code of the error, or the value. \<open>result_bind\<close> is \<open>MP_RETURN_IF_ERROR\<close>
  and \<open>ASSIGN_OR_RETURN\<close>; \<open>ret_check\<close> is \<open>RET_CHECK\<close>, whose failure is an internal error.
\<close>

type_synonym 'a result = "status_code + 'a"

fun result_bind :: "'a result \<Rightarrow> ('a \<Rightarrow> 'b result) \<Rightarrow> 'b result" where
  "result_bind (Inl c) f = Inl c"
| "result_bind (Inr x) f = f x"

definition ret_check :: "bool \<Rightarrow> unit result" where
  "ret_check b = (if b then Inr () else Inl Internal)"

definition status_result :: "status \<Rightarrow> unit result" where
  "status_result s = (case s of OkStatus \<Rightarrow> Inr () | ErrorStatus c \<Rightarrow> Inl c)"

lemma result_bind_Inr: "result_bind r f = Inr y \<longleftrightarrow> (\<exists>x. r = Inr x \<and> f x = Inr y)"
  by (cases r) auto

lemma ret_check_simps [simp]:
  "ret_check True = Inr ()"
  "ret_check False = Inl Internal"
  "ret_check b = Inr u \<longleftrightarrow> b"
  by (auto simp: ret_check_def)

lemma status_result_simps [simp]:
  "status_result OkStatus = Inr ()"
  "status_result (ErrorStatus c) = Inl c"
  "status_result s = Inr u \<longleftrightarrow> s = OkStatus"
  by (auto simp: status_result_def split: status.splits)

subsection \<open>Lists\<close>

lemma dropWhile_sorted_wrt:
  "sorted_wrt R xs \<Longrightarrow> sorted_wrt R (dropWhile P xs)"
  by (induction xs) auto

lemma takeWhile_last_sat: "takeWhile P xs \<noteq> [] \<Longrightarrow> P (last (takeWhile P xs))"
  by (metis last_in_set set_takeWhileD)

lemma set_dropWhile_subset: "set (dropWhile P xs) \<subseteq> set xs"
  by (induction xs) auto

text \<open>
  The loops of the source that compute a minimum over the streams start from a top value
  and fold \<open>std::min\<close>.
\<close>

definition min_over :: "'a::linorder \<Rightarrow> 'a list \<Rightarrow> 'a" where
  "min_over t xs = fold (\<lambda>x m. min m x) xs t"

lemma fold_min_le: "fold (\<lambda>x m. min m x) xs (t::'a::linorder) \<le> t"
proof (induction xs arbitrary: t)
  case (Cons a xs)
  from Cons.IH [of "min t a"] show ?case by simp
qed simp

lemma min_over_Nil [simp]: "min_over t [] = t"
  by (simp add: min_over_def)

lemma min_over_le_top: "min_over t xs \<le> t"
  by (simp add: min_over_def fold_min_le)

lemma min_over_le_iff: "b \<le> min_over t xs \<longleftrightarrow> b \<le> t \<and> (\<forall>x \<in> set xs. b \<le> x)"
  unfolding min_over_def by (induction xs arbitrary: t) auto

lemma min_over_less_iff: "b < min_over t xs \<longleftrightarrow> b < t \<and> (\<forall>x \<in> set xs. b < x)"
  unfolding min_over_def by (induction xs arbitrary: t) auto

lemma min_over_mem: "min_over t xs \<in> insert t (set xs)"
  unfolding min_over_def
  by (induction xs arbitrary: t) (auto simp: min_def split: if_splits)

lemma min_over_le: "x \<in> set xs \<Longrightarrow> min_over t xs \<le> x"
  using min_over_le_iff [of "min_over t xs" t xs] by simp

lemma min_over_Cons: "min_over t (x # xs) = min x (min_over t xs)"
  by (rule antisym) (auto simp: min_over_le_iff min_over_le_top min_over_le min_le_iff_disj)

lemma min_over_eq_top: "min_over t xs = t \<longleftrightarrow> (\<forall>x \<in> set xs. t \<le> x)"
  by (metis antisym min_over_le_iff min_over_le_top order_refl)

lemma distinct_concat_disjoint:
  "distinct (concat xss) \<Longrightarrow> i < length xss \<Longrightarrow> j < length xss \<Longrightarrow> x \<in> set (xss ! i) \<Longrightarrow> x \<in> set (xss ! j) \<Longrightarrow> i = j"
proof (induction xss arbitrary: i j)
  case (Cons xs xss)
  then show ?case by (cases i; cases j) (auto simp: in_set_conv_nth, (metis disjoint_iff nth_mem UN_I)+)
qed simp

lemma nth_mem_upd: "i < length xs \<Longrightarrow> xs[i := y] ! i = y"
  by simp

subsection \<open>Signed words\<close>

definition in_range64 :: "int \<Rightarrow> bool" where
  "in_range64 v \<longleftrightarrow> -9223372036854775808 \<le> v \<and> v \<le> 9223372036854775807"

lemma sint64_range: "-9223372036854775808 \<le> sint (a::int64)" "sint a \<le> 9223372036854775807"
  using sint_greater_eq [of a] sint_lt [of a] by simp_all

lemma sint64_in_range [simp]: "in_range64 (sint (a::int64))"
  by (simp add: in_range64_def sint64_range)

lemma sint64_of_int: "in_range64 v \<Longrightarrow> sint (word_of_int v :: int64) = v"
  by (simp add: in_range64_def sint_sbintrunc' signed_take_bit_int_eq_self_iff)

lemma sint64_add: "in_range64 (sint a + sint b) \<Longrightarrow> sint (a + b :: int64) = sint a + sint b"
  by (simp add: in_range64_def sint_word_ariths signed_take_bit_int_eq_self_iff)

lemma sint64_diff: "in_range64 (sint a - sint b) \<Longrightarrow> sint (a - b :: int64) = sint a - sint b"
  by (simp add: in_range64_def sint_word_ariths signed_take_bit_int_eq_self_iff)

lemma sint64_uminus: "in_range64 (- sint a) \<Longrightarrow> sint (- a :: int64) = - sint a"
  by (simp add: in_range64_def sint_word_ariths signed_take_bit_int_eq_self_iff)

lemma sint64_inject [simp]: "sint (a::int64) = sint b \<longleftrightarrow> a = b"
  by (metis signed_word_eqI)

end
