(* ===== verification/SafeInt.thy ===== *)
theory SafeInt
  imports Prelude "HOL-Library.Signed_Division"
begin

section \<open>Checked integers\<close>

text \<open>
  \<open>deps/safe_int.h\<close> and \<open>deps/strong_int.h\<close> at the one type the framework uses them at:
  \<open>TimestampBaseType\<close>, a \<open>StrongInt\<close> over \<open>int64\<close> with the policy \<open>LogFatalOnError\<close>.
  A validator returns \<open>None\<close> where \<open>LogFatalOnError::Error\<close> ends the process. The
  comparisons and the differences inside a validator are those of \<open>int64\<close> (they wrap in the
  model); the theorems show that they decide the mathematical range exactly.
  C++ division truncates towards zero: \<open>sdiv\<close> and \<open>smod\<close> on the signed readings.
\<close>

unbundle bit_operations_syntax

definition kint64min :: int64 where "kint64min = 0x8000000000000000"
definition kint64max :: int64 where "kint64max = 0x7FFFFFFFFFFFFFFF"

lemma sint_kint64 [simp]:
  "sint kint64min = -9223372036854775808"
  "sint kint64max = 9223372036854775807"
  by (simp_all add: kint64min_def kint64max_def)

definition int64_div :: "int64 \<Rightarrow> int64 \<Rightarrow> int64" where
  "int64_div a b = word_of_int (sint a sdiv sint b)"

definition int64_mod :: "int64 \<Rightarrow> int64 \<Rightarrow> int64" where
  "int64_mod a b = word_of_int (sint a smod sint b)"

subsection \<open>The validators\<close>

definition ValidateInit :: "int \<Rightarrow> unit option" where
  "ValidateInit arg =
     (if sint (word_of_int arg :: int64) \<noteq> arg \<or> (arg > 0 \<and> arg > sint kint64max)
      then None else Some ())"

definition ValidateNegate :: "int64 \<Rightarrow> unit option" where
  "ValidateNegate v = (if v = kint64min then None else Some ())"

definition ValidateAdd :: "int64 \<Rightarrow> int64 \<Rightarrow> unit option" where
  "ValidateAdd lhs rhs =
     (if 0 <s rhs \<and> (kint64max - rhs) <s lhs then None
      else if rhs <s 0 \<and> lhs <s (kint64min - rhs) then None
      else Some ())"

definition ValidateSubtract :: "int64 \<Rightarrow> int64 \<Rightarrow> unit option" where
  "ValidateSubtract lhs rhs =
     (if 0 <s rhs \<and> lhs <s (kint64min + rhs) then None
      else if rhs <s 0 \<and> (kint64max + rhs) <s lhs then None
      else Some ())"

definition ValidateMultiply :: "int64 \<Rightarrow> int64 \<Rightarrow> unit option" where
  "ValidateMultiply lhs rhs =
     (if lhs = 0 \<or> rhs = 0 then Some ()
      else if 0 <s lhs then
        (if 0 <s rhs then
           (if int64_div kint64max rhs <s lhs then None else Some ())
         else
           (if rhs <s int64_div kint64min lhs then None else Some ()))
      else
        (if 0 <s rhs then
           (if (lhs = -1 \<and> kint64max <s rhs - 1) \<or>
               (lhs <s -1 \<and> int64_div kint64min lhs <s rhs) then None else Some ())
         else
           (if lhs \<noteq> 0 \<and> rhs <s int64_div kint64max lhs then None else Some ())))"

definition ValidateDivide :: "int64 \<Rightarrow> int64 \<Rightarrow> unit option" where
  "ValidateDivide lhs rhs =
     (if rhs = 0 then None
      else if lhs = kint64min \<and> rhs = -1 then None
      else Some ())"

definition ValidateModulo :: "int64 \<Rightarrow> int64 \<Rightarrow> unit option" where
  "ValidateModulo lhs rhs =
     (if rhs = 0 then None
      else if lhs = kint64min \<and> rhs = -1 then None
      else Some ())"

definition ValidateLeftShift :: "int64 \<Rightarrow> int64 \<Rightarrow> unit option" where
  "ValidateLeftShift lhs rhs =
     (if lhs <s 0 then None
      else if rhs <s 0 then None
      else if 64 \<le> uint rhs then None
      else if signed_drop_bit (nat (sint rhs)) kint64max <s lhs then None
      else Some ())"

definition ValidateRightShift :: "int64 \<Rightarrow> int64 \<Rightarrow> unit option" where
  "ValidateRightShift lhs rhs =
     (if lhs <s 0 then None
      else if rhs <s 0 then None
      else if 64 \<le> uint rhs then None
      else Some ())"

subsection \<open>The operators of \<open>StrongInt\<close>\<close>

definition StrongInt_init :: "int \<Rightarrow> int64 option" where
  "StrongInt_init v = do { ValidateInit v; Some (word_of_int v) }"

definition StrongInt_uminus :: "int64 \<Rightarrow> int64 option" where
  "StrongInt_uminus v = do { ValidateNegate v; Some (- v) }"

definition StrongInt_add :: "int64 \<Rightarrow> int64 \<Rightarrow> int64 option" where
  "StrongInt_add a b = do { ValidateAdd a b; Some (a + b) }"

definition StrongInt_subtract :: "int64 \<Rightarrow> int64 \<Rightarrow> int64 option" where
  "StrongInt_subtract a b = do { ValidateSubtract a b; Some (a - b) }"

definition StrongInt_multiply :: "int64 \<Rightarrow> int64 \<Rightarrow> int64 option" where
  "StrongInt_multiply a b = do { ValidateMultiply a b; Some (a * b) }"

definition StrongInt_divide :: "int64 \<Rightarrow> int64 \<Rightarrow> int64 option" where
  "StrongInt_divide a b = do { ValidateDivide a b; Some (int64_div a b) }"

definition StrongInt_modulo :: "int64 \<Rightarrow> int64 \<Rightarrow> int64 option" where
  "StrongInt_modulo a b = do { ValidateModulo a b; Some (int64_mod a b) }"

definition StrongInt_shift_left :: "int64 \<Rightarrow> int64 \<Rightarrow> int64 option" where
  "StrongInt_shift_left a n =
     do { ValidateLeftShift a n; Some (push_bit (nat (sint n)) a) }"

definition StrongInt_shift_right :: "int64 \<Rightarrow> int64 \<Rightarrow> int64 option" where
  "StrongInt_shift_right a n =
     do { ValidateRightShift a n; Some (signed_drop_bit (nat (sint n)) a) }"

subsection \<open>Exactness\<close>

text \<open>The result type of a checked operation whose mathematical value is \<open>v\<close>.\<close>

definition exact64 :: "int \<Rightarrow> int64 option" where
  "exact64 v = (if in_range64 v then Some (word_of_int v) else None)"

lemma exact64_Some: "exact64 v = Some c \<longleftrightarrow> sint c = v"
proof
  assume "exact64 v = Some c"
  then show "sint c = v" by (auto simp: exact64_def sint64_of_int split: if_splits)
next
  assume "sint c = v"
  then show "exact64 v = Some c" by (auto simp: exact64_def)
qed

lemma exact64_None: "exact64 v = None \<longleftrightarrow> \<not> in_range64 v"
  by (simp add: exact64_def)

lemma sint64_mult: "in_range64 (sint a * sint b) \<Longrightarrow> sint (a * b :: int64) = sint a * sint b"
  by (simp add: in_range64_def sint_word_ariths signed_take_bit_int_eq_self_iff)

lemmas sless_sint = word_sless_alt

lemma StrongInt_init_exact: "StrongInt_init v = exact64 v"
proof (cases "in_range64 v")
  case True
  then show ?thesis
    by (simp add: StrongInt_init_def ValidateInit_def exact64_def sint64_of_int)
      (simp add: in_range64_def)
next
  case False
  then have "sint (word_of_int v :: int64) \<noteq> v" by (metis sint64_in_range)
  with False show ?thesis
    by (simp add: StrongInt_init_def ValidateInit_def exact64_def)
qed

lemma StrongInt_uminus_exact: "StrongInt_uminus a = exact64 (- sint a)"
proof (cases "a = kint64min")
  case True
  then show ?thesis
    by (simp add: StrongInt_uminus_def ValidateNegate_def exact64_def in_range64_def)
next
  case False
  then have "sint a \<noteq> sint kint64min" by (simp del: sint_kint64)
  then have "in_range64 (- sint a)" using sint64_range [of a] by (simp add: in_range64_def)
  with False show ?thesis
    by (simp add: StrongInt_uminus_def ValidateNegate_def sint64_uminus
        exact64_Some [THEN iffD2, symmetric])
qed

lemma sint_max_minus: "0 \<le> sint b \<Longrightarrow> sint (kint64max - b) = 9223372036854775807 - sint b"
  using sint64_range [of b] by (subst sint64_diff) (auto simp: in_range64_def)

lemma sint_min_minus: "sint b \<le> 0 \<Longrightarrow> sint (kint64min - b) = -9223372036854775808 - sint b"
  using sint64_range [of b] by (subst sint64_diff) (auto simp: in_range64_def)

lemma sint_min_plus: "0 \<le> sint b \<Longrightarrow> sint (kint64min + b) = -9223372036854775808 + sint b"
  using sint64_range [of b] by (subst sint64_add) (auto simp: in_range64_def)

lemma sint_max_plus: "sint b \<le> 0 \<Longrightarrow> sint (kint64max + b) = 9223372036854775807 + sint b"
  using sint64_range [of b] by (subst sint64_add) (auto simp: in_range64_def)

lemma ValidateAdd_iff: "ValidateAdd a b = (if in_range64 (sint a + sint b) then Some () else None)"
  using sint64_range [of a] sint64_range [of b]
  by (auto simp: ValidateAdd_def sless_sint in_range64_def sint_max_minus sint_min_minus)

lemma ValidateSubtract_iff:
  "ValidateSubtract a b = (if in_range64 (sint a - sint b) then Some () else None)"
  using sint64_range [of a] sint64_range [of b]
  by (auto simp: ValidateSubtract_def sless_sint in_range64_def sint_min_plus sint_max_plus)

lemma StrongInt_add_exact: "StrongInt_add a b = exact64 (sint a + sint b)"
  by (simp add: StrongInt_add_def ValidateAdd_iff exact64_def)

lemma StrongInt_subtract_exact: "StrongInt_subtract a b = exact64 (sint a - sint b)"
  by (simp add: StrongInt_subtract_def ValidateSubtract_iff exact64_def)

subsection \<open>Multiplication, division and shifts\<close>

lemma le_div_iff_int: "0 < (b::int) \<Longrightarrow> a \<le> m div b \<longleftrightarrow> a * b \<le> m"
proof
  assume b: "0 < b" and "a \<le> m div b"
  then have "a * b \<le> (m div b) * b" by (simp add: mult_right_mono)
  also have "\<dots> \<le> m" using b by (metis pos_mod_sign div_mult_mod_eq le_add_same_cancel1)
  finally show "a * b \<le> m" .
next
  assume b: "0 < b" and "a * b \<le> m"
  then have "(a * b) div b \<le> m div b" using b by (intro zdiv_mono1)
  with b show "a \<le> m div b" by simp
qed

lemma abs_sdiv_le: "\<bar>(a::int) sdiv b\<bar> \<le> \<bar>a\<bar>"
proof (cases "b = 0")
  case True
  then show ?thesis by (simp add: signed_divide_int_def)
next
  case False
  have "\<bar>a\<bar> div \<bar>b\<bar> \<le> \<bar>a\<bar>"
    using False by (metis abs_ge_zero div_by_1 zdiv_mono2 zero_less_abs_iff zero_less_one
        int_one_le_iff_zero_less)
  moreover have "0 \<le> \<bar>a\<bar> div \<bar>b\<bar>" using False by (simp add: pos_imp_zdiv_nonneg_iff)
  ultimately show ?thesis by (auto simp: signed_divide_int_def abs_mult sgn_if)
qed

lemma sdiv_in_range64:
  assumes "in_range64 a" "in_range64 b" "\<not> (a = -9223372036854775808 \<and> b = -1)"
  shows "in_range64 (a sdiv b)"
proof (cases "a = -9223372036854775808")
  case False
  with assms(1) abs_sdiv_le [of a b] show ?thesis by (auto simp: in_range64_def)
next
  case True
  have "a sdiv b \<noteq> 9223372036854775808"
  proof
    assume eq: "a sdiv b = 9223372036854775808"
    have "b < 0"
    proof (rule ccontr)
      assume "\<not> b < 0"
      then have "a sdiv b \<le> 0" using True
        by (cases "b = 0") (simp_all add: signed_divide_int_def sgn_if pos_imp_zdiv_nonneg_iff)
      with eq show False by simp
    qed
    with eq True have "9223372036854775808 \<le> 9223372036854775808 div (- b)"
      by (simp add: signed_divide_int_def sgn_if)
    then have "9223372036854775808 * (- b) \<le> 9223372036854775808"
      using \<open>b < 0\<close> le_div_iff_int [of "- b"] by simp
    with \<open>b < 0\<close> have "b = -1" by simp
    with assms(3) True show False by simp
  qed
  with True abs_sdiv_le [of a b] show ?thesis by (auto simp: in_range64_def)
qed

lemma sint_int64_div:
  "\<not> (sint a = -9223372036854775808 \<and> sint b = -1) \<Longrightarrow> sint (int64_div a b) = sint a sdiv sint b"
  by (simp add: int64_div_def sint64_of_int sdiv_in_range64)

lemma sdiv_signs:
  "0 \<le> (a::int) \<Longrightarrow> 0 < b \<Longrightarrow> a sdiv b = a div b"
  "0 \<le> a \<Longrightarrow> 0 < b \<Longrightarrow> (- a) sdiv b = - (a div b)"
  "0 \<le> a \<Longrightarrow> b < 0 \<Longrightarrow> a sdiv b = - (a div (- b))"
  "0 \<le> a \<Longrightarrow> b < 0 \<Longrightarrow> (- a) sdiv b = a div (- b)"
  by (auto simp: signed_divide_int_def sgn_if)

lemma ValidateMultiply_iff:
  "ValidateMultiply a b = (if in_range64 (sint a * sint b) then Some () else None)"
proof -
  let ?N = "9223372036854775808 :: int" and ?M = "9223372036854775807 :: int"
  let ?a = "sint a" and ?b = "sint b"
  note ranges = sint64_range [of a] sint64_range [of b]
  have zero: "(a = 0) = (?a = 0)" "(b = 0) = (?b = 0)"
    by (metis sint64_inject signed_0)+
  have m1: "(a = -1) = (?a = -1)" by (metis sint64_inject signed_minus_1)
  consider "?a = 0 \<or> ?b = 0" | "0 < ?a" "0 < ?b" | "0 < ?a" "?b < 0"
    | "?a = -1" "0 < ?b" | "?a < -1" "0 < ?b" | "?a < 0" "?b < 0" by linarith
  then show ?thesis
  proof cases
    case 1
    then show ?thesis by (auto simp: ValidateMultiply_def zero in_range64_def)
  next
    case 2
    then have "0 \<le> ?a * ?b" by simp
    then have "- ?N \<le> ?a * ?b" by linarith
    moreover have "(?M sdiv ?b < ?a) = (?M < ?a * ?b)"
      using 2 sdiv_signs(1) [of ?M ?b] le_div_iff_int [of ?b ?a ?M] by simp linarith
    ultimately show ?thesis using 2
      by (auto simp: ValidateMultiply_def zero sless_sint sint_int64_div in_range64_def)
  next
    case 3
    then have "?a * ?b \<le> 0" by (simp add: mult_nonneg_nonpos)
    moreover have "(?b < - ?N sdiv ?a) = (?a * ?b < - ?N)"
      using 3 sdiv_signs(2) [of ?N ?a] le_div_iff_int [of ?a "- ?b" ?N] by (simp add: mult.commute) linarith
    ultimately show ?thesis using 3
      by (auto simp: ValidateMultiply_def zero sless_sint sint_int64_div in_range64_def)
  next
    case 4
    have "sint (b - 1) = ?b - 1" using 4 ranges by (subst sint64_diff) (auto simp: in_range64_def)
    with 4 ranges show ?thesis
      by (auto simp: ValidateMultiply_def zero m1 sless_sint in_range64_def)
  next
    case 5
    then have "?a * ?b \<le> 0" by (simp add: mult_nonpos_nonneg)
    moreover have "(- ?N sdiv ?a < ?b) = (?a * ?b < - ?N)"
      using 5 sdiv_signs(4) [of ?N ?a] le_div_iff_int [of "- ?a" ?b ?N] by (simp add: mult.commute) linarith
    ultimately show ?thesis using 5
      by (auto simp: ValidateMultiply_def zero m1 sless_sint sint_int64_div in_range64_def)
  next
    case 6
    then have "0 \<le> ?a * ?b" by (simp add: mult_nonpos_nonpos)
    moreover have "(?b < ?M sdiv ?a) = (?M < ?a * ?b)"
      using 6 sdiv_signs(3) [of ?M ?a] le_div_iff_int [of "- ?a" "- ?b" ?M] by (simp add: mult.commute) linarith
    ultimately show ?thesis using 6
      by (auto simp: ValidateMultiply_def zero sless_sint sint_int64_div in_range64_def)
  qed
qed

lemma StrongInt_multiply_exact: "StrongInt_multiply a b = exact64 (sint a * sint b)"
proof (cases "in_range64 (sint a * sint b)")
  case True
  then have "exact64 (sint a * sint b) = Some (a * b)" by (simp add: exact64_Some sint64_mult)
  with True show ?thesis by (simp add: StrongInt_multiply_def ValidateMultiply_iff)
qed (simp add: StrongInt_multiply_def ValidateMultiply_iff exact64_def)

lemma kint64min_iff: "a = kint64min \<longleftrightarrow> sint a = -9223372036854775808"
  by (metis sint64_inject sint_kint64(1))

lemma minus1_iff: "(a :: int64) = -1 \<longleftrightarrow> sint a = -1"
  by (metis sint64_inject signed_minus_1)

lemma zero_iff: "(a :: int64) = 0 \<longleftrightarrow> sint a = 0"
  by (metis sint64_inject signed_0)

lemma sdiv_min_minus1: "(- 9223372036854775808 :: int) sdiv -1 = 9223372036854775808"
  by (simp add: signed_divide_int_def)

lemma StrongInt_divide_exact:
  "StrongInt_divide a b = (if sint b = 0 then None else exact64 (sint a sdiv sint b))"
proof (cases "sint a = -9223372036854775808 \<and> sint b = -1")
  case True
  then show ?thesis
    by (simp add: StrongInt_divide_def ValidateDivide_def kint64min_iff minus1_iff zero_iff
        exact64_def sdiv_min_minus1 in_range64_def)
next
  case False
  then have "exact64 (sint a sdiv sint b) = Some (int64_div a b)"
    by (simp add: exact64_Some sint_int64_div)
  with False show ?thesis
    by (auto simp: StrongInt_divide_def ValidateDivide_def kint64min_iff minus1_iff zero_iff)
qed

lemma StrongInt_modulo_exact:
  "StrongInt_modulo a b =
     (if sint b = 0 \<or> (sint a = -9223372036854775808 \<and> sint b = -1) then None
      else exact64 (sint a smod sint b))"
proof (cases "sint b = 0 \<or> (sint a = -9223372036854775808 \<and> sint b = -1)")
  case True
  then show ?thesis
    by (auto simp: StrongInt_modulo_def ValidateModulo_def kint64min_iff minus1_iff zero_iff)
next
  case False
  then have "in_range64 (sint a smod sint b)"
    using smod_int_range [of "sint b" "sint a"] sint64_range [of b] by (auto simp: in_range64_def)
  then have "exact64 (sint a smod sint b) = Some (int64_mod a b)"
    by (simp add: exact64_def int64_mod_def)
  with False show ?thesis
    by (auto simp: StrongInt_modulo_def ValidateModulo_def kint64min_iff minus1_iff zero_iff)
qed

lemma uint_eq_sint: "0 \<le> sint (n::int64) \<Longrightarrow> uint n = sint n"
proof -
  assume "0 \<le> sint n"
  have "uint n = sint n mod 18446744073709551616"
    using uint_word_of_int [of "sint n", where ?'a = 64] by simp
  also have "\<dots> = sint n" using \<open>0 \<le> sint n\<close> sint64_range [of n] by simp
  finally show ?thesis .
qed

lemma StrongInt_shift_left_exact:
  "StrongInt_shift_left a n =
     (if sint a < 0 \<or> sint n < 0 \<or> 64 \<le> sint n then None
      else exact64 (sint a * 2 ^ nat (sint n)))"
proof (cases "sint a < 0 \<or> sint n < 0 \<or> 64 \<le> sint n")
  case True
  then show ?thesis
    by (auto simp: StrongInt_shift_left_def ValidateLeftShift_def sless_sint uint_eq_sint)
next
  case False
  let ?k = "nat (sint n)"
  have "sint (signed_drop_bit ?k kint64max) = 9223372036854775807 div 2 ^ ?k"
    by (simp add: sint_signed_drop_bit_eq drop_bit_eq_div)
  moreover have "(9223372036854775807 div 2 ^ ?k < sint a) = (9223372036854775807 < sint a * 2 ^ ?k)"
    using le_div_iff_int [of "2 ^ ?k" "sint a" 9223372036854775807] by auto
  moreover have "-9223372036854775808 \<le> sint a * 2 ^ ?k"
    using False by (intro order_trans [OF _ mult_nonneg_nonneg]) auto
  moreover have "push_bit ?k a = word_of_int (sint a * 2 ^ ?k)"
    by (simp add: push_bit_eq_mult)
  ultimately show ?thesis using False
    by (auto simp: StrongInt_shift_left_def ValidateLeftShift_def sless_sint uint_eq_sint
        exact64_def in_range64_def)
qed

lemma StrongInt_shift_right_exact:
  "StrongInt_shift_right a n =
     (if sint a < 0 \<or> sint n < 0 \<or> 64 \<le> sint n then None
      else exact64 (sint a div 2 ^ nat (sint n)))"
proof -
  have "exact64 (sint a div 2 ^ k) = Some (signed_drop_bit k a)" for k
    by (simp add: exact64_Some sint_signed_drop_bit_eq drop_bit_eq_div)
  then show ?thesis
    by (auto simp: StrongInt_shift_right_def ValidateRightShift_def sless_sint uint_eq_sint)
qed

lemmas StrongInt_exact =
  StrongInt_init_exact StrongInt_uminus_exact StrongInt_add_exact StrongInt_subtract_exact
  StrongInt_multiply_exact StrongInt_divide_exact StrongInt_modulo_exact
  StrongInt_shift_left_exact StrongInt_shift_right_exact

end
