(* ===== verification/Timestamp.thy ===== *)
theory Timestamp
  imports SafeInt
begin

section \<open>Timestamps\<close>

text \<open>
  \<open>timestamp.h\<close> and \<open>timestamp.cc\<close>: a timestamp wraps a checked \<open>int64\<close>; eight special
  values stand at the two ends of the range. The type is a linear order with a least and a
  greatest element, as the comparison operators of the class make it. An operation whose
  source contains a \<open>CHECK\<close>, or that uses checked arithmetic, returns an option.
  The doubles of \<open>Seconds\<close> and \<open>FromSeconds\<close> are not modelled.
\<close>

datatype timestamp = Timestamp_of (timestamp_value: int64)

datatype timestamp_diff = TimestampDiff (diff_value: int64)

abbreviation tv :: "timestamp \<Rightarrow> int" where "tv t \<equiv> sint (timestamp_value t)"

abbreviation dv :: "timestamp_diff \<Rightarrow> int" where "dv d \<equiv> sint (diff_value d)"

lemma timestamp_eq_iff: "a = b \<longleftrightarrow> tv a = tv b"
  by (cases a; cases b) simp

instantiation timestamp :: linorder
begin

definition less_eq_timestamp :: "timestamp \<Rightarrow> timestamp \<Rightarrow> bool" where
  "less_eq_timestamp a b = (timestamp_value a \<le>s timestamp_value b)"

definition less_timestamp :: "timestamp \<Rightarrow> timestamp \<Rightarrow> bool" where
  "less_timestamp a b = (timestamp_value a <s timestamp_value b)"

instance
  by standard
    (auto simp: less_eq_timestamp_def less_timestamp_def word_sle_eq word_sless_alt timestamp_eq_iff)

end

lemma timestamp_le_iff: "a \<le> b \<longleftrightarrow> tv a \<le> tv b"
  by (simp add: less_eq_timestamp_def word_sle_eq)

lemma timestamp_less_iff: "a < b \<longleftrightarrow> tv a < tv b"
  by (simp add: less_timestamp_def word_sless_alt)

subsection \<open>Construction and special values\<close>

definition CreateNoErrorChecking :: "int64 \<Rightarrow> timestamp" where
  "CreateNoErrorChecking v = Timestamp_of v"

definition Timestamp_Unset :: timestamp where
  "Timestamp_Unset = Timestamp_of kint64min"

definition Timestamp_Unstarted :: timestamp where
  "Timestamp_Unstarted = CreateNoErrorChecking (kint64min + 1)"

definition Timestamp_PreStream :: timestamp where
  "Timestamp_PreStream = CreateNoErrorChecking (kint64min + 2)"

definition Timestamp_Min :: timestamp where
  "Timestamp_Min = CreateNoErrorChecking (kint64min + 3)"

definition Timestamp_Max :: timestamp where
  "Timestamp_Max = CreateNoErrorChecking (kint64max - 3)"

definition Timestamp_PostStream :: timestamp where
  "Timestamp_PostStream = CreateNoErrorChecking (kint64max - 2)"

definition Timestamp_OneOverPostStream :: timestamp where
  "Timestamp_OneOverPostStream = CreateNoErrorChecking (kint64max - 1)"

definition Timestamp_Done :: timestamp where
  "Timestamp_Done = CreateNoErrorChecking kint64max"

definition IsSpecialValue :: "timestamp \<Rightarrow> bool" where
  "IsSpecialValue t \<longleftrightarrow> t \<le> Timestamp_Min \<or> Timestamp_Max \<le> t"

definition IsRangeValue :: "timestamp \<Rightarrow> bool" where
  "IsRangeValue t \<longleftrightarrow> Timestamp_Min \<le> t \<and> t \<le> Timestamp_Max"

definition IsAllowedInStream :: "timestamp \<Rightarrow> bool" where
  "IsAllowedInStream t \<longleftrightarrow> Timestamp_PreStream \<le> t \<and> t \<le> Timestamp_PostStream"

text \<open>The public constructor: it refuses a special value.\<close>

definition make_Timestamp :: "int64 \<Rightarrow> timestamp option" where
  "make_Timestamp v =
     do { check (\<not> IsSpecialValue (Timestamp_of v)); Some (Timestamp_of v) }"

lemma tv_special [simp]:
  "tv Timestamp_Unset = -9223372036854775808"
  "tv Timestamp_Unstarted = -9223372036854775807"
  "tv Timestamp_PreStream = -9223372036854775806"
  "tv Timestamp_Min = -9223372036854775805"
  "tv Timestamp_Max = 9223372036854775804"
  "tv Timestamp_PostStream = 9223372036854775805"
  "tv Timestamp_OneOverPostStream = 9223372036854775806"
  "tv Timestamp_Done = 9223372036854775807"
  by (simp_all add: Timestamp_Unset_def Timestamp_Unstarted_def Timestamp_PreStream_def
      Timestamp_Min_def Timestamp_Max_def Timestamp_PostStream_def
      Timestamp_OneOverPostStream_def Timestamp_Done_def CreateNoErrorChecking_def
      kint64min_def kint64max_def)

lemma tv_CreateNoErrorChecking [simp]: "tv (CreateNoErrorChecking v) = sint v"
  by (simp add: CreateNoErrorChecking_def)

lemma tv_range: "-9223372036854775808 \<le> tv t" "tv t \<le> 9223372036854775807"
  by (rule sint64_range)+

text \<open>The facts that reduce a question about timestamps to integers.\<close>

lemmas ts_iff = timestamp_eq_iff timestamp_le_iff timestamp_less_iff
  IsSpecialValue_def IsRangeValue_def IsAllowedInStream_def

lemma Unset_least [simp]: "Timestamp_Unset \<le> t"
  using tv_range [of t] by (simp add: ts_iff)

lemma Done_greatest [simp]: "t \<le> Timestamp_Done"
  using tv_range [of t] by (simp add: ts_iff)

lemma not_less_Unset [simp]: "\<not> t < Timestamp_Unset"
  by (simp add: not_less)

lemma not_Done_less [simp]: "\<not> Timestamp_Done < t"
  by (simp add: not_less)

lemma Done_le_iff [simp]: "Timestamp_Done \<le> t \<longleftrightarrow> t = Timestamp_Done"
  by (auto intro: antisym)

instantiation timestamp :: "{order_bot, order_top}"
begin

definition bot_timestamp :: timestamp where "bot_timestamp = Timestamp_Unset"

definition top_timestamp :: timestamp where "top_timestamp = Timestamp_Done"

instance
  by standard (simp_all add: bot_timestamp_def top_timestamp_def)

end

subsection \<open>Arithmetic\<close>

definition ts_minus :: "timestamp \<Rightarrow> timestamp \<Rightarrow> timestamp_diff option" where
  "ts_minus a b = do {
     check (IsRangeValue a \<and> IsRangeValue b);
     v \<leftarrow> StrongInt_subtract (timestamp_value a) (timestamp_value b);
     Some (TimestampDiff v) }"

definition diff_plus :: "timestamp_diff \<Rightarrow> timestamp_diff \<Rightarrow> timestamp_diff option" where
  "diff_plus a b = map_option TimestampDiff (StrongInt_add (diff_value a) (diff_value b))"

definition diff_minus :: "timestamp_diff \<Rightarrow> timestamp_diff \<Rightarrow> timestamp_diff option" where
  "diff_minus a b = map_option TimestampDiff (StrongInt_subtract (diff_value a) (diff_value b))"

definition diff_uminus :: "timestamp_diff \<Rightarrow> timestamp_diff option" where
  "diff_uminus a = map_option TimestampDiff (StrongInt_uminus (diff_value a))"

definition ts_plus :: "timestamp \<Rightarrow> timestamp_diff \<Rightarrow> timestamp option" where
  "ts_plus t d = do {
     check (IsRangeValue t);
     offset_base \<leftarrow> StrongInt_init (sint (diff_value d));
     if 0 \<le>s offset_base \<and>
        (timestamp_value Timestamp_Max - offset_base) \<le>s timestamp_value t
     then Some Timestamp_Max
     else if offset_base \<le>s 0 \<and>
        timestamp_value t \<le>s (timestamp_value Timestamp_Min - offset_base)
     then Some Timestamp_Min
     else do {
       v \<leftarrow> StrongInt_add (timestamp_value t) offset_base;
       make_Timestamp v } }"

definition ts_minus_diff :: "timestamp \<Rightarrow> timestamp_diff \<Rightarrow> timestamp option" where
  "ts_minus_diff t d = do { nd \<leftarrow> diff_uminus d; ts_plus t nd }"

definition NextAllowedInStream_checked :: "timestamp \<Rightarrow> timestamp option" where
  "NextAllowedInStream_checked t =
     (if Timestamp_Max \<le> t \<or> t = Timestamp_PreStream then Some Timestamp_OneOverPostStream
      else if t < Timestamp_Min then Some Timestamp_Min
      else ts_plus t (TimestampDiff 1))"

definition PreviousAllowedInStream_checked :: "timestamp \<Rightarrow> timestamp option" where
  "PreviousAllowedInStream_checked t =
     (if t \<le> Timestamp_Min \<or> t = Timestamp_PostStream then Some Timestamp_Unstarted
      else if Timestamp_Max < t then Some Timestamp_Max
      else ts_minus_diff t (TimestampDiff 1))"

text \<open>
  The two stepping functions never abort (below), so the other components use them as total
  functions.
\<close>

definition NextAllowedInStream :: "timestamp \<Rightarrow> timestamp" where
  "NextAllowedInStream t = the (NextAllowedInStream_checked t)"

definition PreviousAllowedInStream :: "timestamp \<Rightarrow> timestamp" where
  "PreviousAllowedInStream t = the (PreviousAllowedInStream_checked t)"

text \<open>\<open>StrCat\<close> stands for the decimal printer \<open>absl::StrCat\<close>.\<close>

definition DebugString :: "(int64 \<Rightarrow> string) \<Rightarrow> timestamp \<Rightarrow> string option" where
  "DebugString StrCat t =
     (if IsSpecialValue t then
        (if t = Timestamp_Unset then Some ''Timestamp::Unset()''
         else if t = Timestamp_Unstarted then Some ''Timestamp::Unstarted()''
         else if t = Timestamp_PreStream then Some ''Timestamp::PreStream()''
         else if t = Timestamp_Min then Some ''Timestamp::Min()''
         else if t = Timestamp_Max then Some ''Timestamp::Max()''
         else if t = Timestamp_PostStream then Some ''Timestamp::PostStream()''
         else if t = Timestamp_OneOverPostStream then Some ''Timestamp::OneOverPostStream()''
         else if t = Timestamp_Done then Some ''Timestamp::Done()''
         else None)
      else Some (StrCat (timestamp_value t)))"

subsection \<open>What the arithmetic computes\<close>

text \<open>The clamped sum on the integers that \<open>ts_plus\<close> is meant to compute.\<close>

definition clamped_sum :: "timestamp \<Rightarrow> timestamp_diff \<Rightarrow> int" where
  "clamped_sum t d = max (tv Timestamp_Min) (min (tv Timestamp_Max) (tv t + dv d))"

lemma exact64_sint [simp]: "exact64 (sint a) = Some a"
  by (simp add: exact64_Some)

lemma ts_plus_clamps:
  assumes "IsRangeValue t"
  shows "ts_plus t d = Some (Timestamp_of (word_of_int (clamped_sum t d)))"
proof -
  have r: "-9223372036854775805 \<le> tv t" "tv t \<le> 9223372036854775804"
    using assms by (simp_all add: ts_iff)
  note d = sint64_range [of "diff_value d"]
  have hi: "0 \<le> dv d \<Longrightarrow> sint (timestamp_value Timestamp_Max - diff_value d) = 9223372036854775804 - dv d"
    using d by (subst sint64_diff) (auto simp: in_range64_def)
  have lo: "dv d \<le> 0 \<Longrightarrow> sint (timestamp_value Timestamp_Min - diff_value d) = -9223372036854775805 - dv d"
    using d by (subst sint64_diff) (auto simp: in_range64_def)
  have of_tv: "word_of_int (tv t) = timestamp_value t" for t by simp
  consider (up) "0 \<le> dv d" "9223372036854775804 \<le> tv t + dv d"
    | (down) "dv d \<le> 0" "tv t + dv d \<le> -9223372036854775805"
    | (mid) "tv t + dv d < 9223372036854775804" "-9223372036854775805 < tv t + dv d"
    using r by linarith
  then show ?thesis
  proof cases
    case up
    then have "clamped_sum t d = tv Timestamp_Max" by (simp add: clamped_sum_def)
    then show ?thesis using up assms
      by (simp only: of_tv timestamp.collapse)
        (simp add: ts_plus_def StrongInt_init_exact word_sle_eq hi)
  next
    case down
    then have "clamped_sum t d = tv Timestamp_Min" by (simp add: clamped_sum_def)
    then show ?thesis using down assms r
      by (simp only: of_tv timestamp.collapse)
        (auto simp add: ts_plus_def StrongInt_init_exact word_sle_eq hi lo)
  next
    case mid
    then have c: "clamped_sum t d = tv t + dv d" by (simp add: clamped_sum_def)
    have "exact64 (tv t + dv d) = Some (word_of_int (tv t + dv d))"
      using mid by (simp add: exact64_def in_range64_def)
    moreover have "sint (word_of_int (tv t + dv d) :: int64) = tv t + dv d"
      using mid by (intro sint64_of_int) (simp add: in_range64_def)
    ultimately show ?thesis unfolding c using mid assms
      by (auto simp: ts_plus_def StrongInt_init_exact word_sle_eq hi lo StrongInt_add_exact
          make_Timestamp_def ts_iff simp del: of_int_add)
  qed
qed

lemma clamped_sum_bounds: "tv Timestamp_Min \<le> clamped_sum t d" "clamped_sum t d \<le> tv Timestamp_Max"
  by (simp_all add: clamped_sum_def)

lemma tv_clamped: "tv (Timestamp_of (word_of_int (clamped_sum t d))) = clamped_sum t d"
  using clamped_sum_bounds [of t d] by (simp add: sint64_of_int in_range64_def)

lemma NextAllowedInStream_checked_Some:
  "NextAllowedInStream_checked t = Some (NextAllowedInStream t)"
  by (auto simp: NextAllowedInStream_def NextAllowedInStream_checked_def ts_plus_clamps
      IsRangeValue_def not_le not_less)

lemma ts_plus_1:
  "IsRangeValue t \<Longrightarrow> t < Timestamp_Max \<Longrightarrow>
     \<exists>r. ts_plus t (TimestampDiff 1) = Some r \<and> tv r = tv t + 1"
proof -
  assume t: "IsRangeValue t" "t < Timestamp_Max"
  then have "clamped_sum t (TimestampDiff 1) = tv t + 1" by (simp add: clamped_sum_def ts_iff)
  with t show ?thesis
    using tv_clamped [of t "TimestampDiff 1"] ts_plus_clamps [of t "TimestampDiff 1"] by metis
qed

lemma tv_NextAllowedInStream:
  "tv (NextAllowedInStream t) =
     (if Timestamp_Max \<le> t \<or> t = Timestamp_PreStream then tv Timestamp_OneOverPostStream
      else if t < Timestamp_Min then tv Timestamp_Min else tv t + 1)"
  using ts_plus_1 [of t]
  by (auto simp: NextAllowedInStream_def NextAllowedInStream_checked_def
      IsRangeValue_def not_le not_less less_imp_le)

lemma ts_minus_1:
  "IsRangeValue t \<Longrightarrow> Timestamp_Min < t \<Longrightarrow>
     \<exists>r. ts_minus_diff t (TimestampDiff 1) = Some r \<and> tv r = tv t - 1"
proof -
  assume t: "IsRangeValue t" "Timestamp_Min < t"
  have "StrongInt_uminus 1 = Some (-1)"
    by (simp add: StrongInt_uminus_exact exact64_Some)
  then have "ts_minus_diff t (TimestampDiff 1) = ts_plus t (TimestampDiff (-1))"
    by (simp add: ts_minus_diff_def diff_uminus_def)
  moreover have "clamped_sum t (TimestampDiff (-1)) = tv t - 1"
    using t by (simp add: clamped_sum_def ts_iff)
  ultimately show ?thesis
    using t tv_clamped [of t "TimestampDiff (-1)"] ts_plus_clamps [of t "TimestampDiff (-1)"] by metis
qed

lemma PreviousAllowedInStream_checked_Some:
  "PreviousAllowedInStream_checked t = Some (PreviousAllowedInStream t)"
  using ts_minus_1 [of t]
  by (auto simp: PreviousAllowedInStream_def PreviousAllowedInStream_checked_def
      IsRangeValue_def not_le not_less less_imp_le)

lemma tv_PreviousAllowedInStream:
  "tv (PreviousAllowedInStream t) =
     (if t \<le> Timestamp_Min \<or> t = Timestamp_PostStream then tv Timestamp_Unstarted
      else if Timestamp_Max < t then tv Timestamp_Max else tv t - 1)"
  using ts_minus_1 [of t]
  by (auto simp: PreviousAllowedInStream_def PreviousAllowedInStream_checked_def
      IsRangeValue_def not_le not_less less_imp_le)

lemmas ts_step_iff = tv_NextAllowedInStream tv_PreviousAllowedInStream

text \<open>The order facts about the two steps that the streams rely on.\<close>

lemma Next_greater: "t < Timestamp_OneOverPostStream \<Longrightarrow> t < NextAllowedInStream t"
  by (auto simp: ts_iff ts_step_iff)

lemma Next_greater_allowed: "IsAllowedInStream t \<Longrightarrow> t < NextAllowedInStream t"
  by (rule Next_greater) (simp add: ts_iff)

lemma Next_le_OneOver: "NextAllowedInStream t \<le> Timestamp_OneOverPostStream"
  using tv_range [of t] by (auto simp: ts_iff ts_step_iff)

lemma Next_not_Done [simp]: "NextAllowedInStream t \<noteq> Timestamp_Done"
  using Next_le_OneOver [of t] by (auto simp: ts_iff)

lemma Min_le_Next: "Timestamp_Min \<le> NextAllowedInStream t"
  by (auto simp: ts_iff ts_step_iff)

lemma Previous_le_Max: "PreviousAllowedInStream t \<le> Timestamp_Max"
  by (auto simp: ts_iff ts_step_iff)

lemma Previous_less: "Timestamp_Unstarted < t \<Longrightarrow> PreviousAllowedInStream t < t"
  by (auto simp: ts_iff ts_step_iff)

lemma le_Previous_iff:
  "IsRangeValue t \<Longrightarrow> b \<noteq> Timestamp_PostStream \<Longrightarrow> t \<le> PreviousAllowedInStream b \<longleftrightarrow> t < b"
  by (auto simp: ts_iff ts_step_iff)

lemma Next_le_iff: "IsRangeValue t \<Longrightarrow> IsRangeValue u \<Longrightarrow> NextAllowedInStream t \<le> u \<longleftrightarrow> t < u"
  by (auto simp: ts_iff ts_step_iff)

lemma Previous_Next: "IsRangeValue t \<Longrightarrow> PreviousAllowedInStream (NextAllowedInStream t) = t"
  by (auto simp: ts_iff ts_step_iff)

lemma Next_Previous: "IsRangeValue t \<Longrightarrow> NextAllowedInStream (PreviousAllowedInStream t) = t"
  by (auto simp: ts_iff ts_step_iff)

lemma IsRangeValue_allowed: "IsRangeValue t \<Longrightarrow> IsAllowedInStream t"
  by (simp add: ts_iff)

lemma allowed_cases:
  assumes "IsAllowedInStream t"
  obtains "t = Timestamp_PreStream" | "IsRangeValue t" | "t = Timestamp_PostStream"
  using assms by (force simp: ts_iff)

subsection \<open>Properties\<close>

lemma safe_int_exact_parts:
  "StrongInt_init v = exact64 v"
  "StrongInt_uminus a = exact64 (- sint a)"
  "StrongInt_add a b = exact64 (sint a + sint b)"
  "StrongInt_subtract a b = exact64 (sint a - sint b)"
  "StrongInt_multiply a b = exact64 (sint a * sint b)"
  "StrongInt_divide a b = (if sint b = 0 then None else exact64 (sint a sdiv sint b))"
  "StrongInt_shift_left a n =
     (if sint a < 0 \<or> sint n < 0 \<or> 64 \<le> sint n then None
      else exact64 (sint a * 2 ^ nat (sint n)))"
  by (rule StrongInt_exact)+


lemma timestamp_plus_clamped_parts:
  "ts_plus t d =
     (if IsRangeValue t then Some (Timestamp_of (word_of_int (clamped_sum t d))) else None)"
  "tv (Timestamp_of (word_of_int (clamped_sum t d))) = clamped_sum t d"
  by (simp_all add: ts_plus_clamps tv_clamped del: timestamp.sel) (simp add: ts_plus_def)

text \<open>
  \<open>Timestamp::operator+\<close> aborts exactly on a timestamp outside \<open>[Min, Max]\<close>; otherwise
  it returns the mathematical sum clamped into that range, whatever the offset. No
  intermediate \<open>int64\<close> expression of it overflows and its inner constructor never refuses.
\<close>
theorem timestamp_plus_clamped:
  "ts_plus t d =
     (if IsRangeValue t then Some (Timestamp_of (word_of_int (clamped_sum t d))) else None) \<and>
   tv (Timestamp_of (word_of_int (clamped_sum t d))) = clamped_sum t d"
  using timestamp_plus_clamped_parts by blast

lemma next_previous_roundtrip_parts:
  assumes "IsRangeValue t"
  shows "NextAllowedInStream_checked u = Some (NextAllowedInStream u)"
    and "PreviousAllowedInStream_checked u = Some (PreviousAllowedInStream u)"
    and "PreviousAllowedInStream (NextAllowedInStream t) = t"
    and "NextAllowedInStream (PreviousAllowedInStream t) = t"
  using assms
  by (simp_all add: NextAllowedInStream_checked_Some PreviousAllowedInStream_checked_Some
      Previous_Next Next_Previous)

text \<open>
  Stepping to the next and to the previous timestamp allowed in a stream never aborts,
  on any of the \<open>2^64\<close> values, and the two are inverse to each other on every range value
  (through \<open>OneOverPostStream\<close> at the top and \<open>Unstarted\<close> at the bottom).
\<close>
theorem next_previous_roundtrip:
  assumes "IsRangeValue t"
  shows "NextAllowedInStream_checked u = Some (NextAllowedInStream u) \<and>
    PreviousAllowedInStream_checked u = Some (PreviousAllowedInStream u) \<and>
    PreviousAllowedInStream (NextAllowedInStream t) = t \<and>
    NextAllowedInStream (PreviousAllowedInStream t) = t"
  using next_previous_roundtrip_parts [OF assms] by blast

theorem next_previous_roundtrip_witness:
  "IsRangeValue Timestamp_Max \<and>
   PreviousAllowedInStream (NextAllowedInStream Timestamp_Max) = Timestamp_Max"
proof -
  have "IsRangeValue Timestamp_Max" by (simp add: ts_iff)
  with next_previous_roundtrip [OF this] show ?thesis by blast
qed

lemma debug_string_total_parts:
  "DebugString StrCat t \<noteq> None"
  "IsSpecialValue t \<longleftrightarrow>
     t \<in> {Timestamp_Unset, Timestamp_Unstarted, Timestamp_PreStream, Timestamp_Min,
          Timestamp_Max, Timestamp_PostStream, Timestamp_OneOverPostStream, Timestamp_Done}"
  using tv_range [of t] by (auto simp: DebugString_def ts_iff)

text \<open>
  \<open>DebugString\<close> never reaches its \<open>LOG(FATAL)\<close>: the special values are exactly the
  eight named ones, and every other value is printed as its number.
\<close>
theorem debug_string_total:
  "DebugString StrCat t \<noteq> None \<and>
   (IsSpecialValue t \<longleftrightarrow>
     t \<in> {Timestamp_Unset, Timestamp_Unstarted, Timestamp_PreStream, Timestamp_Min,
          Timestamp_Max, Timestamp_PostStream, Timestamp_OneOverPostStream, Timestamp_Done})"
  using debug_string_total_parts by blast

end
