(* ===== verification/Packet.thy ===== *)
theory Packet
  imports Timestamp
begin

section \<open>Packets and packet types\<close>

text \<open>
  \<open>packet.h\<close>, \<open>packet.cc\<close>: a packet is a shared holder (its type and its data, or nothing)
  and a timestamp. \<open>packet_type.h\<close>, \<open>packet_type.cc\<close>: a packet type is one of the
  alternatives of the variant \<open>TypeSpec\<close>. A type may be declared the same as another one:
  the objects refer to each other by address, so they live in a store, and following the
  links is a loop of the source that need not end for every store; here it is a
  \<^theory_text>\<open>partial_function\<close> whose \<open>None\<close> is "does not return". Type names are not
  modelled.
\<close>

type_synonym type_id = nat

datatype 'a holder = Holder (holder_type: type_id) (holder_data: 'a)

record 'a packet =
  holder :: "'a holder option"
  packet_timestamp :: timestamp

definition Packet_empty :: "'a packet" where
  "Packet_empty = \<lparr>holder = None, packet_timestamp = Timestamp_Unset\<rparr>"

definition packet_At :: "'a packet \<Rightarrow> timestamp \<Rightarrow> 'a packet" where
  "packet_At p t = p\<lparr>packet_timestamp := t\<rparr>"

definition packet_IsEmpty :: "'a packet \<Rightarrow> bool" where
  "packet_IsEmpty p \<longleftrightarrow> holder p = None"

definition GetTypeId :: "'a packet \<Rightarrow> type_id option" where
  "GetTypeId p = map_option holder_type (holder p)"

definition ValidateAsType :: "'a packet \<Rightarrow> type_id \<Rightarrow> status" where
  "ValidateAsType p t =
     (case holder p of
        None \<Rightarrow> ErrorStatus Internal
      | Some h \<Rightarrow> if holder_type h = t then OkStatus else ErrorStatus InvalidArgument)"

lemma Packet_empty_simps [simp]:
  "packet_IsEmpty Packet_empty"
  "packet_timestamp Packet_empty = Timestamp_Unset"
  "packet_timestamp (packet_At p t) = t"
  "holder (packet_At p t) = holder p"
  "packet_IsEmpty (packet_At p t) = packet_IsEmpty p"
  by (simp_all add: Packet_empty_def packet_IsEmpty_def packet_At_def)

subsection \<open>Packet types\<close>

type_synonym addr = nat

datatype type_spec =
    Monostate
  | ExactType type_id
  | MultiType "type_id list"
  | SameAs addr
  | SpecialAny
  | SpecialNone

record packet_type =
  type_spec_field :: type_spec
  optional_field :: bool

type_synonym type_store = "addr \<Rightarrow> packet_type"

definition initial_types :: type_store where
  "initial_types = (\<lambda>_. \<lparr>type_spec_field = Monostate, optional_field = False\<rparr>)"

definition set_spec :: "type_store \<Rightarrow> addr \<Rightarrow> type_spec \<Rightarrow> type_store" where
  "set_spec st p s = st(p := (st p)\<lparr>type_spec_field := s\<rparr>)"

definition SetExact :: "type_store \<Rightarrow> addr \<Rightarrow> type_id \<Rightarrow> type_store" where
  "SetExact st p t = set_spec st p (ExactType t)"

definition SetOneOf :: "type_store \<Rightarrow> addr \<Rightarrow> type_id list \<Rightarrow> type_store" where
  "SetOneOf st p ts = set_spec st p (MultiType ts)"

definition SetAny :: "type_store \<Rightarrow> addr \<Rightarrow> type_store" where
  "SetAny st p = set_spec st p SpecialAny"

definition SetNone :: "type_store \<Rightarrow> addr \<Rightarrow> type_store" where
  "SetNone st p = set_spec st p SpecialNone"

definition SetOptional :: "type_store \<Rightarrow> addr \<Rightarrow> type_store" where
  "SetOptional st p = st(p := (st p)\<lparr>optional_field := True\<rparr>)"

definition SameAsPtr :: "type_store \<Rightarrow> addr \<Rightarrow> addr option" where
  "SameAsPtr st p = (case type_spec_field (st p) of SameAs q \<Rightarrow> Some q | _ \<Rightarrow> None)"

partial_function (option) GetSameAs :: "type_store \<Rightarrow> addr \<Rightarrow> addr option" where
  "GetSameAs st p = (case SameAsPtr st p of None \<Rightarrow> Some p | Some q \<Rightarrow> GetSameAs st q)"

declare GetSameAs.simps [code]

definition SetSameAs :: "type_store \<Rightarrow> addr \<Rightarrow> addr \<Rightarrow> type_store option" where
  "SetSameAs st this type = do {
     same_as \<leftarrow> GetSameAs st type;
     if same_as = this then Some (SetAny st this)
     else Some (set_spec st this (SameAs same_as)) }"

definition IsInitialized :: "type_store \<Rightarrow> addr \<Rightarrow> bool" where
  "IsInitialized st p \<longleftrightarrow> type_spec_field (st p) \<noteq> Monostate"

definition IsAny :: "type_store \<Rightarrow> addr \<Rightarrow> bool" where
  "IsAny st p \<longleftrightarrow> type_spec_field (st p) = SpecialAny"

definition IsNone :: "type_store \<Rightarrow> addr \<Rightarrow> bool" where
  "IsNone st p \<longleftrightarrow> \<not> IsInitialized st p \<or> type_spec_field (st p) = SpecialNone"

fun AcceptAny :: "type_spec \<Rightarrow> status" where
  "AcceptAny _ = OkStatus"

fun AcceptNone :: "type_spec \<Rightarrow> status" where
  "AcceptNone SpecialNone = OkStatus"
| "AcceptNone SpecialAny = OkStatus"
| "AcceptNone _ = ErrorStatus InvalidArgument"

fun accept_fn :: "type_spec \<Rightarrow> (type_spec \<Rightarrow> status) option" where
  "accept_fn SpecialAny = Some AcceptAny"
| "accept_fn SpecialNone = Some AcceptNone"
| "accept_fn _ = None"

definition HaveCommonType :: "type_id list \<Rightarrow> type_id list \<Rightarrow> bool" where
  "HaveCommonType xs ys = list_ex (\<lambda>x. list_ex (\<lambda>y. x = y) ys) xs"

fun GetTypeSpan :: "type_spec \<Rightarrow> type_id list" where
  "GetTypeSpan (ExactType t) = [t]"
| "GetTypeSpan (MultiType ts) = ts"
| "GetTypeSpan _ = []"

text \<open>
  \<open>Validate\<close> on a type that is the same as another one continues at the root of the link
  chain; the recursion is one level deep because the root carries no link.
\<close>

definition Validate_root :: "type_spec \<Rightarrow> 'a packet \<Rightarrow> status" where
  "Validate_root spec p =
     (case spec of
        Monostate \<Rightarrow> ErrorStatus InvalidArgument
      | ExactType t \<Rightarrow> ValidateAsType p t
      | _ \<Rightarrow>
        (case holder p of
           None \<Rightarrow> ErrorStatus InvalidArgument
         | Some h \<Rightarrow>
           (case spec of
              MultiType ts \<Rightarrow>
                if HaveCommonType ts [holder_type h] then OkStatus else ErrorStatus InvalidArgument
            | _ \<Rightarrow>
              (case accept_fn spec of
                 Some f \<Rightarrow> f (ExactType (holder_type h))
               | None \<Rightarrow> OkStatus))))"

definition Validate :: "type_store \<Rightarrow> addr \<Rightarrow> 'a packet \<Rightarrow> status option" where
  "Validate st this p =
     (if \<not> IsInitialized st this then Some (ErrorStatus InvalidArgument)
      else do { r \<leftarrow> GetSameAs st this; Some (Validate_root (type_spec_field (st r)) p) })"

definition IsConsistentWith :: "type_store \<Rightarrow> addr \<Rightarrow> addr \<Rightarrow> bool option" where
  "IsConsistentWith st this other = do {
     r1 \<leftarrow> GetSameAs st this;
     r2 \<leftarrow> GetSameAs st other;
     let s1 = type_spec_field (st r1); s2 = type_spec_field (st r2) in
     if GetTypeSpan s1 \<noteq> [] \<and> GetTypeSpan s2 \<noteq> []
     then Some (HaveCommonType (GetTypeSpan s1) (GetTypeSpan s2))
     else (case accept_fn s1 of
             Some f \<Rightarrow> Some (ok (f s2))
           | None \<Rightarrow> (case accept_fn s2 of Some f \<Rightarrow> Some (ok (f s1)) | None \<Rightarrow> Some False)) }"

subsection \<open>Following the links\<close>

inductive links_to :: "type_store \<Rightarrow> addr \<Rightarrow> addr \<Rightarrow> bool" for st where
  root: "SameAsPtr st p = None \<Longrightarrow> links_to st p p"
| link: "SameAsPtr st p = Some q \<Longrightarrow> links_to st q r \<Longrightarrow> links_to st p r"

inductive_cases links_toE: "links_to st p r"

lemma links_to_GetSameAs: "links_to st p r \<Longrightarrow> GetSameAs st p = Some r"
  by (induction rule: links_to.induct) (simp_all add: GetSameAs.simps)

lemma GetSameAs_links_to:
  assumes "GetSameAs st p = Some r" shows "links_to st p r"
proof (rule GetSameAs.raw_induct [where P = "\<lambda>st p r. links_to st p r", OF _ assms])
  fix f and st :: type_store and p r
  assume IH: "\<And>st p r. f st p = Some r \<Longrightarrow> links_to st p r"
    and eq: "(case SameAsPtr st p of None \<Rightarrow> Some p | Some q \<Rightarrow> f st q) = Some r"
  then show "links_to st p r"
    by (cases "SameAsPtr st p") (auto intro: links_to.intros)
qed

lemma GetSameAs_iff: "GetSameAs st p = Some r \<longleftrightarrow> links_to st p r"
  using links_to_GetSameAs GetSameAs_links_to by blast

lemma links_to_root: "links_to st p r \<Longrightarrow> SameAsPtr st r = None"
  by (induction rule: links_to.induct)

text \<open>The invariant: from every packet type the chain of links reaches a root.\<close>

definition all_resolve :: "type_store \<Rightarrow> bool" where
  "all_resolve st \<longleftrightarrow> (\<forall>p. \<exists>r. links_to st p r)"

lemma SameAsPtr_set_spec:
  "SameAsPtr (set_spec st p s) q =
     (if q = p then (case s of SameAs r \<Rightarrow> Some r | _ \<Rightarrow> None) else SameAsPtr st q)"
  by (simp add: SameAsPtr_def set_spec_def)

lemma links_to_set_root:
  assumes "links_to st p r" and "\<And>q. s \<noteq> SameAs q"
  shows "\<exists>r. links_to (set_spec st x s) p r"
  using assms(1)
proof (induction rule: links_to.induct)
  case (root p)
  then have "SameAsPtr (set_spec st x s) p = None"
    using assms(2) by (auto simp: SameAsPtr_set_spec split: type_spec.splits)
  then show ?case by (blast intro: links_to.root)
next
  case (link p q r)
  show ?case
  proof (cases "p = x")
    case True
    then have "SameAsPtr (set_spec st x s) p = None"
      using assms(2) by (auto simp: SameAsPtr_set_spec split: type_spec.splits)
    then show ?thesis by (blast intro: links_to.root)
  next
    case False
    with link have "SameAsPtr (set_spec st x s) p = Some q" by (simp add: SameAsPtr_set_spec)
    with link.IH show ?thesis by (blast intro: links_to.link)
  qed
qed

lemma links_to_set_link:
  assumes "links_to st p r" and q: "SameAsPtr st q = None" "q \<noteq> x"
  shows "\<exists>r. links_to (set_spec st x (SameAs q)) p r"
proof -
  let ?st = "set_spec st x (SameAs q)"
  have "links_to ?st q q" using q by (intro links_to.root) (simp add: SameAsPtr_set_spec)
  then have x: "links_to ?st x q" by (rule links_to.link [rotated]) (simp add: SameAsPtr_set_spec)
  from assms(1) show ?thesis
  proof (induction rule: links_to.induct)
    case (root p)
    then have "p \<noteq> x \<Longrightarrow> links_to ?st p p"
      by (intro links_to.root) (simp add: SameAsPtr_set_spec)
    with x show ?case by blast
  next
    case (link p q' r)
    then have "p \<noteq> x \<Longrightarrow> SameAsPtr ?st p = Some q'" by (simp add: SameAsPtr_set_spec)
    with link.IH x show ?case by (blast intro: links_to.link)
  qed
qed

lemma all_resolve_set_root: "all_resolve st \<Longrightarrow> (\<And>q. s \<noteq> SameAs q) \<Longrightarrow> all_resolve (set_spec st x s)"
  unfolding all_resolve_def using links_to_set_root by blast

lemma all_resolve_SetSameAs:
  assumes "all_resolve st"
  shows "\<exists>st'. SetSameAs st x y = Some st' \<and> all_resolve st'"
proof -
  obtain r where r: "links_to st y r" using assms by (auto simp: all_resolve_def)
  then have g: "GetSameAs st y = Some r" by (simp add: GetSameAs_iff)
  show ?thesis
  proof (cases "r = x")
    case True
    with g assms show ?thesis by (simp add: SetSameAs_def SetAny_def all_resolve_set_root)
  next
    case False
    have "all_resolve (set_spec st x (SameAs r))"
      using assms links_to_set_link [OF _ links_to_root [OF r] False]
      by (auto simp: all_resolve_def)
    with g False show ?thesis by (simp add: SetSameAs_def)
  qed
qed

text \<open>The stores that the setters of the class can build.\<close>

inductive built_types :: "type_store \<Rightarrow> bool" where
  init: "built_types initial_types"
| exact: "built_types st \<Longrightarrow> built_types (SetExact st p t)"
| one_of: "built_types st \<Longrightarrow> built_types (SetOneOf st p ts)"
| any: "built_types st \<Longrightarrow> built_types (SetAny st p)"
| none: "built_types st \<Longrightarrow> built_types (SetNone st p)"
| optional: "built_types st \<Longrightarrow> built_types (SetOptional st p)"
| same_as: "built_types st \<Longrightarrow> SetSameAs st p q = Some st' \<Longrightarrow> built_types st'"

lemma SameAsPtr_SetOptional: "SameAsPtr (SetOptional st p) = SameAsPtr st"
  by (rule ext) (simp add: SetOptional_def SameAsPtr_def)

lemma links_to_SetOptional: "links_to st p r \<Longrightarrow> links_to (SetOptional st x) p r"
  by (induction rule: links_to.induct) (auto intro: links_to.intros simp: SameAsPtr_SetOptional)

lemma built_types_resolve: "built_types st \<Longrightarrow> all_resolve st"
proof (induction rule: built_types.induct)
  case init
  have "links_to initial_types p p" for p
    by (rule links_to.root) (simp add: SameAsPtr_def initial_types_def)
  then show ?case by (auto simp: all_resolve_def)
next
  case (optional st p)
  then show ?case by (auto simp: all_resolve_def dest: links_to_SetOptional)
next
  case (same_as st p q st')
  then show ?case using all_resolve_SetSameAs [of st p q] by auto
qed (simp_all add: SetExact_def SetOneOf_def SetAny_def SetNone_def all_resolve_set_root)

lemma GetSameAs_total: "built_types st \<Longrightarrow> \<exists>r. GetSameAs st p = Some r"
  using built_types_resolve [of st] by (auto simp: all_resolve_def GetSameAs_iff)

lemma HaveCommonType_iff: "HaveCommonType xs ys \<longleftrightarrow> set xs \<inter> set ys \<noteq> {}"
  by (auto simp: HaveCommonType_def list_ex_iff)

lemma consistent_sym:
  "(case accept_fn s1 of
       Some f \<Rightarrow> ok (f s2)
     | None \<Rightarrow> (case accept_fn s2 of Some f \<Rightarrow> ok (f s1) | None \<Rightarrow> False)) =
   (case accept_fn s2 of
       Some f \<Rightarrow> ok (f s1)
     | None \<Rightarrow> (case accept_fn s1 of Some f \<Rightarrow> ok (f s2) | None \<Rightarrow> False))"
  by (cases s1; cases s2) auto

lemma IsConsistentWith_sym:
  assumes "GetSameAs st p = Some r1" and "GetSameAs st q = Some r2"
  shows "IsConsistentWith st p q = IsConsistentWith st q p"
  using assms consistent_sym [of "type_spec_field (st r1)" "type_spec_field (st r2)"]
  by (auto simp: IsConsistentWith_def Let_def HaveCommonType_iff Int_commute split: option.splits)

subsection \<open>Properties\<close>

lemma packet_type_links_end_parts:
  assumes "built_types st"
  shows "\<exists>r. GetSameAs st p = Some r \<and> SameAsPtr st r = None"
    and "SetSameAs st p q \<noteq> None"
    and "Validate st p pkt \<noteq> None"
    and "IsConsistentWith st p q \<noteq> None"
    and "IsConsistentWith st p q = IsConsistentWith st q p"
proof -
  obtain r1 r2 where r: "GetSameAs st p = Some r1" "GetSameAs st q = Some r2"
    using GetSameAs_total [OF assms] by metis
  show "\<exists>r. GetSameAs st p = Some r \<and> SameAsPtr st r = None"
    using r(1) by (auto simp: GetSameAs_iff dest: links_to_root)
  show "SetSameAs st p q \<noteq> None" using r(2) by (simp add: SetSameAs_def)
  show "Validate st p pkt \<noteq> None" using r(1) by (simp add: Validate_def)
  show "IsConsistentWith st p q = IsConsistentWith st q p" by (rule IsConsistentWith_sym [OF r])
  show "IsConsistentWith st p q \<noteq> None"
    using r by (auto simp: IsConsistentWith_def Let_def split: option.splits)
qed

text \<open>
  However the setters are used, following the "same type as" links ends at a type that
  carries no link: \<open>SetSameAs\<close> breaks every cycle it would close. Hence declaring a type the
  same as another one, \<open>Validate\<close> and \<open>IsConsistentWith\<close> return in every store, and
  consistency of two packet types does not depend on which one is asked.
\<close>
theorem packet_type_links_end:
  assumes "built_types st"
  shows "(\<exists>r. GetSameAs st p = Some r \<and> SameAsPtr st r = None) \<and> SetSameAs st p q \<noteq> None \<and>
    Validate st p pkt \<noteq> None \<and> IsConsistentWith st p q \<noteq> None \<and>
    IsConsistentWith st p q = IsConsistentWith st q p"
  using packet_type_links_end_parts [OF assms] by blast

theorem packet_type_links_end_witness:
  "\<exists>st. built_types st \<and> SameAsPtr st 1 = Some 2 \<and> (\<exists>r. GetSameAs st 1 = Some r)"
proof -
  let ?s0 = "SetExact initial_types 2 7" and ?s1 = "set_spec (SetExact initial_types 2 7) 1 (SameAs 2)"
  have "GetSameAs ?s0 2 = Some 2"
    by (simp add: GetSameAs.simps SameAsPtr_def SetExact_def set_spec_def)
  then have "SetSameAs ?s0 1 2 = Some ?s1" by (simp add: SetSameAs_def)
  then have b: "built_types ?s1"
    by (rule built_types.same_as [OF built_types.exact [OF built_types.init]])
  then show ?thesis using packet_type_links_end [OF b, of 1]
    by (intro exI [of _ ?s1]) (auto simp: SameAsPtr_set_spec)
qed

end
