(* ===== verification/InputStreamManager.thy ===== *)
theory InputStreamManager
  imports Packet
begin

section \<open>The input stream manager\<close>

text \<open>
  \<open>input_stream_manager.h\<close> and \<open>input_stream_manager.cc\<close>: the queue of one input stream,
  its next timestamp bound and its capacity. Each method locks the stream for its whole
  body, so it is one step on the state. The callbacks \<open>becomes_full_callback_\<close> and
  \<open>becomes_not_full_callback_\<close>, which the source invokes after it has released the lock, are
  the list of queue events a method returns. \<open>packet_type\<close> is the \<open>Validate\<close> method of the
  packet type the stream points to. \<open>num_packets_added_\<close> is a natural number: an \<open>int64\<close>
  counter of packets that the source only increments.
\<close>

datatype queue_event = BecameFull | BecameNotFull

record 'a input_stream =
  ism_name :: string
  packet_type :: "'a packet \<Rightarrow> status"
  back_edge :: bool
  queue :: "'a packet list"
  last_reported_stream_full :: bool
  num_packets_added :: nat
  next_timestamp_bound :: timestamp
  last_select_timestamp :: timestamp
  closed :: bool
  ism_header :: "'a packet"
  enable_timestamps :: bool
  max_queue_size :: int32

abbreviation queue_ts :: "'a input_stream \<Rightarrow> timestamp list" where
  "queue_ts s \<equiv> map packet_timestamp (queue s)"

subsection \<open>Operations\<close>

definition ism_PrepareForRun :: "'a input_stream \<Rightarrow> 'a input_stream" where
  "ism_PrepareForRun s = s\<lparr>
     queue := [],
     last_reported_stream_full := False,
     num_packets_added := 0,
     next_timestamp_bound := Timestamp_PreStream,
     last_select_timestamp := Timestamp_Unstarted,
     closed := False,
     ism_header := Packet_empty\<rparr>"

definition ism_Initialize ::
    "'a input_stream \<Rightarrow> string \<Rightarrow> ('a packet \<Rightarrow> status) \<Rightarrow> bool \<Rightarrow> 'a input_stream" where
  "ism_Initialize s name ptype back =
     ism_PrepareForRun (s\<lparr>ism_name := name, packet_type := ptype, back_edge := back\<rparr>)"

definition ism_IsEmpty :: "'a input_stream \<Rightarrow> bool" where
  "ism_IsEmpty s \<longleftrightarrow> queue s = []"

definition ism_QueueHead :: "'a input_stream \<Rightarrow> 'a packet" where
  "ism_QueueHead s = (case queue s of [] \<Rightarrow> Packet_empty | p # _ \<Rightarrow> p)"

definition ism_SetHeader :: "'a input_stream \<Rightarrow> 'a packet \<Rightarrow> 'a input_stream \<times> status" where
  "ism_SetHeader s header =
     (if packet_timestamp header \<noteq> Timestamp_Unset then (s, ErrorStatus InvalidArgument)
      else (s\<lparr>ism_header := header\<rparr>, OkStatus))"

text \<open>
  The comparison of the queue's size (a \<open>size_t\<close>) with \<open>max_queue_size_\<close> (an \<open>int\<close>)
  converts the limit to an unsigned 64-bit value.
\<close>

definition size_limit :: "int32 \<Rightarrow> int" where
  "size_limit m = sint m mod 18446744073709551616"

definition queue_full :: "nat \<Rightarrow> int32 \<Rightarrow> bool" where
  "queue_full n m \<longleftrightarrow> m \<noteq> -1 \<and> size_limit m \<le> int n"

definition ism_IsFull :: "'a input_stream \<Rightarrow> bool" where
  "ism_IsFull s = queue_full (length (queue s)) (max_queue_size s)"

definition ism_IsDone :: "'a input_stream \<Rightarrow> bool" where
  "ism_IsDone s \<longleftrightarrow> queue s = [] \<and> next_timestamp_bound s = Timestamp_Done"

text \<open>The loop over the new packets: it stops at the first one that is refused.\<close>

fun add_packets_loop :: "'a input_stream \<Rightarrow> 'a packet list \<Rightarrow> 'a input_stream \<times> status" where
  "add_packets_loop s [] = (s, OkStatus)"
| "add_packets_loop s (p # ps) =
     (case packet_type s p of
        ErrorStatus c \<Rightarrow> (s, ErrorStatus c)
      | OkStatus \<Rightarrow>
        (let t = packet_timestamp p in
         if \<not> IsAllowedInStream t then (s, ErrorStatus InvalidArgument)
         else if enable_timestamps s \<and> t = Timestamp_PostStream \<and> 0 < num_packets_added s
         then (s, ErrorStatus InvalidArgument)
         else if enable_timestamps s \<and> t < next_timestamp_bound s
         then (s, ErrorStatus InvalidArgument)
         else add_packets_loop
                (s\<lparr>next_timestamp_bound := NextAllowedInStream t,
                   num_packets_added := Suc (num_packets_added s),
                   queue := queue s @ [p]\<rparr>) ps))"

definition AddOrMovePacketsInternal ::
    "'a input_stream \<Rightarrow> 'a packet list \<Rightarrow> 'a input_stream \<times> status \<times> bool \<times> queue_event list" where
  "AddOrMovePacketsInternal s container =
     (if closed s then (s, OkStatus, False, [])
      else
        let was_queue_full = ism_IsFull s;
            queue_became_non_empty = (queue s = [] \<and> container \<noteq> []);
            (s', result) = add_packets_loop s container
        in if \<not> ok result then (s', result, False, [])
           else (s', OkStatus, queue_became_non_empty,
                 if \<not> was_queue_full \<and> ism_IsFull s' then [BecameFull] else []))"

definition SetNextTimestampBound ::
    "'a input_stream \<Rightarrow> timestamp \<Rightarrow> 'a input_stream \<times> status \<times> bool" where
  "SetNextTimestampBound s bound =
     (if closed s then (s, OkStatus, False)
      else if enable_timestamps s \<and> bound < next_timestamp_bound s
      then (s, ErrorStatus Unknown, False)
      else if next_timestamp_bound s < bound
      then (s\<lparr>next_timestamp_bound := bound\<rparr>, OkStatus, queue s = [])
      else (s, OkStatus, False))"

definition DisableTimestamps :: "'a input_stream \<Rightarrow> 'a input_stream" where
  "DisableTimestamps s = s\<lparr>enable_timestamps := False\<rparr>"

definition ism_Close :: "'a input_stream \<Rightarrow> 'a input_stream" where
  "ism_Close s =
     (if closed s then s
      else s\<lparr>next_timestamp_bound := Timestamp_Done,
             last_select_timestamp := Timestamp_Done,
             closed := True\<rparr>)"

definition MinTimestampOrBound :: "'a input_stream \<Rightarrow> timestamp" where
  "MinTimestampOrBound s =
     (case queue s of [] \<Rightarrow> next_timestamp_bound s | p # _ \<Rightarrow> packet_timestamp p)"

text \<open>The loop of \<open>PopPacketAtTimestamp\<close>: the packet popped last, and their number.\<close>

fun pop_loop ::
    "timestamp \<Rightarrow> 'a packet list \<Rightarrow> 'a packet \<Rightarrow> int \<Rightarrow> 'a packet list \<times> 'a packet \<times> int" where
  "pop_loop t [] packet n = ([], packet, n)"
| "pop_loop t (p # ps) packet n =
     (if packet_timestamp p \<le> t then pop_loop t ps p (n + 1) else (p # ps, packet, n))"

definition PopPacketAtTimestamp ::
    "'a input_stream \<Rightarrow> timestamp \<Rightarrow>
     ('a input_stream \<times> 'a packet \<times> int \<times> bool \<times> queue_event list) option" where
  "PopPacketAtTimestamp s t = do {
     check (enable_timestamps s);
     check (last_select_timestamp s \<le> t);
     let bound = (if next_timestamp_bound s \<le> t then NextAllowedInStream t
                  else next_timestamp_bound s);
         was_queue_full = ism_IsFull s;
         (rest, packet, n) = pop_loop t (queue s) Packet_empty (-1);
         current_timestamp = (if rest = queue s then Timestamp_Unset else packet_timestamp packet);
         s' = s\<lparr>last_select_timestamp := t, next_timestamp_bound := bound, queue := rest\<rparr>;
         (packet', n') =
           (if current_timestamp \<noteq> t
            then (packet_At Packet_empty (PreviousAllowedInStream (MinTimestampOrBound s')), n + 1)
            else (packet, n));
         became_non_full =
           (was_queue_full \<and> int (length rest) < size_limit (max_queue_size s))
     in Some (s', packet', n', ism_IsDone s', if became_non_full then [BecameNotFull] else []) }"

definition PopQueueHead ::
    "'a input_stream \<Rightarrow> ('a input_stream \<times> 'a packet \<times> bool \<times> queue_event list) option" where
  "PopQueueHead s = do {
     check (\<not> enable_timestamps s);
     let was_queue_full = ism_IsFull s;
         (packet, rest) = (case queue s of [] \<Rightarrow> (Packet_empty, []) | p # ps \<Rightarrow> (p, ps));
         s' = s\<lparr>queue := rest\<rparr>;
         became_non_full =
           (was_queue_full \<and> int (length rest) < size_limit (max_queue_size s))
     in Some (s', packet, ism_IsDone s', if became_non_full then [BecameNotFull] else []) }"

definition ism_SetMaxQueueSize ::
    "'a input_stream \<Rightarrow> int32 \<Rightarrow> 'a input_stream \<times> queue_event list" where
  "ism_SetMaxQueueSize s m =
     (let was_full = ism_IsFull s;
          s' = s\<lparr>max_queue_size := m\<rparr>;
          is_full = ism_IsFull s'
      in (s', if \<not> was_full \<and> is_full then [BecameFull]
              else if was_full \<and> \<not> is_full then [BecameNotFull] else []))"

text \<open>
  The iterator \<open>cend() - min(n, size)\<close> of a non-empty queue is dereferenced: with \<open>n = 0\<close>
  it is the end iterator, which is undefined behaviour, here \<open>None\<close>. A negative \<open>n\<close> is
  converted to a large unsigned value.
\<close>

definition GetMinTimestampAmongNLatest :: "'a input_stream \<Rightarrow> int \<Rightarrow> timestamp option" where
  "GetMinTimestampAmongNLatest s n =
     (if queue s = [] then Some Timestamp_Unset
      else let k = (if n < 0 then length (queue s) else min (nat n) (length (queue s)))
           in if k = 0 then None
              else Some (packet_timestamp (queue s ! (length (queue s) - k))))"

definition ErasePacketsEarlierThan ::
    "'a input_stream \<Rightarrow> timestamp \<Rightarrow> 'a input_stream \<times> queue_event list" where
  "ErasePacketsEarlierThan s t =
     (let rest = dropWhile (\<lambda>p. packet_timestamp p < t) (queue s);
          became_non_full =
            (ism_IsFull s \<and> int (length rest) < size_limit (max_queue_size s))
      in (s\<lparr>queue := rest\<rparr>, if became_non_full then [BecameNotFull] else []))"

subsection \<open>Construction and runs\<close>

text \<open>A default-constructed stream, initialised: the state in which a run begins.\<close>

definition new_input_stream :: "string \<Rightarrow> ('a packet \<Rightarrow> status) \<Rightarrow> bool \<Rightarrow> 'a input_stream" where
  "new_input_stream name ptype back =
     ism_PrepareForRun \<lparr>ism_name = name, packet_type = ptype, back_edge = back, queue = [],
       last_reported_stream_full = False, num_packets_added = 0,
       next_timestamp_bound = Timestamp_Unset, last_select_timestamp = Timestamp_Unset,
       closed = False, ism_header = Packet_empty, enable_timestamps = True, max_queue_size = -1\<rparr>"

text \<open>
  The methods that change a timed stream, as steps. A step yields the state, the packets it
  delivered to the consumer, the value of \<open>notify\<close> (true where the method has none) and the
  queue events; \<open>None\<close> where the process aborts.
\<close>

datatype 'a stream_op =
    OpAddPackets "'a packet list"
  | OpSetNextTimestampBound timestamp
  | OpClose
  | OpPopPacketAtTimestamp timestamp
  | OpSetMaxQueueSize int32
  | OpErasePacketsEarlierThan timestamp

fun stream_step ::
    "'a stream_op \<Rightarrow> 'a input_stream \<Rightarrow>
     ('a input_stream \<times> 'a packet list \<times> status \<times> bool \<times> queue_event list) option" where
  "stream_step (OpAddPackets ps) s =
     (let (s', r, notify, ev) = AddOrMovePacketsInternal s ps in Some (s', [], r, notify, ev))"
| "stream_step (OpSetNextTimestampBound b) s =
     (let (s', r, notify) = SetNextTimestampBound s b in Some (s', [], r, notify, []))"
| "stream_step OpClose s = Some (ism_Close s, [], OkStatus, True, [])"
| "stream_step (OpPopPacketAtTimestamp t) s = do {
     (s', p, n, done, ev) \<leftarrow> PopPacketAtTimestamp s t;
     Some (s', if packet_IsEmpty p then [] else [p], OkStatus, True, ev) }"
| "stream_step (OpSetMaxQueueSize m) s =
     (let (s', ev) = ism_SetMaxQueueSize s m in Some (s', [], OkStatus, True, ev))"
| "stream_step (OpErasePacketsEarlierThan t) s =
     (let (s', ev) = ErasePacketsEarlierThan s t in Some (s', [], OkStatus, True, ev))"

text \<open>The packets a consumer receives over a sequence of steps, and the final state.\<close>

fun run_stream ::
    "'a stream_op list \<Rightarrow> 'a input_stream \<Rightarrow> ('a input_stream \<times> 'a packet list) option" where
  "run_stream [] s = Some (s, [])"
| "run_stream (op # ops) s = do {
     (s', out, _) \<leftarrow> stream_step op s;
     (s'', outs) \<leftarrow> run_stream ops s';
     Some (s'', out @ outs) }"

end
