(* ===== verification/InputStreamManager_Inv.thy ===== *)
theory InputStreamManager_Inv
  imports InputStreamManager
begin

section \<open>Correctness of the input stream manager\<close>

text \<open>
  The invariant of a stream that uses timestamps, its preservation by every method (also
  on the error paths, where the packets accepted before the error stay queued), the
  functional behaviour of popping at a timestamp, and the monotonicity of the timestamp
  bound that the consumer sees.
\<close>

subsection \<open>Sorted queues\<close>

lemma dropWhile_le_sorted:
  "sorted_wrt (<) (map f xs) \<Longrightarrow> dropWhile (\<lambda>x. f x \<le> (t::'b::linorder)) xs = filter (\<lambda>x. t < f x) xs"
proof (induction xs)
  case (Cons x xs)
  then show ?case
  proof (cases "f x \<le> t")
    case False
    then have "\<forall>y \<in> set xs. t < f y" using Cons.prems by (auto simp: not_le intro: less_trans)
    with False show ?thesis by simp
  qed (simp add: not_less)
qed simp

lemma dropWhile_less_sorted:
  "sorted_wrt (<) (map f xs) \<Longrightarrow> dropWhile (\<lambda>x. f x < (t::'b::linorder)) xs = filter (\<lambda>x. t \<le> f x) xs"
proof (induction xs)
  case (Cons x xs)
  then show ?case
  proof (cases "f x < t")
    case False
    then have "\<forall>y \<in> set xs. t \<le> f y" using Cons.prems by (auto simp: not_less dest: order_le_less_trans)
    with False show ?thesis by simp
  qed (simp add: not_le)
qed simp

lemma takeWhile_le_sorted:
  "sorted_wrt (<) (map f xs) \<Longrightarrow> takeWhile (\<lambda>x. f x \<le> (t::'b::linorder)) xs = filter (\<lambda>x. f x \<le> t) xs"
proof (induction xs)
  case (Cons x xs)
  then show ?case
  proof (cases "f x \<le> t")
    case False
    then have "\<forall>y \<in> set xs. \<not> f y \<le> t" using Cons.prems by (auto simp: not_le intro: less_trans)
    with False show ?thesis by (simp add: filter_empty_conv)
  qed simp
qed simp

lemma pop_loop_eq:
  "pop_loop t q p n =
     (let front = takeWhile (\<lambda>p. packet_timestamp p \<le> t) q in
      (dropWhile (\<lambda>p. packet_timestamp p \<le> t) q,
       if front = [] then p else last front, n + int (length front)))"
  by (induction q arbitrary: p n) (auto simp: Let_def)

lemma last_filter_le_sorted:
  assumes "sorted_wrt (<) (map f xs)" "x \<in> set xs" "f x = (t::'b::linorder)"
  shows "last (filter (\<lambda>y. f y \<le> t) xs) = x"
proof -
  obtain ys zs where xs: "xs = ys @ x # zs" using assms(2) by (auto simp: in_set_conv_decomp)
  have "\<forall>z \<in> set zs. \<not> f z \<le> t" using assms(1,3) by (auto simp: xs sorted_wrt_append not_le)
  then have "filter (\<lambda>y. f y \<le> t) zs = []" by (simp add: filter_empty_conv)
  then show ?thesis using assms(3) by (simp add: xs)
qed

lemma length_filter_le_split:
  assumes "sorted_wrt (<) (map f xs)"
  shows "length (filter (\<lambda>y. f y \<le> (t::'b::linorder)) xs) =
    length (filter (\<lambda>y. f y < t) xs) + (if t \<in> f ` set xs then 1 else 0)"
  using assms
proof (induction xs)
  case (Cons x xs)
  have "f x = t \<Longrightarrow> t \<notin> f ` set xs" using Cons.prems by auto
  then show ?case using Cons by auto
qed simp

subsection \<open>The invariant\<close>

definition timed_inv :: "'a input_stream \<Rightarrow> bool" where
  "timed_inv s \<longleftrightarrow>
     enable_timestamps s \<and>
     sorted_wrt (<) (queue_ts s) \<and>
     (\<forall>p \<in> set (queue s).
        packet_type s p = OkStatus \<and>
        IsAllowedInStream (packet_timestamp p) \<and>
        NextAllowedInStream (packet_timestamp p) \<le> next_timestamp_bound s) \<and>
     (Timestamp_PostStream \<in> set (queue_ts s) \<longrightarrow> num_packets_added s = 1) \<and>
     length (queue s) \<le> num_packets_added s \<and>
     Timestamp_PreStream \<le> next_timestamp_bound s \<and>
     (if closed s then next_timestamp_bound s = Timestamp_Done
      else last_select_timestamp s < MinTimestampOrBound s)"

lemma timed_invD:
  assumes "timed_inv s"
  shows "enable_timestamps s" "sorted_wrt (<) (queue_ts s)"
    "p \<in> set (queue s) \<Longrightarrow> packet_type s p = OkStatus"
    "p \<in> set (queue s) \<Longrightarrow> IsAllowedInStream (packet_timestamp p)"
    "p \<in> set (queue s) \<Longrightarrow> NextAllowedInStream (packet_timestamp p) \<le> next_timestamp_bound s"
    "p \<in> set (queue s) \<Longrightarrow> packet_timestamp p < next_timestamp_bound s"
    "\<not> closed s \<Longrightarrow> last_select_timestamp s < MinTimestampOrBound s"
  using assms by (auto simp: timed_inv_def intro: order_less_le_trans [OF Next_greater_allowed])

lemma MinTimestampOrBound_Nil [simp]: "queue s = [] \<Longrightarrow> MinTimestampOrBound s = next_timestamp_bound s"
  by (simp add: MinTimestampOrBound_def)

lemma MinTimestampOrBound_le_queue:
  "timed_inv s \<Longrightarrow> p \<in> set (queue s) \<Longrightarrow> MinTimestampOrBound s \<le> packet_timestamp p"
  using timed_invD(2) [of s] by (cases "queue s") (auto simp: MinTimestampOrBound_def)

lemma MinTimestampOrBound_le_bound:
  "timed_inv s \<Longrightarrow> MinTimestampOrBound s \<le> next_timestamp_bound s"
  using timed_invD(6) [of s] by (cases "queue s") (auto simp: MinTimestampOrBound_def less_imp_le)

lemma timed_inv_PrepareForRun:
  "enable_timestamps s \<Longrightarrow> timed_inv (ism_PrepareForRun s)"
  by (simp add: timed_inv_def ism_PrepareForRun_def) (simp add: ts_iff)

subsection \<open>Adding packets\<close>

abbreviation enqueue :: "'a input_stream \<Rightarrow> 'a packet \<Rightarrow> 'a input_stream" where
  "enqueue s p \<equiv> s\<lparr>next_timestamp_bound := NextAllowedInStream (packet_timestamp p),
     num_packets_added := Suc (num_packets_added s), queue := queue s @ [p]\<rparr>"

definition accepts :: "'a input_stream \<Rightarrow> 'a packet \<Rightarrow> bool" where
  "accepts s p \<longleftrightarrow>
     packet_type s p = OkStatus \<and> IsAllowedInStream (packet_timestamp p) \<and>
     (packet_timestamp p = Timestamp_PostStream \<longrightarrow> num_packets_added s = 0) \<and>
     next_timestamp_bound s \<le> packet_timestamp p"

lemma MinTimestampOrBound_enqueue:
  "MinTimestampOrBound (enqueue s p) =
     (if queue s = [] then packet_timestamp p else MinTimestampOrBound s)"
  by (cases "queue s") (simp_all add: MinTimestampOrBound_def)

lemma timed_inv_enqueue:
  assumes inv: "timed_inv s" and "\<not> closed s" and acc: "accepts s p"
  shows "timed_inv (enqueue s p)"
proof -
  let ?t = "packet_timestamp p"
  have allowed: "IsAllowedInStream ?t" and bound: "next_timestamp_bound s \<le> ?t"
    using acc by (simp_all add: accepts_def)
  have lt: "q \<in> set (queue s) \<Longrightarrow> packet_timestamp q < ?t" for q
    using timed_invD(6) [OF inv] bound by (blast intro: order_less_le_trans)
  have next_le: "q \<in> set (queue s) \<Longrightarrow> NextAllowedInStream (packet_timestamp q) \<le> NextAllowedInStream ?t" for q
    using timed_invD(5) [OF inv] bound Next_greater_allowed [OF allowed]
    by (blast intro: order_trans less_imp_le)
  have no_post: "Timestamp_PostStream \<notin> set (queue_ts s)"
  proof
    assume "Timestamp_PostStream \<in> set (queue_ts s)"
    then obtain q where "q \<in> set (queue s)" "packet_timestamp q = Timestamp_PostStream" by auto
    then have "Timestamp_PostStream < ?t" using lt [of q] by simp
    with allowed show False by (simp add: IsAllowedInStream_def not_less [symmetric])
  qed
  have empty: "num_packets_added s = 0 \<Longrightarrow> queue s = []"
    using inv by (simp add: timed_inv_def)
  have "last_select_timestamp s < MinTimestampOrBound (enqueue s p)"
    using timed_invD(7) [OF inv assms(2)] bound
    by (auto simp: MinTimestampOrBound_enqueue intro: order_less_le_trans)
  moreover have "Timestamp_PreStream \<le> NextAllowedInStream ?t"
    using Min_le_Next [of ?t] by (simp add: ts_iff)
  moreover have "sorted_wrt (<) (queue_ts (enqueue s p))"
    using timed_invD(2) [OF inv] lt by (simp add: sorted_wrt_append)
  moreover have "\<forall>q \<in> set (queue (enqueue s p)). packet_type s q = OkStatus \<and>
      IsAllowedInStream (packet_timestamp q) \<and> NextAllowedInStream (packet_timestamp q) \<le> NextAllowedInStream ?t"
    using timed_invD(3,4) [OF inv] next_le acc allowed by (simp add: accepts_def)
  moreover have "Timestamp_PostStream \<in> set (queue_ts (enqueue s p)) \<longrightarrow> Suc (num_packets_added s) = 1"
    using no_post acc by (auto simp: accepts_def)
  moreover have "length (queue (enqueue s p)) \<le> Suc (num_packets_added s)"
    using inv by (simp add: timed_inv_def)
  ultimately show ?thesis
    using timed_invD(1) [OF inv] assms(2) by (simp add: timed_inv_def)
qed

declare add_packets_loop.simps(2) [simp del]

lemma add_packets_loop_Cons:
  "enable_timestamps s \<Longrightarrow> add_packets_loop s (p # ps) =
     (if accepts s p then add_packets_loop (enqueue s p) ps
      else (s, if packet_type s p = OkStatus then ErrorStatus InvalidArgument else packet_type s p))"
  by (auto simp: add_packets_loop.simps(2) accepts_def Let_def not_less split: status.splits)

text \<open>What the loop does, on success and on error: it queues a prefix of the packets.\<close>

lemma add_packets_loop_prefix:
  assumes "add_packets_loop s ps = (s', r)" and "timed_inv s" and "\<not> closed s"
  shows "timed_inv s' \<and> \<not> closed s' \<and> packet_type s' = packet_type s \<and>
    (\<exists>k \<le> length ps. queue s' = queue s @ take k ps \<and> num_packets_added s' = num_packets_added s + k \<and>
        (r = OkStatus \<longleftrightarrow> k = length ps)) \<and>
    next_timestamp_bound s \<le> next_timestamp_bound s' \<and>
    MinTimestampOrBound s \<le> MinTimestampOrBound s'"
  using assms
proof (induction ps arbitrary: s)
  case Nil
  then show ?case by auto
next
  case (Cons p ps)
  note inv = Cons.prems(2) and op = Cons.prems(3)
  show ?case
  proof (cases "accepts s p")
    case False
    with Cons.prems timed_invD(1) [OF inv]
    have "s' = s" "r \<noteq> OkStatus" by (auto simp: add_packets_loop_Cons split: if_splits)
    with inv op show ?thesis by (auto intro!: exI [of _ 0])
  next
    case True
    let ?s = "enqueue s p"
    have eq: "add_packets_loop ?s ps = (s', r)"
      using Cons.prems(1) True timed_invD(1) [OF inv] by (simp add: add_packets_loop_Cons)
    have inv': "timed_inv ?s" by (rule timed_inv_enqueue [OF inv op True])
    have IH: "timed_inv s' \<and> \<not> closed s' \<and> packet_type s' = packet_type ?s \<and>
      (\<exists>k \<le> length ps. queue s' = queue ?s @ take k ps \<and> num_packets_added s' = num_packets_added ?s + k \<and>
          (r = OkStatus \<longleftrightarrow> k = length ps)) \<and>
      next_timestamp_bound ?s \<le> next_timestamp_bound s' \<and> MinTimestampOrBound ?s \<le> MinTimestampOrBound s'"
      using Cons.IH [OF eq inv'] op by simp
    then obtain k where k: "k \<le> length ps" "queue s' = queue s @ p # take k ps"
      "num_packets_added s' = num_packets_added s + Suc k" "r = OkStatus \<longleftrightarrow> k = length ps"
      by auto
    have "next_timestamp_bound s \<le> packet_timestamp p" and "IsAllowedInStream (packet_timestamp p)"
      using True by (simp_all add: accepts_def)
    then have b: "next_timestamp_bound s \<le> next_timestamp_bound ?s"
      using Next_greater_allowed by (fastforce intro: order_trans less_imp_le)
    have m: "MinTimestampOrBound s \<le> MinTimestampOrBound ?s"
      using \<open>next_timestamp_bound s \<le> packet_timestamp p\<close>
      by (simp add: MinTimestampOrBound_enqueue)
    show ?thesis using IH k b m by (auto intro!: exI [of _ "Suc k"] intro: order_trans)
  qed
qed


lemma add_packets_loop_stops:
  "add_packets_loop s ps = (s', r) \<Longrightarrow> enable_timestamps s \<Longrightarrow>
   \<exists>k \<le> length ps. queue s' = queue s @ take k ps \<and>
      num_packets_added s' = num_packets_added s + k \<and>
      (r = OkStatus \<longleftrightarrow> k = length ps) \<and>
      (k < length ps \<longrightarrow> \<not> accepts s' (ps ! k)) \<and>
      next_timestamp_bound s' =
        (if k = 0 then next_timestamp_bound s else NextAllowedInStream (packet_timestamp (ps ! (k - 1))))"
proof (induction ps arbitrary: s)
  case (Cons p ps)
  show ?case
  proof (cases "accepts s p")
    case False
    with Cons.prems have "s' = s" "r \<noteq> OkStatus" by (auto simp: add_packets_loop_Cons split: if_splits)
    with False show ?thesis by (auto intro!: exI [of _ 0])
  next
    case True
    with Cons.prems have "add_packets_loop (enqueue s p) ps = (s', r)" by (simp add: add_packets_loop_Cons)
    from Cons.IH [OF this] Cons.prems(2) obtain k where "k \<le> length ps"
      "queue s' = queue s @ p # take k ps" "num_packets_added s' = num_packets_added s + Suc k"
      "r = OkStatus \<longleftrightarrow> k = length ps" "k < length ps \<longrightarrow> \<not> accepts s' (ps ! k)"
      "next_timestamp_bound s' = (if k = 0 then NextAllowedInStream (packet_timestamp p)
         else NextAllowedInStream (packet_timestamp (ps ! (k - 1))))"
      by auto
    then show ?thesis by (intro exI [of _ "Suc k"]) (simp add: nth_Cons')
  qed
qed simp

lemma AddOrMovePacketsInternal_closed [simp]:
  "closed s \<Longrightarrow> AddOrMovePacketsInternal s ps = (s, OkStatus, False, [])"
  by (simp add: AddOrMovePacketsInternal_def)

lemma AddOrMovePacketsInternal_loop:
  assumes "AddOrMovePacketsInternal s ps = (s', r, notify, ev)" "\<not> closed s"
  shows "add_packets_loop s ps = (s', r)"
  using assms by (auto simp: AddOrMovePacketsInternal_def Let_def split: prod.splits if_splits)

lemma timed_inv_AddOrMove:
  assumes "timed_inv s" "AddOrMovePacketsInternal s ps = (s', r, notify, ev)"
  shows "timed_inv s' \<and> MinTimestampOrBound s \<le> MinTimestampOrBound s' \<and> closed s' = closed s"
proof (cases "closed s")
  case False
  then show ?thesis
    using add_packets_loop_prefix [OF AddOrMovePacketsInternal_loop [OF assms(2) False] assms(1) False]
    by simp
qed (use assms in auto)

subsection \<open>The bound, closing and erasing\<close>

lemma timed_inv_SetNextTimestampBound:
  assumes inv: "timed_inv s" and eq: "SetNextTimestampBound s b = (s', r, notify)"
  shows "timed_inv s' \<and> MinTimestampOrBound s \<le> MinTimestampOrBound s' \<and> closed s' = closed s"
proof (cases "\<not> closed s \<and> next_timestamp_bound s < b")
  case True
  then have s': "s' = s\<lparr>next_timestamp_bound := b\<rparr>"
    using eq by (auto simp: SetNextTimestampBound_def split: if_splits)
  have le: "next_timestamp_bound s \<le> b" using True by (simp add: less_imp_le)
  have min: "MinTimestampOrBound s \<le> MinTimestampOrBound s'"
    using le by (cases "queue s") (simp_all add: MinTimestampOrBound_def s')
  then have "last_select_timestamp s < MinTimestampOrBound s'"
    using timed_invD(7) [OF inv] True by (auto intro: order_less_le_trans)
  then have "timed_inv s'"
    using inv True le by (auto simp: timed_inv_def s' intro: order_trans)
  with min show ?thesis by (simp add: s')
next
  case False
  then have "s' = s" using eq by (auto simp: SetNextTimestampBound_def split: if_splits)
  with inv show ?thesis by simp
qed

lemma timed_inv_Close:
  assumes inv: "timed_inv s"
  shows "timed_inv (ism_Close s) \<and> MinTimestampOrBound s \<le> MinTimestampOrBound (ism_Close s)"
proof -
  have "MinTimestampOrBound s \<le> MinTimestampOrBound (ism_Close s)"
    by (cases "queue s") (simp_all add: MinTimestampOrBound_def ism_Close_def)
  then show ?thesis using inv by (auto simp: timed_inv_def ism_Close_def)
qed

lemma timed_inv_ism_SetMaxQueueSize:
  "timed_inv s \<Longrightarrow> timed_inv (fst (ism_SetMaxQueueSize s m))"
  by (cases "queue s") (auto simp: timed_inv_def ism_SetMaxQueueSize_def MinTimestampOrBound_def Let_def)

lemma MinTimestampOrBound_filter_ge:
  assumes "timed_inv s" "queue s' = filter (\<lambda>p. t < packet_timestamp p) (queue s)"
    "next_timestamp_bound s \<le> next_timestamp_bound s'"
  shows "MinTimestampOrBound s \<le> MinTimestampOrBound s'"
proof (cases "queue s'")
  case Nil
  then show ?thesis using MinTimestampOrBound_le_bound [OF assms(1)] assms(3)
    by (auto intro: order_trans)
next
  case (Cons p ps)
  then have "p \<in> set (filter (\<lambda>p. t < packet_timestamp p) (queue s))" using assms(2) by simp
  then show ?thesis using Cons MinTimestampOrBound_le_queue [OF assms(1), of p]
    by (simp add: MinTimestampOrBound_def)
qed

text \<open>A suffix of the queue, with nothing else changed, keeps the invariant.\<close>

lemma timed_inv_ErasePacketsEarlierThan:
  assumes inv: "timed_inv s" and s'_def: "s' = fst (ErasePacketsEarlierThan s t)"
  shows "timed_inv s' \<and> queue s' = filter (\<lambda>p. t \<le> packet_timestamp p) (queue s) \<and>
    MinTimestampOrBound s \<le> MinTimestampOrBound s'"
proof -
  have q: "queue s' = filter (\<lambda>p. t \<le> packet_timestamp p) (queue s)"
    and rest: "s' = s\<lparr>queue := queue s'\<rparr>"
    using dropWhile_less_sorted [OF timed_invD(2) [OF inv], of t]
    by (simp_all add: s'_def ErasePacketsEarlierThan_def Let_def)
  have min: "MinTimestampOrBound s \<le> MinTimestampOrBound s'"
  proof (cases "queue s'")
    case Nil
    then show ?thesis using MinTimestampOrBound_le_bound [OF inv]
      by (simp add: s'_def ErasePacketsEarlierThan_def Let_def)
  next
    case (Cons p ps)
    then have "p \<in> set (queue s)" using q by (metis filter_is_subset list.set_intros(1) subsetD)
    then show ?thesis using Cons MinTimestampOrBound_le_queue [OF inv, of p]
      by (simp add: MinTimestampOrBound_def)
  qed
  have "length (queue s') \<le> length (queue s)" by (simp add: q)
  moreover have "sorted_wrt (<) (queue_ts s')"
    using timed_invD(2) [OF inv] by (simp add: q sorted_wrt_map sorted_wrt_filter)
  moreover have "\<not> closed s \<Longrightarrow> last_select_timestamp s < MinTimestampOrBound s'"
    using timed_invD(7) [OF inv] min by (auto intro: order_less_le_trans)
  moreover have "set (queue s') \<subseteq> set (queue s)" by (auto simp: q)
  ultimately have "timed_inv (s\<lparr>queue := queue s'\<rparr>)"
    using inv unfolding timed_inv_def
    by (auto simp: s'_def ErasePacketsEarlierThan_def MinTimestampOrBound_def Let_def dest: set_mp)
  then show ?thesis using q min rest by simp
qed

subsection \<open>Popping at a timestamp\<close>

text \<open>The state that a successful pop leaves.\<close>

abbreviation popped :: "'a input_stream \<Rightarrow> timestamp \<Rightarrow> 'a input_stream" where
  "popped s t \<equiv> s\<lparr>last_select_timestamp := t,
     next_timestamp_bound := (if next_timestamp_bound s \<le> t then NextAllowedInStream t
       else next_timestamp_bound s),
     queue := filter (\<lambda>p. t < packet_timestamp p) (queue s)\<rparr>"

definition packet_at :: "'a input_stream \<Rightarrow> timestamp \<Rightarrow> 'a packet option" where
  "packet_at s t = find (\<lambda>p. packet_timestamp p = t) (queue s)"

lemma packet_at_None: "packet_at s t = None \<longleftrightarrow> t \<notin> set (queue_ts s)"
  by (auto simp: packet_at_def find_None_iff)

lemma packet_at_Some: "packet_at s t = Some p \<Longrightarrow> p \<in> set (queue s) \<and> packet_timestamp p = t"
  by (auto simp: packet_at_def find_Some_iff)

lemma bound_popped:
  "IsAllowedInStream t \<Longrightarrow> t < next_timestamp_bound (popped s t)"
  "IsAllowedInStream t \<Longrightarrow> next_timestamp_bound s \<le> next_timestamp_bound (popped s t)"
  using Next_greater_allowed [of t] by (auto simp: not_le)

lemma popped_after:
  assumes "IsAllowedInStream t"
  shows "t < MinTimestampOrBound (popped s t)"
proof (cases "queue (popped s t)")
  case Nil
  then show ?thesis using bound_popped(1) [OF assms, of s] by (simp add: MinTimestampOrBound_def)
next
  case (Cons p ps)
  then have "p \<in> set (filter (\<lambda>p. t < packet_timestamp p) (queue s))" by simp
  then have "t < packet_timestamp p" by (simp only: set_filter mem_Collect_eq)
  with Cons show ?thesis by (simp add: MinTimestampOrBound_def)
qed

lemma timed_inv_popped:
  assumes inv: "timed_inv s" and t: "IsAllowedInStream t"
  shows "timed_inv (popped s t)"
proof -
  have "length (queue (popped s t)) \<le> num_packets_added s"
    using inv by (auto simp: timed_inv_def intro: order_trans [OF length_filter_le])
  moreover have "sorted_wrt (<) (queue_ts (popped s t))"
    using timed_invD(2) [OF inv] by (simp add: sorted_wrt_map sorted_wrt_filter)
  moreover have "NextAllowedInStream (packet_timestamp p) \<le> next_timestamp_bound (popped s t)"
    if "p \<in> set (queue (popped s t))" for p
    using timed_invD(5) [OF inv] bound_popped(2) [OF t, of s] that by (fastforce intro: order_trans)
  moreover have "Timestamp_PreStream \<le> next_timestamp_bound (popped s t)"
    using inv bound_popped(2) [OF t, of s] by (auto simp: timed_inv_def intro: order_trans)
  moreover have "closed s \<Longrightarrow> next_timestamp_bound (popped s t) = Timestamp_Done"
    using inv t by (auto simp: timed_inv_def ts_iff)
  ultimately show ?thesis
    using timed_invD(1,3,4) [OF inv] popped_after [OF t, of s] inv
    by (simp add: timed_inv_def) fastforce
qed

lemma MinTimestampOrBound_popped:
  assumes "timed_inv s" "IsAllowedInStream t"
  shows "MinTimestampOrBound s \<le> MinTimestampOrBound (popped s t)"
  by (rule MinTimestampOrBound_filter_ge [OF assms(1) _ bound_popped(2) [OF assms(2)]]) simp

lemma PopPacketAtTimestamp_eq:
  assumes inv: "timed_inv s" and last: "last_select_timestamp s \<le> t" and t: "IsAllowedInStream t"
  shows "\<exists>ev. PopPacketAtTimestamp s t = Some (popped s t,
      (case packet_at s t of
         Some p \<Rightarrow> p
       | None \<Rightarrow> packet_At Packet_empty (PreviousAllowedInStream (MinTimestampOrBound (popped s t)))),
      int (length (filter (\<lambda>p. packet_timestamp p < t) (queue s))),
      ism_IsDone (popped s t), ev)"
proof -
  note sorted = timed_invD(2) [OF inv]
  let ?front = "filter (\<lambda>p. packet_timestamp p \<le> t) (queue s)"
  let ?rest = "filter (\<lambda>p. t < packet_timestamp p) (queue s)"
  have loop: "pop_loop t (queue s) Packet_empty (- 1) =
      (?rest, if ?front = [] then Packet_empty else last ?front, int (length ?front) - 1)"
    by (simp add: pop_loop_eq Let_def takeWhile_le_sorted [OF sorted] dropWhile_le_sorted [OF sorted])
  have unset: "t \<noteq> Timestamp_Unset" using t by (auto simp: ts_iff)
  have fr: "?rest = queue s \<longleftrightarrow> ?front = []"
    by (auto simp: filter_id_conv filter_empty_conv not_le)
  have last_in: "?front \<noteq> [] \<Longrightarrow> last ?front \<in> set (queue s)"
    by (metis filter_is_subset last_in_set subsetD)
  note len = length_filter_le_split [OF sorted, of t]
  show ?thesis
  proof (cases "packet_at s t")
    case None
    then have "t \<notin> packet_timestamp ` set (queue s)" by (simp add: packet_at_None)
    moreover from this have "?front \<noteq> [] \<Longrightarrow> packet_timestamp (last ?front) \<noteq> t" using last_in by (metis imageI)
    ultimately show ?thesis using None len unset timed_invD(1) [OF inv] last
      by (auto simp: PopPacketAtTimestamp_def loop Let_def fr)
  next
    case (Some p)
    then have p: "p \<in> set (queue s)" "packet_timestamp p = t" using packet_at_Some by blast+
    then have "last ?front = p" "?front \<noteq> []"
      using last_filter_le_sorted [OF sorted p] by (auto simp: filter_empty_conv)
    with p have "int (length ?front) - 1 = int (length (filter (\<lambda>p. packet_timestamp p < t) (queue s)))"
      using len by auto
    with \<open>last ?front = p\<close> \<open>?front \<noteq> []\<close> p show ?thesis
      using Some unset timed_invD(1) [OF inv] last
      by (simp add: PopPacketAtTimestamp_def loop Let_def fr)
  qed
qed

lemma PopPacketAtTimestamp_SomeD:
  assumes "PopPacketAtTimestamp s t = Some res"
  shows "last_select_timestamp s \<le> t"
  using assms by (auto simp: PopPacketAtTimestamp_def split: if_splits)

subsection \<open>Steps and runs\<close>

fun allowed_op :: "'a stream_op \<Rightarrow> bool" where
  "allowed_op (OpPopPacketAtTimestamp t) = IsAllowedInStream t"
| "allowed_op _ = True"

text \<open>What one step promises about the packets it delivers.\<close>

definition delivers :: "'a input_stream \<Rightarrow> 'a packet list \<Rightarrow> 'a input_stream \<Rightarrow> bool" where
  "delivers s out s' \<longleftrightarrow>
     timed_inv s' \<and> MinTimestampOrBound s \<le> MinTimestampOrBound s' \<and>
     packet_type s' = packet_type s \<and> sorted_wrt (<) (map packet_timestamp out) \<and>
     (\<forall>p \<in> set out. packet_type s p = OkStatus \<and>
        MinTimestampOrBound s \<le> packet_timestamp p \<and> packet_timestamp p < MinTimestampOrBound s')"

lemma delivers_Nil:
  "timed_inv s' \<Longrightarrow> MinTimestampOrBound s \<le> MinTimestampOrBound s' \<Longrightarrow>
     packet_type s' = packet_type s \<Longrightarrow> delivers s [] s'"
  by (simp add: delivers_def)

lemma delivers_trans:
  assumes "delivers s out s'" "delivers s' out' s''"
  shows "delivers s (out @ out') s''"
proof -
  have "p \<in> set out \<Longrightarrow> q \<in> set out' \<Longrightarrow> packet_timestamp p < packet_timestamp q" for p q
    using assms by (fastforce simp: delivers_def intro: order_less_le_trans)
  then show ?thesis using assms
    by (auto simp: delivers_def sorted_wrt_append intro: order_trans order_less_le_trans)
qed

lemma packet_type_AddOrMove:
  "AddOrMovePacketsInternal s ps = (s', r, notify, ev) \<Longrightarrow> timed_inv s \<Longrightarrow> packet_type s' = packet_type s"
  by (cases "closed s") (simp, blast dest: add_packets_loop_prefix [OF AddOrMovePacketsInternal_loop])

lemma delivers_pop:
  assumes inv: "timed_inv s" and t: "IsAllowedInStream t"
    and pop: "PopPacketAtTimestamp s t = Some (s', p, n, done, ev)"
  shows "delivers s (if packet_IsEmpty p then [] else [p]) s'"
proof -
  obtain ev' where eq: "Some (s', p, n, done, ev) = Some (popped s t,
      (case packet_at s t of Some p \<Rightarrow> p
       | None \<Rightarrow> packet_At Packet_empty (PreviousAllowedInStream (MinTimestampOrBound (popped s t)))),
      int (length (filter (\<lambda>p. packet_timestamp p < t) (queue s))), ism_IsDone (popped s t), ev')"
    using PopPacketAtTimestamp_eq [OF inv PopPacketAtTimestamp_SomeD [OF pop] t] pop by auto
  then have s': "s' = popped s t" by simp
  note base = timed_inv_popped [OF inv t] MinTimestampOrBound_popped [OF inv t]
  show ?thesis
  proof (cases "packet_at s t")
    case None
    then have "packet_IsEmpty p" using eq by simp
    then show ?thesis using base by (simp add: s' delivers_Nil)
  next
    case (Some q)
    then have "p = q" "q \<in> set (queue s)" "packet_timestamp q = t"
      using eq packet_at_Some [OF Some] by simp_all
    then show ?thesis using base popped_after [OF t, of s] timed_invD(3) [OF inv]
        MinTimestampOrBound_le_queue [OF inv]
      by (auto simp: s' delivers_def)
  qed
qed

lemma delivers_step:
  assumes inv: "timed_inv s" and ok: "allowed_op op"
    and step: "stream_step op s = Some (s', out, r, notify, ev)"
  shows "delivers s out s'"
proof (cases op)
  case (OpAddPackets ps)
  with step have "AddOrMovePacketsInternal s ps = (s', r, notify, ev)" "out = []"
    by (auto split: prod.splits)
  then show ?thesis using timed_inv_AddOrMove [OF inv] packet_type_AddOrMove [OF _ inv]
    by (auto intro!: delivers_Nil)
next
  case (OpSetNextTimestampBound b)
  with step have eq: "SetNextTimestampBound s b = (s', r, notify)" "out = []"
    by (auto split: prod.splits)
  then have "packet_type s' = packet_type s"
    by (auto simp: SetNextTimestampBound_def split: if_splits)
  then show ?thesis using timed_inv_SetNextTimestampBound [OF inv eq(1)] eq(2)
    by (simp add: delivers_Nil)
next
  case OpClose
  then show ?thesis using step timed_inv_Close [OF inv]
    by (auto intro!: delivers_Nil simp: ism_Close_def)
next
  case (OpPopPacketAtTimestamp t)
  with step ok show ?thesis using delivers_pop [OF inv, of t]
    by (auto split: Option.bind_splits prod.splits)
next
  case (OpSetMaxQueueSize m)
  then have s': "s' = s\<lparr>max_queue_size := m\<rparr>" "out = []"
    using step by (auto simp: ism_SetMaxQueueSize_def Let_def split: if_splits)
  have "MinTimestampOrBound s' = MinTimestampOrBound s"
    by (cases "queue s") (simp_all add: s' MinTimestampOrBound_def)
  then show ?thesis using timed_inv_ism_SetMaxQueueSize [OF inv, of m]
    by (simp add: s' delivers_Nil ism_SetMaxQueueSize_def Let_def)
next
  case (OpErasePacketsEarlierThan t)
  then have s': "s' = fst (ErasePacketsEarlierThan s t)" "out = []"
    using step by (auto split: prod.splits)
  then show ?thesis using timed_inv_ErasePacketsEarlierThan [OF inv s'(1)]
    by (auto intro!: delivers_Nil simp: ErasePacketsEarlierThan_def Let_def)
qed

lemma delivers_run:
  "timed_inv s \<Longrightarrow> \<forall>op \<in> set ops. allowed_op op \<Longrightarrow> run_stream ops s = Some (s', out) \<Longrightarrow>
   delivers s out s'"
proof (induction ops arbitrary: s out)
  case (Cons op ops)
  from Cons.prems(3) obtain s1 o1 r n ev o2 where
    step: "stream_step op s = Some (s1, o1, r, n, ev)" "run_stream ops s1 = Some (s', o2)" "out = o1 @ o2"
    by (auto split: Option.bind_splits)
  have d: "delivers s o1 s1" using delivers_step [OF Cons.prems(1) _ step(1)] Cons.prems(2) by simp
  then have "timed_inv s1" by (simp add: delivers_def)
  with Cons.IH step(2) Cons.prems(2) have "delivers s1 o2 s'" by simp
  with d show ?case by (simp add: step(3) delivers_trans)
qed (simp add: delivers_Nil)

subsection \<open>Notifications and queue events\<close>

lemma AddOrMove_not_notified:
  assumes "timed_inv s" "AddOrMovePacketsInternal s ps = (s', OkStatus, False, ev)"
  shows "MinTimestampOrBound s' = MinTimestampOrBound s"
proof (cases "closed s \<or> ps = []")
  case True
  then show ?thesis using assms by (auto simp: AddOrMovePacketsInternal_def Let_def split: if_splits)
next
  case False
  then have "add_packets_loop s ps = (s', OkStatus)" using AddOrMovePacketsInternal_loop [OF assms(2)] by simp
  then obtain k where "queue s' = queue s @ take k ps"
    using add_packets_loop_prefix assms(1) False by blast
  moreover have "queue s \<noteq> []"
    using assms(2) False by (auto simp: AddOrMovePacketsInternal_def Let_def split: prod.splits if_splits)
  ultimately show ?thesis by (cases "queue s") (simp_all add: MinTimestampOrBound_def)
qed

lemma SetNextTimestampBound_not_notified:
  assumes "SetNextTimestampBound s b = (s', r, False)"
  shows "MinTimestampOrBound s' = MinTimestampOrBound s"
proof (cases "queue s")
  case Nil
  with assms have "s' = s" by (auto simp: SetNextTimestampBound_def split: if_splits)
  then show ?thesis by simp
next
  case (Cons p ps)
  with assms have "queue s' = queue s" by (auto simp: SetNextTimestampBound_def split: if_splits)
  with Cons show ?thesis by (simp add: MinTimestampOrBound_def)
qed

text \<open>The queue events a change of the queue, or of its limit, has to be reported with.\<close>

definition full_events :: "'a input_stream \<Rightarrow> 'a input_stream \<Rightarrow> queue_event list" where
  "full_events s s' =
     (if \<not> ism_IsFull s \<and> ism_IsFull s' then [BecameFull]
      else if ism_IsFull s \<and> \<not> ism_IsFull s' then [BecameNotFull] else [])"

lemma queue_full_mono: "queue_full n m \<Longrightarrow> n \<le> k \<Longrightarrow> queue_full k m"
  by (auto simp: queue_full_def)

lemma not_full_iff: "queue_full n m \<Longrightarrow> \<not> queue_full k m \<longleftrightarrow> int k < size_limit m"
  by (auto simp: queue_full_def)

lemma max_queue_size_loop:
  "max_queue_size (fst (add_packets_loop s ps)) = max_queue_size s \<and>
   length (queue s) \<le> length (queue (fst (add_packets_loop s ps)))"
proof (induction ps arbitrary: s)
  case (Cons p ps)
  show ?case using Cons [of "enqueue s p"]
    by (auto simp: add_packets_loop.simps(2) Let_def split: status.splits)
qed simp

text \<open>The events of a method that only removes packets.\<close>

lemma shrink_events:
  assumes "ev = (if ism_IsFull s \<and> int (length rest) < size_limit (max_queue_size s) then [BecameNotFull] else [])
      \<and> queue s' = rest \<and> max_queue_size s' = max_queue_size s"
    and "length rest \<le> length (queue s)"
  shows "ev = full_events s s'"
  using assms queue_full_mono [OF _ assms(2)] not_full_iff
  by (auto simp: full_events_def ism_IsFull_def)

lemma full_events_step:
  assumes "stream_step op s = Some (s', out, r, notify, ev)" and "r = OkStatus"
  shows "ev = full_events s s'"
proof (cases op)
  case (OpAddPackets ps)
  then show ?thesis using assms max_queue_size_loop [of s ps] queue_full_mono
    by (auto simp: AddOrMovePacketsInternal_def full_events_def ism_IsFull_def Let_def
        split: prod.splits if_splits)
next
  case (OpSetNextTimestampBound b)
  then show ?thesis using assms
    by (auto simp: SetNextTimestampBound_def full_events_def ism_IsFull_def split: if_splits)
next
  case OpClose
  then show ?thesis using assms
    by (auto simp: ism_Close_def full_events_def ism_IsFull_def split: if_splits)
next
  case (OpPopPacketAtTimestamp t)
  define rest where "rest = dropWhile (\<lambda>p. packet_timestamp p \<le> t) (queue s)"
  from OpPopPacketAtTimestamp assms(1)
  have "ev = (if ism_IsFull s \<and> int (length rest) < size_limit (max_queue_size s) then [BecameNotFull] else [])
      \<and> queue s' = rest \<and> max_queue_size s' = max_queue_size s"
    by (auto simp: PopPacketAtTimestamp_def pop_loop_eq Let_def rest_def split: if_splits)
  moreover have "length rest \<le> length (queue s)" by (simp add: rest_def length_dropWhile_le)
  ultimately show ?thesis by (rule shrink_events)
next
  case (OpSetMaxQueueSize m)
  then show ?thesis using assms by (auto simp: ism_SetMaxQueueSize_def full_events_def Let_def)
next
  case (OpErasePacketsEarlierThan t)
  define rest where "rest = dropWhile (\<lambda>p. packet_timestamp p < t) (queue s)"
  from OpErasePacketsEarlierThan assms(1)
  have "ev = (if ism_IsFull s \<and> int (length rest) < size_limit (max_queue_size s) then [BecameNotFull] else [])
      \<and> queue s' = rest \<and> max_queue_size s' = max_queue_size s"
    by (auto simp: ErasePacketsEarlierThan_def Let_def rest_def split: if_splits)
  moreover have "length rest \<le> length (queue s)" by (simp add: rest_def length_dropWhile_le)
  ultimately show ?thesis by (rule shrink_events)
qed

subsection \<open>Properties\<close>

lemma input_stream_run_ordered_parts:
  assumes "timed_inv s" and "\<forall>op \<in> set ops. allowed_op op"
    and "run_stream ops s = Some (s', out)"
  shows "timed_inv s'" "MinTimestampOrBound s \<le> MinTimestampOrBound s'"
    "sorted_wrt (<) (map packet_timestamp out)"
    "\<forall>p \<in> set out. packet_type s p = OkStatus \<and>
       MinTimestampOrBound s \<le> packet_timestamp p \<and> packet_timestamp p < MinTimestampOrBound s'"
  using delivers_run [OF assms] by (simp_all add: delivers_def)

text \<open>
  C34: Over every sequence of steps of a timed input stream, whatever packets, bounds, closes,
  erasures and queue limits it gets (and whichever of them it refuses), the packets the
  consumer receives have strictly increasing timestamps and pass the packet type of the
  stream, and each lies between the minimum the stream showed at the start and the one it
  shows at the end, which is never smaller. The stream invariant holds afterwards.
\<close>
theorem input_stream_run_ordered:
  assumes "timed_inv s" and "\<forall>op \<in> set ops. allowed_op op"
    and "run_stream ops s = Some (s', out)"
  shows "timed_inv s' \<and> MinTimestampOrBound s \<le> MinTimestampOrBound s' \<and>
    sorted_wrt (<) (map packet_timestamp out) \<and>
    (\<forall>p \<in> set out. packet_type s p = OkStatus \<and>
       MinTimestampOrBound s \<le> packet_timestamp p \<and> packet_timestamp p < MinTimestampOrBound s')"
  using input_stream_run_ordered_parts [OF assms] by blast

text \<open>The runs the witnesses use: a stream of natural numbers.\<close>

definition demo_stream :: "nat input_stream" where
  "demo_stream = new_input_stream ''in''
     (\<lambda>p. if packet_IsEmpty p then ErrorStatus InvalidArgument else OkStatus) False"

definition demo_packet :: "nat \<Rightarrow> int64 \<Rightarrow> nat packet" where
  "demo_packet v t = \<lparr>holder = Some (Holder 1 v), packet_timestamp = Timestamp_of t\<rparr>"

lemma timed_inv_demo: "timed_inv demo_stream"
  unfolding demo_stream_def new_input_stream_def by (rule timed_inv_PrepareForRun) simp

lemma demo_packet_simps [simp]:
  "packet_timestamp (demo_packet v t) = Timestamp_of t"
  "packet_IsEmpty (demo_packet v t) = False"
  "demo_packet v t = demo_packet v' t' \<longleftrightarrow> v = v' \<and> t = t'"
  by (simp_all add: demo_packet_def packet_IsEmpty_def)

definition demo_ops :: "nat stream_op list" where
  "demo_ops = [OpAddPackets [demo_packet 1 10, demo_packet 2 20, demo_packet 3 5],
     OpPopPacketAtTimestamp (Timestamp_of 10), OpSetNextTimestampBound (Timestamp_of 30),
     OpPopPacketAtTimestamp (Timestamp_of 20), OpClose]"

lemma demo_run:
  "map_option snd (run_stream demo_ops demo_stream) = Some [demo_packet 1 10, demo_packet 2 20]"
  by code_simp

theorem input_stream_run_ordered_witness:
  "(let out = snd (the (run_stream demo_ops demo_stream)) in
    map holder_data (map (the \<circ> holder) out) = [1, 2] \<and> sorted_wrt (<) (map packet_timestamp out))"
proof -
  obtain s' where run: "run_stream demo_ops demo_stream = Some (s', [demo_packet 1 10, demo_packet 2 20])"
    using demo_run by (cases "run_stream demo_ops demo_stream") auto
  have "\<forall>op \<in> set demo_ops. allowed_op op" by code_simp
  from input_stream_run_ordered [OF timed_inv_demo this run] show ?thesis
    by (simp add: run demo_packet_def)
qed

text \<open>
  C35: \<open>PopPacketAtTimestamp\<close> on a timed stream, at an allowed timestamp that is not before
  the last one selected, never aborts. It removes exactly the packets up to that timestamp,
  counts the earlier ones as dropped, and returns the packet at the timestamp, or, when
  there is none, an empty packet that carries the last timestamp known to be settled. It
  raises the bound past the timestamp, so the consumer's next minimum is later, and reports
  the stream done exactly when nothing is queued and the bound is \<open>Done\<close>.
\<close>
theorem pop_packet_at_timestamp:
  assumes "timed_inv s" and "last_select_timestamp s \<le> t" and "IsAllowedInStream t"
  shows "\<exists>s' ev. PopPacketAtTimestamp s t = Some (s',
      (case find (\<lambda>p. packet_timestamp p = t) (queue s) of
         Some p \<Rightarrow> p
       | None \<Rightarrow> packet_At Packet_empty (PreviousAllowedInStream (MinTimestampOrBound s'))),
      int (length (filter (\<lambda>p. packet_timestamp p < t) (queue s))), ism_IsDone s', ev) \<and>
    queue s' = filter (\<lambda>p. t < packet_timestamp p) (queue s) \<and>
    t < MinTimestampOrBound s' \<and> t < next_timestamp_bound s' \<and> last_select_timestamp s' = t \<and>
    timed_inv s'"
proof -
  obtain ev where "PopPacketAtTimestamp s t = Some (popped s t,
      (case packet_at s t of
         Some p \<Rightarrow> p
       | None \<Rightarrow> packet_At Packet_empty (PreviousAllowedInStream (MinTimestampOrBound (popped s t)))),
      int (length (filter (\<lambda>p. packet_timestamp p < t) (queue s))), ism_IsDone (popped s t), ev)"
    using PopPacketAtTimestamp_eq [OF assms] by blast
  then show ?thesis
    using timed_inv_popped [OF assms(1,3)] popped_after [OF assms(3), of s] bound_popped(1) [OF assms(3), of s]
    by (intro exI [of _ "popped s t"] exI [of _ ev]) (simp add: packet_at_def)
qed

definition demo_filled :: "nat input_stream" where
  "demo_filled = fst (the (stream_step (OpAddPackets [demo_packet 1 10, demo_packet 2 20]) demo_stream))"

lemma demo_filled: "timed_inv demo_filled" "queue demo_filled = [demo_packet 1 10, demo_packet 2 20]"
  "last_select_timestamp demo_filled = Timestamp_Unstarted"
proof -
  let ?add = "stream_step (OpAddPackets [demo_packet 1 10, demo_packet 2 20]) demo_stream"
  have "map_option (\<lambda>(s', r). (queue s', last_select_timestamp s', r)) ?add =
      Some ([demo_packet 1 10, demo_packet 2 20], Timestamp_Unstarted, [], OkStatus, True, [])" by code_simp
  then obtain s' where add: "?add = Some (s', [], OkStatus, True, [])"
    "queue s' = [demo_packet 1 10, demo_packet 2 20]" "last_select_timestamp s' = Timestamp_Unstarted"
    by (auto simp del: stream_step.simps)
  have s': "demo_filled = s'" by (simp only: demo_filled_def add(1) option.sel fst_conv)
  have "delivers demo_stream [] s'" using delivers_step [OF timed_inv_demo _ add(1)] by simp
  then show "timed_inv demo_filled" by (simp add: delivers_def s')
  show "queue demo_filled = [demo_packet 1 10, demo_packet 2 20]"
    "last_select_timestamp demo_filled = Timestamp_Unstarted" using add(2,3) s' by simp_all
qed

theorem pop_packet_at_timestamp_witness:
  "\<exists>s' ev. PopPacketAtTimestamp demo_filled (Timestamp_of 20) =
    Some (s', demo_packet 2 20, 1, ism_IsDone s', ev) \<and> queue s' = []"
proof -
  have "last_select_timestamp demo_filled \<le> Timestamp_of 20" by (simp add: demo_filled ts_iff)
  moreover have "IsAllowedInStream (Timestamp_of 20)" by code_simp
  ultimately show ?thesis
    using pop_packet_at_timestamp [OF demo_filled(1), of "Timestamp_of 20"]
    by (auto simp: demo_filled(2) ts_iff)
qed

text \<open>
  Queueing packets on an open timed stream keeps a prefix of them: every packet up to
  the first one that fails its type, is at a timestamp no packet may have, comes before the
  bound, or is a \<open>PostStream\<close> packet after another one. The status is an error exactly when
  a packet was refused, the packets accepted before it stay queued, and the bound is then
  just past the last accepted one.
\<close>
theorem add_packets_keeps_prefix:
  assumes "timed_inv s" and "\<not> closed s"
    and "AddOrMovePacketsInternal s ps = (s', r, notify, ev)"
  shows "\<exists>k \<le> length ps. queue s' = queue s @ take k ps \<and>
      num_packets_added s' = num_packets_added s + k \<and>
      (r = OkStatus \<longleftrightarrow> k = length ps) \<and>
      (k < length ps \<longrightarrow> \<not> accepts s' (ps ! k)) \<and>
      next_timestamp_bound s' =
        (if k = 0 then next_timestamp_bound s else NextAllowedInStream (packet_timestamp (ps ! (k - 1))))"
  using add_packets_loop_stops [OF AddOrMovePacketsInternal_loop [OF assms(3,2)]] timed_invD(1) [OF assms(1)]
  by simp

theorem add_packets_keeps_prefix_witness:
  "\<exists>k \<le> 3. take k [demo_packet 1 10, demo_packet 2 20, demo_packet 3 5] =
     queue (fst (AddOrMovePacketsInternal demo_stream [demo_packet 1 10, demo_packet 2 20, demo_packet 3 5])) \<and>
     k = num_packets_added (fst (AddOrMovePacketsInternal demo_stream [demo_packet 1 10, demo_packet 2 20, demo_packet 3 5]))"
proof -
  let ?ps = "[demo_packet 1 10, demo_packet 2 20, demo_packet 3 5]"
  obtain s' r nt ev where eq: "AddOrMovePacketsInternal demo_stream ?ps = (s', r, nt, ev)"
    by (cases "AddOrMovePacketsInternal demo_stream ?ps") auto
  have "\<not> closed demo_stream" "queue demo_stream = []" "num_packets_added demo_stream = 0" by code_simp+
  then obtain k where "k \<le> 3" "queue s' = take k ?ps" "num_packets_added s' = k"
    using add_packets_keeps_prefix [OF timed_inv_demo _ eq] by fastforce
  then show ?thesis unfolding eq by (intro exI [of _ k]) simp
qed

lemma no_notification_no_change_parts:
  assumes "timed_inv s"
  shows "AddOrMovePacketsInternal s ps = (s', OkStatus, False, ev) \<Longrightarrow>
      MinTimestampOrBound s' = MinTimestampOrBound s"
    and "SetNextTimestampBound s b = (s'', r, False) \<Longrightarrow>
      MinTimestampOrBound s'' = MinTimestampOrBound s"
  by (rule AddOrMove_not_notified [OF assms] SetNextTimestampBound_not_notified; assumption)+

text \<open>
  A consumer is told of every change it can see: when adding packets or raising the
  bound succeeds without asking for a notification, the first timestamp the stream shows
  (its first packet, or its bound when it is empty) is the same as before.
\<close>
theorem no_notification_no_change:
  assumes "timed_inv s"
  shows "(\<forall>s' ev. AddOrMovePacketsInternal s ps = (s', OkStatus, False, ev) \<longrightarrow>
      MinTimestampOrBound s' = MinTimestampOrBound s) \<and>
    (\<forall>s' r. SetNextTimestampBound s b = (s', r, False) \<longrightarrow> MinTimestampOrBound s' = MinTimestampOrBound s)"
  using no_notification_no_change_parts [OF assms] by blast

theorem no_notification_no_change_witness:
  "MinTimestampOrBound (fst (SetNextTimestampBound demo_stream Timestamp_PreStream)) = Timestamp_PreStream"
proof -
  have eq: "SetNextTimestampBound demo_stream Timestamp_PreStream = (demo_stream, OkStatus, False)"
    and m: "MinTimestampOrBound demo_stream = Timestamp_PreStream"
    by (simp_all add: demo_stream_def new_input_stream_def ism_PrepareForRun_def SetNextTimestampBound_def)
  from no_notification_no_change [OF timed_inv_demo, of "[]" Timestamp_PreStream] m show ?thesis by (simp add: eq)
qed

text \<open>
  The queue callbacks follow the queue exactly: a successful step that changes a stream
  reports "became full" precisely when it takes the queue from below its limit to at or
  above it, "became not full" precisely in the opposite case, and nothing otherwise. This
  holds for every limit, also a negative one.
\<close>
theorem queue_events_exact:
  assumes "stream_step op s = Some (s', out, OkStatus, notify, ev)"
  shows "ev = (if \<not> ism_IsFull s \<and> ism_IsFull s' then [BecameFull]
      else if ism_IsFull s \<and> \<not> ism_IsFull s' then [BecameNotFull] else [])"
  using full_events_step [OF assms refl] by (simp add: full_events_def)

theorem queue_events_exact_witness:
  "ism_IsFull (fst (the (stream_step (OpAddPackets [demo_packet 1 10]) (demo_stream\<lparr>max_queue_size := 1\<rparr>))))"
proof -
  let ?r = "the (stream_step (OpAddPackets [demo_packet 1 10]) (demo_stream\<lparr>max_queue_size := 1\<rparr>))"
  have "map_option (\<lambda>(s', r). r) (stream_step (OpAddPackets [demo_packet 1 10]) (demo_stream\<lparr>max_queue_size := 1\<rparr>)) =
      Some ([], OkStatus, True, [BecameFull])" by code_simp
  then have "stream_step (OpAddPackets [demo_packet 1 10]) (demo_stream\<lparr>max_queue_size := 1\<rparr>) =
      Some (fst ?r, [], OkStatus, True, [BecameFull])" by auto
  from queue_events_exact [OF this] show ?thesis by (simp split: if_splits)
qed

end
