(* ===== verification/OutputStream.thy ===== *)
theory OutputStream
  imports InputStreamManager_Inv
begin

section \<open>Output stream shards and managers\<close>

text \<open>
  \<open>output_stream_shard.h/.cc\<close> and \<open>output_stream_manager.h/.cc\<close>. A shard collects the packets
  and the bound that one invocation of a calculator emits; the manager of the stream computes
  the bound to announce and sends packets and bound to the mirrors, the input streams
  connected to it.

  The specification the shards of a stream share with its manager is a record kept in the
  manager; the methods of a shard that use it take it as an argument. What a method does to
  the outside (the calls it makes on an input stream handler and the statuses it passes to
  the error callback) is the list of messages it returns, in order. The error callback is
  null before a run, and calling it then fails a \<open>CHECK\<close>.
\<close>

text \<open>A mirror: an input stream handler and the id of one of its streams.\<close>

type_synonym mirror = "nat \<times> nat"

datatype 'a out_msg =
    MsgAddPackets mirror "'a packet list"
  | MsgSetNextTimestampBound mirror timestamp
  | MsgSetHeader mirror "'a packet"
  | MsgSetMaxQueueSize mirror int32
  | MsgError status

record 'a output_stream_spec =
  spec_name :: string
  spec_packet_type :: "'a packet \<Rightarrow> status"
  error_callback :: bool
  locked_intro_data :: bool
  offset_enabled :: bool
  offset :: timestamp_diff
  spec_header :: "'a packet"

record 'a output_stream_shard =
  output_queue :: "'a packet list"
  shard_closed :: bool
  shard_next_timestamp_bound :: timestamp
  updated_next_timestamp_bound :: timestamp

record 'a output_stream_manager =
  output_stream_spec :: "'a output_stream_spec"
  mirrors :: "mirror list"
  osm_next_timestamp_bound :: timestamp
  osm_closed :: bool

definition TriggerErrorCallback :: "'a output_stream_spec \<Rightarrow> status \<Rightarrow> 'a out_msg list option" where
  "TriggerErrorCallback spec st = do { check (error_callback spec); Some [MsgError st] }"

subsection \<open>The shard\<close>

text \<open>A default-constructed shard: closed nowhere, both bounds \<open>Timestamp()\<close>.\<close>

definition new_output_shard :: "'a output_stream_shard" where
  "new_output_shard = \<lparr>output_queue = [], shard_closed = False,
     shard_next_timestamp_bound = Timestamp_Unset, updated_next_timestamp_bound = Timestamp_Unset\<rparr>"

definition shard_SetNextTimestampBound ::
    "'a output_stream_spec \<Rightarrow> 'a output_stream_shard \<Rightarrow> timestamp \<Rightarrow>
     ('a output_stream_shard \<times> 'a out_msg list) option" where
  "shard_SetNextTimestampBound spec sh bound =
     (if \<not> IsAllowedInStream bound \<and> bound \<noteq> Timestamp_OneOverPostStream
      then do { err \<leftarrow> TriggerErrorCallback spec (ErrorStatus InvalidArgument); Some (sh, err) }
      else Some (sh\<lparr>shard_next_timestamp_bound := bound, updated_next_timestamp_bound := bound\<rparr>, []))"

definition shard_Close :: "'a output_stream_shard \<Rightarrow> 'a output_stream_shard" where
  "shard_Close sh = sh\<lparr>shard_closed := True, shard_next_timestamp_bound := Timestamp_Done,
     updated_next_timestamp_bound := Timestamp_Done\<rparr>"

definition SetOffset ::
    "'a output_stream_spec \<Rightarrow> timestamp_diff \<Rightarrow> ('a output_stream_spec \<times> 'a out_msg list) option" where
  "SetOffset spec d =
     (if locked_intro_data spec
      then do { err \<leftarrow> TriggerErrorCallback spec (ErrorStatus FailedPrecondition); Some (spec, err) }
      else Some (spec\<lparr>offset_enabled := True, offset := d\<rparr>, []))"

definition shard_SetHeader ::
    "'a output_stream_spec \<Rightarrow> 'a output_stream_shard \<Rightarrow> 'a packet \<Rightarrow>
     ('a output_stream_spec \<times> 'a out_msg list) option" where
  "shard_SetHeader spec sh header =
     (if shard_closed sh \<or> locked_intro_data spec
      then do { err \<leftarrow> TriggerErrorCallback spec (ErrorStatus FailedPrecondition); Some (spec, err) }
      else Some (spec\<lparr>spec_header := header\<rparr>, []))"

definition AddPacketInternal ::
    "'a output_stream_spec \<Rightarrow> 'a output_stream_shard \<Rightarrow> 'a packet \<Rightarrow>
     ('a output_stream_shard \<times> status \<times> 'a out_msg list) option" where
  "AddPacketInternal spec sh p =
     (if shard_closed sh then Some (sh, ErrorStatus FailedPrecondition, [])
      else if packet_IsEmpty p then do {
        (sh', msgs) \<leftarrow> shard_SetNextTimestampBound spec sh (NextAllowedInStream (packet_timestamp p));
        Some (sh', OkStatus, msgs) }
      else if \<not> IsAllowedInStream (packet_timestamp p)
      then Some (sh, ErrorStatus InvalidArgument, [])
      else case spec_packet_type spec p of
        ErrorStatus c \<Rightarrow> Some (sh, ErrorStatus c, [])
      | OkStatus \<Rightarrow>
          (let b = NextAllowedInStream (packet_timestamp p)
           in Some (sh\<lparr>output_queue := output_queue sh @ [p], shard_next_timestamp_bound := b,
                updated_next_timestamp_bound := b\<rparr>, OkStatus, [])))"

definition shard_AddPacket ::
    "'a output_stream_spec \<Rightarrow> 'a output_stream_shard \<Rightarrow> 'a packet \<Rightarrow>
     ('a output_stream_shard \<times> 'a out_msg list) option" where
  "shard_AddPacket spec sh p = do {
     (sh', st, msgs) \<leftarrow> AddPacketInternal spec sh p;
     if ok st then Some (sh', msgs)
     else do { err \<leftarrow> TriggerErrorCallback spec st; Some (sh', msgs @ err) } }"

definition LastAddedPacketTimestamp :: "'a output_stream_shard \<Rightarrow> timestamp" where
  "LastAddedPacketTimestamp sh =
     (if output_queue sh = [] then Timestamp_Unset else packet_timestamp (last (output_queue sh)))"

definition shard_Reset :: "'a output_stream_shard \<Rightarrow> timestamp \<Rightarrow> bool \<Rightarrow> 'a output_stream_shard" where
  "shard_Reset sh bound close = sh\<lparr>output_queue := [], shard_next_timestamp_bound := bound,
     updated_next_timestamp_bound := Timestamp_Unset, shard_closed := close\<rparr>"

subsection \<open>The manager\<close>

definition osm_PrepareForRun :: "'a output_stream_manager \<Rightarrow> bool \<Rightarrow> 'a output_stream_manager" where
  "osm_PrepareForRun m callback =
     m\<lparr>output_stream_spec := (output_stream_spec m)\<lparr>error_callback := callback,
         locked_intro_data := False, spec_header := Packet_empty\<rparr>,
       osm_next_timestamp_bound := Timestamp_PreStream, osm_closed := False\<rparr>"

definition osm_Initialize ::
    "'a output_stream_manager \<Rightarrow> string \<Rightarrow> ('a packet \<Rightarrow> status) \<Rightarrow> 'a output_stream_manager" where
  "osm_Initialize m name ptype =
     osm_PrepareForRun (m\<lparr>output_stream_spec := (output_stream_spec m)\<lparr>spec_name := name,
       spec_packet_type := ptype, offset_enabled := False\<rparr>\<rparr>) False"

definition osm_Close ::
    "'a output_stream_manager \<Rightarrow> 'a output_stream_manager \<times> 'a out_msg list" where
  "osm_Close m =
     (if osm_closed m then (m, [])
      else (m\<lparr>osm_closed := True, osm_next_timestamp_bound := Timestamp_Done\<rparr>,
            map (\<lambda>mi. MsgSetNextTimestampBound mi Timestamp_Done) (mirrors m)))"

definition PropagateHeader :: "'a output_stream_manager \<Rightarrow> 'a out_msg list option" where
  "PropagateHeader m =
     (if locked_intro_data (output_stream_spec m)
      then TriggerErrorCallback (output_stream_spec m) (ErrorStatus FailedPrecondition)
      else Some (map (\<lambda>mi. MsgSetHeader mi (spec_header (output_stream_spec m))) (mirrors m)))"

definition LockIntroData :: "'a output_stream_manager \<Rightarrow> 'a output_stream_manager" where
  "LockIntroData m =
     m\<lparr>output_stream_spec := (output_stream_spec m)\<lparr>locked_intro_data := True\<rparr>\<rparr>"

definition AddMirror :: "'a output_stream_manager \<Rightarrow> mirror \<Rightarrow> 'a output_stream_manager" where
  "AddMirror m mi = m\<lparr>mirrors := mirrors m @ [mi]\<rparr>"

definition osm_SetMaxQueueSize :: "'a output_stream_manager \<Rightarrow> int32 \<Rightarrow> 'a out_msg list" where
  "osm_SetMaxQueueSize m n = map (\<lambda>mi. MsgSetMaxQueueSize mi n) (mirrors m)"

text \<open>
  The bound the input timestamp implies, through the offset of the stream; \<open>Unset\<close>, the
  default timestamp, where the stream has none.
\<close>

definition offset_input_bound :: "'a output_stream_spec \<Rightarrow> timestamp \<Rightarrow> timestamp option" where
  "offset_input_bound spec t =
     (if offset_enabled spec \<and> t \<noteq> Timestamp_Unstarted then
        (if t = Timestamp_PreStream then Some Timestamp_Min
         else if t = Timestamp_Max then
           (if 0 \<le> dv (offset spec) then Some Timestamp_PostStream
            else map_option NextAllowedInStream (ts_plus t (offset spec)))
         else if t = Timestamp_PostStream then Some Timestamp_OneOverPostStream
         else ts_plus (NextAllowedInStream t) (offset spec))
      else Some Timestamp_Unset)"

definition ComputeOutputTimestampBound ::
    "'a output_stream_manager \<Rightarrow> 'a output_stream_shard \<Rightarrow> timestamp \<Rightarrow>
     (timestamp \<times> 'a out_msg list) option" where
  "ComputeOutputTimestampBound m sh t =
     (if t \<noteq> Timestamp_Unstarted \<and> \<not> IsAllowedInStream t
      then do {
        err \<leftarrow> TriggerErrorCallback (output_stream_spec m) (ErrorStatus FailedPrecondition);
        Some (Timestamp_Unset, err) }
      else do {
        input_bound \<leftarrow> offset_input_bound (output_stream_spec m) t;
        let new_bound = (if shard_next_timestamp_bound sh < input_bound
                         then max Timestamp_Unset input_bound else Timestamp_Unset);
            new_bound = max new_bound (updated_next_timestamp_bound sh);
            new_bound = (if output_queue sh \<noteq> []
                         then max new_bound (NextAllowedInStream (LastAddedPacketTimestamp sh))
                         else new_bound)
        in Some (new_bound, []) })"

definition PropagateUpdatesToMirrors ::
    "'a output_stream_manager \<Rightarrow> timestamp \<Rightarrow> 'a output_stream_shard \<Rightarrow>
     'a output_stream_manager \<times> 'a output_stream_shard \<times> 'a out_msg list" where
  "PropagateUpdatesToMirrors m bound sh =
     (let m' = (if bound \<noteq> Timestamp_Unset then m\<lparr>osm_next_timestamp_bound := bound\<rparr> else m);
          packets = output_queue sh;
          add_packets = (packets \<noteq> []);
          set_bound = (bound \<noteq> Timestamp_Unset \<and>
            (\<not> add_packets \<or> NextAllowedInStream (packet_timestamp (last packets)) \<noteq> bound))
      in (m', sh\<lparr>output_queue := []\<rparr>,
          concat (map (\<lambda>mi. (if add_packets then [MsgAddPackets mi packets] else []) @
            (if set_bound then [MsgSetNextTimestampBound mi bound] else [])) (mirrors m))))"

definition ResetShard ::
    "'a output_stream_manager \<Rightarrow> 'a output_stream_shard \<Rightarrow> 'a output_stream_shard" where
  "ResetShard m sh = shard_Reset sh (osm_next_timestamp_bound m) (osm_closed m)"

subsection \<open>The announced bound\<close>

lemma ts_plus_mono:
  assumes "ts_plus t d = Some u" "ts_plus t' d = Some u'" "t \<le> t'"
  shows "u \<le> u'"
proof -
  have "IsRangeValue t" "IsRangeValue t'" using assms(1,2) by (auto simp: ts_plus_def split: if_splits)
  then have u: "u = Timestamp_of (word_of_int (clamped_sum t d))"
    "u' = Timestamp_of (word_of_int (clamped_sum t' d))"
    using assms(1,2) by (simp_all add: ts_plus_clamps)
  have "clamped_sum t d \<le> clamped_sum t' d" using assms(3) by (simp add: clamped_sum_def ts_iff)
  then show ?thesis unfolding u timestamp_le_iff by (simp only: tv_clamped)
qed

lemma ts_plus_range: "ts_plus t d = Some u \<Longrightarrow> IsRangeValue t \<and> IsRangeValue u"
proof -
  assume u: "ts_plus t d = Some u"
  then have t: "IsRangeValue t" by (auto simp: ts_plus_def split: if_splits)
  with u have "u = Timestamp_of (word_of_int (clamped_sum t d))" by (simp add: ts_plus_clamps)
  then have "tv u = clamped_sum t d" by (simp only: tv_clamped)
  then show "IsRangeValue t \<and> IsRangeValue u" using t clamped_sum_bounds [of t d] by (simp add: ts_iff)
qed

lemma range_Next: "IsRangeValue t \<Longrightarrow> t \<noteq> Timestamp_Max \<Longrightarrow> IsRangeValue (NextAllowedInStream t)"
  by (auto simp: ts_iff ts_step_iff)

lemma offset_input_bound_Some:
  assumes "t = Timestamp_Unstarted \<or> IsAllowedInStream t"
  shows "\<exists>b. offset_input_bound spec t = Some b"
  using assms
proof
  assume "IsAllowedInStream t"
  then show ?thesis
  proof (cases rule: allowed_cases)
    case 2
    then show ?thesis using range_Next [of t]
      by (cases "t = Timestamp_Max") (auto simp: offset_input_bound_def ts_plus_clamps)
  next
    case 3
    moreover have "Timestamp_PostStream \<noteq> Timestamp_Max" by (simp add: timestamp_eq_iff)
    ultimately show ?thesis by (auto simp: offset_input_bound_def)
  qed (auto simp: offset_input_bound_def)
qed (simp add: offset_input_bound_def)

text \<open>No output a later input can cause comes before the bound the offset implies.\<close>

lemma offset_input_bound_sound:
  assumes "offset_input_bound spec t = Some b" "IsRangeValue t" "IsRangeValue t'" "t < t'"
    and "ts_plus t' (offset spec) = Some u"
  shows "b \<le> u"
proof (cases "offset_enabled spec")
  case True
  have "t \<noteq> Timestamp_Max" "t \<noteq> Timestamp_PreStream" "t \<noteq> Timestamp_PostStream" "t \<noteq> Timestamp_Unstarted"
    using assms(2-4) by (auto simp: ts_iff)
  with True assms(1) have b: "ts_plus (NextAllowedInStream t) (offset spec) = Some b"
    by (simp add: offset_input_bound_def)
  have "NextAllowedInStream t \<le> t'" using assms(2-4) by (simp add: Next_le_iff)
  with b assms(5) show ?thesis by (rule ts_plus_mono)
qed (use assms(1) in \<open>simp add: offset_input_bound_def\<close>)

lemma ComputeOutputTimestampBound_Some:
  assumes "t = Timestamp_Unstarted \<or> IsAllowedInStream t"
  shows "\<exists>b ib. offset_input_bound (output_stream_spec m) t = Some ib \<and>
    ComputeOutputTimestampBound m sh t = Some (b, []) \<and>
    b = max (if shard_next_timestamp_bound sh < ib then ib else Timestamp_Unset)
          (max (updated_next_timestamp_bound sh)
             (if output_queue sh = [] then Timestamp_Unset
              else NextAllowedInStream (packet_timestamp (last (output_queue sh)))))"
proof -
  obtain ib where ib: "offset_input_bound (output_stream_spec m) t = Some ib"
    using offset_input_bound_Some [OF assms] by blast
  have "max Timestamp_Unset x = x" for x by (simp add: max_def)
  moreover have "max x Timestamp_Unset = x" for x by (auto simp: max_def intro: antisym)
  ultimately show ?thesis using assms ib
    by (auto simp: ComputeOutputTimestampBound_def Let_def LastAddedPacketTimestamp_def max.assoc)
qed

text \<open>
  The bound a stream with an offset announces is sound. After an invocation at an input
  timestamp that emitted nothing, the announced bound is at most the timestamp of every
  output that a later input produces through the offset, for all offsets and all range
  timestamps, clamping included; and the computation never aborts.
\<close>
theorem offset_bound_sound:
  assumes "offset_enabled (output_stream_spec m)"
    and "IsRangeValue t" and "IsRangeValue t'" and "t < t'"
    and "output_queue sh = []" and "updated_next_timestamp_bound sh = Timestamp_Unset"
    and "ts_plus t' (offset (output_stream_spec m)) = Some u"
  shows "\<exists>b. ComputeOutputTimestampBound m sh t = Some (b, []) \<and> b \<le> u"
proof -
  have "t = Timestamp_Unstarted \<or> IsAllowedInStream t" using assms(2) by (simp add: IsRangeValue_allowed)
  from ComputeOutputTimestampBound_Some [OF this, of m sh] obtain b ib
    where ib: "offset_input_bound (output_stream_spec m) t = Some ib"
      and eq: "ComputeOutputTimestampBound m sh t = Some (b, [])"
      and b: "b = max (if shard_next_timestamp_bound sh < ib then ib else Timestamp_Unset)
          (max (updated_next_timestamp_bound sh)
             (if output_queue sh = [] then Timestamp_Unset
              else NextAllowedInStream (packet_timestamp (last (output_queue sh)))))"
    by blast
  have "ib \<le> u" by (rule offset_input_bound_sound [OF ib assms(2-4,7)])
  then have "b \<le> u" using assms(5,6) by (simp add: b)
  with eq show ?thesis by blast
qed

definition demo_output :: "int64 \<Rightarrow> nat output_stream_manager" where
  "demo_output d =
     \<lparr>output_stream_spec = \<lparr>spec_name = ''out'', spec_packet_type = (\<lambda>_. OkStatus),
        error_callback = True, locked_intro_data = True, offset_enabled = True,
        offset = TimestampDiff d, spec_header = Packet_empty\<rparr>,
      mirrors = [(0, 0), (1, 2)], osm_next_timestamp_bound = Timestamp_PreStream, osm_closed = False\<rparr>"

theorem offset_bound_sound_witness:
  "\<exists>b. ComputeOutputTimestampBound (demo_output 3) new_output_shard (Timestamp_of 7) = Some (b, []) \<and>
     b \<le> Timestamp_of 12"
  by (rule offset_bound_sound [where t' = "Timestamp_of 9"]) code_simp+



end
