(* ===== verification/CalculatorContext.thy ===== *)
theory CalculatorContext
  imports OutputStream
begin

section \<open>Calculator contexts and their manager\<close>

text \<open>
  \<open>input_stream_shard.h/.cc\<close>, \<open>calculator_context.h\<close> and \<open>calculator_context_manager.h/.cc\<close>.
  A context holds the timestamps of the invocations it is prepared for and the input and
  output shards an invocation works on. A sequential node uses its default context; a
  parallel one has a context per timestamp in flight, and recycles the front one.

  The source hands out pointers to contexts. Here a \<open>context_ref\<close> names one: the default
  context, or the active one at a timestamp. \<open>active_contexts\<close> is a \<open>std::map\<close>: an association
  list kept sorted by its keys.
\<close>

record 'a input_stream_shard =
  packet_queue :: "'a packet list"
  shard_header :: "'a packet"
  is_done :: bool

definition new_input_shard :: "'a input_stream_shard" where
  "new_input_shard = \<lparr>packet_queue = [], shard_header = Packet_empty, is_done = False\<rparr>"

definition shard_Value :: "'a input_stream_shard \<Rightarrow> 'a packet" where
  "shard_Value sh = (case packet_queue sh of [] \<Rightarrow> Packet_empty | p # _ \<Rightarrow> p)"

definition ClearCurrentPacket :: "'a input_stream_shard \<Rightarrow> 'a input_stream_shard" where
  "ClearCurrentPacket sh = sh\<lparr>packet_queue := tl (packet_queue sh)\<rparr>"

definition InputStreamShard_AddPacket ::
    "'a input_stream_shard \<Rightarrow> 'a packet \<Rightarrow> bool \<Rightarrow> 'a input_stream_shard option" where
  "InputStreamShard_AddPacket sh value done = do {
     check (\<not> is_done sh \<or> packet_IsEmpty value);
     Some (sh\<lparr>packet_queue := packet_queue sh @ [value], is_done := done\<rparr>) }"

record 'a calculator_context =
  input_timestamps :: "timestamp list"
  inputs :: "'a input_stream_shard list"
  outputs :: "'a output_stream_shard list"
  graph_status :: status

definition InputTimestamp :: "'a calculator_context \<Rightarrow> timestamp" where
  "InputTimestamp cc = (case input_timestamps cc of [] \<Rightarrow> Timestamp_Unset | t # _ \<Rightarrow> t)"

definition NumberOfTimestamps :: "'a calculator_context \<Rightarrow> int" where
  "NumberOfTimestamps cc = int (length (input_timestamps cc))"

definition HasInputTimestamp :: "'a calculator_context \<Rightarrow> bool" where
  "HasInputTimestamp cc \<longleftrightarrow> input_timestamps cc \<noteq> []"

definition PushInputTimestamp :: "timestamp \<Rightarrow> 'a calculator_context \<Rightarrow> 'a calculator_context" where
  "PushInputTimestamp t cc = cc\<lparr>input_timestamps := input_timestamps cc @ [t]\<rparr>"

definition PopInputTimestamp :: "'a calculator_context \<Rightarrow> 'a calculator_context option" where
  "PopInputTimestamp cc = do {
     check (input_timestamps cc \<noteq> []);
     Some (cc\<lparr>input_timestamps := tl (input_timestamps cc)\<rparr>) }"

definition SetGraphStatus :: "status \<Rightarrow> 'a calculator_context \<Rightarrow> 'a calculator_context" where
  "SetGraphStatus st cc = cc\<lparr>graph_status := st\<rparr>"

subsection \<open>The manager\<close>

datatype context_ref = DefaultContext | ActiveContext timestamp

record 'a context_manager =
  cm_run_in_parallel :: bool
  num_inputs :: nat
  num_outputs :: nat
  setup_shards_callback :: "'a calculator_context \<Rightarrow> 'a calculator_context \<times> status"
  default_context :: "'a calculator_context option"
  active_contexts :: "(timestamp \<times> 'a calculator_context) list"
  idle_contexts :: "'a calculator_context list"

definition new_calculator_context :: "'a context_manager \<Rightarrow> 'a calculator_context" where
  "new_calculator_context cm = \<lparr>input_timestamps = [],
     inputs = replicate (num_inputs cm) new_input_shard,
     outputs = replicate (num_outputs cm) new_output_shard, graph_status = OkStatus\<rparr>"

definition cm_Initialize :: "'a context_manager \<Rightarrow> nat \<Rightarrow> nat \<Rightarrow> bool \<Rightarrow> 'a context_manager" where
  "cm_Initialize cm n_in n_out par =
     cm\<lparr>num_inputs := n_in, num_outputs := n_out, cm_run_in_parallel := par\<rparr>"

definition cm_PrepareForRun ::
    "'a context_manager \<Rightarrow> ('a calculator_context \<Rightarrow> 'a calculator_context \<times> status) \<Rightarrow>
     'a context_manager \<times> status" where
  "cm_PrepareForRun cm setup =
     (let (cc, st) = setup (new_calculator_context cm)
      in (cm\<lparr>setup_shards_callback := setup, default_context := Some cc\<rparr>, st))"

definition cm_CleanupAfterRun :: "'a context_manager \<Rightarrow> 'a context_manager" where
  "cm_CleanupAfterRun cm = cm\<lparr>default_context := None, active_contexts := [], idle_contexts := []\<rparr>"

definition HasDefaultCalculatorContext :: "'a context_manager \<Rightarrow> bool" where
  "HasDefaultCalculatorContext cm \<longleftrightarrow> default_context cm \<noteq> None"

definition GetDefaultCalculatorContext :: "'a context_manager \<Rightarrow> context_ref option" where
  "GetDefaultCalculatorContext cm = do { check (default_context cm \<noteq> None); Some DefaultContext }"

definition GetFrontCalculatorContext ::
    "'a context_manager \<Rightarrow> (context_ref \<times> timestamp) option" where
  "GetFrontCalculatorContext cm = do {
     check (cm_run_in_parallel cm);
     case active_contexts cm of
       [] \<Rightarrow> None
     | (t, _) # _ \<Rightarrow> Some (ActiveContext t, t) }"

definition PrepareCalculatorContext ::
    "'a context_manager \<Rightarrow> timestamp \<Rightarrow> ('a context_manager \<times> context_ref) option" where
  "PrepareCalculatorContext cm t =
     (if \<not> cm_run_in_parallel cm then do {
        r \<leftarrow> GetDefaultCalculatorContext cm;
        Some (cm, r) }
      else do {
        check (t \<notin> fst ` set (active_contexts cm));
        case idle_contexts cm of
          [] \<Rightarrow> (let (cc, st) = setup_shards_callback cm (new_calculator_context cm) in do {
            check (ok st);
            Some (cm\<lparr>active_contexts := insort_key fst (t, cc) (active_contexts cm)\<rparr>, ActiveContext t) })
        | cc # rest \<Rightarrow>
            Some (cm\<lparr>active_contexts := insort_key fst (t, cc) (active_contexts cm),
                     idle_contexts := rest\<rparr>, ActiveContext t) })"

text \<open>Recycling with no active context dereferences the end of the map: undefined, here \<open>None\<close>.\<close>

definition RecycleCalculatorContext :: "'a context_manager \<Rightarrow> 'a context_manager option" where
  "RecycleCalculatorContext cm =
     (case active_contexts cm of
        [] \<Rightarrow> None
      | (t, cc) # rest \<Rightarrow>
          Some (cm\<lparr>idle_contexts := idle_contexts cm @ [cc], active_contexts := rest\<rparr>))"

definition HasActiveContexts :: "'a context_manager \<Rightarrow> bool" where
  "HasActiveContexts cm \<longleftrightarrow> cm_run_in_parallel cm \<and> active_contexts cm \<noteq> []"

text \<open>Access through a reference: a dereference of a context that is not there is \<open>None\<close>.\<close>

fun get_context :: "'a context_manager \<Rightarrow> context_ref \<Rightarrow> 'a calculator_context option" where
  "get_context cm DefaultContext = default_context cm"
| "get_context cm (ActiveContext t) = map_of (active_contexts cm) t"

fun put_context ::
    "'a context_manager \<Rightarrow> context_ref \<Rightarrow> 'a calculator_context \<Rightarrow> 'a context_manager" where
  "put_context cm DefaultContext cc = cm\<lparr>default_context := Some cc\<rparr>"
| "put_context cm (ActiveContext t) cc =
     cm\<lparr>active_contexts := map (\<lambda>(k, c). (k, if k = t then cc else c)) (active_contexts cm)\<rparr>"

lemma map_of_map_upd:
  "map_of (map (\<lambda>(k, c). (k, if k = t then x else c)) xs) u =
     (if u = t then (if t \<in> fst ` set xs then Some x else None) else map_of xs u)"
  by (induction xs) (force simp: image_iff)+

lemma get_put_context [simp]:
  "get_context cm r = Some c \<Longrightarrow> get_context (put_context cm r cc) r = Some cc"
  "r \<noteq> r' \<Longrightarrow> get_context (put_context cm r cc) r' = get_context cm r'"
  by (cases r; force simp: map_of_map_upd dest: map_of_SomeD)
     (cases r; cases r'; simp add: map_of_map_upd)

lemma put_context_simps [simp]:
  "cm_run_in_parallel (put_context cm r cc) = cm_run_in_parallel cm"
  "setup_shards_callback (put_context cm r cc) = setup_shards_callback cm"
  "num_inputs (put_context cm r cc) = num_inputs cm"
  "num_outputs (put_context cm r cc) = num_outputs cm"
  "idle_contexts (put_context cm r cc) = idle_contexts cm"
  "map fst (active_contexts (put_context cm r cc)) = map fst (active_contexts cm)"
  "default_context (put_context cm DefaultContext cc) = Some cc"
  "default_context (put_context cm (ActiveContext t) cc) = default_context cm"
  "active_contexts (put_context cm DefaultContext cc) = active_contexts cm"
  by (cases r; simp add: case_prod_beta comp_def)+

end
