(* ===== verification/InputStreamHandler.thy ===== *)
theory InputStreamHandler
  imports CalculatorContext
begin

section \<open>The input stream handler\<close>

text \<open>
  \<open>input_stream_handler.h/.cc\<close>: the base class of the handlers that decide when a node can
  run and with which packets. A handler owns the input streams of its node and shares the
  context manager with it. The two virtual methods of a concrete handler, \<open>GetNodeReadiness\<close>
  and \<open>FillInputSet\<close>, are arguments of \<open>ScheduleInvocations\<close>; the fields a concrete handler
  adds are the field \<open>policy\<close> of the record.

  The callbacks of the node (headers ready, notification, schedule, error) and the queue
  callbacks of the streams are the list of events an operation returns, in their order.
  Tracing and monitoring are not modelled.
\<close>

datatype node_readiness = kNotReady | kReadyForProcess | kReadyForClose

datatype handler_event =
    HeadersReady
  | Notification
  | ScheduleContext context_ref
  | HandlerError status
  | QueueEvent nat queue_event

record ('a, 'h) input_stream_handler =
  input_stream_managers :: "'a input_stream list"
  ish_run_in_parallel :: bool
  prepared_context_for_close :: bool
  late_preparation :: bool
  batch_size :: int
  process_timestamps :: bool
  unset_header_count :: int
  policy :: 'h

definition stream_events :: "nat \<Rightarrow> queue_event list \<Rightarrow> handler_event list" where
  "stream_events i evs = map (QueueEvent i) evs"

subsection \<open>Setting up\<close>

definition SetupInputShards ::
    "('a, 'h) input_stream_handler \<Rightarrow> 'a input_stream_shard list \<Rightarrow> 'a input_stream_shard list" where
  "SetupInputShards h shards =
     map (\<lambda>(sh, s). sh\<lparr>shard_header := ism_header s\<rparr>) (zip shards (input_stream_managers h))"

definition ish_PrepareForRun ::
    "('a, 'h) input_stream_handler \<Rightarrow> ('a, 'h) input_stream_handler" where
  "ish_PrepareForRun h = h\<lparr>
     unset_header_count := int (length (filter (\<lambda>s. \<not> back_edge s) (input_stream_managers h))),
     input_stream_managers := map ism_PrepareForRun (input_stream_managers h),
     prepared_context_for_close := False\<rparr>"

definition ish_SetHeader ::
    "('a, 'h) input_stream_handler \<Rightarrow> nat \<Rightarrow> 'a packet \<Rightarrow>
     (('a, 'h) input_stream_handler \<times> handler_event list) option" where
  "ish_SetHeader h i header =
     (let (s, result) = ism_SetHeader (input_stream_managers h ! i) header;
          h' = h\<lparr>input_stream_managers := (input_stream_managers h)[i := s]\<rparr>
      in if \<not> ok result then Some (h', [HandlerError result])
         else if back_edge s then Some (h', [])
         else do {
           check (0 < unset_header_count h);
           Some (h'\<lparr>unset_header_count := unset_header_count h - 1\<rparr>,
                 if unset_header_count h = 1 then [HeadersReady] else []) })"

definition UpdateInputShardHeaders ::
    "('a, 'h) input_stream_handler \<Rightarrow> 'a input_stream_shard list \<Rightarrow> 'a input_stream_shard list" where
  "UpdateInputShardHeaders h shards = SetupInputShards h shards"

definition ish_SetMaxQueueSize ::
    "('a, 'h) input_stream_handler \<Rightarrow> nat \<Rightarrow> int32 \<Rightarrow>
     ('a, 'h) input_stream_handler \<times> handler_event list" where
  "ish_SetMaxQueueSize h i m =
     (let (s, ev) = ism_SetMaxQueueSize (input_stream_managers h ! i) m
      in (h\<lparr>input_stream_managers := (input_stream_managers h)[i := s]\<rparr>, stream_events i ev))"

definition SetBatchSize ::
    "('a, 'h) input_stream_handler \<Rightarrow> int \<Rightarrow> ('a, 'h) input_stream_handler option" where
  "SetBatchSize h n = do {
     check (\<not> ish_run_in_parallel h \<or> n = 1);
     check (\<not> late_preparation h \<or> n = 1);
     check (1 \<le> n);
     Some (h\<lparr>batch_size := n\<rparr>) }"

definition SetLatePreparation ::
    "('a, 'h) input_stream_handler \<Rightarrow> bool \<Rightarrow> ('a, 'h) input_stream_handler option" where
  "SetLatePreparation h late = do {
     check (batch_size h = 1 \<or> \<not> late_preparation h);
     Some (h\<lparr>late_preparation := late\<rparr>) }"

subsection \<open>Packets and bounds from upstream\<close>

definition ish_AddPackets ::
    "('a, 'h) input_stream_handler \<Rightarrow> nat \<Rightarrow> 'a packet list \<Rightarrow>
     ('a, 'h) input_stream_handler \<times> handler_event list" where
  "ish_AddPackets h i packets =
     (let (s, result, notify, ev) = AddOrMovePacketsInternal (input_stream_managers h ! i) packets
      in (h\<lparr>input_stream_managers := (input_stream_managers h)[i := s]\<rparr>,
          stream_events i ev @ (if ok result then [] else [HandlerError result]) @
          (if notify then [Notification] else [])))"

definition ish_SetNextTimestampBound ::
    "('a, 'h) input_stream_handler \<Rightarrow> nat \<Rightarrow> timestamp \<Rightarrow>
     ('a, 'h) input_stream_handler \<times> handler_event list" where
  "ish_SetNextTimestampBound h i bound =
     (let (s, result, notify) = SetNextTimestampBound (input_stream_managers h ! i) bound
      in (h\<lparr>input_stream_managers := (input_stream_managers h)[i := s]\<rparr>,
          (if ok result then [] else [HandlerError result]) @
          (if notify then [Notification] else [])))"

definition ish_Close :: "('a, 'h) input_stream_handler \<Rightarrow> ('a, 'h) input_stream_handler" where
  "ish_Close h = h\<lparr>input_stream_managers := map ism_Close (input_stream_managers h)\<rparr>"

definition ClearCurrentInputs ::
    "'a context_manager \<Rightarrow> context_ref \<Rightarrow> 'a context_manager option" where
  "ClearCurrentInputs cm r = do {
     cc \<leftarrow> get_context cm r;
     cc' \<leftarrow> PopInputTimestamp cc;
     Some (put_context cm r (cc'\<lparr>inputs := map ClearCurrentPacket (inputs cc')\<rparr>)) }"

subsection \<open>Filling the shards of a context\<close>

text \<open>
  The loop of the \<open>FillInputSet\<close> methods over some streams: pop, insist that nothing was
  dropped, and move the packet to the shard. \<open>pop\<close> is the pop the handler uses.
\<close>

fun fill_loop ::
    "('a input_stream \<Rightarrow> ('a input_stream \<times> 'a packet \<times> int \<times> bool \<times> queue_event list) option) \<Rightarrow>
     nat list \<Rightarrow> 'a input_stream list \<Rightarrow> 'a input_stream_shard list \<Rightarrow>
     ('a input_stream list \<times> 'a input_stream_shard list \<times> handler_event list) option" where
  "fill_loop pop [] ss shards = Some (ss, shards, [])"
| "fill_loop pop (i # is) ss shards = do {
     (s', p, dropped, done, ev) \<leftarrow> pop (ss ! i);
     check (dropped = 0);
     sh \<leftarrow> InputStreamShard_AddPacket (shards ! i) p done;
     (ss', shards', ev') \<leftarrow> fill_loop pop is (ss[i := s']) (shards[i := sh]);
     Some (ss', shards', stream_events i ev @ ev') }"

subsection \<open>Sync sets\<close>

record sync_set =
  stream_ids :: "nat list"
  last_processed_ts :: timestamp

definition new_sync_set :: "nat list \<Rightarrow> sync_set" where
  "new_sync_set ids = \<lparr>stream_ids = ids, last_processed_ts = Timestamp_Unset\<rparr>"

definition SyncSet_PrepareForRun :: "sync_set \<Rightarrow> sync_set" where
  "SyncSet_PrepareForRun ss = ss\<lparr>last_processed_ts := Timestamp_Unset\<rparr>"

text \<open>The minimum bound of the empty streams and the minimum packet of the others.\<close>

definition min_bound_of :: "'a input_stream list \<Rightarrow> timestamp" where
  "min_bound_of streams =
     min_over Timestamp_Done (map MinTimestampOrBound (filter ism_IsEmpty streams))"

definition min_packet_of :: "'a input_stream list \<Rightarrow> timestamp" where
  "min_packet_of streams =
     min_over Timestamp_Done (map MinTimestampOrBound (filter (\<lambda>s. \<not> ism_IsEmpty s) streams))"

definition SyncSet_GetReadiness ::
    "'a input_stream list \<Rightarrow> bool \<Rightarrow> sync_set \<Rightarrow> node_readiness \<times> timestamp \<times> sync_set" where
  "SyncSet_GetReadiness managers process_ts ss =
     (let streams = map (\<lambda>i. managers ! i) (stream_ids ss);
          min_bound = min_bound_of streams;
          min_packet = min_packet_of streams;
          min_stream_timestamp = min min_packet min_bound
      in if Timestamp_OneOverPostStream \<le> min_stream_timestamp
         then (kReadyForClose, Timestamp_Done,
               ss\<lparr>last_processed_ts := PreviousAllowedInStream Timestamp_Done\<rparr>)
         else if \<not> process_ts
         then (if min_packet < min_bound
               then (kReadyForProcess, min_stream_timestamp,
                     ss\<lparr>last_processed_ts := min_stream_timestamp\<rparr>)
               else (kNotReady, min_stream_timestamp, ss))
         else
           let settled = (if min_packet = Timestamp_PostStream \<and> min_packet < min_bound
                          then min_packet else PreviousAllowedInStream min_bound);
               input_timestamp = min min_packet settled
           in if max (last_processed_ts ss) Timestamp_Unstarted < input_timestamp
              then (kReadyForProcess, input_timestamp, ss\<lparr>last_processed_ts := input_timestamp\<rparr>)
              else (kNotReady, min_stream_timestamp, ss))"

definition SyncSet_MinPacketTimestamp :: "'a input_stream list \<Rightarrow> sync_set \<Rightarrow> timestamp" where
  "SyncSet_MinPacketTimestamp managers ss = min_packet_of (map (\<lambda>i. managers ! i) (stream_ids ss))"

definition SyncSet_FillInputSet ::
    "'a input_stream list \<Rightarrow> sync_set \<Rightarrow> timestamp \<Rightarrow> 'a input_stream_shard list \<Rightarrow>
     ('a input_stream list \<times> 'a input_stream_shard list \<times> handler_event list) option" where
  "SyncSet_FillInputSet managers ss t shards = do {
     check (IsAllowedInStream t);
     fill_loop (\<lambda>s. PopPacketAtTimestamp s t) (stream_ids ss) managers shards }"

fun fill_bounds_loop ::
    "'a input_stream list \<Rightarrow> nat list \<Rightarrow> 'a input_stream_shard list \<Rightarrow>
     'a input_stream_shard list option" where
  "fill_bounds_loop managers [] shards = Some shards"
| "fill_bounds_loop managers (i # is) shards =
     (let bound = MinTimestampOrBound (managers ! i) in do {
       sh \<leftarrow> InputStreamShard_AddPacket (shards ! i)
              (packet_At Packet_empty (PreviousAllowedInStream bound)) (bound = Timestamp_Done);
       fill_bounds_loop managers is (shards[i := sh]) })"

definition SyncSet_FillInputBounds ::
    "'a input_stream list \<Rightarrow> sync_set \<Rightarrow> 'a input_stream_shard list \<Rightarrow>
     'a input_stream_shard list option" where
  "SyncSet_FillInputBounds managers ss shards = fill_bounds_loop managers (stream_ids ss) shards"

end
