(* ===== verification/ScheduleInvocations.thy ===== *)
theory ScheduleInvocations
  imports InputStreamHandler
begin

section \<open>Scheduling the invocations of a node\<close>

text \<open>
  \<open>InputStreamHandler::ScheduleInvocations\<close>: ask the concrete handler whether the node is
  ready, prepare and fill a context for every input timestamp that is, and hand complete
  batches to the schedule callback. The loop is a partial function: \<open>None\<close> is an abort or a
  loop that does not end.
\<close>

text \<open>The virtual methods of a concrete handler.\<close>

type_synonym ('a, 'h) readiness_method =
  "('a, 'h) input_stream_handler \<Rightarrow> timestamp \<Rightarrow>
     (node_readiness \<times> timestamp \<times> ('a, 'h) input_stream_handler \<times> handler_event list) option"

type_synonym ('a, 'h) fill_method =
  "('a, 'h) input_stream_handler \<Rightarrow> timestamp \<Rightarrow> 'a input_stream_shard list \<Rightarrow>
     (('a, 'h) input_stream_handler \<times> 'a input_stream_shard list \<times> handler_event list) option"

text \<open>
  The branch \<open>kReadyForProcess\<close>. The last component tells whether the batch is complete and
  was scheduled.
\<close>

definition prepare_invocation ::
    "('a, 'h) fill_method \<Rightarrow> timestamp \<Rightarrow> ('a, 'h) input_stream_handler \<Rightarrow> 'a context_manager \<Rightarrow>
     (('a, 'h) input_stream_handler \<times> 'a context_manager \<times> handler_event list \<times> bool) option" where
  "prepare_invocation fill t h cm = do {
     (cm, r) \<leftarrow> PrepareCalculatorContext cm t;
     cc \<leftarrow> get_context cm r;
     let cc = PushInputTimestamp t cc;
     (h, shards, ev) \<leftarrow> (if late_preparation h then Some (h, inputs cc, []) else fill h t (inputs cc));
     let cc = cc\<lparr>inputs := shards\<rparr>;
     let complete = (NumberOfTimestamps cc = batch_size h);
     Some (h, put_context cm r cc, ev @ (if complete then [ScheduleContext r] else []), complete) }"

text \<open>The branch \<open>kReadyForClose\<close>.\<close>

definition prepare_close ::
    "('a, 'h) input_stream_handler \<Rightarrow> 'a context_manager \<Rightarrow>
     (('a, 'h) input_stream_handler \<times> 'a context_manager \<times> handler_event list \<times> bool) option" where
  "prepare_close h cm =
     (if HasActiveContexts cm \<or> prepared_context_for_close h then Some (h, cm, [], False)
      else do {
        r \<leftarrow> GetDefaultCalculatorContext cm;
        cc \<leftarrow> get_context cm r;
        Some (h\<lparr>prepared_context_for_close := True\<rparr>,
              put_context cm r (PushInputTimestamp Timestamp_Done cc), [ScheduleContext r], True) })"

text \<open>The input bound reported when the node is not ready.\<close>

definition not_ready_bound ::
    "('a, 'h) input_stream_handler \<Rightarrow> 'a context_manager \<Rightarrow> timestamp \<Rightarrow> timestamp option" where
  "not_ready_bound h cm min_stream_timestamp = do {
     r \<leftarrow> GetDefaultCalculatorContext cm;
     cc \<leftarrow> get_context cm r;
     Some (if 1 < batch_size h \<and> HasInputTimestamp cc then InputTimestamp cc
           else min_stream_timestamp) }"

partial_function (option) schedule_loop ::
    "('a, 'h) readiness_method \<Rightarrow> ('a, 'h) fill_method \<Rightarrow> int \<Rightarrow> int \<Rightarrow> timestamp \<Rightarrow>
     ('a, 'h) input_stream_handler \<Rightarrow> 'a context_manager \<Rightarrow>
     (('a, 'h) input_stream_handler \<times> 'a context_manager \<times> handler_event list \<times> int \<times> timestamp) option" where
  "schedule_loop ready fill max_allowance n min_ts h cm =
     (if n < max_allowance then
        Option.bind (ready h min_ts) (\<lambda>(r, ts, h, ev1).
          case r of
            kNotReady \<Rightarrow>
              Option.bind (not_ready_bound h cm ts) (\<lambda>b. Some (h, cm, ev1, n, b))
          | kReadyForProcess \<Rightarrow>
              Option.bind (prepare_invocation fill ts h cm) (\<lambda>(h, cm, ev2, complete).
                Option.bind (schedule_loop ready fill max_allowance (if complete then n + 1 else n) ts h cm)
                  (\<lambda>(h, cm, ev3, n, b). Some (h, cm, ev1 @ ev2 @ ev3, n, b)))
          | kReadyForClose \<Rightarrow>
              Option.bind (prepare_close h cm) (\<lambda>(h, cm, ev2, scheduled).
                Some (h, cm, ev1 @ ev2, if scheduled then n + 1 else n, Timestamp_Unset)))
      else Some (h, cm, [], n, Timestamp_Unset))"

text \<open>The whole method: the state, the events, the input bound and the result.\<close>

definition ScheduleInvocations ::
    "('a, 'h) readiness_method \<Rightarrow> ('a, 'h) fill_method \<Rightarrow> int \<Rightarrow>
     ('a, 'h) input_stream_handler \<Rightarrow> 'a context_manager \<Rightarrow>
     (('a, 'h) input_stream_handler \<times> 'a context_manager \<times> handler_event list \<times> timestamp \<times> bool) option" where
  "ScheduleInvocations ready fill max_allowance h cm =
     (if input_stream_managers h = [] then do {
        r \<leftarrow> GetDefaultCalculatorContext cm;
        Some (h, cm, [ScheduleContext r], Timestamp_Unset, True) }
      else do {
        (h, cm, ev, n, b) \<leftarrow> schedule_loop ready fill max_allowance 0 Timestamp_Done h cm;
        Some (h, cm, ev, b, 0 < n) })"

definition FinalizeInputSet ::
    "('a, 'h) fill_method \<Rightarrow> ('a, 'h) input_stream_handler \<Rightarrow> timestamp \<Rightarrow> 'a input_stream_shard list \<Rightarrow>
     (('a, 'h) input_stream_handler \<times> 'a input_stream_shard list \<times> handler_event list) option" where
  "FinalizeInputSet fill h t shards =
     (if late_preparation h then fill h t shards else Some (h, shards, []))"

end
