(* ===== verification/StreamHandlers.thy ===== *)
theory StreamHandlers
  imports ScheduleInvocations
begin

section \<open>The concrete input stream handlers\<close>

text \<open>
  The handlers of \<open>stream_handler/\<close>: each one is its additional fields (the \<open>policy\<close> of the
  handler record), its \<open>PrepareForRun\<close> and its two virtual methods.
\<close>

definition with_policy ::
    "('a, 'h) input_stream_handler \<Rightarrow> 'h \<Rightarrow> ('a, 'h) input_stream_handler" where
  "with_policy h p = h\<lparr>policy := p\<rparr>"

definition with_managers ::
    "('a, 'h) input_stream_handler \<Rightarrow> 'a input_stream list \<Rightarrow> ('a, 'h) input_stream_handler" where
  "with_managers h ms = h\<lparr>input_stream_managers := ms\<rparr>"

subsection \<open>Default\<close>

definition Default_new ::
    "('a, sync_set) input_stream_handler \<Rightarrow> int option \<Rightarrow> ('a, sync_set) input_stream_handler option" where
  "Default_new h batch_option =
     (let h' = with_policy h (new_sync_set [0..<length (input_stream_managers h)])
      in case batch_option of None \<Rightarrow> Some h' | Some n \<Rightarrow> SetBatchSize h' n)"

definition Default_PrepareForRun ::
    "('a, sync_set) input_stream_handler \<Rightarrow> ('a, sync_set) input_stream_handler" where
  "Default_PrepareForRun h = ish_PrepareForRun (with_policy h (SyncSet_PrepareForRun (policy h)))"

definition Default_GetNodeReadiness :: "('a, sync_set) readiness_method" where
  "Default_GetNodeReadiness h min_ts =
     (let (r, ts, ss) = SyncSet_GetReadiness (input_stream_managers h) (process_timestamps h) (policy h)
      in Some (r, ts, with_policy h ss, []))"

definition Default_FillInputSet :: "('a, sync_set) fill_method" where
  "Default_FillInputSet h t shards = do {
     (ms, shards', ev) \<leftarrow> SyncSet_FillInputSet (input_stream_managers h) (policy h) t shards;
     Some (with_managers h ms, shards', ev) }"

subsection \<open>Barrier\<close>

definition Barrier_PrepareForRun ::
    "('a, unit) input_stream_handler \<Rightarrow> ('a, unit) input_stream_handler" where
  "Barrier_PrepareForRun h =
     (let h' = ish_PrepareForRun h
      in with_managers h' (map DisableTimestamps (input_stream_managers h')))"

text \<open>The loop over the streams: \<open>None\<close> when it returns \<open>kReadyForClose\<close> from inside.\<close>

fun barrier_scan :: "'a input_stream list \<Rightarrow> timestamp \<Rightarrow> bool \<Rightarrow> (timestamp \<times> bool) option" where
  "barrier_scan [] min_ts all_available = Some (min_ts, all_available)"
| "barrier_scan (s # ss) min_ts all_available =
     (let stream_timestamp = MinTimestampOrBound s
      in if ism_IsEmpty s \<and> stream_timestamp = Timestamp_Done then None
         else barrier_scan ss (min min_ts stream_timestamp) (all_available \<and> \<not> ism_IsEmpty s))"

definition Barrier_GetNodeReadiness :: "('a, unit) readiness_method" where
  "Barrier_GetNodeReadiness h _ =
     (case barrier_scan (input_stream_managers h) Timestamp_Done True of
        None \<Rightarrow> Some (kReadyForClose, Timestamp_Done, h, [])
      | Some (min_ts, all_available) \<Rightarrow> do {
          check (min_ts \<noteq> Timestamp_Done);
          Some (if all_available then kReadyForProcess else kNotReady, min_ts, h, []) })"

text \<open>A pop of the queue head, in the shape of a pop that reports dropped packets.\<close>

definition pop_head ::
    "'a input_stream \<Rightarrow> ('a input_stream \<times> 'a packet \<times> int \<times> bool \<times> queue_event list) option" where
  "pop_head s = do { (s', p, done, ev) \<leftarrow> PopQueueHead s; Some (s', p, 0, done, ev) }"

definition Barrier_FillInputSet :: "('a, unit) fill_method" where
  "Barrier_FillInputSet h t shards = do {
     check (IsAllowedInStream t);
     (ms, shards', ev) \<leftarrow>
       fill_loop pop_head [0..<length (input_stream_managers h)] (input_stream_managers h) shards;
     Some (with_managers h ms, shards', ev) }"

subsection \<open>Early close\<close>

fun early_scan :: "'a input_stream list \<Rightarrow> timestamp \<Rightarrow> timestamp \<Rightarrow> (timestamp \<times> timestamp) option" where
  "early_scan [] min_ts min_bound = Some (min_ts, min_bound)"
| "early_scan (s # ss) min_ts min_bound =
     (let stream_timestamp = MinTimestampOrBound s
      in if ism_IsEmpty s \<and> stream_timestamp = Timestamp_Done then None
         else early_scan ss (min min_ts stream_timestamp)
                (if ism_IsEmpty s then min min_bound stream_timestamp else min_bound))"

definition EarlyClose_GetNodeReadiness :: "('a, unit) readiness_method" where
  "EarlyClose_GetNodeReadiness h _ =
     (case early_scan (input_stream_managers h) Timestamp_Done Timestamp_Done of
        None \<Rightarrow> Some (kReadyForClose, Timestamp_Done, h, [])
      | Some (min_ts, min_bound) \<Rightarrow> do {
          check (min_ts \<noteq> Timestamp_Done);
          if min_ts < min_bound then Some (kReadyForProcess, min_ts, h, [])
          else do {
            check (min_bound = min_ts);
            Some (kNotReady, min_ts, h, []) } })"

definition EarlyClose_FillInputSet :: "('a, unit) fill_method" where
  "EarlyClose_FillInputSet h t shards = do {
     check (IsAllowedInStream t);
     (ms, shards', ev) \<leftarrow> fill_loop (\<lambda>s. PopPacketAtTimestamp s t)
       [0..<length (input_stream_managers h)] (input_stream_managers h) shards;
     Some (with_managers h ms, shards', ev) }"

subsection \<open>Immediate\<close>

record immediate_policy =
  sync_sets :: "sync_set list"
  ready_timestamps :: "timestamp list"

definition Immediate_new ::
    "('a, immediate_policy) input_stream_handler \<Rightarrow> ('a, immediate_policy) input_stream_handler" where
  "Immediate_new h =
     (let n = length (input_stream_managers h)
      in with_policy h \<lparr>sync_sets = map (\<lambda>i. new_sync_set [i]) [0..<n],
           ready_timestamps = replicate n Timestamp_Unset\<rparr>)"

definition Immediate_PrepareForRun ::
    "('a, immediate_policy) input_stream_handler \<Rightarrow> ('a, immediate_policy) input_stream_handler" where
  "Immediate_PrepareForRun h = ish_PrepareForRun (with_policy h
     \<lparr>sync_sets = map SyncSet_PrepareForRun (sync_sets (policy h)),
      ready_timestamps = map (\<lambda>_. Timestamp_Unset) (sync_sets (policy h))\<rparr>)"

text \<open>One round of the loop over the sync sets.\<close>

record immediate_scan =
  scan_input_timestamp :: timestamp
  scan_min_bound :: timestamp
  stream_became_done :: bool

definition immediate_step ::
    "'a input_stream list \<Rightarrow> bool \<Rightarrow> sync_set \<Rightarrow> timestamp \<Rightarrow> immediate_scan \<Rightarrow>
     (sync_set \<times> timestamp \<times> immediate_scan) option" where
  "immediate_step managers process_ts ss ready acc =
     (if Timestamp_Unset < ready
      then Some (ss, ready, acc\<lparr>scan_min_bound := min (scan_min_bound acc) ready,
             scan_input_timestamp := min (scan_input_timestamp acc) ready\<rparr>)
      else
        let prev_ts = last_processed_ts ss;
            (r, stream_ts, ss') = SyncSet_GetReadiness managers process_ts ss;
            acc = acc\<lparr>scan_min_bound := min (scan_min_bound acc) stream_ts\<rparr>;
            kDonePreceding = PreviousAllowedInStream Timestamp_Done
        in case r of
             kReadyForProcess \<Rightarrow>
               Some (ss', stream_ts,
                 acc\<lparr>scan_input_timestamp := min (scan_input_timestamp acc) stream_ts\<rparr>)
           | kReadyForClose \<Rightarrow> do {
               check (stream_ts = Timestamp_Done);
               if process_ts then
                 (if prev_ts < kDonePreceding
                  then Some (ss', kDonePreceding,
                    acc\<lparr>scan_min_bound := min (scan_min_bound acc) kDonePreceding,
                        scan_input_timestamp := min (scan_input_timestamp acc) kDonePreceding\<rparr>)
                  else Some (ss', Timestamp_Done, acc))
               else if prev_ts < Timestamp_Done
               then Some (ss', Timestamp_Done, acc\<lparr>stream_became_done := True\<rparr>)
               else Some (ss', ready, acc) }
           | kNotReady \<Rightarrow> Some (ss', ready, acc))"

fun immediate_loop ::
    "'a input_stream list \<Rightarrow> bool \<Rightarrow> (sync_set \<times> timestamp) list \<Rightarrow> immediate_scan \<Rightarrow>
     ((sync_set \<times> timestamp) list \<times> immediate_scan) option" where
  "immediate_loop managers process_ts [] acc = Some ([], acc)"
| "immediate_loop managers process_ts ((ss, ready) # rest) acc = do {
     (ss', ready', acc) \<leftarrow> immediate_step managers process_ts ss ready acc;
     (rest', acc) \<leftarrow> immediate_loop managers process_ts rest acc;
     Some ((ss', ready') # rest', acc) }"

definition Immediate_GetNodeReadiness :: "('a, immediate_policy) readiness_method" where
  "Immediate_GetNodeReadiness h _ = do {
     (sets, acc) \<leftarrow> immediate_loop (input_stream_managers h) (process_timestamps h)
       (zip (sync_sets (policy h)) (ready_timestamps (policy h)))
       \<lparr>scan_input_timestamp = Timestamp_Done, scan_min_bound = Timestamp_Done, stream_became_done = False\<rparr>;
     let h' = with_policy h \<lparr>sync_sets = map fst sets, ready_timestamps = map snd sets\<rparr>;
     Some (if scan_min_bound acc = Timestamp_Done then (kReadyForClose, scan_min_bound acc, h', [])
           else if scan_input_timestamp acc < Timestamp_Done
           then (kReadyForProcess, scan_input_timestamp acc, h', [])
           else if stream_became_done acc then (kReadyForProcess, scan_min_bound acc, h', [])
           else (kNotReady, scan_min_bound acc, h', [])) }"

fun immediate_fill ::
    "timestamp \<Rightarrow> (sync_set \<times> timestamp) list \<Rightarrow> 'a input_stream list \<Rightarrow> 'a input_stream_shard list \<Rightarrow>
     ('a input_stream list \<times> timestamp list \<times> 'a input_stream_shard list \<times> handler_event list) option" where
  "immediate_fill t [] ms shards = Some (ms, [], shards, [])"
| "immediate_fill t ((ss, ready) # rest) ms shards =
     (if ready = t then do {
        (ms, shards, ev) \<leftarrow> SyncSet_FillInputSet ms ss t shards;
        (ms, readys, shards, ev') \<leftarrow> immediate_fill t rest ms shards;
        Some (ms, Timestamp_Unset # readys, shards, ev @ ev') }
      else do {
        shards \<leftarrow> SyncSet_FillInputBounds ms ss shards;
        (ms, readys, shards, ev') \<leftarrow> immediate_fill t rest ms shards;
        Some (ms, ready # readys, shards, ev') })"

definition Immediate_FillInputSet :: "('a, immediate_policy) fill_method" where
  "Immediate_FillInputSet h t shards = do {
     (ms, readys, shards', ev) \<leftarrow> immediate_fill t
       (zip (sync_sets (policy h)) (ready_timestamps (policy h))) (input_stream_managers h) shards;
     Some (with_policy (with_managers h ms) ((policy h)\<lparr>ready_timestamps := readys\<rparr>), shards', ev) }"

subsection \<open>Mux\<close>

text \<open>
  The control stream is the last one; \<open>get_int\<close> is \<open>Packet::Get<int>\<close>, \<open>None\<close> where it
  aborts because the packet holds no \<open>int\<close>.
\<close>

definition Mux_GetNodeReadiness ::
    "('a packet \<Rightarrow> int option) \<Rightarrow> ('a, unit) readiness_method" where
  "Mux_GetNodeReadiness get_int h _ =
     (let ms = input_stream_managers h;
          control_stream = ms ! (length ms - 1);
          min_ts = MinTimestampOrBound control_stream
      in if ism_IsEmpty control_stream
         then Some (if min_ts = Timestamp_Done then kReadyForClose else kNotReady, min_ts, h, [])
         else do {
           let control_packet = ism_QueueHead control_stream;
           check (\<not> packet_IsEmpty control_packet);
           control_value \<leftarrow> get_int control_packet;
           check (0 \<le> control_value);
           check (control_value < int (length ms) - 1);
           let d = nat control_value;
           let (data_stream, ev) = ErasePacketsEarlierThan (ms ! d) min_ts;
           let h' = with_managers h (ms[d := data_stream]);
           let stream_timestamp = MinTimestampOrBound data_stream;
           if ism_IsEmpty data_stream
           then Some (if stream_timestamp \<le> min_ts then kNotReady else kReadyForProcess,
                      min_ts, h', stream_events d ev)
           else if min_ts < stream_timestamp
           then Some (kReadyForProcess, min_ts, h', stream_events d ev)
           else do {
             check (stream_timestamp = min_ts);
             Some (kReadyForProcess, min_ts, h', stream_events d ev) } })"

text \<open>The loop that discards old packets on the streams that were not selected.\<close>

fun erase_loop ::
    "timestamp \<Rightarrow> nat list \<Rightarrow> 'a input_stream list \<Rightarrow> 'a input_stream list \<times> handler_event list" where
  "erase_loop t [] ms = (ms, [])"
| "erase_loop t (i # is) ms =
     (let (s, ev) = ErasePacketsEarlierThan (ms ! i) t;
          (ms', ev') = erase_loop t is (ms[i := s])
      in (ms', stream_events i ev @ ev'))"

definition Mux_FillInputSet :: "('a packet \<Rightarrow> int option) \<Rightarrow> ('a, unit) fill_method" where
  "Mux_FillInputSet get_int h t shards = do {
     check (IsAllowedInStream t);
     let ms = input_stream_managers h;
     let c = length ms - 1;
     (control_stream, control_packet, dropped, done, ev1) \<leftarrow> PopPacketAtTimestamp (ms ! c) t;
     check (dropped = 0);
     check (\<not> packet_IsEmpty control_packet);
     control_value \<leftarrow> get_int control_packet;
     sh \<leftarrow> InputStreamShard_AddPacket (shards ! c) control_packet done;
     let shards = shards[c := sh];
     let ms = ms[c := control_stream];
     check (0 \<le> control_value);
     check (control_value < int c);
     let d = nat control_value;
     (data_stream, data_packet, dropped, done, ev2) \<leftarrow> PopPacketAtTimestamp (ms ! d) t;
     check (dropped = 0);
     sh \<leftarrow> InputStreamShard_AddPacket (shards ! d) data_packet done;
     let shards = shards[d := sh];
     let ms = ms[d := data_stream];
     let (ms, ev3) = erase_loop (NextAllowedInStream t) (filter (\<lambda>i. i \<noteq> d) [0..<c]) ms;
     Some (with_managers h ms, shards, stream_events c ev1 @ stream_events d ev2 @ ev3) }"

subsection \<open>Sync sets\<close>

record syncset_policy =
  syncset_sets :: "sync_set list"
  ready_sync_set_index :: int
  ready_timestamp :: timestamp

text \<open>
  \<open>PrepareForRun\<close> builds the sync sets from the options: lists of tag-and-index strings.
  \<open>resolve\<close> is \<open>ParseTagIndex\<close> followed by \<open>GetId\<close>, \<open>None\<close> where a \<open>CHECK\<close> on them fails.
\<close>

fun resolve_set :: "(string \<Rightarrow> nat option) \<Rightarrow> string list \<Rightarrow> nat set \<Rightarrow> (nat list \<times> nat set) option" where
  "resolve_set resolve [] used = Some ([], used)"
| "resolve_set resolve (ti # tis) used = do {
     id \<leftarrow> resolve ti;
     check (id \<notin> used);
     (ids, used) \<leftarrow> resolve_set resolve tis (insert id used);
     Some (id # ids, used) }"

fun resolve_sets ::
    "(string \<Rightarrow> nat option) \<Rightarrow> string list list \<Rightarrow> nat set \<Rightarrow> (nat list list \<times> nat set) option" where
  "resolve_sets resolve [] used = Some ([], used)"
| "resolve_sets resolve (tis # rest) used = do {
     check (tis \<noteq> []);
     (ids, used) \<leftarrow> resolve_set resolve tis used;
     (sets, used) \<leftarrow> resolve_sets resolve rest used;
     Some (ids # sets, used) }"

definition SyncSetHandler_PrepareForRun ::
    "(string \<Rightarrow> nat option) \<Rightarrow> string list list \<Rightarrow> ('a, syncset_policy) input_stream_handler \<Rightarrow>
     ('a, syncset_policy) input_stream_handler option" where
  "SyncSetHandler_PrepareForRun resolve options h = do {
     (sets, used) \<leftarrow> resolve_sets resolve options {};
     let remaining_ids = filter (\<lambda>i. i \<notin> used) [0..<length (input_stream_managers h)];
     let all_sets = sets @ (if remaining_ids \<noteq> [] then [remaining_ids] else []);
     Some (ish_PrepareForRun (with_policy h
       \<lparr>syncset_sets = map new_sync_set all_sets, ready_sync_set_index = -1,
        ready_timestamp = Timestamp_Done\<rparr>)) }"

text \<open>
  The loop over the sync sets. It drops the ones that are done; \<open>n\<close> is the index of the
  next one among those it keeps.
\<close>

fun syncset_loop ::
    "'a input_stream list \<Rightarrow> bool \<Rightarrow> sync_set list \<Rightarrow> nat \<Rightarrow> int \<Rightarrow> timestamp \<Rightarrow> timestamp \<Rightarrow>
     sync_set list \<times> int \<times> timestamp \<times> timestamp" where
  "syncset_loop managers process_ts [] n ready_index ready_ts min_ts = ([], ready_index, ready_ts, min_ts)"
| "syncset_loop managers process_ts (ss # rest) n ready_index ready_ts min_ts =
     (let (r, ts, ss') = SyncSet_GetReadiness managers process_ts ss
      in if r = kReadyForClose then syncset_loop managers process_ts rest n ready_index ready_ts ts
         else
           let (ready_index, ready_ts) =
                 (if r = kReadyForProcess \<and> ts < ready_ts then (int n, ts) else (ready_index, ready_ts));
               (kept, res) = syncset_loop managers process_ts rest (Suc n) ready_index ready_ts ts
           in (ss' # kept, res))"

definition SyncSetHandler_GetNodeReadiness :: "('a, syncset_policy) readiness_method" where
  "SyncSetHandler_GetNodeReadiness h min_ts =
     (let p = policy h
      in if 0 \<le> ready_sync_set_index p then Some (kReadyForProcess, ready_timestamp p, h, [])
         else
           let (kept, ready_index, ready_ts, ts) =
                 syncset_loop (input_stream_managers h) (process_timestamps h) (syncset_sets p) 0
                   (ready_sync_set_index p) (ready_timestamp p) min_ts;
               h' = with_policy h \<lparr>syncset_sets = kept, ready_sync_set_index = ready_index,
                      ready_timestamp = ready_ts\<rparr>
           in if 0 \<le> ready_index then Some (kReadyForProcess, ready_ts, h', [])
              else if kept = [] then Some (kReadyForClose, Timestamp_Done, h', [])
              else Some (kNotReady, ts, h', []))"

fun fill_bounds_of_sets ::
    "'a input_stream list \<Rightarrow> sync_set list \<Rightarrow> 'a input_stream_shard list \<Rightarrow>
     'a input_stream_shard list option" where
  "fill_bounds_of_sets ms [] shards = Some shards"
| "fill_bounds_of_sets ms (ss # rest) shards = do {
     shards \<leftarrow> SyncSet_FillInputBounds ms ss shards;
     fill_bounds_of_sets ms rest shards }"

definition SyncSetHandler_FillInputSet :: "('a, syncset_policy) fill_method" where
  "SyncSetHandler_FillInputSet h t shards =
     (let p = policy h; k = nat (ready_sync_set_index p) in do {
        check (0 \<le> ready_sync_set_index p);
        (ms, shards, ev) \<leftarrow> SyncSet_FillInputSet (input_stream_managers h) (syncset_sets p ! k) t shards;
        shards \<leftarrow> fill_bounds_of_sets ms (take k (syncset_sets p) @ drop (Suc k) (syncset_sets p)) shards;
        Some (with_policy (with_managers h ms)
                (p\<lparr>ready_sync_set_index := -1, ready_timestamp := Timestamp_Done\<rparr>), shards, ev) })"

subsection \<open>Timestamp alignment\<close>

record align_policy =
  timestamp_base_stream_id :: nat
  offsets_initialized :: bool
  timestamp_offsets :: "timestamp_diff list"

definition Align_PrepareForRun ::
    "('a, align_policy) input_stream_handler \<Rightarrow> ('a, align_policy) input_stream_handler" where
  "Align_PrepareForRun h = ish_PrepareForRun (with_policy h
     ((policy h)\<lparr>offsets_initialized := (length (input_stream_managers h) = 1)\<rparr>))"

text \<open>The first phase: the offsets of the streams that have a packet, and how many have none.\<close>

fun align_offsets ::
    "'a input_stream list \<Rightarrow> nat \<Rightarrow> timestamp \<Rightarrow> nat list \<Rightarrow> timestamp_diff list \<Rightarrow>
     (timestamp_diff list \<times> nat) option" where
  "align_offsets ms base base_ts [] offsets = Some (offsets, 0)"
| "align_offsets ms base base_ts (i # is) offsets =
     (if i = base then align_offsets ms base base_ts is offsets
      else if ism_IsEmpty (ms ! i) then do {
        (offsets, n) \<leftarrow> align_offsets ms base base_ts is offsets;
        Some (offsets, Suc n) }
      else do {
        d \<leftarrow> ts_minus base_ts (MinTimestampOrBound (ms ! i));
        align_offsets ms base base_ts is (offsets[i := d]) })"

text \<open>The second phase: the minimum of the aligned timestamps, and of the aligned bounds.\<close>

fun align_scan ::
    "'a input_stream list \<Rightarrow> timestamp_diff list \<Rightarrow> timestamp \<Rightarrow> timestamp \<Rightarrow>
     (timestamp \<times> timestamp) option" where
  "align_scan (s # ss) (d # ds) min_ts min_bound = do {
     t \<leftarrow> (if IsRangeValue (MinTimestampOrBound s) then ts_plus (MinTimestampOrBound s) d
          else Some (MinTimestampOrBound s));
     align_scan ss ds (min min_ts t) (if ism_IsEmpty s then min min_bound t else min_bound) }"
| "align_scan _ _ min_ts min_bound = Some (min_ts, min_bound)"

definition Align_GetNodeReadiness :: "('a, align_policy) readiness_method" where
  "Align_GetNodeReadiness h _ =
     (let p = policy h; ms = input_stream_managers h; base = timestamp_base_stream_id p
      in if \<not> offsets_initialized p then
           let base_ts = MinTimestampOrBound (ms ! base)
           in if ism_IsEmpty (ms ! base) then Some (kNotReady, base_ts, h, [])
              else do {
                (offsets, unknown) \<leftarrow> align_offsets ms base base_ts [0..<length ms] (timestamp_offsets p);
                Some (kReadyForProcess, base_ts, with_policy h
                  (p\<lparr>timestamp_offsets := offsets, offsets_initialized := (unknown = 0)\<rparr>), []) }
         else do {
           (min_ts, min_bound) \<leftarrow> align_scan ms (timestamp_offsets p) Timestamp_Done Timestamp_Done;
           if min_ts = Timestamp_Done then Some (kReadyForClose, min_ts, h, [])
           else if min_ts < min_bound then Some (kReadyForProcess, min_ts, h, [])
           else do {
             check (min_bound = min_ts);
             Some (kNotReady, min_ts, h, []) } })"

text \<open>In the first phase only the base stream is popped; the other shards get an empty packet.\<close>

fun align_fill_base ::
    "nat \<Rightarrow> timestamp \<Rightarrow> nat list \<Rightarrow> 'a input_stream list \<Rightarrow> 'a input_stream_shard list \<Rightarrow>
     ('a input_stream list \<times> 'a input_stream_shard list \<times> handler_event list) option" where
  "align_fill_base base t [] ms shards = Some (ms, shards, [])"
| "align_fill_base base t (i # is) ms shards =
     (if i = base then do {
        (s, p, dropped, done, ev) \<leftarrow> PopPacketAtTimestamp (ms ! i) t;
        check (dropped = 0);
        sh \<leftarrow> InputStreamShard_AddPacket (shards ! i) p done;
        (ms, shards, ev') \<leftarrow> align_fill_base base t is (ms[i := s]) (shards[i := sh]);
        Some (ms, shards, stream_events i ev @ ev') }
      else do {
        sh \<leftarrow> InputStreamShard_AddPacket (shards ! i) Packet_empty False;
        align_fill_base base t is ms (shards[i := sh]) })"

fun align_fill ::
    "timestamp \<Rightarrow> timestamp_diff list \<Rightarrow> nat list \<Rightarrow> 'a input_stream list \<Rightarrow> 'a input_stream_shard list \<Rightarrow>
     ('a input_stream list \<times> 'a input_stream_shard list \<times> handler_event list) option" where
  "align_fill t offsets [] ms shards = Some (ms, shards, [])"
| "align_fill t offsets (i # is) ms shards = do {
     stream_timestamp \<leftarrow> ts_minus_diff t (offsets ! i);
     (s, p, dropped, done, ev) \<leftarrow> PopPacketAtTimestamp (ms ! i) stream_timestamp;
     check (packet_IsEmpty p \<or> packet_timestamp p = stream_timestamp);
     let p' = (if packet_IsEmpty p then p else packet_At p t);
     check (dropped = 0);
     sh \<leftarrow> InputStreamShard_AddPacket (shards ! i) p' done;
     (ms, shards, ev') \<leftarrow> align_fill t offsets is (ms[i := s]) (shards[i := sh]);
     Some (ms, shards, stream_events i ev @ ev') }"

definition Align_FillInputSet :: "('a, align_policy) fill_method" where
  "Align_FillInputSet h t shards =
     (let p = policy h; ms = input_stream_managers h in do {
        check (IsAllowedInStream t);
        (ms, shards, ev) \<leftarrow> (if \<not> offsets_initialized p
          then align_fill_base (timestamp_base_stream_id p) t [0..<length ms] ms shards
          else align_fill t (timestamp_offsets p) [0..<length ms] ms shards);
        Some (with_managers h ms, shards, ev) })"

subsection \<open>Fixed size\<close>

text \<open>
  The queue sizes of the options are \<open>int32\<close> values: the model takes them as integers, which
  is exact as long as the trigger size is not the least \<open>int32\<close> and the target size not
  the greatest.
\<close>

record fixed_policy =
  fixed_sync_set :: sync_set
  trigger_queue_size :: int
  target_queue_size :: int
  fixed_min_size :: bool
  pending :: bool
  kept_timestamp :: timestamp

abbreviation QueueSize :: "'a input_stream \<Rightarrow> int" where
  "QueueSize s \<equiv> int (length (queue s))"

text \<open>\<open>None\<close> inside the result: the loop returned because a stream is below the trigger.\<close>

fun erase_all_scan :: "fixed_policy \<Rightarrow> 'a input_stream list \<Rightarrow> timestamp \<Rightarrow> timestamp option option" where
  "erase_all_scan p [] m = Some (Some m)"
| "erase_all_scan p (s # ss) m =
     (if QueueSize s < trigger_queue_size p then Some None
      else do {
        t \<leftarrow> GetMinTimestampAmongNLatest s (target_queue_size p);
        erase_all_scan p ss (min m t) })"

definition EraseAllSurplus ::
    "('a, fixed_policy) input_stream_handler \<Rightarrow>
     (('a, fixed_policy) input_stream_handler \<times> handler_event list) option" where
  "EraseAllSurplus h = do {
     r \<leftarrow> erase_all_scan (policy h) (input_stream_managers h) Timestamp_Max;
     case r of
       None \<Rightarrow> Some (h, [])
     | Some t \<Rightarrow>
         (let (ms, ev) = erase_loop t [0..<length (input_stream_managers h)] (input_stream_managers h)
          in Some (with_managers h ms, ev)) }"

definition fixed_PreviousAllowedInStream :: "timestamp \<Rightarrow> timestamp option" where
  "fixed_PreviousAllowedInStream bound =
     (if IsRangeValue bound then ts_minus_diff bound (TimestampDiff 1) else Some bound)"

fun MinStreamBound :: "'a input_stream list \<Rightarrow> timestamp \<Rightarrow> timestamp option" where
  "MinStreamBound [] m = Some m"
| "MinStreamBound (s # ss) m = do {
     b \<leftarrow> GetMinTimestampAmongNLatest s 1;
     MinStreamBound ss (min m (if Timestamp_Unset < b then NextAllowedInStream b
                               else MinTimestampOrBound s)) }"

fun MinTimestampToProcess :: "'a input_stream list \<Rightarrow> timestamp \<Rightarrow> timestamp option" where
  "MinTimestampToProcess [] m = Some m"
| "MinTimestampToProcess (s # ss) m = do {
     t \<leftarrow> (if ism_IsEmpty s then fixed_PreviousAllowedInStream (MinTimestampOrBound s)
          else Some (MinTimestampOrBound s));
     MinTimestampToProcess ss (min m t) }"

fun kept_scan :: "fixed_policy \<Rightarrow> 'a input_stream list \<Rightarrow> timestamp \<Rightarrow> timestamp option" where
  "kept_scan p [] kept = Some kept"
| "kept_scan p (s # ss) kept =
     (let queue_size = (if trigger_queue_size p \<le> QueueSize s then target_queue_size p
                        else trigger_queue_size p - 1)
      in if queue_size < QueueSize s then do {
           t \<leftarrow> GetMinTimestampAmongNLatest s (queue_size + 1);
           kept_scan p ss (max kept (NextAllowedInStream t)) }
         else kept_scan p ss kept)"

definition EraseAnySurplus ::
    "('a, fixed_policy) input_stream_handler \<Rightarrow> bool \<Rightarrow>
     (('a, fixed_policy) input_stream_handler \<times> handler_event list) option" where
  "EraseAnySurplus h keep_one = do {
     let ms = input_stream_managers h;
     kept \<leftarrow> kept_scan (policy h) ms (kept_timestamp (policy h));
     kept \<leftarrow> (if keep_one then do {
        b \<leftarrow> MinStreamBound ms Timestamp_Done;
        prev \<leftarrow> fixed_PreviousAllowedInStream b;
        Some (min kept prev) } else Some kept);
     let (ms, ev) = erase_loop kept [0..<length ms] ms;
     Some (with_policy (with_managers h ms) ((policy h)\<lparr>kept_timestamp := kept\<rparr>), ev) }"

definition EraseSurplusPackets ::
    "('a, fixed_policy) input_stream_handler \<Rightarrow> bool \<Rightarrow>
     (('a, fixed_policy) input_stream_handler \<times> handler_event list) option" where
  "EraseSurplusPackets h keep_one =
     (if fixed_min_size (policy h) then EraseAllSurplus h else EraseAnySurplus h keep_one)"

text \<open>The readiness of the base class, on the embedded sync set.\<close>

definition fixed_readiness ::
    "('a, fixed_policy) input_stream_handler \<Rightarrow>
     node_readiness \<times> timestamp \<times> ('a, fixed_policy) input_stream_handler" where
  "fixed_readiness h =
     (let (r, ts, ss) = SyncSet_GetReadiness (input_stream_managers h) (process_timestamps h)
            (fixed_sync_set (policy h))
      in (r, ts, with_policy h ((policy h)\<lparr>fixed_sync_set := ss\<rparr>)))"

partial_function (option) fixed_readiness_loop ::
    "node_readiness \<Rightarrow> timestamp \<Rightarrow> ('a, fixed_policy) input_stream_handler \<Rightarrow> handler_event list \<Rightarrow>
     (node_readiness \<times> timestamp \<times> ('a, fixed_policy) input_stream_handler \<times> handler_event list) option" where
  "fixed_readiness_loop r ts h ev =
     (if ts < kept_timestamp (policy h) \<and> r = kReadyForProcess then
        Option.bind (EraseSurplusPackets h False) (\<lambda>(h, ev').
          case fixed_readiness h of (r, ts, h) \<Rightarrow> fixed_readiness_loop r ts h (ev @ ev'))
      else Some (r, ts, h, ev))"

definition FixedSize_GetNodeReadiness :: "('a, fixed_policy) readiness_method" where
  "FixedSize_GetNodeReadiness h min_ts =
     (if pending (policy h) then Some (kNotReady, min_ts, h, [])
      else do {
        (h, ev) \<leftarrow> EraseSurplusPackets h False;
        let (r, ts, h) = fixed_readiness h;
        (r, ts, h, ev) \<leftarrow> fixed_readiness_loop r ts h ev;
        Some (r, ts, with_policy h ((policy h)\<lparr>pending := (r = kReadyForProcess)\<rparr>), ev) })"

definition FixedSize_AddPackets ::
    "('a, fixed_policy) input_stream_handler \<Rightarrow> nat \<Rightarrow> 'a packet list \<Rightarrow>
     (('a, fixed_policy) input_stream_handler \<times> handler_event list) option" where
  "FixedSize_AddPackets h i packets =
     (let (h, ev) = ish_AddPackets h i packets
      in if pending (policy h) then Some (h, ev)
         else do { (h, ev') \<leftarrow> EraseSurplusPackets h False; Some (h, ev @ ev') })"

definition FixedSize_FillInputSet :: "('a, fixed_policy) fill_method" where
  "FixedSize_FillInputSet h t shards = do {
     (h, ev) \<leftarrow> EraseSurplusPackets h True;
     t \<leftarrow> MinTimestampToProcess (input_stream_managers h) Timestamp_Done;
     (ms, shards, ev') \<leftarrow> SyncSet_FillInputSet (input_stream_managers h) (fixed_sync_set (policy h)) t shards;
     Some (with_policy (with_managers h ms) ((policy h)\<lparr>pending := False\<rparr>), shards, ev @ ev') }"

end
