(* ===== verification/HandlerContracts.thy ===== *)
theory HandlerContracts
  imports StreamHandlers
begin

section \<open>The contract between handlers and streams\<close>

text \<open>
  What a handler relies on when it pops its streams, as a locale: a stream that is ready for
  the pop yields a packet and nothing is dropped, and a stream that is done yields an empty
  packet and stays done. Proved once from it: a whole \<open>FillInputSet\<close> loop never fails one of
  its \<open>CHECK\<close>s. The two pops of the stream manager are its interpretations.
\<close>

locale stream_pop =
  fixes ready :: "'a input_stream \<Rightarrow> bool"
    and pop :: "'a input_stream \<Rightarrow> ('a input_stream \<times> 'a packet \<times> int \<times> bool \<times> queue_event list) option"
    and after :: "'a input_stream \<Rightarrow> 'a input_stream"
    and taken :: "'a input_stream \<Rightarrow> 'a packet"
  assumes pop_ready: "ready s \<Longrightarrow> \<exists>ev. pop s = Some (after s, taken s, 0, ism_IsDone (after s), ev)"
    and done_taken: "ready s \<Longrightarrow> ism_IsDone s \<Longrightarrow> packet_IsEmpty (taken s) \<and> ism_IsDone (after s)"

text \<open>A list changed at the given indices.\<close>

definition changed_at :: "nat list \<Rightarrow> (nat \<Rightarrow> 'b) \<Rightarrow> 'b list \<Rightarrow> 'b list" where
  "changed_at is f xs = map (\<lambda>i. if i \<in> set is then f i else xs ! i) [0..<length xs]"

lemma changed_at_simps [simp]:
  "length (changed_at is f xs) = length xs"
  "i < length xs \<Longrightarrow> changed_at is f xs ! i = (if i \<in> set is then f i else xs ! i)"
  "changed_at [] f xs = xs"
  by (auto simp: changed_at_def intro: nth_equalityI)

lemma changed_at_Cons:
  "i \<notin> set is \<Longrightarrow> changed_at is f (xs[i := f i]) = changed_at (i # is) f xs"
  by (rule nth_equalityI) (auto simp: nth_list_update)

lemma changed_at_cong:
  "(\<And>i. i \<in> set is \<Longrightarrow> i < length xs \<Longrightarrow> f i = g i) \<Longrightarrow> changed_at is f xs = changed_at is g xs"
  by (rule nth_equalityI) auto

definition shard_with :: "'a input_stream_shard \<Rightarrow> 'a packet \<Rightarrow> bool \<Rightarrow> 'a input_stream_shard" where
  "shard_with sh p done = sh\<lparr>packet_queue := packet_queue sh @ [p], is_done := done\<rparr>"

text \<open>A shard that says its stream is done says the truth.\<close>

definition shards_agree :: "'a input_stream list \<Rightarrow> 'a input_stream_shard list \<Rightarrow> bool" where
  "shards_agree ms shards \<longleftrightarrow> length shards = length ms \<and>
     (\<forall>i < length ms. is_done (shards ! i) \<longrightarrow> ism_IsDone (ms ! i))"

context stream_pop
begin

lemma fill_loop_ready:
  assumes "distinct is" "\<forall>i \<in> set is. i < length ss \<and> ready (ss ! i)" "shards_agree ss shards"
  shows "\<exists>ev. fill_loop pop is ss shards = Some (changed_at is (\<lambda>i. after (ss ! i)) ss,
    changed_at is (\<lambda>i. shard_with (shards ! i) (taken (ss ! i)) (ism_IsDone (after (ss ! i)))) shards, ev)"
  using assms
proof (induction "is" arbitrary: ss shards)
  case (Cons i "is")
  let ?s = "ss ! i" and ?sh = "shards ! i"
  have i: "i < length ss" "i < length shards" "ready ?s" and notin: "i \<notin> set is"
    using Cons.prems by (auto simp: shards_agree_def)
  obtain ev where pop: "pop ?s = Some (after ?s, taken ?s, 0, ism_IsDone (after ?s), ev)"
    using pop_ready [OF i(3)] by blast
  have ok: "\<not> is_done ?sh \<or> packet_IsEmpty (taken ?s)"
    using done_taken [OF i(3)] Cons.prems(3) i by (auto simp: shards_agree_def)
  let ?ss = "ss[i := after ?s]"
  let ?shards = "shards[i := shard_with ?sh (taken ?s) (ism_IsDone (after ?s))]"
  have "shards_agree ?ss ?shards"
    using Cons.prems(3) i by (auto simp: shards_agree_def nth_list_update shard_with_def)
  moreover have "\<forall>j \<in> set is. j < length ?ss \<and> ready (?ss ! j)"
    using Cons.prems(2) notin by (auto simp: nth_list_update)
  ultimately obtain ev' where IH: "fill_loop pop is ?ss ?shards =
      Some (changed_at is (\<lambda>j. after (?ss ! j)) ?ss,
        changed_at is (\<lambda>j. shard_with (?shards ! j) (taken (?ss ! j)) (ism_IsDone (after (?ss ! j)))) ?shards, ev')"
    using Cons.IH [of ?ss ?shards] Cons.prems(1) by auto
  have "changed_at is (\<lambda>j. after (?ss ! j)) ?ss = changed_at (i # is) (\<lambda>j. after (ss ! j)) ss"
    using notin i by (intro nth_equalityI) (auto simp: nth_list_update)
  moreover have "changed_at is (\<lambda>j. shard_with (?shards ! j) (taken (?ss ! j)) (ism_IsDone (after (?ss ! j)))) ?shards =
      changed_at (i # is) (\<lambda>j. shard_with (shards ! j) (taken (ss ! j)) (ism_IsDone (after (ss ! j)))) shards"
    using notin i by (intro nth_equalityI) (auto simp: nth_list_update)
  moreover have "InputStreamShard_AddPacket ?sh (taken ?s) (ism_IsDone (after ?s)) =
      Some (shard_with ?sh (taken ?s) (ism_IsDone (after ?s)))"
    using ok by (simp add: InputStreamShard_AddPacket_def shard_with_def)
  ultimately show ?case using IH by (simp add: pop)
qed simp

lemma shards_agree_fill:
  assumes "distinct is" "\<forall>i \<in> set is. i < length ss \<and> ready (ss ! i)" "shards_agree ss shards"
  shows "shards_agree (changed_at is (\<lambda>i. after (ss ! i)) ss)
    (changed_at is (\<lambda>i. shard_with (shards ! i) (taken (ss ! i)) (ism_IsDone (after (ss ! i)))) shards)"
  using assms by (auto simp: shards_agree_def shard_with_def)

end

subsection \<open>The pop at a timestamp and the pop of the head\<close>

definition timed_ready :: "timestamp \<Rightarrow> 'a input_stream \<Rightarrow> bool" where
  "timed_ready t s \<longleftrightarrow> timed_inv s \<and> IsAllowedInStream t \<and> last_select_timestamp s \<le> t \<and>
     t \<le> MinTimestampOrBound s"

definition after_timed :: "timestamp \<Rightarrow> 'a input_stream \<Rightarrow> 'a input_stream" where
  "after_timed t s = popped s t"

definition taken_timed :: "timestamp \<Rightarrow> 'a input_stream \<Rightarrow> 'a packet" where
  "taken_timed t s = (case packet_at s t of Some p \<Rightarrow> p
     | None \<Rightarrow> packet_At Packet_empty (PreviousAllowedInStream (MinTimestampOrBound (after_timed t s))))"

lemma none_dropped:
  assumes "timed_inv s" "t \<le> MinTimestampOrBound s"
  shows "filter (\<lambda>p. packet_timestamp p < t) (queue s) = []"
proof -
  have "\<not> packet_timestamp p < t" if "p \<in> set (queue s)" for p
    using MinTimestampOrBound_le_queue [OF assms(1) that] assms(2) by simp
  then show ?thesis by (simp add: filter_empty_conv)
qed

lemma IsDone_timed:
  assumes "ism_IsDone s" "IsAllowedInStream t"
  shows "packet_IsEmpty (taken_timed t s) \<and> ism_IsDone (after_timed t s)"
proof -
  have "\<not> Timestamp_Done \<le> t" using assms(2) by (auto simp: ts_iff)
  then show ?thesis using assms
    by (auto simp: ism_IsDone_def taken_timed_def after_timed_def packet_at_def not_le)
qed

interpretation timed_pop: stream_pop "timed_ready t" "\<lambda>s. PopPacketAtTimestamp s t"
  "after_timed t" "taken_timed t" for t
proof
  fix s :: "'a input_stream"
  assume r: "timed_ready t s"
  then show "\<exists>ev. PopPacketAtTimestamp s t =
      Some (after_timed t s, taken_timed t s, 0, ism_IsDone (after_timed t s), ev)"
    using PopPacketAtTimestamp_eq [of s t] none_dropped [of s t]
    unfolding timed_ready_def after_timed_def taken_timed_def by simp
  assume "ism_IsDone s"
  then show "packet_IsEmpty (taken_timed t s) \<and> ism_IsDone (after_timed t s)"
    using IsDone_timed r by (auto simp: timed_ready_def)
qed

definition head_ready :: "'a input_stream \<Rightarrow> bool" where
  "head_ready s \<longleftrightarrow> \<not> enable_timestamps s"

definition after_head :: "'a input_stream \<Rightarrow> 'a input_stream" where
  "after_head s = s\<lparr>queue := tl (queue s)\<rparr>"

interpretation head_pop: stream_pop head_ready pop_head after_head ism_QueueHead
proof
  fix s :: "'a input_stream"
  assume r: "head_ready s"
  then show "\<exists>ev. pop_head s = Some (after_head s, ism_QueueHead s, 0, ism_IsDone (after_head s), ev)"
    by (cases "queue s")
      (simp_all add: pop_head_def PopQueueHead_def head_ready_def after_head_def ism_QueueHead_def Let_def)
  assume "ism_IsDone s"
  then show "packet_IsEmpty (ism_QueueHead s) \<and> ism_IsDone (after_head s)"
    by (simp add: ism_IsDone_def ism_QueueHead_def after_head_def)
qed

end
