(* ===== verification/SyncSets.thy ===== *)
theory SyncSets
  imports HandlerContracts
begin

section \<open>Correctness of a sync set\<close>

text \<open>
  The invariant a sync set keeps over its streams, what its readiness means, and that filling
  an input set after a positive answer never aborts and delivers exactly the settled packets.
\<close>

text \<open>The last timestamp the set has processed: nothing at or before it is still to come.\<close>

abbreviation processed :: "sync_set \<Rightarrow> timestamp" where
  "processed ss \<equiv> max (last_processed_ts ss) Timestamp_Unstarted"

definition sync_inv :: "'a input_stream list \<Rightarrow> sync_set \<Rightarrow> bool" where
  "sync_inv ms ss \<longleftrightarrow> distinct (stream_ids ss) \<and> stream_ids ss \<noteq> [] \<and>
     (\<forall>i \<in> set (stream_ids ss). i < length ms \<and> timed_inv (ms ! i) \<and>
        processed ss < MinTimestampOrBound (ms ! i)) \<and>
     ((\<forall>i \<in> set (stream_ids ss). last_select_timestamp (ms ! i) \<le> processed ss) \<or>
      (\<forall>i \<in> set (stream_ids ss). Timestamp_OneOverPostStream \<le> MinTimestampOrBound (ms ! i)))"

text \<open>
  The second alternative of the last clause is a set that has processed \<open>PostStream\<close> and is
  then found done: its last processed timestamp falls back to \<open>Max\<close>, and it is never ready
  for another packet.
\<close>

lemma sync_invD:
  assumes "sync_inv ms ss" "i \<in> set (stream_ids ss)"
  shows "i < length ms" "timed_inv (ms ! i)" "processed ss < MinTimestampOrBound (ms ! i)"
  using assms by (auto simp: sync_inv_def)

text \<open>Nothing can arrive on a stream at or before a timestamp it has settled.\<close>

definition settled_at :: "'a input_stream \<Rightarrow> timestamp \<Rightarrow> bool" where
  "settled_at s t \<longleftrightarrow> t < next_timestamp_bound s"

subsection \<open>The minima\<close>

lemma min_bound_le: "s \<in> set streams \<Longrightarrow> queue s = [] \<Longrightarrow> min_bound_of streams \<le> next_timestamp_bound s"
  by (force simp: min_bound_of_def ism_IsEmpty_def intro!: min_over_le)

lemma min_packet_le: "s \<in> set streams \<Longrightarrow> queue s \<noteq> [] \<Longrightarrow> min_packet_of streams \<le> MinTimestampOrBound s"
  by (force simp: min_packet_of_def ism_IsEmpty_def intro!: min_over_le)

lemma min_both_le: "s \<in> set streams \<Longrightarrow> min (min_packet_of streams) (min_bound_of streams) \<le> MinTimestampOrBound s"
  using min_bound_le [of s streams] min_packet_le [of s streams]
  by (cases "queue s = []") (auto simp: min_le_iff_disj)

lemma less_min_both_iff:
  "b < Timestamp_Done \<Longrightarrow>
   b < min (min_packet_of streams) (min_bound_of streams) \<longleftrightarrow> (\<forall>s \<in> set streams. b < MinTimestampOrBound s)"
  by (auto simp: min_packet_of_def min_bound_of_def min_over_less_iff)

lemma min_packet_cases:
  "min_packet_of streams = Timestamp_Done \<or>
   (\<exists>s \<in> set streams. queue s \<noteq> [] \<and> min_packet_of streams = MinTimestampOrBound s)"
  using min_over_mem [of Timestamp_Done "map MinTimestampOrBound (filter (\<lambda>s. \<not> ism_IsEmpty s) streams)"]
  by (auto simp: min_packet_of_def ism_IsEmpty_def)

lemma min_bound_cases:
  "min_bound_of streams = Timestamp_Done \<or>
   (\<exists>s \<in> set streams. queue s = [] \<and> min_bound_of streams = next_timestamp_bound s)"
  using min_over_mem [of Timestamp_Done "map MinTimestampOrBound (filter ism_IsEmpty streams)"]
  by (auto simp: min_bound_of_def ism_IsEmpty_def)

subsection \<open>What readiness means\<close>

definition streams_of :: "'a input_stream list \<Rightarrow> sync_set \<Rightarrow> 'a input_stream list" where
  "streams_of ms ss = map (\<lambda>i. ms ! i) (stream_ids ss)"

lemma set_streams_of: "set (streams_of ms ss) = (\<lambda>i. ms ! i) ` set (stream_ids ss)"
  by (simp add: streams_of_def)

text \<open>The process timestamp lies below every minimum, above everything processed.\<close>

lemma SyncSet_ready_bounds:
  assumes inv: "sync_inv ms ss"
    and ready: "SyncSet_GetReadiness ms pts ss = (kReadyForProcess, t, ss')"
  shows "ss' = ss\<lparr>last_processed_ts := t\<rparr>" "processed ss < t" "IsAllowedInStream t"
    "\<forall>s \<in> set (streams_of ms ss). t \<le> MinTimestampOrBound s \<and> settled_at s t"
    "\<not> pts \<Longrightarrow> \<exists>s \<in> set (streams_of ms ss). queue s \<noteq> [] \<and> MinTimestampOrBound s = t"
proof -
  let ?S = "streams_of ms ss"
  let ?P = "min_packet_of ?S" and ?B = "min_bound_of ?S"
  let ?st = "if ?P = Timestamp_PostStream \<and> ?P < ?B then ?P else PreviousAllowedInStream ?B"
  have P: "processed ss < MinTimestampOrBound s" "timed_inv s" if "s \<in> set ?S" for s
    using that sync_invD [OF inv] by (auto simp: set_streams_of)
  have low: "min ?P ?B < Timestamp_OneOverPostStream"
    and alt: "(\<not> pts \<and> ?P < ?B \<and> t = min ?P ?B) \<or> (pts \<and> processed ss < min ?P ?st \<and> t = min ?P ?st)"
    and ss': "ss' = ss\<lparr>last_processed_ts := t\<rparr>"
    using ready by (auto simp: SyncSet_GetReadiness_def streams_of_def Let_def not_le min_less_iff_disj
        split: if_splits)
  have "processed ss < Timestamp_Done"
  proof -
    obtain i where "i \<in> set (stream_ids ss)" using inv by (cases "stream_ids ss") (auto simp: sync_inv_def)
    then show ?thesis using sync_invD(3) [OF inv] by (blast intro: order_less_le_trans Done_greatest)
  qed
  then have lower: "processed ss < min ?P ?B" using P(1) less_min_both_iff by blast
  have un: "Timestamp_Unstarted \<le> processed ss" by simp
  have tP: "t \<le> ?P" using alt by auto
  have tB: "t < ?B"
  proof (cases pts)
    case True
    have "Timestamp_Unstarted < ?B" using lower un by (auto intro: order_le_less_trans)
    then have "?st < ?B" using Previous_less [of ?B] by auto
    moreover have "t \<le> ?st" using alt True by (auto simp only: min.cobounded2)
    ultimately show ?thesis by (rule order_le_less_trans [rotated])
  qed (use alt in auto)
  show "ss' = ss\<lparr>last_processed_ts := t\<rparr>" by (rule ss')
  show gt: "processed ss < t" using alt lower by auto
  have "t \<le> min ?P ?B" using tP tB by (simp add: less_imp_le)
  then have "t < Timestamp_OneOverPostStream" using low by (rule order_le_less_trans)
  moreover have "Timestamp_Unstarted < t" using gt un by (rule order_le_less_trans [rotated])
  ultimately show "IsAllowedInStream t" by (simp add: ts_iff)
  show "\<forall>s \<in> set ?S. t \<le> MinTimestampOrBound s \<and> settled_at s t"
  proof
    fix s assume s: "s \<in> set ?S"
    show "t \<le> MinTimestampOrBound s \<and> settled_at s t"
    proof (cases "queue s")
      case Nil
      then have "t < next_timestamp_bound s" using min_bound_le [OF s] tB by (auto intro: order_less_le_trans)
      then show ?thesis using Nil by (simp add: settled_at_def)
    next
      case (Cons p q)
      then have le: "t \<le> MinTimestampOrBound s" using min_packet_le [OF s] tP by (auto intro: order_trans)
      have "MinTimestampOrBound s < next_timestamp_bound s"
        using timed_invD(6) [OF P(2) [OF s], of p] Cons by (simp add: MinTimestampOrBound_def)
      with le show ?thesis by (auto simp: settled_at_def intro: order_le_less_trans)
    qed
  qed
  show "\<exists>s \<in> set ?S. queue s \<noteq> [] \<and> MinTimestampOrBound s = t" if "\<not> pts"
  proof -
    have "t = ?P" "?P < ?B" using alt that by auto
    moreover from this have "?P \<noteq> Timestamp_Done" by auto
    ultimately show ?thesis using min_packet_cases [of ?S] by auto
  qed
qed

lemma SyncSet_close_iff:
  assumes "SyncSet_GetReadiness ms pts ss = (r, t, ss')"
  shows "r = kReadyForClose \<longleftrightarrow>
    (\<forall>s \<in> set (streams_of ms ss). Timestamp_OneOverPostStream \<le> MinTimestampOrBound s)"
proof -
  have "r = kReadyForClose \<longleftrightarrow> Timestamp_OneOverPostStream \<le>
      min (min_packet_of (streams_of ms ss)) (min_bound_of (streams_of ms ss))"
    using assms by (auto simp: SyncSet_GetReadiness_def streams_of_def Let_def split: if_splits)
  also have "\<dots> \<longleftrightarrow> (\<forall>s \<in> set (streams_of ms ss). Timestamp_OneOverPostStream \<le> MinTimestampOrBound s)"
    by (auto simp: min_packet_of_def min_bound_of_def min_over_le_iff)
  finally show ?thesis .
qed

text \<open>Conversely, a set with a packet whose timestamp every stream has settled is ready.\<close>

lemma SyncSet_ready_complete:
  assumes "SyncSet_GetReadiness ms False ss = (r, t, ss')"
    and s: "s \<in> set (streams_of ms ss)" "queue s \<noteq> []" "IsAllowedInStream (MinTimestampOrBound s)"
    and settled: "\<forall>u \<in> set (streams_of ms ss). queue u = [] \<longrightarrow> MinTimestampOrBound s < next_timestamp_bound u"
  shows "r = kReadyForProcess \<and> t \<le> MinTimestampOrBound s"
proof -
  let ?S = "streams_of ms ss"
  have less_Done: "MinTimestampOrBound s < Timestamp_Done" using s(3) by (auto simp: ts_iff)
  have "MinTimestampOrBound s < min_bound_of ?S"
    using settled less_Done by (auto simp: min_bound_of_def min_over_less_iff ism_IsEmpty_def)
  then have less: "min_packet_of ?S < min_bound_of ?S"
    using min_packet_le [OF s(1,2)] by (rule order_le_less_trans [rotated])
  moreover have "min_packet_of ?S < Timestamp_OneOverPostStream"
    using min_packet_le [OF s(1,2)] s(3) by (auto simp: ts_iff)
  ultimately have "r = kReadyForProcess" "t = min_packet_of ?S"
    using assms(1) by (auto simp: SyncSet_GetReadiness_def streams_of_def Let_def min_le_iff_disj
        min_def not_le split: if_splits)
  then show ?thesis using min_packet_le [OF s(1,2)] by simp
qed

subsection \<open>Filling the shards\<close>

definition filled_streams :: "'a input_stream list \<Rightarrow> nat list \<Rightarrow> timestamp \<Rightarrow> 'a input_stream list" where
  "filled_streams ms is t = changed_at is (\<lambda>i. after_timed t (ms ! i)) ms"

definition filled_shards ::
    "'a input_stream list \<Rightarrow> nat list \<Rightarrow> timestamp \<Rightarrow> 'a input_stream_shard list \<Rightarrow>
     'a input_stream_shard list" where
  "filled_shards ms is t shards = changed_at is
     (\<lambda>i. shard_with (shards ! i) (taken_timed t (ms ! i)) (ism_IsDone (after_timed t (ms ! i)))) shards"

text \<open>The state between a positive readiness and the filling it allows.\<close>

definition may_fill :: "'a input_stream list \<Rightarrow> nat list \<Rightarrow> timestamp \<Rightarrow> bool" where
  "may_fill ms is t \<longleftrightarrow> distinct is \<and> (\<forall>i \<in> set is. i < length ms \<and> timed_ready t (ms ! i))"

lemma last_select_le:
  assumes inv: "sync_inv ms ss"
    and ready: "SyncSet_GetReadiness ms pts ss = (kReadyForProcess, t, ss')" and i: "i \<in> set (stream_ids ss)"
  shows "last_select_timestamp (ms ! i) \<le> processed ss"
  using SyncSet_close_iff [OF ready] inv i by (auto simp: sync_inv_def set_streams_of)

lemma may_fill_ready:
  assumes inv: "sync_inv ms ss"
    and ready: "SyncSet_GetReadiness ms pts ss = (kReadyForProcess, t, ss')"
  shows "may_fill ms (stream_ids ss) t"
proof -
  note b = SyncSet_ready_bounds [OF inv ready]
  have "timed_ready t (ms ! i)" if i: "i \<in> set (stream_ids ss)" for i
    using sync_invD(2) [OF inv i] b(2,3,4) i last_select_le [OF inv ready i]
    by (auto simp: timed_ready_def set_streams_of simp del: max_less_iff_conj
        intro: order_trans [OF _ less_imp_le])
  moreover have "distinct (stream_ids ss)" using inv by (simp add: sync_inv_def)
  ultimately show ?thesis using sync_invD(1) [OF inv] by (simp add: may_fill_def)
qed

lemma SyncSet_fill:
  assumes "may_fill ms (stream_ids ss) t" "IsAllowedInStream t" "shards_agree ms shards"
  shows "\<exists>ev. SyncSet_FillInputSet ms ss t shards =
      Some (filled_streams ms (stream_ids ss) t, filled_shards ms (stream_ids ss) t shards, ev)"
  using timed_pop.fill_loop_ready [of "stream_ids ss" ms t shards] assms
  by (simp add: SyncSet_FillInputSet_def may_fill_def filled_streams_def filled_shards_def)

lemma shards_agree_filled:
  assumes "may_fill ms is t" "shards_agree ms shards"
  shows "shards_agree (filled_streams ms is t) (filled_shards ms is t shards)"
  using timed_pop.shards_agree_fill [of "is" ms t shards] assms
  by (simp add: may_fill_def filled_streams_def filled_shards_def)

text \<open>Another context's shards still agree after the streams have been popped.\<close>

lemma shards_agree_pop:
  assumes "may_fill ms is t" "IsAllowedInStream t" "shards_agree ms shards"
  shows "shards_agree (filled_streams ms is t) shards"
  using assms IsDone_timed [of _ t] by (auto simp: shards_agree_def filled_streams_def may_fill_def)

lemma after_timed_facts:
  assumes "timed_ready t s"
  shows "timed_inv (after_timed t s)" "last_select_timestamp (after_timed t s) = t"
    "t < MinTimestampOrBound (after_timed t s)" "closed (after_timed t s) = closed s"
  using assms timed_inv_popped [of s t] popped_after [of t s]
  by (simp_all add: timed_ready_def after_timed_def)

lemma sync_inv_filled:
  assumes "sync_inv ms ss" "may_fill ms (stream_ids ss) t" "IsAllowedInStream t"
  shows "sync_inv (filled_streams ms (stream_ids ss) t) (ss\<lparr>last_processed_ts := t\<rparr>)"
proof -
  have "Timestamp_Unstarted \<le> t" using assms(3) by (simp add: ts_iff)
  then have m: "max t Timestamp_Unstarted = t" by simp
  have "timed_inv (after_timed t (ms ! i)) \<and> t < MinTimestampOrBound (after_timed t (ms ! i)) \<and>
      last_select_timestamp (after_timed t (ms ! i)) \<le> t" if "i \<in> set (stream_ids ss)" for i
    using assms(2) that after_timed_facts [of t "ms ! i"] by (simp add: may_fill_def)
  moreover have "Timestamp_Unstarted < MinTimestampOrBound (after_timed t (ms ! i))"
    if "i \<in> set (stream_ids ss)" for i
    using calculation [OF that] \<open>Timestamp_Unstarted \<le> t\<close> by (blast intro: order_le_less_trans)
  ultimately show ?thesis using sync_invD(1) [OF assms(1)] assms(1)
    by (simp add: sync_inv_def filled_streams_def m)
qed

lemma SyncSet_not_ready_inv:
  assumes inv: "sync_inv ms ss" and r: "SyncSet_GetReadiness ms pts ss = (r, t, ss')"
    and "r \<noteq> kReadyForProcess"
  shows "sync_inv ms ss'" "stream_ids ss' = stream_ids ss"
proof -
  show ids: "stream_ids ss' = stream_ids ss"
    using r by (auto simp: SyncSet_GetReadiness_def Let_def split: if_splits)
  show "sync_inv ms ss'"
  proof (cases "r = kReadyForClose")
    case True
    then have "Timestamp_OneOverPostStream \<le> MinTimestampOrBound (ms ! i)" if "i \<in> set (stream_ids ss)" for i
      using SyncSet_close_iff [OF r] that by (auto simp: set_streams_of)
    moreover have "last_processed_ts ss' = Timestamp_Max"
    proof -
      have "PreviousAllowedInStream Timestamp_Done = Timestamp_Max" by code_simp
      then show ?thesis using r True by (auto simp: SyncSet_GetReadiness_def Let_def split: if_splits)
    qed
    moreover have "Timestamp_Max < Timestamp_OneOverPostStream" "max Timestamp_Max Timestamp_Unstarted = Timestamp_Max"
      by (simp_all add: ts_iff max_def)
    ultimately show ?thesis using inv by (auto simp: sync_inv_def ids intro: order_less_le_trans)
  next
    case False
    then have "ss' = ss" using r assms(3)
      by (auto simp: SyncSet_GetReadiness_def Let_def split: if_splits)
    with inv show ?thesis by simp
  qed
qed

end
