(* ===== verification/DefaultHandler.thy ===== *)
theory DefaultHandler
  imports SyncSets
begin

section \<open>The default handler schedules without aborting\<close>

text \<open>
  The composition of the default handler, its streams and the context manager: from a state
  that satisfies the invariant, \<open>ScheduleInvocations\<close> ends, fails no \<open>CHECK\<close>, schedules at most
  the allowed number of invocations and keeps the invariant, sequential or parallel, with or
  without batching and with or without the processing of timestamp bounds.
\<close>

definition all_contexts :: "'a context_manager \<Rightarrow> 'a calculator_context set" where
  "all_contexts cm = set_option (default_context cm) \<union> snd ` set (active_contexts cm) \<union>
     set (idle_contexts cm)"

text \<open>The contexts in flight are for timestamps that have been processed.\<close>

definition keys_le :: "timestamp \<Rightarrow> 'a context_manager \<Rightarrow> bool" where
  "keys_le L cm \<longleftrightarrow> (\<forall>k \<in> fst ` set (active_contexts cm). k \<le> L)"

definition cm_inv :: "'a input_stream list \<Rightarrow> 'a context_manager \<Rightarrow> bool" where
  "cm_inv ms cm \<longleftrightarrow>
     default_context cm \<noteq> None \<and>
     (\<forall>cc \<in> all_contexts cm. shards_agree ms (inputs cc)) \<and>
     (let (cc, st) = setup_shards_callback cm (new_calculator_context cm)
      in st = OkStatus \<and> shards_agree ms (inputs cc) \<and> (\<forall>sh \<in> set (inputs cc). \<not> is_done sh))"

definition default_inv :: "('a, sync_set) input_stream_handler \<Rightarrow> 'a context_manager \<Rightarrow> bool" where
  "default_inv h cm \<longleftrightarrow>
     sync_inv (input_stream_managers h) (policy h) \<and>
     stream_ids (policy h) = [0..<length (input_stream_managers h)] \<and>
     \<not> late_preparation h \<and>
     cm_inv (input_stream_managers h) cm \<and>
     (keys_le (processed (policy h)) cm \<or>
      (\<forall>s \<in> set (streams_of (input_stream_managers h) (policy h)).
         Timestamp_OneOverPostStream \<le> MinTimestampOrBound s))"

lemma get_context_mem: "get_context cm r = Some cc \<Longrightarrow> cc \<in> all_contexts cm"
  by (cases r) (auto simp: all_contexts_def dest!: map_of_SomeD intro: rev_image_eqI)

lemma all_contexts_put:
  "all_contexts (put_context cm r cc) \<subseteq> insert cc (all_contexts cm)"
  by (cases r) (auto simp: all_contexts_def split: if_splits intro: rev_image_eqI)

lemma active_keys_put: "fst ` set (active_contexts (put_context cm r cc)) = fst ` set (active_contexts cm)"
  by (metis image_set put_context_simps(6))

text \<open>Preparing a context for a new timestamp succeeds and yields a context that agrees.\<close>

lemma new_calculator_context_upd [simp]:
  "new_calculator_context (cm\<lparr>active_contexts := a\<rparr>) = new_calculator_context cm"
  "new_calculator_context (cm\<lparr>idle_contexts := i\<rparr>) = new_calculator_context cm"
  "new_calculator_context (put_context cm r cc) = new_calculator_context cm"
  by (simp_all add: new_calculator_context_def)

lemma map_of_insort:
  "t \<notin> fst ` set xs \<Longrightarrow> map_of (insort_key fst (t, c) xs) t = Some c"
  by (induction xs) (auto simp: image_iff)

lemma PrepareCalculatorContext_ok:
  assumes inv: "cm_inv ms cm" and keys: "keys_le L cm" and "L < t"
  shows "\<exists>cm' r cc. PrepareCalculatorContext cm t = Some (cm', r) \<and> get_context cm' r = Some cc \<and>
    cm_inv ms cm' \<and> keys_le t cm'"
proof (cases "cm_run_in_parallel cm")
  case False
  have "keys_le t cm" using keys \<open>L < t\<close> by (auto simp: keys_le_def intro: order_trans [OF _ less_imp_le])
  with False show ?thesis using inv
    by (auto simp: PrepareCalculatorContext_def GetDefaultCalculatorContext_def cm_inv_def)
next
  case True
  have notin: "t \<notin> fst ` set (active_contexts cm)" using keys \<open>L < t\<close> by (auto simp: keys_le_def)
  have keys': "keys_le t (cm\<lparr>active_contexts := insort_key fst (t, cc) (active_contexts cm)\<rparr>)" for cc
    using keys \<open>L < t\<close> by (auto simp: keys_le_def set_insort_key intro: order_trans [OF _ less_imp_le])
  note lookup = map_of_insort [OF notin]
  obtain cc st where new: "setup_shards_callback cm (new_calculator_context cm) = (cc, st)" by fastforce
  show ?thesis
  proof (cases "idle_contexts cm")
    case Nil
    with True notin new lookup inv keys' show ?thesis
      by (auto simp: PrepareCalculatorContext_def cm_inv_def all_contexts_def set_insort_key)
  next
    case (Cons c cs)
    have "keys_le t (cm\<lparr>active_contexts := insort_key fst (t, c) (active_contexts cm), idle_contexts := cs\<rparr>)"
      using keys' [of c] by (simp add: keys_le_def)
    with Cons True notin new lookup inv show ?thesis
      by (auto simp: PrepareCalculatorContext_def cm_inv_def all_contexts_def set_insort_key)
  qed
qed

lemma cm_inv_filled:
  assumes "cm_inv ms cm" "may_fill ms is t" "IsAllowedInStream t"
  shows "cm_inv (filled_streams ms is t) cm"
  using assms shards_agree_pop [OF assms(2,3)]
  by (auto simp: cm_inv_def split: prod.splits)

lemma keys_le_put [simp]: "keys_le L (put_context cm r cc) = keys_le L cm"
  by (simp add: keys_le_def active_keys_put)

lemma cm_inv_put:
  assumes "cm_inv ms cm" "shards_agree ms (inputs cc)"
  shows "cm_inv ms (put_context cm r cc)"
proof -
  have "default_context (put_context cm r cc) \<noteq> None" using assms(1) by (cases r) (auto simp: cm_inv_def)
  then show ?thesis using assms all_contexts_put [of cm r cc]
    by (auto simp: cm_inv_def active_keys_put simp del: put_context.simps)
qed

lemma prepare_invocation_default:
  assumes inv: "default_inv h cm"
    and ready: "SyncSet_GetReadiness (input_stream_managers h) (process_timestamps h) (policy h) =
      (kReadyForProcess, t, ss')"
  shows "\<exists>h' cm' ev complete. prepare_invocation Default_FillInputSet t (with_policy h ss') cm =
      Some (h', cm', ev, complete) \<and> default_inv h' cm' \<and> last_processed_ts (policy h') = t \<and>
      processed (policy h) < t \<and> process_timestamps h' = process_timestamps h"
proof -
  let ?ms = "input_stream_managers h" and ?ids = "stream_ids (policy h)"
  have sync: "sync_inv ?ms (policy h)" and ids: "?ids = [0..<length ?ms]" and late: "\<not> late_preparation h"
    and cm: "cm_inv ?ms cm" and keys: "keys_le (processed (policy h)) cm"
    using inv SyncSet_close_iff [OF ready] by (auto simp: default_inv_def)
  note b = SyncSet_ready_bounds [OF sync ready]
  note may = may_fill_ready [OF sync ready]
  let ?ms' = "filled_streams ?ms ?ids t"
  obtain cm1 r cc where prep: "PrepareCalculatorContext cm t = Some (cm1, r)"
    and get: "get_context cm1 r = Some cc" and cm1: "cm_inv ?ms cm1" "keys_le t cm1"
    using PrepareCalculatorContext_ok [OF cm keys b(2)] by blast
  have agree: "shards_agree ?ms (inputs cc)" using cm1(1) get_context_mem [OF get] by (simp add: cm_inv_def)
  have "stream_ids ss' = ?ids" using b(1) by simp
  then obtain ev where fill: "SyncSet_FillInputSet ?ms ss' t (inputs cc) =
      Some (?ms', filled_shards ?ms ?ids t (inputs cc), ev)"
    using SyncSet_fill [of ?ms ss' t "inputs cc"] may b(3) agree by auto
  let ?cc = "(PushInputTimestamp t cc)\<lparr>inputs := filled_shards ?ms ?ids t (inputs cc)\<rparr>"
  have "cm_inv ?ms' (put_context cm1 r ?cc)"
    by (rule cm_inv_put [OF cm_inv_filled [OF cm1(1) may b(3)]]) (simp add: shards_agree_filled [OF may agree])
  moreover have "sync_inv ?ms' ss'" unfolding b(1) by (rule sync_inv_filled [OF sync may b(3)])
  moreover have "max t Timestamp_Unstarted = t" using b(3) by (auto simp: ts_iff max_def)
  ultimately have "default_inv (with_managers (with_policy h ss') ?ms') (put_context cm1 r ?cc)"
    using late ids b(1) cm1(2) by (simp add: default_inv_def with_managers_def with_policy_def filled_streams_def)
  moreover have "prepare_invocation Default_FillInputSet t (with_policy h ss') cm =
      Some (with_managers (with_policy h ss') ?ms', put_context cm1 r ?cc,
        ev @ (if NumberOfTimestamps ?cc = batch_size h then [ScheduleContext r] else []),
        NumberOfTimestamps ?cc = batch_size h)"
    using late by (simp add: prepare_invocation_def prep get Default_FillInputSet_def fill Let_def
        with_managers_def with_policy_def PushInputTimestamp_def)
  ultimately show ?thesis using b(1,2) by (auto simp: with_managers_def with_policy_def)
qed

subsection \<open>The whole loop\<close>

lemma default_inv_not_ready:
  assumes inv: "default_inv h cm"
    and r: "SyncSet_GetReadiness (input_stream_managers h) (process_timestamps h) (policy h) = (r, t, ss')"
    and "r \<noteq> kReadyForProcess"
  shows "default_inv (with_policy h ss') cm"
proof -
  have sync: "sync_inv (input_stream_managers h) (policy h)" using inv by (simp add: default_inv_def)
  note sync' = SyncSet_not_ready_inv [OF sync r assms(3)]
  have "ss' = policy h" if "r \<noteq> kReadyForClose"
    using r assms(3) that by (auto simp: SyncSet_GetReadiness_def Let_def split: if_splits)
  then show ?thesis using inv sync' SyncSet_close_iff [OF r]
    by (cases "r = kReadyForClose") (auto simp: default_inv_def with_policy_def streams_of_def)
qed

lemma default_ready_eq:
  "Default_GetNodeReadiness h m = (case SyncSet_GetReadiness (input_stream_managers h)
     (process_timestamps h) (policy h) of (r, t, ss) \<Rightarrow> Some (r, t, with_policy h ss, []))"
  by (simp add: Default_GetNodeReadiness_def split: prod.splits)

lemma default_context_get: "cm_inv ms cm \<Longrightarrow> \<exists>cc. default_context cm = Some cc \<and> cc \<in> all_contexts cm"
  by (auto simp: cm_inv_def all_contexts_def)

lemma prepare_close_default:
  assumes "default_inv h cm"
  shows "\<exists>h' cm' ev b. prepare_close h cm = Some (h', cm', ev, b) \<and> default_inv h' cm'"
proof -
  have cm: "cm_inv (input_stream_managers h) cm" using assms by (simp add: default_inv_def)
  obtain cc where cc: "default_context cm = Some cc" "cc \<in> all_contexts cm"
    using default_context_get [OF cm] by blast
  have "cm_inv (input_stream_managers h) (put_context cm DefaultContext (PushInputTimestamp Timestamp_Done cc))"
    using cm cc(2) by (intro cm_inv_put) (auto simp: cm_inv_def PushInputTimestamp_def)
  then show ?thesis using assms cc(1)
    by (auto simp: prepare_close_def GetDefaultCalculatorContext_def default_inv_def
        simp del: put_context.simps)
qed

lemma not_ready_bound_default:
  "cm_inv ms cm \<Longrightarrow> \<exists>b. not_ready_bound h cm ts = Some b"
  using default_context_get [of ms cm] by (auto simp: not_ready_bound_def GetDefaultCalculatorContext_def)

lemma schedule_loop_default:
  assumes "default_inv h cm" "n \<le> max_allowance"
  shows "\<exists>h' cm' ev n' b. schedule_loop Default_GetNodeReadiness Default_FillInputSet max_allowance n min_ts h cm =
      Some (h', cm', ev, n', b) \<and> default_inv h' cm' \<and> n \<le> n' \<and> n' \<le> max_allowance"
  using assms
proof (induction "nat (tv Timestamp_Done - tv (processed (policy h)))" arbitrary: h cm n min_ts rule: less_induct)
  case less
  show ?case
  proof (cases "n < max_allowance")
    case False
    then show ?thesis using less.prems by (subst schedule_loop.simps) auto
  next
    case True
    obtain r t ss' where r: "SyncSet_GetReadiness (input_stream_managers h) (process_timestamps h) (policy h) =
        (r, t, ss')" by (metis prod_cases3)
    show ?thesis
    proof (cases r)
      case kNotReady
      then have inv': "default_inv (with_policy h ss') cm"
        using default_inv_not_ready [OF less.prems(1) r] by simp
      then obtain b where "not_ready_bound (with_policy h ss') cm t = Some b"
        using not_ready_bound_default [of "input_stream_managers (with_policy h ss')" cm]
        unfolding default_inv_def by blast
      then show ?thesis using True kNotReady inv' less.prems(2)
        by (subst schedule_loop.simps) (simp add: default_ready_eq r)
    next
      case kReadyForClose
      then have inv': "default_inv (with_policy h ss') cm"
        using default_inv_not_ready [OF less.prems(1) r] by simp
      then obtain h' cm' ev b where "prepare_close (with_policy h ss') cm = Some (h', cm', ev, b)"
        "default_inv h' cm'" using prepare_close_default by blast
      then show ?thesis using True kReadyForClose
        by (subst schedule_loop.simps) (simp add: default_ready_eq r)
    next
      case kReadyForProcess
      with r have ready: "SyncSet_GetReadiness (input_stream_managers h) (process_timestamps h) (policy h) =
        (kReadyForProcess, t, ss')" by simp
      obtain h1 cm1 ev1 complete where prep:
        "prepare_invocation Default_FillInputSet t (with_policy h ss') cm = Some (h1, cm1, ev1, complete)"
        and inv1: "default_inv h1 cm1" and t: "last_processed_ts (policy h1) = t" "processed (policy h) < t"
        using prepare_invocation_default [OF less.prems(1) ready] by blast
      let ?n = "if complete then n + 1 else n"
      have "processed (policy h) < processed (policy h1)" using t by (auto simp: less_max_iff_disj)
      moreover have "tv (processed (policy h1)) \<le> tv Timestamp_Done"
        using Done_greatest [of "processed (policy h1)"] unfolding timestamp_le_iff .
      ultimately have "nat (tv Timestamp_Done - tv (processed (policy h1))) <
          nat (tv Timestamp_Done - tv (processed (policy h)))"
        unfolding timestamp_less_iff by linarith
      moreover have "?n \<le> max_allowance" using True by simp
      ultimately obtain h' cm' ev n' b where
        "schedule_loop Default_GetNodeReadiness Default_FillInputSet max_allowance ?n t h1 cm1 =
          Some (h', cm', ev, n', b)" "default_inv h' cm'" "?n \<le> n'" "n' \<le> max_allowance"
        using less.hyps [OF _ inv1] by blast
      then show ?thesis using True kReadyForProcess
        by (subst schedule_loop.simps) (simp add: default_ready_eq r prep split: if_splits)
    qed
  qed
qed

subsection \<open>Upstream and downstream of the handler\<close>

lemma IsDone_AddOrMove:
  assumes "timed_inv s" "ism_IsDone s" "AddOrMovePacketsInternal s ps = (s', r, n, ev)"
  shows "ism_IsDone s'"
proof (cases "closed s \<or> ps = []")
  case True
  then show ?thesis using assms by (auto simp: AddOrMovePacketsInternal_def Let_def split: if_splits)
next
  case False
  then obtain p ps' where ps: "ps = p # ps'" by (cases ps) auto
  have "\<not> accepts s p"
    using assms(2) by (auto simp: accepts_def ism_IsDone_def ts_iff)
  then have "s' = s"
    using AddOrMovePacketsInternal_loop [OF assms(3)] False timed_invD(1) [OF assms(1)]
    by (simp add: ps add_packets_loop_Cons)
  with assms(2) show ?thesis by simp
qed

lemma IsDone_SetNextTimestampBound:
  "ism_IsDone s \<Longrightarrow> SetNextTimestampBound s b = (s', r, n) \<Longrightarrow> ism_IsDone s'"
  by (auto simp: SetNextTimestampBound_def ism_IsDone_def split: if_splits)

text \<open>A change of one stream that the invariant of the handler tolerates.\<close>

definition stream_grows :: "'a input_stream \<Rightarrow> 'a input_stream \<Rightarrow> bool" where
  "stream_grows s s' \<longleftrightarrow> timed_inv s' \<and> MinTimestampOrBound s \<le> MinTimestampOrBound s' \<and>
     last_select_timestamp s' = last_select_timestamp s \<and> (ism_IsDone s \<longrightarrow> ism_IsDone s')"

lemma add_packets_loop_last_select:
  "last_select_timestamp (fst (add_packets_loop s ps)) = last_select_timestamp s"
  by (induction ps arbitrary: s) (auto simp: add_packets_loop.simps(2) Let_def split: status.splits)

lemma stream_grows_ops:
  assumes "timed_inv s"
  shows "AddOrMovePacketsInternal s ps = (s1, r1, n1, ev1) \<Longrightarrow> stream_grows s s1"
    and "SetNextTimestampBound s b = (s2, r2, n2) \<Longrightarrow> stream_grows s s2"
    and "ism_SetMaxQueueSize s m = (s3, ev3) \<Longrightarrow> stream_grows s s3"
proof -
  assume add: "AddOrMovePacketsInternal s ps = (s1, r1, n1, ev1)"
  have "last_select_timestamp s1 = last_select_timestamp s"
    using AddOrMovePacketsInternal_loop [OF add] add_packets_loop_last_select [of s ps] add
    by (cases "closed s") auto
  then show "stream_grows s s1" using timed_inv_AddOrMove [OF assms add] IsDone_AddOrMove [OF assms _ add]
    by (simp add: stream_grows_def)
next
  assume set: "SetNextTimestampBound s b = (s2, r2, n2)"
  then have "last_select_timestamp s2 = last_select_timestamp s"
    by (auto simp: SetNextTimestampBound_def split: if_splits)
  then show "stream_grows s s2"
    using timed_inv_SetNextTimestampBound [OF assms set] IsDone_SetNextTimestampBound [OF _ set]
    by (simp add: stream_grows_def)
next
  assume "ism_SetMaxQueueSize s m = (s3, ev3)"
  then have "s3 = s\<lparr>max_queue_size := m\<rparr>" by (auto simp: ism_SetMaxQueueSize_def Let_def)
  moreover from this have "MinTimestampOrBound s3 = MinTimestampOrBound s"
    by (cases "queue s") (simp_all add: MinTimestampOrBound_def)
  ultimately show "stream_grows s s3" using timed_inv_ism_SetMaxQueueSize [OF assms, of m]
    by (simp add: stream_grows_def ism_SetMaxQueueSize_def Let_def ism_IsDone_def)
qed

lemma default_inv_stream_grows:
  assumes inv: "default_inv h cm" and i: "i < length (input_stream_managers h)"
    and g: "stream_grows (input_stream_managers h ! i) s'"
  shows "default_inv (h\<lparr>input_stream_managers := (input_stream_managers h)[i := s']\<rparr>) cm"
proof -
  let ?ms = "input_stream_managers h" and ?ms' = "(input_stream_managers h)[i := s']"
  have le: "MinTimestampOrBound (?ms ! j) \<le> MinTimestampOrBound (?ms' ! j)" for j
    using g i by (cases "j = i") (simp_all add: stream_grows_def)
  have last: "last_select_timestamp (?ms' ! j) = last_select_timestamp (?ms ! j)" for j
    using g i by (cases "j = i") (simp_all add: stream_grows_def)
  have tinv: "timed_inv (?ms ! j) \<Longrightarrow> timed_inv (?ms' ! j)" for j
    using g i by (cases "j = i") (simp_all add: stream_grows_def)
  have isdone: "ism_IsDone (?ms ! j) \<Longrightarrow> ism_IsDone (?ms' ! j)" for j
    using g i by (cases "j = i") (simp_all add: stream_grows_def)
  have sync: "sync_inv ?ms (policy h)" using inv by (simp add: default_inv_def)
  have "\<forall>j \<in> set (stream_ids (policy h)). j < length ?ms' \<and> timed_inv (?ms' ! j) \<and>
      processed (policy h) < MinTimestampOrBound (?ms' ! j)"
    using sync_invD [OF sync] le tinv by (simp del: max_less_iff_conj) (blast intro: order_less_le_trans)
  moreover have "(\<forall>j \<in> set (stream_ids (policy h)). last_select_timestamp (?ms' ! j) \<le> processed (policy h)) \<or>
      (\<forall>j \<in> set (stream_ids (policy h)). Timestamp_OneOverPostStream \<le> MinTimestampOrBound (?ms' ! j))"
    using sync le unfolding sync_inv_def last by (blast intro: order_trans)
  ultimately have "sync_inv ?ms' (policy h)"
    using sync unfolding sync_inv_def by blast
  moreover have "cm_inv ?ms' cm"
    using inv isdone unfolding default_inv_def cm_inv_def shards_agree_def
    by (auto split: prod.splits)
  moreover have "keys_le (processed (policy h)) cm \<or>
      (\<forall>s \<in> set (streams_of ?ms' (policy h)). Timestamp_OneOverPostStream \<le> MinTimestampOrBound s)"
    using inv unfolding default_inv_def by (auto simp: set_streams_of intro: order_trans [OF _ le])
  ultimately show ?thesis using inv by (simp add: default_inv_def)
qed

subsection \<open>Runs of a node's inputs\<close>

text \<open>
  The states of the handler and the contexts that any interleaving of upstream packets,
  bounds and queue limits, of scheduling, of clearing the current inputs after an invocation
  and of recycling contexts can reach.
\<close>

inductive default_reachable ::
    "('a, sync_set) input_stream_handler \<Rightarrow> 'a context_manager \<Rightarrow>
     ('a, sync_set) input_stream_handler \<Rightarrow> 'a context_manager \<Rightarrow> bool" for h0 cm0 where
  start: "default_reachable h0 cm0 h0 cm0"
| add: "default_reachable h0 cm0 h cm \<Longrightarrow> i < length (input_stream_managers h) \<Longrightarrow>
    ish_AddPackets h i ps = (h', ev) \<Longrightarrow> default_reachable h0 cm0 h' cm"
| bound: "default_reachable h0 cm0 h cm \<Longrightarrow> i < length (input_stream_managers h) \<Longrightarrow>
    ish_SetNextTimestampBound h i b = (h', ev) \<Longrightarrow> default_reachable h0 cm0 h' cm"
| limit: "default_reachable h0 cm0 h cm \<Longrightarrow> i < length (input_stream_managers h) \<Longrightarrow>
    ish_SetMaxQueueSize h i m = (h', ev) \<Longrightarrow> default_reachable h0 cm0 h' cm"
| schedule: "default_reachable h0 cm0 h cm \<Longrightarrow> 0 \<le> max_allowance \<Longrightarrow>
    ScheduleInvocations Default_GetNodeReadiness Default_FillInputSet max_allowance h cm =
      Some (h', cm', ev, b, r) \<Longrightarrow> default_reachable h0 cm0 h' cm'"
| clear: "default_reachable h0 cm0 h cm \<Longrightarrow> ClearCurrentInputs cm r = Some cm' \<Longrightarrow>
    default_reachable h0 cm0 h cm'"
| recycle: "default_reachable h0 cm0 h cm \<Longrightarrow> RecycleCalculatorContext cm = Some cm' \<Longrightarrow>
    default_reachable h0 cm0 h cm'"

inductive_cases default_reachableE: "default_reachable h0 cm0 h cm"

lemma default_inv_clear:
  assumes "default_inv h cm" "ClearCurrentInputs cm r = Some cm'"
  shows "default_inv h cm'"
proof -
  obtain cc where get: "get_context cm r = Some cc" and
    cm': "cm' = put_context cm r (cc\<lparr>input_timestamps := tl (input_timestamps cc),
      inputs := map ClearCurrentPacket (inputs cc)\<rparr>)"
    using assms(2) by (auto simp: ClearCurrentInputs_def PopInputTimestamp_def split: Option.bind_splits if_splits)
  have "shards_agree (input_stream_managers h) (inputs cc)"
    using assms(1) get_context_mem [OF get] by (simp add: default_inv_def cm_inv_def)
  then have "shards_agree (input_stream_managers h) (map ClearCurrentPacket (inputs cc))"
    by (simp add: shards_agree_def ClearCurrentPacket_def)
  then show ?thesis using assms(1) by (auto simp: cm' default_inv_def intro: cm_inv_put)
qed

lemma default_inv_recycle:
  assumes "default_inv h cm" "RecycleCalculatorContext cm = Some cm'"
  shows "default_inv h cm'"
proof -
  obtain t cc rest where act: "active_contexts cm = (t, cc) # rest"
    and cm': "cm' = cm\<lparr>idle_contexts := idle_contexts cm @ [cc], active_contexts := rest\<rparr>"
    using assms(2) by (auto simp: RecycleCalculatorContext_def split: list.splits)
  have "all_contexts cm' = all_contexts cm" by (auto simp: all_contexts_def cm' act)
  then have "cm_inv (input_stream_managers h) cm'"
    using assms(1) by (simp add: default_inv_def cm_inv_def cm')
  moreover have "keys_le L cm \<Longrightarrow> keys_le L cm'" for L by (simp add: keys_le_def cm' act)
  ultimately show ?thesis using assms(1) by (auto simp: default_inv_def)
qed

lemma ScheduleInvocations_default:
  assumes "default_inv h cm" "0 \<le> max_allowance"
  shows "\<exists>h' cm' ev b n. ScheduleInvocations Default_GetNodeReadiness Default_FillInputSet max_allowance h cm =
      Some (h', cm', ev, b, 0 < n) \<and> default_inv h' cm' \<and> 0 \<le> n \<and> n \<le> max_allowance"
proof -
  have "input_stream_managers h \<noteq> []"
    using assms(1) by (auto simp: default_inv_def sync_inv_def)
  then show ?thesis
    using schedule_loop_default [OF assms, of Timestamp_Done] by (auto simp: ScheduleInvocations_def)
qed

lemma default_inv_reachable:
  "default_reachable h0 cm0 h cm \<Longrightarrow> default_inv h0 cm0 \<Longrightarrow> default_inv h cm"
proof (induction rule: default_reachable.induct)
  case (schedule h cm max_allowance h' cm' ev b r)
  then show ?case using ScheduleInvocations_default [of h cm max_allowance] by auto
next
  case (clear h cm r cm')
  then show ?case using default_inv_clear by blast
next
  case (recycle h cm cm')
  then show ?case using default_inv_recycle by blast
next
  case (add h cm i ps h' ev)
  then obtain s r n ev' where op: "AddOrMovePacketsInternal (input_stream_managers h ! i) ps = (s, r, n, ev')"
    and h': "h' = h\<lparr>input_stream_managers := (input_stream_managers h)[i := s]\<rparr>"
    by (auto simp: ish_AddPackets_def split: prod.splits)
  have inv: "default_inv h cm" using add by blast
  then have "timed_inv (input_stream_managers h ! i)"
    using add(2) by (auto simp: default_inv_def sync_inv_def)
  then show ?case unfolding h' using default_inv_stream_grows [OF inv add(2)] stream_grows_ops(1) [OF _ op] by blast
next
  case (bound h cm i b h' ev)
  then obtain s r n where op: "SetNextTimestampBound (input_stream_managers h ! i) b = (s, r, n)"
    and h': "h' = h\<lparr>input_stream_managers := (input_stream_managers h)[i := s]\<rparr>"
    by (auto simp: ish_SetNextTimestampBound_def split: prod.splits)
  have inv: "default_inv h cm" using bound by blast
  then have "timed_inv (input_stream_managers h ! i)"
    using bound(2) by (auto simp: default_inv_def sync_inv_def)
  then show ?case unfolding h' using default_inv_stream_grows [OF inv bound(2)] stream_grows_ops(2) [OF _ op] by blast
next
  case (limit h cm i m h' ev)
  then obtain s ev' where op: "ism_SetMaxQueueSize (input_stream_managers h ! i) m = (s, ev')"
    and h': "h' = h\<lparr>input_stream_managers := (input_stream_managers h)[i := s]\<rparr>"
    by (auto simp: ish_SetMaxQueueSize_def split: prod.splits)
  have inv: "default_inv h cm" using limit by blast
  then have "timed_inv (input_stream_managers h ! i)"
    using limit(2) by (auto simp: default_inv_def sync_inv_def)
  then show ?case unfolding h' using default_inv_stream_grows [OF inv limit(2)] stream_grows_ops(3) [OF _ op] by blast
qed

subsection \<open>The start of a run\<close>

text \<open>The context manager a run starts with: a default context, no other, set up by the node.\<close>

definition setup_agrees :: "nat \<Rightarrow> ('a calculator_context \<Rightarrow> 'a calculator_context \<times> status) \<Rightarrow> bool" where
  "setup_agrees n setup \<longleftrightarrow> (\<forall>cc. snd (setup cc) = OkStatus \<and> length (inputs (fst (setup cc))) = length (inputs cc) \<and>
     (\<forall>i < length (inputs cc). is_done (inputs (fst (setup cc)) ! i) = is_done (inputs cc ! i)))"

lemma default_inv_start:
  assumes "input_stream_managers h \<noteq> []" "\<forall>s \<in> set (input_stream_managers h). enable_timestamps s"
    and "policy h = new_sync_set [0..<length (input_stream_managers h)]" "\<not> late_preparation h"
    and "setup_agrees n setup" "active_contexts cm = []" "idle_contexts cm = []"
    and "num_inputs cm = length (input_stream_managers h)"
  shows "default_inv (Default_PrepareForRun h) (fst (cm_PrepareForRun cm setup))"
proof -
  let ?h = "Default_PrepareForRun h" and ?ms = "map ism_PrepareForRun (input_stream_managers h)"
  let ?cm = "fst (cm_PrepareForRun cm setup)"
  have ms: "input_stream_managers ?h = ?ms" "policy ?h = new_sync_set [0..<length (input_stream_managers h)]"
    "late_preparation ?h = late_preparation h"
    using assms(3) by (simp_all add: Default_PrepareForRun_def ish_PrepareForRun_def with_policy_def
        SyncSet_PrepareForRun_def new_sync_set_def)
  have un: "max Timestamp_Unset Timestamp_Unstarted = Timestamp_Unstarted" "Timestamp_Unstarted < Timestamp_PreStream"
    by (simp_all add: ts_iff max_def)
  have prep: "MinTimestampOrBound (ism_PrepareForRun s) = Timestamp_PreStream"
    "last_select_timestamp (ism_PrepareForRun s) = Timestamp_Unstarted" for s :: "'a input_stream"
    by (simp_all add: ism_PrepareForRun_def MinTimestampOrBound_def)
  have timed: "i < length (input_stream_managers h) \<Longrightarrow> timed_inv (ism_PrepareForRun (input_stream_managers h ! i))" for i
    using assms(2) timed_inv_PrepareForRun nth_mem by blast
  have sync: "sync_inv ?ms (new_sync_set [0..<length (input_stream_managers h)])"
    using assms(1) un(2) timed
    by (simp add: sync_inv_def new_sync_set_def prep un(1))
  have new: "new_calculator_context ?cm = new_calculator_context cm"
    by (simp add: cm_PrepareForRun_def new_calculator_context_def split: prod.splits)
  have eq: "default_context ?cm = Some (fst (setup (new_calculator_context cm)))"
    "setup_shards_callback ?cm = setup" "active_contexts ?cm = []" "idle_contexts ?cm = []"
    using assms(6,7) by (simp_all add: cm_PrepareForRun_def split: prod.splits)
  have "is_done sh = False" if "sh \<in> set (inputs (fst (setup (new_calculator_context cm))))" for sh
    using assms(5) that by (auto simp: setup_agrees_def in_set_conv_nth new_calculator_context_def new_input_shard_def)
  moreover have "length (inputs (fst (setup (new_calculator_context cm)))) = length ?ms"
    using assms(5,8) by (simp add: setup_agrees_def new_calculator_context_def)
  ultimately have "cm_inv ?ms ?cm"
    using assms(5) unfolding cm_inv_def new eq
    by (auto simp: all_contexts_def eq shards_agree_def setup_agrees_def split: prod.splits)
      (metis nth_mem fst_conv snd_conv)+
  then show ?thesis using sync assms(4) by (simp add: default_inv_def ms new_sync_set_def keys_le_def eq)
qed

subsection \<open>Properties\<close>


definition demo_handler :: "(nat, sync_set) input_stream_handler" where
  "demo_handler = Default_PrepareForRun
     \<lparr>input_stream_managers = [demo_stream, demo_stream], ish_run_in_parallel = False,
      prepared_context_for_close = False, late_preparation = False, batch_size = 1,
      process_timestamps = False, unset_header_count = 0, policy = new_sync_set [0, 1]\<rparr>"

definition demo_contexts :: "nat context_manager" where
  "demo_contexts = fst (cm_PrepareForRun
     \<lparr>cm_run_in_parallel = False, num_inputs = 2, num_outputs = 0,
      setup_shards_callback = (\<lambda>cc. (cc, OkStatus)), default_context = None,
      active_contexts = [], idle_contexts = []\<rparr> (\<lambda>cc. (cc, OkStatus)))"

lemma default_inv_demo: "default_inv demo_handler demo_contexts"
  unfolding demo_handler_def demo_contexts_def
  by (rule default_inv_start [where n = 0])
    (simp_all add: demo_stream_def new_input_stream_def ism_PrepareForRun_def setup_agrees_def
      upt_rec numeral_2_eq_2)


text \<open>
  C2: When a synchronised set of streams is declared ready at a timestamp, its input set is
  complete and correct: the timestamp is allowed and later than everything processed, on
  every stream of the set nothing can arrive any more at or before it, filling the shards
  cannot abort, and each shard receives the packet its stream has at that timestamp, or an
  empty packet when it has none. Streams outside the set are untouched.
\<close>
theorem ready_input_set_complete:
  assumes "sync_inv ms ss" and "shards_agree ms shards"
    and "SyncSet_GetReadiness ms pts ss = (kReadyForProcess, t, ss')"
  shows "IsAllowedInStream t \<and> processed ss < t \<and>
    (\<exists>ms' shards' ev. SyncSet_FillInputSet ms ss' t shards = Some (ms', shards', ev) \<and>
       sync_inv ms' ss' \<and>
       (\<forall>i < length ms. if i \<in> set (stream_ids ss)
          then settled_at (ms ! i) t \<and>
            (\<forall>p. find (\<lambda>p. packet_timestamp p = t) (queue (ms ! i)) = Some p \<longrightarrow>
               packet_queue (shards' ! i) = packet_queue (shards ! i) @ [p]) \<and>
            (t \<notin> set (queue_ts (ms ! i)) \<longrightarrow>
               (\<exists>e. packet_IsEmpty e \<and> packet_queue (shards' ! i) = packet_queue (shards ! i) @ [e]))
          else ms' ! i = ms ! i \<and> shards' ! i = shards ! i))"
proof -
  note b = SyncSet_ready_bounds [OF assms(1,3)] and may = may_fill_ready [OF assms(1,3)]
  have ids: "stream_ids ss' = stream_ids ss" using b(1) by simp
  let ?ms' = "filled_streams ms (stream_ids ss) t" and ?sh' = "filled_shards ms (stream_ids ss) t shards"
  obtain ev where fill: "SyncSet_FillInputSet ms ss' t shards = Some (?ms', ?sh', ev)"
    using SyncSet_fill [of ms ss' t shards] may b(3) assms(2) by (auto simp: ids)
  have "sync_inv ?ms' ss'" unfolding b(1) by (rule sync_inv_filled [OF assms(1) may b(3)])
  moreover have "settled_at (ms ! i) t" if "i \<in> set (stream_ids ss)" for i
    using b(4) that by (auto simp: set_streams_of)
  moreover have "t \<notin> set (queue_ts s) \<Longrightarrow> packet_IsEmpty (taken_timed t s)" for s :: "'a input_stream"
    by (simp add: taken_timed_def packet_at_None split: option.splits)
      (auto dest: packet_at_Some)
  ultimately show ?thesis using fill b(2,3) assms(2)
    by (intro conjI exI [of _ ?ms'] exI [of _ ?sh'] exI [of _ ev])
      (auto simp: filled_streams_def filled_shards_def shard_with_def shards_agree_def
        taken_timed_def packet_at_def)
qed

theorem ready_input_set_complete_witness:
  "\<exists>ms' shards' ev. SyncSet_FillInputSet [demo_filled] (new_sync_set [0]) (Timestamp_of 10) [new_input_shard] =
     Some (ms', shards', ev) \<and> packet_queue (shards' ! 0) = [demo_packet 1 10]"
proof -
  let ?ss = "new_sync_set [0]"
  let ?ss' = "?ss\<lparr>last_processed_ts := Timestamp_of 10\<rparr>"
  have q: "MinTimestampOrBound demo_filled = Timestamp_of 10"
    by (simp add: MinTimestampOrBound_def demo_filled(2))
  have un: "max Timestamp_Unset Timestamp_Unstarted = Timestamp_Unstarted" "Timestamp_Unstarted < Timestamp_of 10"
    "min_over Timestamp_Done [Timestamp_of 10] = Timestamp_of 10" "min (Timestamp_of 10) Timestamp_Done = Timestamp_of 10"
    "\<not> Timestamp_OneOverPostStream \<le> Timestamp_of 10" "Timestamp_of 10 < Timestamp_Done"
    by code_simp+
  have inv: "sync_inv [demo_filled] ?ss"
    by (simp add: sync_inv_def new_sync_set_def q un(1,2) demo_filled)
  have agree: "shards_agree [demo_filled] [new_input_shard]"
    by (simp add: shards_agree_def new_input_shard_def)
  have "SyncSet_GetReadiness [demo_filled] False ?ss = (kReadyForProcess, Timestamp_of 10, ?ss')"
    by (simp add: SyncSet_GetReadiness_def new_sync_set_def min_bound_of_def min_packet_of_def ism_IsEmpty_def
        demo_filled(2) q un Let_def)
  from ready_input_set_complete [OF inv agree this] obtain ms' shards' ev where
    "SyncSet_FillInputSet [demo_filled] ?ss' (Timestamp_of 10) [new_input_shard] = Some (ms', shards', ev)"
    "packet_queue (shards' ! 0) = [demo_packet 1 10]"
    by (auto simp: new_sync_set_def demo_filled(2) new_input_shard_def)
  then show ?thesis by (simp add: SyncSet_FillInputSet_def new_sync_set_def)
qed

end
