(* ===== verification/OutputStreamHandler.thy ===== *)
theory OutputStreamHandler
  imports CalculatorContext
begin

section \<open>Output stream handlers\<close>

text \<open>
  \<open>output_stream_handler.h/.cc\<close> and \<open>stream_handler/in_order_output_stream_handler.h/.cc\<close>.
  The handler of a node's output streams propagates what an invocation emitted. With
  parallel execution, invocations complete in any order; the in-order handler propagates
  them by input timestamp, by one thread at a time, which releases the mutex of the handler
  while it propagates. Each section executed under the mutex, and each one executed without
  it, is one function here; how sections of several threads interleave is a step relation
  in a theory of its own.

  A \<open>std::set\<close> of timestamps is a sorted list without repetitions.
\<close>

datatype propagation_state = kIdle | kPropagatingPackets | kPropagatingBound | kPropagationPending

record 'a output_stream_handler =
  output_stream_managers :: "'a output_stream_manager list"
  osh_run_in_parallel :: bool
  completed_input_timestamps :: "timestamp list"
  task_timestamp_bound :: timestamp
  propagation_state :: propagation_state

subsection \<open>All streams of the node\<close>

definition osh_PrepareForRun :: "'a output_stream_handler \<Rightarrow> bool \<Rightarrow> 'a output_stream_handler" where
  "osh_PrepareForRun h callback =
     h\<lparr>output_stream_managers := map (\<lambda>m. osm_PrepareForRun m callback) (output_stream_managers h),
       completed_input_timestamps := [], task_timestamp_bound := Timestamp_Unset,
       propagation_state := kIdle\<rparr>"

definition PrepareOutputs ::
    "'a output_stream_handler \<Rightarrow> 'a output_stream_shard list \<Rightarrow> 'a output_stream_shard list" where
  "PrepareOutputs h shards = map (\<lambda>(m, sh). ResetShard m sh) (zip (output_stream_managers h) shards)"

text \<open>One round of \<open>PropagateOutputPackets\<close>, on a stream and its shard.\<close>

definition propagate_stream ::
    "timestamp \<Rightarrow> 'a output_stream_manager \<Rightarrow> 'a output_stream_shard \<Rightarrow>
     ('a output_stream_manager \<times> 'a output_stream_shard \<times> 'a out_msg list) option" where
  "propagate_stream t m sh =
     (if osm_closed m then Some (m, sh, [])
      else do {
        (bound, err) \<leftarrow> ComputeOutputTimestampBound m sh t;
        let (m, sh, msgs) = PropagateUpdatesToMirrors m bound sh;
        let (m, msgs') = (if shard_closed sh then osm_Close m else (m, []));
        Some (m, sh, err @ msgs @ msgs') })"

fun propagate_loop ::
    "timestamp \<Rightarrow> 'a output_stream_manager list \<Rightarrow> 'a output_stream_shard list \<Rightarrow>
     ('a output_stream_manager list \<times> 'a output_stream_shard list \<times> 'a out_msg list) option" where
  "propagate_loop t (m # ms) (sh # shs) = do {
     (m', sh', msgs) \<leftarrow> propagate_stream t m sh;
     (ms', shs', msgs') \<leftarrow> propagate_loop t ms shs;
     Some (m' # ms', sh' # shs', msgs @ msgs') }"
| "propagate_loop t ms shs = Some (ms, shs, [])"

definition PropagateOutputPackets ::
    "'a output_stream_handler \<Rightarrow> timestamp \<Rightarrow> 'a output_stream_shard list \<Rightarrow>
     ('a output_stream_handler \<times> 'a output_stream_shard list \<times> 'a out_msg list) option" where
  "PropagateOutputPackets h t shards = do {
     (ms, shards, msgs) \<leftarrow> propagate_loop t (output_stream_managers h) shards;
     Some (h\<lparr>output_stream_managers := ms\<rparr>, shards, msgs) }"

fun open_headers :: "'a output_stream_manager list \<Rightarrow> ('a output_stream_manager list \<times> 'a out_msg list) option" where
  "open_headers [] = Some ([], [])"
| "open_headers (m # ms) = do {
     msgs \<leftarrow> PropagateHeader m;
     (ms', msgs') \<leftarrow> open_headers ms;
     Some (LockIntroData m # ms', msgs @ msgs') }"

definition osh_Open ::
    "'a output_stream_handler \<Rightarrow> 'a output_stream_shard list \<Rightarrow>
     ('a output_stream_handler \<times> 'a output_stream_shard list \<times> 'a out_msg list) option" where
  "osh_Open h shards = do {
     (h, shards, msgs) \<leftarrow> PropagateOutputPackets h Timestamp_Unstarted shards;
     (ms, msgs') \<leftarrow> open_headers (output_stream_managers h);
     Some (h\<lparr>output_stream_managers := ms\<rparr>, shards, msgs @ msgs') }"

text \<open>One round of \<open>TryPropagateTimestampBound\<close>. The source evaluates the sum twice.\<close>

definition try_propagate_stream ::
    "timestamp \<Rightarrow> 'a output_stream_manager \<Rightarrow> ('a output_stream_manager \<times> 'a out_msg list) option" where
  "try_propagate_stream input_bound m =
     (if offset_enabled (output_stream_spec m) \<and> \<not> osm_closed m then do {
        b \<leftarrow> ts_plus input_bound (offset (output_stream_spec m));
        if osm_next_timestamp_bound m < b
        then (let (m', _, msgs) = PropagateUpdatesToMirrors m b new_output_shard in Some (m', msgs))
        else Some (m, []) }
      else Some (m, []))"

fun try_propagate_loop ::
    "timestamp \<Rightarrow> 'a output_stream_manager list \<Rightarrow>
     ('a output_stream_manager list \<times> 'a out_msg list) option" where
  "try_propagate_loop b [] = Some ([], [])"
| "try_propagate_loop b (m # ms) = do {
     (m', msgs) \<leftarrow> try_propagate_stream b m;
     (ms', msgs') \<leftarrow> try_propagate_loop b ms;
     Some (m' # ms', msgs @ msgs') }"

definition TryPropagateTimestampBound ::
    "'a output_stream_handler \<Rightarrow> timestamp \<Rightarrow> ('a output_stream_handler \<times> 'a out_msg list) option" where
  "TryPropagateTimestampBound h input_bound =
     (if \<not> IsRangeValue input_bound then Some (h, [])
      else do {
        (ms, msgs) \<leftarrow> try_propagate_loop input_bound (output_stream_managers h);
        Some (h\<lparr>output_stream_managers := ms\<rparr>, msgs) })"

text \<open>\<open>Close\<close>: the shards are absent when the node was never opened.\<close>

fun close_loop ::
    "'a output_stream_manager list \<Rightarrow> 'a output_stream_shard list option \<Rightarrow>
     'a output_stream_manager list \<times> 'a out_msg list" where
  "close_loop [] shards = ([], [])"
| "close_loop (m # ms) shards =
     (let (m1, msgs1) = (case shards of
            Some (sh # _) \<Rightarrow> (case PropagateUpdatesToMirrors m Timestamp_Done sh of (m1, _, msgs) \<Rightarrow> (m1, msgs))
          | _ \<Rightarrow> (m, []));
          (m2, msgs2) = osm_Close m1;
          (ms', msgs3) = close_loop ms (map_option tl shards)
      in (m2 # ms', msgs1 @ msgs2 @ msgs3))"

definition osh_Close ::
    "'a output_stream_handler \<Rightarrow> 'a output_stream_shard list option \<Rightarrow>
     'a output_stream_handler \<times> 'a out_msg list" where
  "osh_Close h shards =
     (let (ms, msgs) = close_loop (output_stream_managers h) shards
      in (h\<lparr>output_stream_managers := ms\<rparr>, msgs))"

subsection \<open>Sequential execution\<close>

definition PostProcess_sequential ::
    "'a output_stream_handler \<Rightarrow> 'a context_manager \<Rightarrow> timestamp \<Rightarrow>
     ('a output_stream_handler \<times> 'a context_manager \<times> 'a out_msg list) option" where
  "PostProcess_sequential h cm t = do {
     r \<leftarrow> GetDefaultCalculatorContext cm;
     cc \<leftarrow> get_context cm r;
     (h, shards, msgs) \<leftarrow> PropagateOutputPackets h t (outputs cc);
     Some (h, put_context cm r (cc\<lparr>outputs := shards\<rparr>), msgs) }"

subsection \<open>The in-order handler: the sections under the mutex\<close>

text \<open>
  Where the propagating thread is when a section ends: it left the loop, or it is about to
  propagate, without the mutex, the packets of the front context, or a timestamp bound.
\<close>

datatype propagation_pc =
    LoopDone
  | PropagatesPackets timestamp
  | PropagatesBound timestamp

text \<open>The head of the \<open>while\<close> loop: which unlocked section comes next.\<close>

definition loop_head :: "'a output_stream_handler \<Rightarrow> timestamp \<Rightarrow> propagation_pc option" where
  "loop_head h context_timestamp =
     (case propagation_state h of
        kIdle \<Rightarrow> Some LoopDone
      | kPropagatingPackets \<Rightarrow> Some (PropagatesPackets context_timestamp)
      | kPropagatingBound \<Rightarrow> Some (PropagatesBound (task_timestamp_bound h))
      | kPropagationPending \<Rightarrow> None)"

definition PropagationLoop_start ::
    "'a output_stream_handler \<Rightarrow> 'a context_manager \<Rightarrow> ('a output_stream_handler \<times> propagation_pc) option" where
  "PropagationLoop_start h cm = do {
     check (propagation_state h = kIdle);
     if \<not> HasActiveContexts cm then
       (let h' = h\<lparr>propagation_state := kPropagatingBound\<rparr> in do {
         pc \<leftarrow> loop_head h' Timestamp_Unset; Some (h', pc) })
     else do {
       (_, context_timestamp) \<leftarrow> GetFrontCalculatorContext cm;
       case completed_input_timestamps h of
         [] \<Rightarrow> do { pc \<leftarrow> loop_head h context_timestamp; Some (h, pc) }
       | completed_timestamp # _ \<Rightarrow>
           if context_timestamp \<noteq> completed_timestamp then do {
             check (context_timestamp < completed_timestamp);
             Some (h, LoopDone) }
           else (let h' = h\<lparr>propagation_state := kPropagatingPackets\<rparr> in do {
             pc \<leftarrow> loop_head h' context_timestamp; Some (h', pc) }) } }"

definition UpdateTaskTimestampBound_locked ::
    "'a output_stream_handler \<Rightarrow> 'a context_manager \<Rightarrow> timestamp \<Rightarrow>
     ('a output_stream_handler \<times> propagation_pc) option" where
  "UpdateTaskTimestampBound_locked h cm t =
     (if task_timestamp_bound h = t then Some (h, LoopDone)
      else do {
        check (task_timestamp_bound h < t);
        let h = h\<lparr>task_timestamp_bound := t\<rparr>;
        if propagation_state h = kPropagatingBound
        then Some (h\<lparr>propagation_state := kPropagationPending\<rparr>, LoopDone)
        else if propagation_state h \<noteq> kIdle then Some (h, LoopDone)
        else PropagationLoop_start h cm })"

definition PostProcess_locked ::
    "'a output_stream_handler \<Rightarrow> 'a context_manager \<Rightarrow> timestamp \<Rightarrow>
     ('a output_stream_handler \<times> propagation_pc) option" where
  "PostProcess_locked h cm t =
     (let h = h\<lparr>completed_input_timestamps := List.insort_insert t (completed_input_timestamps h)\<rparr>
      in if propagation_state h = kPropagatingBound
         then Some (h\<lparr>propagation_state := kPropagationPending\<rparr>, LoopDone)
         else if propagation_state h \<noteq> kIdle then Some (h, LoopDone)
         else PropagationLoop_start h cm)"

subsection \<open>The in-order handler: the sections without the mutex\<close>

definition PropagatePackets_unlocked ::
    "'a output_stream_handler \<Rightarrow> 'a context_manager \<Rightarrow> timestamp \<Rightarrow>
     ('a output_stream_handler \<times> 'a context_manager \<times> 'a out_msg list) option" where
  "PropagatePackets_unlocked h cm context_timestamp = do {
     cc \<leftarrow> get_context cm (ActiveContext context_timestamp);
     (h, shards, msgs) \<leftarrow> PropagateOutputPackets h context_timestamp (outputs cc);
     cm \<leftarrow> RecycleCalculatorContext (put_context cm (ActiveContext context_timestamp) (cc\<lparr>outputs := shards\<rparr>));
     Some (h, cm, msgs) }"

text \<open>What follows when the thread has the mutex again.\<close>

definition PropagatePackets_locked ::
    "'a output_stream_handler \<Rightarrow> 'a context_manager \<Rightarrow> timestamp \<Rightarrow>
     ('a output_stream_handler \<times> propagation_pc) option" where
  "PropagatePackets_locked h cm context_timestamp =
     (case completed_input_timestamps h of
        [] \<Rightarrow> None
      | _ # completed \<Rightarrow>
          let h = h\<lparr>completed_input_timestamps := completed\<rparr>
          in if completed = [] \<and> \<not> HasActiveContexts cm then
               (let h = h\<lparr>propagation_state :=
                  (if task_timestamp_bound h \<le> NextAllowedInStream context_timestamp then kIdle
                   else kPropagatingBound)\<rparr>
                in do { pc \<leftarrow> loop_head h context_timestamp; Some (h, pc) })
             else do {
               (_, front) \<leftarrow> GetFrontCalculatorContext cm;
               let h = (if completed \<noteq> [] \<and> front = hd completed then h
                        else h\<lparr>propagation_state := kIdle\<rparr>);
               pc \<leftarrow> loop_head h front;
               Some (h, pc) })"

definition PropagationBound_unlocked ::
    "'a output_stream_handler \<Rightarrow> timestamp \<Rightarrow> ('a output_stream_handler \<times> 'a out_msg list) option" where
  "PropagationBound_unlocked h bound = TryPropagateTimestampBound h bound"

definition PropagationBound_locked ::
    "'a output_stream_handler \<Rightarrow> 'a context_manager \<Rightarrow> timestamp \<Rightarrow>
     ('a output_stream_handler \<times> propagation_pc) option" where
  "PropagationBound_locked h cm bound_to_propagate =
     (if propagation_state h = kPropagatingBound then
        Some (h\<lparr>propagation_state := kIdle\<rparr>, LoopDone)
      else do {
        check (propagation_state h = kPropagationPending);
        if \<not> HasActiveContexts cm then do {
          check (bound_to_propagate < task_timestamp_bound h);
          let h = h\<lparr>propagation_state := kPropagatingBound\<rparr>;
          pc \<leftarrow> loop_head h Timestamp_Unset;
          Some (h, pc) }
        else do {
          (_, front) \<leftarrow> GetFrontCalculatorContext cm;
          let h = h\<lparr>propagation_state :=
            (if completed_input_timestamps h = [] \<or> front \<noteq> hd (completed_input_timestamps h)
             then kIdle else kPropagatingPackets)\<rparr>;
          pc \<leftarrow> loop_head h front;
          Some (h, pc) } })"

end
