(* ===== verification/InOrderPropagation.thy ===== *)
theory InOrderPropagation
  imports OutputStreamHandler
begin

section \<open>In-order propagation under concurrency\<close>

text \<open>
  The threads of a parallel node, interleaved: a scheduling thread prepares contexts for
  ever later timestamps and raises the task timestamp bound, worker threads complete the
  invocations in any order, and any of these may find itself in the propagation loop. A
  section under the mutex of the handler, and a section without it, are each one step. The
  state keeps the list of the threads in the loop, so that there is at most one of them is
  a theorem, and the log of the input timestamps whose packets were propagated.

  The hypotheses on the callers are in the rules: contexts are prepared in the order of
  their timestamps, which are allowed in a stream; the task bound does not decrease; an
  invocation completes once, while its context is active.
\<close>

datatype loop_thread =
    RunPackets timestamp
  | PacketsSent timestamp
  | RunBound timestamp
  | BoundSent timestamp

fun enters :: "propagation_pc \<Rightarrow> loop_thread list" where
  "enters LoopDone = []"
| "enters (PropagatesPackets t) = [RunPackets t]"
| "enters (PropagatesBound b) = [RunBound b]"

record 'a inorder_state =
  handler :: "'a output_stream_handler"
  contexts :: "'a context_manager"
  loops :: "loop_thread list"
  prepared :: timestamp
  log :: "timestamp list"

inductive inorder_step :: "'a inorder_state \<Rightarrow> 'a inorder_state \<Rightarrow> bool" where
  prepare: "\<lbrakk>IsAllowedInStream t; prepared s < t;
      PrepareCalculatorContext (contexts s) t = Some (cm, r)\<rbrakk>
    \<Longrightarrow> inorder_step s (s\<lparr>contexts := cm, prepared := t\<rparr>)"
| update_bound: "\<lbrakk>task_timestamp_bound (handler s) \<le> t;
      UpdateTaskTimestampBound_locked (handler s) (contexts s) t = Some (h, pc)\<rbrakk>
    \<Longrightarrow> inorder_step s (s\<lparr>handler := h, loops := loops s @ enters pc\<rparr>)"
| complete: "\<lbrakk>t \<in> fst ` set (active_contexts (contexts s));
      t \<notin> set (completed_input_timestamps (handler s));
      PostProcess_locked (handler s) (contexts s) t = Some (h, pc)\<rbrakk>
    \<Longrightarrow> inorder_step s (s\<lparr>handler := h, loops := loops s @ enters pc\<rparr>)"
| send_packets: "\<lbrakk>loops s = xs @ RunPackets t # ys;
      PropagatePackets_unlocked (handler s) (contexts s) t = Some (h, cm, msgs)\<rbrakk>
    \<Longrightarrow> inorder_step s (s\<lparr>handler := h, contexts := cm, loops := xs @ PacketsSent t # ys,
          log := log s @ [t]\<rparr>)"
| sent_packets: "\<lbrakk>loops s = xs @ PacketsSent t # ys;
      PropagatePackets_locked (handler s) (contexts s) t = Some (h, pc)\<rbrakk>
    \<Longrightarrow> inorder_step s (s\<lparr>handler := h, loops := xs @ enters pc @ ys\<rparr>)"
| send_bound: "\<lbrakk>loops s = xs @ RunBound b # ys;
      PropagationBound_unlocked (handler s) b = Some (h, msgs)\<rbrakk>
    \<Longrightarrow> inorder_step s (s\<lparr>handler := h, loops := xs @ BoundSent b # ys\<rparr>)"
| sent_bound: "\<lbrakk>loops s = xs @ BoundSent b # ys;
      PropagationBound_locked (handler s) (contexts s) b = Some (h, pc)\<rbrakk>
    \<Longrightarrow> inorder_step s (s\<lparr>handler := h, loops := xs @ enters pc @ ys\<rparr>)"

inductive_cases inorder_stepE: "inorder_step s s'"

lemma enters_not_sent [simp]: "PacketsSent u \<notin> set (enters pc)" "BoundSent u \<notin> set (enters pc)"
  by (cases pc; simp)+

subsection \<open>The invariant\<close>

abbreviation keys :: "'a inorder_state \<Rightarrow> timestamp list" where
  "keys s \<equiv> map fst (active_contexts (contexts s))"

abbreviation completed :: "'a inorder_state \<Rightarrow> timestamp list" where
  "completed s \<equiv> completed_input_timestamps (handler s)"

text \<open>The completed timestamps of contexts that are still active.\<close>

definition pending_completed :: "'a inorder_state \<Rightarrow> timestamp list" where
  "pending_completed s = (case loops s of [PacketsSent t] \<Rightarrow> tl (completed s) | _ \<Rightarrow> completed s)"

fun loop_ok :: "propagation_state \<Rightarrow> timestamp \<Rightarrow> timestamp list \<Rightarrow> timestamp list \<Rightarrow> loop_thread list \<Rightarrow> bool" where
  "loop_ok st bound ks cs [] \<longleftrightarrow> st = kIdle \<and> (cs \<noteq> [] \<longrightarrow> hd cs \<noteq> hd ks)"
| "loop_ok st bound ks cs [RunPackets t] \<longleftrightarrow>
     st = kPropagatingPackets \<and> cs \<noteq> [] \<and> hd cs = t \<and> ks \<noteq> [] \<and> hd ks = t"
| "loop_ok st bound ks cs [PacketsSent t] \<longleftrightarrow> st = kPropagatingPackets \<and> cs \<noteq> [] \<and> hd cs = t"
| "loop_ok st bound ks cs [RunBound b] \<longleftrightarrow>
     (st = kPropagatingBound \<and> cs = [] \<or> st = kPropagationPending) \<and> b \<le> bound \<and>
     (st = kPropagationPending \<and> ks = [] \<longrightarrow> b < bound)"
| "loop_ok st bound ks cs [BoundSent b] \<longleftrightarrow>
     (st = kPropagatingBound \<and> cs = [] \<or> st = kPropagationPending) \<and> b \<le> bound \<and>
     (st = kPropagationPending \<and> ks = [] \<longrightarrow> b < bound)"
| "loop_ok st bound ks cs _ \<longleftrightarrow> False"

definition inorder_inv :: "'a inorder_state \<Rightarrow> bool" where
  "inorder_inv s \<longleftrightarrow>
     cm_run_in_parallel (contexts s) \<and>
     sorted_wrt (<) (keys s) \<and> sorted_wrt (<) (completed s) \<and>
     set (pending_completed s) \<subseteq> set (keys s) \<and>
     (\<forall>k \<in> set (keys s). IsAllowedInStream k \<and> k \<le> prepared s \<and> (\<forall>l \<in> set (log s). l < k)) \<and>
     (\<forall>l \<in> set (log s). l \<le> prepared s) \<and> sorted_wrt (<) (log s) \<and>
     (\<forall>u. PacketsSent u \<in> set (loops s) \<longrightarrow> u \<in> set (log s)) \<and>
     loop_ok (propagation_state (handler s)) (task_timestamp_bound (handler s)) (keys s) (completed s) (loops s)"

lemma inorder_invD:
  assumes "inorder_inv s"
  shows "cm_run_in_parallel (contexts s)" "sorted_wrt (<) (keys s)" "sorted_wrt (<) (completed s)"
    "set (pending_completed s) \<subseteq> set (keys s)"
    "k \<in> set (keys s) \<Longrightarrow> IsAllowedInStream k" "k \<in> set (keys s) \<Longrightarrow> k \<le> prepared s"
    "k \<in> set (keys s) \<Longrightarrow> l \<in> set (log s) \<Longrightarrow> l < k"
    "l \<in> set (log s) \<Longrightarrow> l \<le> prepared s" "sorted_wrt (<) (log s)"
    "loop_ok (propagation_state (handler s)) (task_timestamp_bound (handler s)) (keys s) (completed s) (loops s)"
    "PacketsSent u \<in> set (loops s) \<Longrightarrow> u \<in> set (log s)"
  using assms by (auto simp: inorder_inv_def)

lemma loop_ok_cases:
  assumes "loop_ok st b ks cs ls"
  obtains "ls = []" | t where "ls = [RunPackets t]" | t where "ls = [PacketsSent t]"
    | b' where "ls = [RunBound b']" | b' where "ls = [BoundSent b']"
  using assms by (cases "(st, b, ks, cs, ls)" rule: loop_ok.cases) auto

lemma loop_ok_length: "loop_ok st b ks cs ls \<Longrightarrow> length ls \<le> 1"
  by (elim loop_ok_cases) auto

subsection \<open>The sections\<close>

lemma active_iff: "cm_run_in_parallel cm \<Longrightarrow> HasActiveContexts cm \<longleftrightarrow> map fst (active_contexts cm) \<noteq> []"
  by (simp add: HasActiveContexts_def)

lemma front_eq:
  "cm_run_in_parallel cm \<Longrightarrow> map fst (active_contexts cm) = k # ks \<Longrightarrow>
   GetFrontCalculatorContext cm = Some (ActiveContext k, k)"
  by (auto simp: GetFrontCalculatorContext_def split: list.splits)

lemma hd_le_hd:
  assumes "sorted_wrt (<) (k # ks)" "c \<in> set (k # ks)"
  shows "k \<le> (c::timestamp)"
  using assms by (auto simp: less_imp_le)

lemma sorted_hd_le: "sorted_wrt (<) ks \<Longrightarrow> c \<in> set ks \<Longrightarrow> hd ks \<le> (c::timestamp)"
  by (cases ks) (auto simp: less_imp_le)

text \<open>A section that only changes the state of the loop.\<close>

definition loop_result ::
    "'a output_stream_handler \<Rightarrow> timestamp list \<Rightarrow> ('a output_stream_handler \<times> propagation_pc) option \<Rightarrow> bool" where
  "loop_result h ks res \<longleftrightarrow> (\<exists>st pc. res = Some (h\<lparr>propagation_state := st\<rparr>, pc) \<and>
     loop_ok st (task_timestamp_bound h) ks (completed_input_timestamps h) (enters pc))"

lemma PropagationLoop_start_ok:
  assumes par: "cm_run_in_parallel cm" and idle: "propagation_state h = kIdle"
    and sorted: "sorted_wrt (<) (map fst (active_contexts cm))"
    and sub: "set (completed_input_timestamps h) \<subseteq> set (map fst (active_contexts cm))"
  shows "loop_result h (map fst (active_contexts cm)) (PropagationLoop_start h cm)"
proof (cases "map fst (active_contexts cm)")
  case Nil
  then show ?thesis using par idle sub
    by (auto simp: loop_result_def PropagationLoop_start_def active_iff loop_head_def Let_def)
next
  case (Cons k ks)
  note front = front_eq [OF par Cons]
  show ?thesis
  proof (cases "completed_input_timestamps h")
    case Nil
    then show ?thesis using par idle Cons front
      by (auto simp: loop_result_def PropagationLoop_start_def active_iff loop_head_def
          intro!: exI [of _ kIdle])
  next
    case (Cons c cs)
    have "k \<le> c" using hd_le_hd [of k ks c] sorted sub Cons \<open>map fst (active_contexts cm) = k # ks\<close> by auto
    then show ?thesis using par idle \<open>map fst (active_contexts cm) = k # ks\<close> Cons front
      by (cases "k = c")
        (auto simp: loop_result_def PropagationLoop_start_def active_iff loop_head_def Let_def
          intro!: exI [of _ kIdle])
  qed
qed

lemma sent_packets_ok:
  assumes par: "cm_run_in_parallel cm" and state: "propagation_state h = kPropagatingPackets"
    and c: "completed_input_timestamps h = t # cs"
    and sub: "set cs \<subseteq> set (map fst (active_contexts cm))"
  shows "loop_result (h\<lparr>completed_input_timestamps := cs\<rparr>) (map fst (active_contexts cm))
    (PropagatePackets_locked h cm t)"
proof (cases "map fst (active_contexts cm)")
  case Nil
  then show ?thesis using par state c sub
    by (auto simp: loop_result_def PropagatePackets_locked_def active_iff loop_head_def Let_def)
next
  case (Cons k ks)
  then show ?thesis using par state c front_eq [OF par Cons]
    by (cases "cs \<noteq> [] \<and> k = hd cs")
      (auto simp: loop_result_def PropagatePackets_locked_def active_iff loop_head_def Let_def
        intro!: exI [of _ kPropagatingPackets])
qed

lemma sent_bound_ok:
  assumes par: "cm_run_in_parallel cm"
    and state: "propagation_state h = kPropagatingBound \<and> completed_input_timestamps h = [] \<or>
      propagation_state h = kPropagationPending"
    and sub: "set (completed_input_timestamps h) \<subseteq> set (map fst (active_contexts cm))"
    and b: "b \<le> task_timestamp_bound h"
      "propagation_state h = kPropagationPending \<and> map fst (active_contexts cm) = [] \<longrightarrow> b < task_timestamp_bound h"
  shows "loop_result h (map fst (active_contexts cm)) (PropagationBound_locked h cm b)"
proof (cases "propagation_state h = kPropagatingBound")
  case True
  then show ?thesis using state by (auto simp: loop_result_def PropagationBound_locked_def intro!: exI [of _ kIdle])
next
  case False
  with state have pend: "propagation_state h = kPropagationPending" by simp
  show ?thesis
  proof (cases "map fst (active_contexts cm)")
    case Nil
    then show ?thesis using par pend b sub
      by (auto simp: loop_result_def PropagationBound_locked_def active_iff loop_head_def)
  next
    case (Cons k ks)
    then show ?thesis using par pend front_eq [OF par Cons]
      by (cases "completed_input_timestamps h = [] \<or> k \<noteq> hd (completed_input_timestamps h)")
        (auto simp: loop_result_def PropagationBound_locked_def active_iff loop_head_def)
  qed
qed

lemma PropagateOutputPackets_total:
  assumes "t = Timestamp_Unstarted \<or> IsAllowedInStream t"
  shows "\<exists>ms shards' msgs. PropagateOutputPackets h t shards =
    Some (h\<lparr>output_stream_managers := ms\<rparr>, shards', msgs)"
proof -
  have stream: "\<exists>m' sh' msgs. propagate_stream t m sh = Some (m', sh', msgs)"
    if "t = Timestamp_Unstarted \<or> IsAllowedInStream t" for t m and sh :: "'a output_stream_shard"
    using ComputeOutputTimestampBound_Some [OF that, of m sh]
    by (auto simp: propagate_stream_def split: prod.splits)
  have "\<exists>ms' shs' msgs. propagate_loop t ms shs = Some (ms', shs', msgs)"
    if t: "t = Timestamp_Unstarted \<or> IsAllowedInStream t" for t ms and shs :: "'a output_stream_shard list"
  proof (induction ms arbitrary: shs)
    case (Cons m ms)
    note IH = Cons.IH
    show ?case
    proof (cases shs)
      case (Cons sh shs')
      obtain m' sh' msgs where "propagate_stream t m sh = Some (m', sh', msgs)"
        using stream [OF t] by blast
      moreover obtain ms' shs'' msgs' where "propagate_loop t ms shs' = Some (ms', shs'', msgs')"
        using IH by blast
      ultimately show ?thesis by (simp add: Cons)
    qed simp
  qed simp
  then obtain ms shards' msgs where "propagate_loop t (output_stream_managers h) shards = Some (ms, shards', msgs)"
    using assms by blast
  then show ?thesis by (auto simp: PropagateOutputPackets_def)
qed

lemma TryPropagateTimestampBound_total:
  "\<exists>ms msgs. TryPropagateTimestampBound h b = Some (h\<lparr>output_stream_managers := ms\<rparr>, msgs)"
proof (cases "IsRangeValue b")
  case True
  have stream: "\<exists>r. try_propagate_stream b m = Some r" for m :: "'a output_stream_manager"
    using True by (auto simp: try_propagate_stream_def ts_plus_clamps split: prod.splits)
  have "\<exists>r. try_propagate_loop b ms = Some r" for ms :: "'a output_stream_manager list"
  proof (induction ms)
    case (Cons m ms)
    obtain m' msgs where "try_propagate_stream b m = Some (m', msgs)" using stream by (metis prod.exhaust)
    moreover obtain ms' msgs' where "try_propagate_loop b ms = Some (ms', msgs')"
      using Cons by (metis prod.exhaust)
    ultimately show ?case by simp
  qed simp
  then obtain ms msgs where "try_propagate_loop b (output_stream_managers h) = Some (ms, msgs)"
    by (metis prod.exhaust)
  with True show ?thesis by (auto simp: TryPropagateTimestampBound_def)
next
  case False
  then show ?thesis by (auto simp: TryPropagateTimestampBound_def intro!: exI [of _ "output_stream_managers h"])
qed

lemma put_recycle:
  assumes "active_contexts cm = (t, cc) # rest"
  shows "RecycleCalculatorContext (put_context cm (ActiveContext t) cc') =
    Some (cm\<lparr>idle_contexts := idle_contexts cm @ [cc'],
             active_contexts := map (\<lambda>(k, c). (k, if k = t then cc' else c)) rest\<rparr>)"
  using assms by (simp add: RecycleCalculatorContext_def)

lemma PropagatePackets_unlocked_ok:
  assumes "active_contexts cm = (t, cc) # rest" "IsAllowedInStream t"
  shows "\<exists>ms cm' msgs. PropagatePackets_unlocked h cm t = Some (h\<lparr>output_stream_managers := ms\<rparr>, cm', msgs) \<and>
    map fst (active_contexts cm') = map fst rest \<and> cm_run_in_parallel cm' = cm_run_in_parallel cm"
proof -
  obtain ms shards msgs where "PropagateOutputPackets h t (outputs cc) =
      Some (h\<lparr>output_stream_managers := ms\<rparr>, shards, msgs)"
    using PropagateOutputPackets_total [of t h "outputs cc"] assms(2) by blast
  then show ?thesis using assms(1)
    by (auto simp: PropagatePackets_unlocked_def put_recycle [OF assms(1)] case_prod_beta comp_def
        simp del: put_context.simps)
qed

subsection \<open>Every step keeps the invariant\<close>

lemma insort_completed:
  assumes "sorted_wrt (<) cs" "t \<notin> set cs"
  shows "sorted_wrt (<) (List.insort_insert t cs)" "set (List.insort_insert t cs) = insert t (set cs)"
proof -
  have "sorted cs" "distinct cs" using assms(1) by (simp_all add: strict_sorted_iff)
  then show "sorted_wrt (<) (List.insort_insert t cs)"
    by (simp add: strict_sorted_iff sorted_insort_insert distinct_insort_insert)
  show "set (List.insort_insert t cs) = insert t (set cs)" by (rule set_insort_insert)
qed

lemma hd_insort_insert:
  assumes "sorted_wrt (<) cs" "t \<notin> set cs" "cs \<noteq> []" "hd cs \<le> (t::timestamp)"
  shows "hd (List.insort_insert t cs) = hd cs \<and> tl (List.insort_insert t cs) = List.insort_insert t (tl cs)"
  using assms by (cases cs) (auto simp: insort_insert_key_def)

text \<open>What a completion and a raised bound do when the loop is not entered.\<close>

lemma PostProcess_locked_ok:
  assumes inv: "inorder_inv s" and t: "t \<in> set (keys s)" "t \<notin> set (completed s)"
  shows "\<exists>h pc. PostProcess_locked (handler s) (contexts s) t = Some (h, pc) \<and>
    inorder_inv (s\<lparr>handler := h, loops := loops s @ enters pc\<rparr>)"
proof -
  let ?cs = "List.insort_insert t (completed s)"
  let ?h = "(handler s)\<lparr>completed_input_timestamps := ?cs\<rparr>"
  note d = inorder_invD [OF inv]
  note ins = insort_completed [OF d(3) t(2)]
  have ne: "?cs \<noteq> []" using ins(2) by auto
  show ?thesis using d(10)
  proof (cases rule: loop_ok_cases)
    case 1
    then have idle: "propagation_state (handler s) = kIdle" and "pending_completed s = completed s"
      using d(10) by (simp_all add: pending_completed_def)
    with d(4) ins(2) t(1) have sub: "set ?cs \<subseteq> set (keys s)" by simp
    have "loop_result ?h (keys s) (PropagationLoop_start ?h (contexts s))"
      using PropagationLoop_start_ok [of "contexts s" ?h] d(1,2) idle sub by simp
    then obtain st pc where "PropagationLoop_start ?h (contexts s) = Some (?h\<lparr>propagation_state := st\<rparr>, pc)"
      "loop_ok st (task_timestamp_bound (handler s)) (keys s) ?cs (enters pc)"
      by (auto simp: loop_result_def)
    moreover have "pending_completed (s\<lparr>handler := ?h\<lparr>propagation_state := st\<rparr>, loops := enters pc\<rparr>) = ?cs"
      by (cases pc) (simp_all add: pending_completed_def)
    ultimately show ?thesis using idle d ins(1) sub 1
      by (simp add: PostProcess_locked_def inorder_inv_def)
  next
    case (2 u)
    then have "completed s \<noteq> []" "hd (completed s) = u" "hd (keys s) = u" "keys s \<noteq> []"
      and st: "propagation_state (handler s) = kPropagatingPackets"
      using d(10) by simp_all
    moreover have "hd (keys s) \<le> t" by (rule sorted_hd_le [OF d(2) t(1)])
    ultimately have "hd ?cs = u" using hd_insort_insert [OF d(3) t(2)] by simp
    then show ?thesis using 2 st d ins t(1) ne
      by (simp add: PostProcess_locked_def inorder_inv_def pending_completed_def)
  next
    case (3 u)
    then have c: "completed s \<noteq> []" "hd (completed s) = u"
      and st: "propagation_state (handler s) = kPropagatingPackets"
      using d(10) by simp_all
    have pend: "pending_completed s = tl (completed s)" using 3 by (simp add: pending_completed_def)
    have "u < t" using d(7) [OF t(1), of u] d(11) [of u] 3 by simp
    then have le: "hd (completed s) \<le> t" using c by simp
    note hd = hd_insort_insert [OF d(3) t(2) c(1) le]
    have "set (List.insort_insert t (tl (completed s))) \<subseteq> set (keys s)"
      using d(4) t(1) pend by (simp add: set_insort_insert)
    then show ?thesis using 3 st d ins ne c hd
      by (simp add: PostProcess_locked_def inorder_inv_def pending_completed_def)
  next
    case (4 b)
    then show ?thesis using d ins t(1)
      by (cases "propagation_state (handler s) = kPropagatingBound")
        (auto simp: PostProcess_locked_def inorder_inv_def pending_completed_def)
  next
    case (5 b)
    then show ?thesis using d ins t(1)
      by (cases "propagation_state (handler s) = kPropagatingBound")
        (auto simp: PostProcess_locked_def inorder_inv_def pending_completed_def)
  qed
qed

lemma UpdateTaskTimestampBound_locked_ok:
  assumes inv: "inorder_inv s" and t: "task_timestamp_bound (handler s) \<le> t"
  shows "\<exists>h pc. UpdateTaskTimestampBound_locked (handler s) (contexts s) t = Some (h, pc) \<and>
    inorder_inv (s\<lparr>handler := h, loops := loops s @ enters pc\<rparr>)"
proof (cases "task_timestamp_bound (handler s) = t")
  case True
  then show ?thesis using inv by (simp add: UpdateTaskTimestampBound_locked_def)
next
  case False
  then have less: "task_timestamp_bound (handler s) < t" using t by simp
  let ?h = "(handler s)\<lparr>task_timestamp_bound := t\<rparr>"
  note d = inorder_invD [OF inv]
  show ?thesis using d(10)
  proof (cases rule: loop_ok_cases)
    case 1
    then have idle: "propagation_state (handler s) = kIdle" and sub: "set (completed s) \<subseteq> set (keys s)"
      using d(10,4) by (simp_all add: pending_completed_def)
    have "loop_result ?h (keys s) (PropagationLoop_start ?h (contexts s))"
      using PropagationLoop_start_ok [of "contexts s" ?h] d(1,2) idle sub by simp
    then obtain st pc where "PropagationLoop_start ?h (contexts s) = Some (?h\<lparr>propagation_state := st\<rparr>, pc)"
      "loop_ok st t (keys s) (completed s) (enters pc)"
      by (auto simp: loop_result_def)
    moreover have "pending_completed (s\<lparr>handler := ?h\<lparr>propagation_state := st\<rparr>, loops := enters pc\<rparr>) = completed s"
      by (cases pc) (simp_all add: pending_completed_def)
    ultimately show ?thesis using idle d sub 1 less False
      by (simp add: UpdateTaskTimestampBound_locked_def inorder_inv_def)
  next
    case (2 u)
    then show ?thesis using d less False
      by (simp add: UpdateTaskTimestampBound_locked_def inorder_inv_def pending_completed_def)
  next
    case (3 u)
    then show ?thesis using d less False
      by (simp add: UpdateTaskTimestampBound_locked_def inorder_inv_def pending_completed_def)
  next
    case (4 b)
    then have "b < t" using d(10) less by (auto intro: order_le_less_trans)
    then show ?thesis using 4 d less False
      by (cases "propagation_state (handler s) = kPropagatingBound")
        (auto simp: UpdateTaskTimestampBound_locked_def inorder_inv_def pending_completed_def less_imp_le)
  next
    case (5 b)
    then have "b < t" using d(10) less by (auto intro: order_le_less_trans)
    then show ?thesis using 5 d less False
      by (cases "propagation_state (handler s) = kPropagatingBound")
        (auto simp: UpdateTaskTimestampBound_locked_def inorder_inv_def pending_completed_def less_imp_le)
  qed
qed

text \<open>The steps of the thread in the loop; it is the only one there.\<close>

lemma single_loop:
  assumes "inorder_inv s" "loops s = xs @ l # ys"
  shows "xs = [] \<and> ys = [] \<and> loops s = [l]"
  using loop_ok_length [OF inorder_invD(10) [OF assms(1)]] assms(2) by (cases xs; cases ys) auto

lemma send_packets_inv:
  assumes inv: "inorder_inv s" and l: "loops s = [RunPackets t]"
  shows "\<exists>h cm msgs. PropagatePackets_unlocked (handler s) (contexts s) t = Some (h, cm, msgs) \<and>
    inorder_inv (s\<lparr>handler := h, contexts := cm, loops := [PacketsSent t], log := log s @ [t]\<rparr>)"
proof -
  note d = inorder_invD [OF inv]
  have st: "propagation_state (handler s) = kPropagatingPackets" "completed s \<noteq> []" "hd (completed s) = t"
    "keys s \<noteq> []" "hd (keys s) = t" using d(10) l by simp_all
  then obtain cc rest where act: "active_contexts (contexts s) = (t, cc) # rest"
    by (cases "active_contexts (contexts s)") auto
  have mem: "t \<in> set (keys s)" by (simp add: act)
  obtain ms cm msgs where un: "PropagatePackets_unlocked (handler s) (contexts s) t =
      Some ((handler s)\<lparr>output_stream_managers := ms\<rparr>, cm, msgs)"
    and cm: "map fst (active_contexts cm) = map fst rest" "cm_run_in_parallel cm = cm_run_in_parallel (contexts s)"
    using PropagatePackets_unlocked_ok [OF act d(5) [OF mem]] by blast
  have keys: "keys s = t # map fst rest" by (simp add: act)
  have gt: "k \<in> set (map fst rest) \<Longrightarrow> t < k" for k using d(2) unfolding keys by auto
  have "set (tl (completed s)) \<subseteq> set (map fst rest)"
  proof
    fix c assume c: "c \<in> set (tl (completed s))"
    then have "c \<in> set (completed s)" by (cases "completed s") auto
    moreover have "pending_completed s = completed s" by (simp add: pending_completed_def l)
    ultimately have "c \<in> set (keys s)" using d(4) by auto
    moreover have "t < c" using c d(3) st(2,3) by (cases "completed s") auto
    ultimately show "c \<in> set (map fst rest)" unfolding keys by auto
  qed
  moreover have "\<forall>x \<in> set (log s). x < t" using d(7) [OF mem] by blast
  moreover have "t \<le> prepared s" by (rule d(6) [OF mem])
  ultimately have "inorder_inv (s\<lparr>handler := (handler s)\<lparr>output_stream_managers := ms\<rparr>, contexts := cm,
      loops := [PacketsSent t], log := log s @ [t]\<rparr>)"
    using d(1,3,8,9) d(2,5,6,7) st gt unfolding inorder_inv_def keys
    by (simp add: cm pending_completed_def sorted_wrt_append)
  with un show ?thesis by blast
qed

lemma sent_packets_inv:
  assumes inv: "inorder_inv s" and l: "loops s = [PacketsSent t]"
  shows "\<exists>h pc. PropagatePackets_locked (handler s) (contexts s) t = Some (h, pc) \<and>
    inorder_inv (s\<lparr>handler := h, loops := enters pc\<rparr>)"
proof -
  note d = inorder_invD [OF inv]
  have st: "propagation_state (handler s) = kPropagatingPackets" "completed s \<noteq> []" "hd (completed s) = t"
    using d(10) l by simp_all
  then obtain cs where cs: "completed s = t # cs" by (cases "completed s") auto
  have sub: "set cs \<subseteq> set (keys s)" using d(4) l cs by (simp add: pending_completed_def)
  let ?h = "(handler s)\<lparr>completed_input_timestamps := cs\<rparr>"
  obtain st' pc where "PropagatePackets_locked (handler s) (contexts s) t = Some (?h\<lparr>propagation_state := st'\<rparr>, pc)"
    and ok: "loop_ok st' (task_timestamp_bound (handler s)) (keys s) cs (enters pc)"
    using sent_packets_ok [OF d(1) st(1) cs sub] by (auto simp: loop_result_def)
  moreover have "pending_completed (s\<lparr>handler := ?h\<lparr>propagation_state := st'\<rparr>, loops := enters pc\<rparr>) = cs"
    by (cases pc) (simp_all add: pending_completed_def)
  ultimately show ?thesis using d sub ok cs by (simp add: inorder_inv_def)
qed

lemma send_bound_inv:
  assumes inv: "inorder_inv s" and l: "loops s = [RunBound b]"
  shows "\<exists>h msgs. PropagationBound_unlocked (handler s) b = Some (h, msgs) \<and>
    inorder_inv (s\<lparr>handler := h, loops := [BoundSent b]\<rparr>)"
proof -
  obtain ms msgs where "PropagationBound_unlocked (handler s) b =
      Some ((handler s)\<lparr>output_stream_managers := ms\<rparr>, msgs)"
    using TryPropagateTimestampBound_total [of "handler s" b] by (auto simp: PropagationBound_unlocked_def)
  then show ?thesis using inorder_invD [OF inv] l by (simp add: inorder_inv_def pending_completed_def)
qed

lemma sent_bound_inv:
  assumes inv: "inorder_inv s" and l: "loops s = [BoundSent b]"
  shows "\<exists>h pc. PropagationBound_locked (handler s) (contexts s) b = Some (h, pc) \<and>
    inorder_inv (s\<lparr>handler := h, loops := enters pc\<rparr>)"
proof -
  note d = inorder_invD [OF inv]
  have sub: "set (completed s) \<subseteq> set (keys s)" using d(4) l by (simp add: pending_completed_def)
  have st: "propagation_state (handler s) = kPropagatingBound \<and> completed s = [] \<or>
      propagation_state (handler s) = kPropagationPending"
    and b: "b \<le> task_timestamp_bound (handler s)" "propagation_state (handler s) = kPropagationPending \<and>
      keys s = [] \<longrightarrow> b < task_timestamp_bound (handler s)"
    using d(10) l by simp_all
  have "loop_result (handler s) (keys s) (PropagationBound_locked (handler s) (contexts s) b)"
    by (rule sent_bound_ok [OF d(1) st sub b])
  then obtain st' pc where "PropagationBound_locked (handler s) (contexts s) b =
      Some ((handler s)\<lparr>propagation_state := st'\<rparr>, pc)"
    and ok: "loop_ok st' (task_timestamp_bound (handler s)) (keys s) (completed s) (enters pc)"
    by (auto simp: loop_result_def)
  moreover have "pending_completed (s\<lparr>handler := (handler s)\<lparr>propagation_state := st'\<rparr>, loops := enters pc\<rparr>) =
      completed s" by (cases pc) (simp_all add: pending_completed_def)
  ultimately show ?thesis using d sub ok by (simp add: inorder_inv_def)
qed

lemma loop_ok_append:
  assumes "loop_ok st b ks cs ls" "ks \<noteq> []"
  shows "loop_ok st b (ks @ [k]) cs ls"
  by (rule loop_ok_cases [OF assms(1)]) (use assms in auto)

lemma keys_insort_last:
  "\<forall>k \<in> set (map fst xs). k < (t::timestamp) \<Longrightarrow> map fst (insort_key fst (t, c) xs) = map fst xs @ [t]"
  by (induction xs) auto

lemma prepare_inv:
  assumes inv: "inorder_inv s" and t: "IsAllowedInStream t" "prepared s < t"
    and prep: "PrepareCalculatorContext (contexts s) t = Some (cm, r)"
  shows "inorder_inv (s\<lparr>contexts := cm, prepared := t\<rparr>)"
proof -
  note d = inorder_invD [OF inv]
  have lt: "\<forall>k \<in> set (keys s). k < t" using d(6) t(2) by (blast intro: order_le_less_trans)
  have par: "cm_run_in_parallel cm" and keys: "map fst (active_contexts cm) = keys s @ [t]"
    using prep d(1) keys_insort_last [OF lt]
    by (auto simp: PrepareCalculatorContext_def split: list.splits prod.splits if_splits)
  have log: "l \<in> set (log s) \<Longrightarrow> l < t" for l using d(8) t(2) by (blast intro: order_le_less_trans)
  have sub: "set (pending_completed s) \<subseteq> set (keys s @ [t])" using d(4) by auto
  have ok: "loop_ok (propagation_state (handler s)) (task_timestamp_bound (handler s)) (keys s @ [t])
      (completed s) (loops s)"
  proof (cases "keys s = []")
    case True
    have "\<not> IsAllowedInStream c \<Longrightarrow> True" for c by simp
    show ?thesis using d(10)
      by (cases rule: loop_ok_cases) (use d(4,10) True in \<open>auto simp: pending_completed_def\<close>)
  qed (rule loop_ok_append [OF d(10)])
  let ?s = "s\<lparr>contexts := cm, prepared := t\<rparr>"
  have "pending_completed ?s = pending_completed s"
    by (simp add: pending_completed_def split: list.split loop_thread.split)
  moreover have "sorted_wrt (<) (keys s @ [t])" using d(2) lt by (simp add: sorted_wrt_append)
  moreover have "\<forall>k \<in> set (keys s @ [t]). IsAllowedInStream k \<and> k \<le> t \<and> (\<forall>l \<in> set (log s). l < k)"
    using d(5,7) lt log t(1) by (auto simp: less_imp_le)
  moreover have "\<forall>l \<in> set (log s). l \<le> t" using log by (auto simp: less_imp_le)
  ultimately show ?thesis using d(3,9,11) sub ok par
    by (simp add: inorder_inv_def keys del: list.set_map set_append)
qed

text \<open>Every step keeps the invariant, and no section the code runs aborts.\<close>

lemma inorder_inv_step:
  assumes "inorder_step s s'" "inorder_inv s"
  shows "inorder_inv s'"
  using assms
proof (cases rule: inorder_step.cases)
  case (prepare t cm r)
  then show ?thesis using prepare_inv assms(2) by blast
next
  case (update_bound t h pc)
  then show ?thesis using UpdateTaskTimestampBound_locked_ok [OF assms(2)] by fastforce
next
  case (complete t h pc)
  then show ?thesis using PostProcess_locked_ok [OF assms(2), of t] by (fastforce simp: image_iff)
next
  case (send_packets xs t ys h cm msgs)
  then show ?thesis using single_loop [OF assms(2) send_packets(2)] send_packets_inv [OF assms(2), of t] by auto
next
  case (sent_packets xs t ys h pc)
  then show ?thesis using single_loop [OF assms(2) sent_packets(2)] sent_packets_inv [OF assms(2), of t] by auto
next
  case (send_bound xs b ys h msgs)
  then show ?thesis using single_loop [OF assms(2) send_bound(2)] send_bound_inv [OF assms(2), of b] by auto
next
  case (sent_bound xs b ys h pc)
  then show ?thesis using single_loop [OF assms(2) sent_bound(2)] sent_bound_inv [OF assms(2), of b] by auto
qed

inductive inorder_steps :: "'a inorder_state \<Rightarrow> 'a inorder_state \<Rightarrow> bool" where
  refl: "inorder_steps s s"
| step: "inorder_steps s s' \<Longrightarrow> inorder_step s' s'' \<Longrightarrow> inorder_steps s s''"

lemma inorder_inv_steps: "inorder_steps s s' \<Longrightarrow> inorder_inv s \<Longrightarrow> inorder_inv s'"
  by (induction rule: inorder_steps.induct) (auto intro: inorder_inv_step)

text \<open>The state at the start of a run of a parallel node.\<close>

definition inorder_start :: "'a inorder_state \<Rightarrow> bool" where
  "inorder_start s \<longleftrightarrow> cm_run_in_parallel (contexts s) \<and> active_contexts (contexts s) = [] \<and>
     completed s = [] \<and> propagation_state (handler s) = kIdle \<and> loops s = [] \<and> log s = []"

lemma inorder_inv_start: "inorder_start s \<Longrightarrow> inorder_inv s"
  by (simp add: inorder_start_def inorder_inv_def pending_completed_def)

subsection \<open>Properties\<close>

lemma inorder_propagation_parts:
  assumes "inorder_start s" and "inorder_steps s s'"
  shows "sorted_wrt (<) (log s')" and "length (loops s') \<le> 1"
    and "\<forall>l \<in> set (log s'). \<forall>k \<in> fst ` set (active_contexts (contexts s')). l < k"
proof -
  note d = inorder_invD [OF inorder_inv_steps [OF assms(2) inorder_inv_start [OF assms(1)]]]
  show "sorted_wrt (<) (log s')" by (rule d(9))
  show "length (loops s') \<le> 1" by (rule loop_ok_length [OF d(10)])
  show "\<forall>l \<in> set (log s'). \<forall>k \<in> fst ` set (active_contexts (contexts s')). l < k" using d(7) by auto
qed

text \<open>
  C6: Parallel invocations propagate in order. Over every interleaving of the scheduling
  thread, of the workers that complete invocations in any order, and of the threads in the
  propagation loop, the packets of the invocations are propagated in strictly increasing
  order of their input timestamps, and at most one thread is ever in the loop.
\<close>
theorem inorder_propagation:
  assumes "inorder_start s" and "inorder_steps s s'"
  shows "sorted_wrt (<) (log s') \<and> length (loops s') \<le> 1 \<and>
    (\<forall>l \<in> set (log s'). \<forall>k \<in> fst ` set (active_contexts (contexts s')). l < k)"
  using inorder_propagation_parts [OF assms] by blast

lemma no_completion_lost_parts:
  assumes "inorder_start s" and "inorder_steps s s'" and "loops s' = []"
  shows "completed_input_timestamps (handler s') \<noteq> [] \<Longrightarrow>
      hd (completed_input_timestamps (handler s')) \<noteq> fst (hd (active_contexts (contexts s')))"
    and "set (completed_input_timestamps (handler s')) = fst ` set (active_contexts (contexts s')) \<Longrightarrow>
      active_contexts (contexts s') = []"
proof -
  note d = inorder_invD [OF inorder_inv_steps [OF assms(2) inorder_inv_start [OF assms(1)]]]
  have ne: "completed s' \<noteq> [] \<Longrightarrow> hd (completed s') \<noteq> hd (keys s')" using d(10) assms(3) by simp
  have sub: "set (completed s') \<subseteq> set (keys s')" using d(4) assms(3) by (simp add: pending_completed_def)
  show first: "completed s' \<noteq> [] \<Longrightarrow> hd (completed s') \<noteq> fst (hd (active_contexts (contexts s')))"
    using ne sub by (cases "active_contexts (contexts s')") auto
  assume all: "set (completed s') = fst ` set (active_contexts (contexts s'))"
  show "active_contexts (contexts s') = []"
  proof (rule ccontr)
    assume "active_contexts (contexts s') \<noteq> []"
    then have k: "hd (keys s') \<in> set (keys s')" by (cases "active_contexts (contexts s')") auto
    then have c: "hd (keys s') \<in> set (completed s')" using all by auto
    then have c': "hd (completed s') \<in> set (completed s')" by (cases "completed s'") auto
    have "hd (completed s') \<le> hd (keys s')" by (rule sorted_hd_le [OF d(3) c])
    moreover have "hd (keys s') \<le> hd (completed s')" using sub c' by (intro sorted_hd_le [OF d(2)]) auto
    ultimately show False using ne c by (metis antisym empty_iff list.set(1))
  qed
qed


lemma inorder_sections_total_parts:
  assumes "inorder_start s" and "inorder_steps s s'"
  shows "t \<in> fst ` set (active_contexts (contexts s')) \<Longrightarrow>
      t \<notin> set (completed_input_timestamps (handler s')) \<Longrightarrow>
      PostProcess_locked (handler s') (contexts s') t \<noteq> None"
    and "task_timestamp_bound (handler s') \<le> b \<Longrightarrow>
      UpdateTaskTimestampBound_locked (handler s') (contexts s') b \<noteq> None"
    and "RunPackets t \<in> set (loops s') \<Longrightarrow> PropagatePackets_unlocked (handler s') (contexts s') t \<noteq> None"
    and "PacketsSent t \<in> set (loops s') \<Longrightarrow> PropagatePackets_locked (handler s') (contexts s') t \<noteq> None"
    and "RunBound b \<in> set (loops s') \<Longrightarrow> PropagationBound_unlocked (handler s') b \<noteq> None"
    and "BoundSent b \<in> set (loops s') \<Longrightarrow> PropagationBound_locked (handler s') (contexts s') b \<noteq> None"
proof -
  have inv: "inorder_inv s'" by (rule inorder_inv_steps [OF assms(2) inorder_inv_start [OF assms(1)]])
  have only: "l \<in> set (loops s') \<Longrightarrow> loops s' = [l]" for l
    using loop_ok_length [OF inorder_invD(10) [OF inv]] by (cases "loops s'") auto
  show "t \<in> fst ` set (active_contexts (contexts s')) \<Longrightarrow> t \<notin> set (completed s') \<Longrightarrow>
      PostProcess_locked (handler s') (contexts s') t \<noteq> None"
    using PostProcess_locked_ok [OF inv, of t] by auto
  show "task_timestamp_bound (handler s') \<le> b \<Longrightarrow>
      UpdateTaskTimestampBound_locked (handler s') (contexts s') b \<noteq> None"
    using UpdateTaskTimestampBound_locked_ok [OF inv, of b] by auto
  show "RunPackets t \<in> set (loops s') \<Longrightarrow> PropagatePackets_unlocked (handler s') (contexts s') t \<noteq> None"
    using send_packets_inv [OF inv only, of t] by auto
  show "PacketsSent t \<in> set (loops s') \<Longrightarrow> PropagatePackets_locked (handler s') (contexts s') t \<noteq> None"
    using sent_packets_inv [OF inv only, of t] by auto
  show "RunBound b \<in> set (loops s') \<Longrightarrow> PropagationBound_unlocked (handler s') b \<noteq> None"
    using send_bound_inv [OF inv only, of b] by auto
  show "BoundSent b \<in> set (loops s') \<Longrightarrow> PropagationBound_locked (handler s') (contexts s') b \<noteq> None"
    using sent_bound_inv [OF inv only, of b] by auto
qed

text \<open>
  C8: No section of the propagation loop aborts. In every reachable state, completing an
  active invocation, raising the task bound and each section the thread in the loop has to
  execute next return a result: no \<open>CHECK\<close> on the order of contexts and completions, on the
  propagation state or on the bounds fails, and no empty container is dereferenced.
\<close>
theorem inorder_sections_total:
  assumes "inorder_start s" and "inorder_steps s s'"
  shows "(\<forall>t \<in> fst ` set (active_contexts (contexts s')). t \<notin> set (completed_input_timestamps (handler s')) \<longrightarrow>
      PostProcess_locked (handler s') (contexts s') t \<noteq> None) \<and>
    (\<forall>b. task_timestamp_bound (handler s') \<le> b \<longrightarrow>
      UpdateTaskTimestampBound_locked (handler s') (contexts s') b \<noteq> None) \<and>
    (\<forall>t. RunPackets t \<in> set (loops s') \<longrightarrow> PropagatePackets_unlocked (handler s') (contexts s') t \<noteq> None) \<and>
    (\<forall>t. PacketsSent t \<in> set (loops s') \<longrightarrow> PropagatePackets_locked (handler s') (contexts s') t \<noteq> None) \<and>
    (\<forall>b. RunBound b \<in> set (loops s') \<longrightarrow> PropagationBound_unlocked (handler s') b \<noteq> None) \<and>
    (\<forall>b. BoundSent b \<in> set (loops s') \<longrightarrow> PropagationBound_locked (handler s') (contexts s') b \<noteq> None)"
  using inorder_sections_total_parts [OF assms] by blast

text \<open>A run for the witnesses: one invocation is prepared, completes and is propagated.\<close>

definition demo_inorder :: "nat inorder_state" where
  "demo_inorder = \<lparr>handler = \<lparr>output_stream_managers = [demo_output 3], osh_run_in_parallel = True,
       completed_input_timestamps = [], task_timestamp_bound = Timestamp_Unset, propagation_state = kIdle\<rparr>,
     contexts = \<lparr>cm_run_in_parallel = True, num_inputs = 0, num_outputs = 1,
       setup_shards_callback = (\<lambda>cc. (cc, OkStatus)), default_context = None,
       active_contexts = [], idle_contexts = []\<rparr>,
     loops = [], prepared = Timestamp_Unset, log = []\<rparr>"

lemma demo_inorder_start: "inorder_start demo_inorder"
  by (simp add: demo_inorder_def inorder_start_def)

lemma demo_inorder_run:
  "\<exists>s'. inorder_steps demo_inorder s' \<and> log s' = [Timestamp_of 5] \<and> loops s' = [PacketsSent (Timestamp_of 5)]"
proof -
  let ?t = "Timestamp_of 5"
  have allowed: "IsAllowedInStream ?t" and less: "prepared demo_inorder < ?t" by code_simp+
  obtain cm r cc where prep: "PrepareCalculatorContext (contexts demo_inorder) ?t = Some (cm, r)"
    and cm: "active_contexts cm = [(?t, cc)]" "cm_run_in_parallel cm"
    by (simp add: PrepareCalculatorContext_def demo_inorder_def)
  let ?s1 = "demo_inorder\<lparr>contexts := cm, prepared := ?t\<rparr>"
  have s1: "inorder_step demo_inorder ?s1" by (rule inorder_step.prepare [OF allowed less prep])
  have front: "GetFrontCalculatorContext cm = Some (ActiveContext ?t, ?t)"
    using cm by (intro front_eq) simp_all
  obtain h where post: "PostProcess_locked (handler ?s1) (contexts ?s1) ?t = Some (h, PropagatesPackets ?t)"
    using cm front
    by (simp add: PostProcess_locked_def PropagationLoop_start_def active_iff loop_head_def demo_inorder_def
        insort_insert_key_def)
  let ?s2 = "?s1\<lparr>handler := h, loops := loops ?s1 @ enters (PropagatesPackets ?t)\<rparr>"
  have s2: "inorder_step ?s1 ?s2"
    by (rule inorder_step.complete [OF _ _ post]) (simp_all add: cm demo_inorder_def)
  have steps: "inorder_steps demo_inorder ?s2"
    using inorder_steps.refl inorder_steps.step s1 s2 by blast
  have l: "loops ?s2 = [RunPackets ?t]" by (simp add: demo_inorder_def)
  have "inorder_inv ?s2" by (rule inorder_inv_steps [OF steps inorder_inv_start [OF demo_inorder_start]])
  then obtain h' cm' msgs where "PropagatePackets_unlocked (handler ?s2) (contexts ?s2) ?t = Some (h', cm', msgs)"
    using send_packets_inv [OF _ l] by blast
  then have "inorder_step ?s2 (?s2\<lparr>handler := h', contexts := cm', loops := [] @ PacketsSent ?t # [],
      log := log ?s2 @ [?t]\<rparr>)"
    by (intro inorder_step.send_packets) (use l in auto)
  then show ?thesis using inorder_steps.step [OF steps] by (force simp: demo_inorder_def)
qed

theorem inorder_propagation_witness:
  "\<exists>s'. log s' = [Timestamp_of 5] \<and> inorder_steps demo_inorder s' \<and> length (loops s') \<le> 1"
  using demo_inorder_run inorder_propagation [OF demo_inorder_start] by blast


theorem inorder_sections_total_witness:
  "\<exists>s'. inorder_steps demo_inorder s' \<and> log s' = [Timestamp_of 5] \<and>
     PropagatePackets_locked (handler s') (contexts s') (Timestamp_of 5) \<noteq> None"
proof -
  obtain s' where "inorder_steps demo_inorder s'" "log s' = [Timestamp_of 5]"
    "loops s' = [PacketsSent (Timestamp_of 5)]" using demo_inorder_run by blast
  then show ?thesis using inorder_sections_total [OF demo_inorder_start, of s']
    by (intro exI [of _ s'] conjI) auto
qed

end
