(* ===== verification/SchedulerQueue.thy ===== *)
theory SchedulerQueue
  imports Prelude
begin

section \<open>The scheduler queue\<close>

text \<open>
  \<open>scheduler_queue.h/.cc\<close>: the priority queue of the nodes that can run on an executor, and
  its accounting of the tasks it has given to that executor. The methods are split where
  they release the mutex: the section under it is one function, and what the thread does
  afterwards (the idle callback, handing tasks to the executor, running the node) are steps
  of their own in the relation at the end.

  Which of several equivalent items \<open>std::priority_queue\<close> pops is not specified, so the
  popped item is any maximal one. The \<open>int\<close> counters are unbounded.
\<close>

subsection \<open>Items\<close>

record queue_item =
  source_process_order :: int
  item_id :: int
  item_layer :: int
  is_source :: bool
  is_open_node :: bool
  item_context :: "nat option"

text \<open>\<open>operator<\<close>: true means that the first item runs after the second.\<close>

definition item_less :: "queue_item \<Rightarrow> queue_item \<Rightarrow> bool" where
  "item_less a b =
     (if is_open_node a \<or> is_open_node b then
        (if \<not> is_open_node b then False
         else if \<not> is_open_node a then True
         else item_id b < item_id a)
      else if is_source a then
        (if \<not> is_source b then True
         else if item_layer a \<noteq> item_layer b then item_layer b < item_layer a
         else if source_process_order a \<noteq> source_process_order b
         then source_process_order b < source_process_order a
         else item_id b < item_id a)
      else if is_source b then False
      else item_id a < item_id b)"

text \<open>The two constructors: an item to process or close a node, and one to open it.\<close>

definition Item_process :: "bool \<Rightarrow> int \<Rightarrow> int \<Rightarrow> int \<Rightarrow> nat \<Rightarrow> queue_item" where
  "Item_process source n layer order cc =
     \<lparr>source_process_order = (if source then order else 0), item_id = n,
      item_layer = (if source then layer else 0), is_source = source, is_open_node = False,
      item_context = Some cc\<rparr>"

definition Item_open :: "bool \<Rightarrow> int \<Rightarrow> int \<Rightarrow> int \<Rightarrow> queue_item" where
  "Item_open source n layer unstarted =
     \<lparr>source_process_order = (if source then unstarted else 0), item_id = n,
      item_layer = (if source then layer else 0), is_source = source, is_open_node = True,
      item_context = None\<rparr>"

subsection \<open>The sections under the mutex\<close>

record scheduler_queue =
  items :: "queue_item list"
  running_count :: int
  num_pending_tasks :: int
  num_tasks_to_add :: int

definition sq_Reset :: "scheduler_queue \<Rightarrow> scheduler_queue" where
  "sq_Reset q = q\<lparr>num_pending_tasks := 0, num_tasks_to_add := 0, running_count := 0\<rparr>"

definition IsIdle :: "scheduler_queue \<Rightarrow> bool" where
  "IsIdle q \<longleftrightarrow> items q = [] \<and> num_pending_tasks q = 0"

definition SetRunning :: "scheduler_queue \<Rightarrow> bool \<Rightarrow> scheduler_queue option" where
  "SetRunning q running =
     (let q' = q\<lparr>running_count := running_count q + (if running then 1 else -1)\<rparr>
      in do { check (running_count q' \<le> 1); Some q' })"

definition GetTasksToSubmitToExecutor :: "scheduler_queue \<Rightarrow> scheduler_queue \<times> int" where
  "GetTasksToSubmitToExecutor q =
     (let tasks_to_add = num_tasks_to_add q
      in (q\<lparr>num_tasks_to_add := 0, num_pending_tasks := num_pending_tasks q + tasks_to_add\<rparr>, tasks_to_add))"

text \<open>The result: the queue, \<open>was_idle\<close>, and the tasks to hand to the executor.\<close>

definition AddItemToQueue :: "scheduler_queue \<Rightarrow> queue_item \<Rightarrow> scheduler_queue \<times> bool \<times> int" where
  "AddItemToQueue q item =
     (let was_idle = IsIdle q;
          q = q\<lparr>items := item # items q, num_tasks_to_add := num_tasks_to_add q + 1\<rparr>;
          (q, tasks_to_add) = (if 0 < running_count q then GetTasksToSubmitToExecutor q else (q, 0))
      in (q, was_idle, tasks_to_add))"

definition SubmitWaitingTasksToExecutor :: "scheduler_queue \<Rightarrow> scheduler_queue \<times> int" where
  "SubmitWaitingTasksToExecutor q =
     (if 0 < running_count q then GetTasksToSubmitToExecutor q else (q, 0))"

text \<open>
  \<open>AddNode\<close> and \<open>AddNodeForOpen\<close>: nothing after an error; \<open>begun\<close> is the result of the
  node's \<open>TryToBeginScheduling\<close>, which may be false for a source only.
\<close>

definition AddNode ::
    "bool \<Rightarrow> bool \<Rightarrow> scheduler_queue \<Rightarrow> queue_item \<Rightarrow> (scheduler_queue \<times> bool \<times> int) option" where
  "AddNode has_error begun q item =
     (if has_error then Some (q, False, 0)
      else if \<not> begun then do { check (is_source item); Some (q, False, 0) }
      else Some (AddItemToQueue q item))"

definition AddNodeForOpen ::
    "bool \<Rightarrow> scheduler_queue \<Rightarrow> queue_item \<Rightarrow> scheduler_queue \<times> bool \<times> int" where
  "AddNodeForOpen has_error q item = (if has_error then (q, False, 0) else AddItemToQueue q item)"

text \<open>An item the priority queue may have on top.\<close>

definition is_top :: "scheduler_queue \<Rightarrow> queue_item \<Rightarrow> bool" where
  "is_top q it \<longleftrightarrow> it \<in> set (items q) \<and> (\<forall>x \<in> set (items q). \<not> item_less it x)"

definition RunNextTask_pop :: "scheduler_queue \<Rightarrow> queue_item \<Rightarrow> bool \<Rightarrow> scheduler_queue option" where
  "RunNextTask_pop q item node_closed = do {
     check (items q \<noteq> []);
     check (\<not> node_closed);
     Some (q\<lparr>items := remove1 item (items q)\<rparr>) }"

definition RunNextTask_finish :: "scheduler_queue \<Rightarrow> (scheduler_queue \<times> bool) option" where
  "RunNextTask_finish q = do {
     check (0 < num_pending_tasks q);
     let q = q\<lparr>num_pending_tasks := num_pending_tasks q - 1\<rparr>;
     Some (q, IsIdle q) }"

definition sq_CleanupAfterRun :: "scheduler_queue \<Rightarrow> (scheduler_queue \<times> bool) option" where
  "sq_CleanupAfterRun q = do {
     check (num_pending_tasks q = 0);
     check (num_tasks_to_add q = int (length (items q)));
     Some (q\<lparr>num_tasks_to_add := 0, items := []\<rparr>, \<not> IsIdle q) }"

subsection \<open>Threads\<close>

text \<open>
  A thread after the mutex of \<open>AddItemToQueue\<close>: whether it still has to call
  \<open>idle_callback_(false)\<close>, and how many tasks it still has to hand to the executor. A thread
  in \<open>RunNextTask\<close>: it runs its node, or it has finished and maybe has to call
  \<open>idle_callback_(true)\<close>. \<open>executor_tasks\<close> counts the tasks the executor holds, and
  \<open>idle_calls\<close> is the log of the idle callbacks.
\<close>

record adder =
  owes_callback :: bool
  to_submit :: nat

datatype runner = RunsNode queue_item | Finished bool

record queue_system =
  squeue :: scheduler_queue
  adders :: "adder list"
  executor_tasks :: nat
  runners :: "runner list"
  idle_calls :: "bool list"

inductive queue_step :: "queue_system \<Rightarrow> queue_system \<Rightarrow> bool" where
  add: "AddItemToQueue (squeue s) item = (q, was_idle, n) \<Longrightarrow>
    queue_step s (s\<lparr>squeue := q, adders := \<lparr>owes_callback = was_idle, to_submit = nat n\<rparr> # adders s\<rparr>)"
| submit_waiting: "SubmitWaitingTasksToExecutor (squeue s) = (q, n) \<Longrightarrow>
    queue_step s (s\<lparr>squeue := q, adders := \<lparr>owes_callback = False, to_submit = nat n\<rparr> # adders s\<rparr>)"
| set_running: "SetRunning (squeue s) b = Some q \<Longrightarrow> queue_step s (s\<lparr>squeue := q\<rparr>)"
| not_idle: "adders s = xs @ a # ys \<Longrightarrow> owes_callback a \<Longrightarrow>
    queue_step s (s\<lparr>adders := xs @ a\<lparr>owes_callback := False\<rparr> # ys, idle_calls := False # idle_calls s\<rparr>)"
| hand_over: "adders s = xs @ a # ys \<Longrightarrow> \<not> owes_callback a \<Longrightarrow> 0 < to_submit a \<Longrightarrow>
    queue_step s (s\<lparr>adders := xs @ a\<lparr>to_submit := to_submit a - 1\<rparr> # ys,
      executor_tasks := executor_tasks s + 1\<rparr>)"
| run: "0 < executor_tasks s \<Longrightarrow> is_top (squeue s) item \<Longrightarrow>
    RunNextTask_pop (squeue s) item False = Some q \<Longrightarrow>
    queue_step s (s\<lparr>squeue := q, executor_tasks := executor_tasks s - 1,
      runners := RunsNode item # runners s\<rparr>)"
| finish: "runners s = xs @ RunsNode item # ys \<Longrightarrow> RunNextTask_finish (squeue s) = Some (q, idle) \<Longrightarrow>
    queue_step s (s\<lparr>squeue := q, runners := xs @ Finished idle # ys\<rparr>)"
| idle: "runners s = xs @ Finished True # ys \<Longrightarrow>
    queue_step s (s\<lparr>runners := xs @ ys, idle_calls := True # idle_calls s\<rparr>)"

inductive queue_steps :: "queue_system \<Rightarrow> queue_system \<Rightarrow> bool" where
  refl: "queue_steps s s"
| step: "queue_steps s s' \<Longrightarrow> queue_step s' s'' \<Longrightarrow> queue_steps s s''"

subsection \<open>The order is a strict weak order\<close>

lemma item_less_irrefl: "\<not> item_less a a"
  by (simp add: item_less_def)

lemma item_less_asym: "item_less a b \<Longrightarrow> \<not> item_less b a"
  by (auto simp: item_less_def split: if_splits)

lemma item_less_trans: "item_less a b \<Longrightarrow> item_less b c \<Longrightarrow> item_less a c"
  unfolding item_less_def by (auto split: if_splits)

lemma item_incomparable_trans:
  "\<not> item_less a b \<Longrightarrow> \<not> item_less b a \<Longrightarrow> \<not> item_less b c \<Longrightarrow> \<not> item_less c b \<Longrightarrow> \<not> item_less a c"
  unfolding item_less_def by (auto split: if_splits)

lemma top_exists: "items q \<noteq> [] \<Longrightarrow> \<exists>it. is_top q it"
proof -
  have "xs \<noteq> [] \<Longrightarrow> \<exists>it \<in> set xs. \<forall>x \<in> set xs. \<not> item_less it x" for xs
  proof (induction xs)
    case (Cons a xs)
    show ?case
    proof (cases "xs = []")
      case False
      then obtain it where it: "it \<in> set xs" "\<forall>x \<in> set xs. \<not> item_less it x" using Cons.IH by blast
      show ?thesis
      proof (cases "item_less it a")
        case True
        then have "\<not> item_less a x" if "x \<in> set xs" for x
          using it(2) item_less_trans that by blast
        then show ?thesis using item_less_irrefl by auto
      qed (use it in auto)
    qed (simp add: item_less_irrefl)
  qed simp
  then show "items q \<noteq> [] \<Longrightarrow> \<exists>it. is_top q it" by (auto simp: is_top_def)
qed

subsection \<open>The accounting invariant\<close>

abbreviation promised :: "queue_system \<Rightarrow> nat" where
  "promised s \<equiv> sum_list (map to_submit (adders s))"

fun is_running_node :: "runner \<Rightarrow> bool" where
  "is_running_node (RunsNode _) = True"
| "is_running_node (Finished _) = False"

definition running_nodes :: "queue_system \<Rightarrow> nat" where
  "running_nodes s = length (filter is_running_node (runners s))"

definition queue_inv :: "queue_system \<Rightarrow> bool" where
  "queue_inv s \<longleftrightarrow>
     0 \<le> num_tasks_to_add (squeue s) \<and>
     int (promised s + executor_tasks s) + num_tasks_to_add (squeue s) = int (length (items (squeue s))) \<and>
     num_pending_tasks (squeue s) = int (promised s + executor_tasks s + running_nodes s)"

lemma queue_inv_step:
  assumes "queue_step s s'" "queue_inv s"
  shows "queue_inv s'"
  using assms
proof (cases rule: queue_step.cases)
  case (add item q was_idle n)
  then show ?thesis using assms(2)
    by (auto simp: AddItemToQueue_def GetTasksToSubmitToExecutor_def queue_inv_def running_nodes_def Let_def
        split: if_splits)
next
  case (submit_waiting q n)
  then show ?thesis using assms(2)
    by (auto simp: SubmitWaitingTasksToExecutor_def GetTasksToSubmitToExecutor_def queue_inv_def
        running_nodes_def Let_def split: if_splits)
next
  case (set_running b q)
  then show ?thesis using assms(2)
    by (auto simp: SetRunning_def queue_inv_def running_nodes_def Let_def split: if_splits)
next
  case (not_idle xs a ys)
  then show ?thesis using assms(2) by (simp add: queue_inv_def running_nodes_def)
next
  case (hand_over xs a ys)
  then show ?thesis using assms(2) by (auto simp: queue_inv_def running_nodes_def)
next
  case (run item q)
  then show ?thesis using assms(2)
    by (auto simp: RunNextTask_pop_def is_top_def queue_inv_def running_nodes_def length_remove1
        split: if_splits)
next
  case (finish xs item ys q idle)
  then show ?thesis using assms(2)
    by (auto simp: RunNextTask_finish_def queue_inv_def running_nodes_def Let_def split: if_splits)
next
  case (idle xs ys)
  then show ?thesis using assms(2) by (simp add: queue_inv_def running_nodes_def)
qed

lemma queue_inv_steps: "queue_steps s s' \<Longrightarrow> queue_inv s \<Longrightarrow> queue_inv s'"
  by (induction rule: queue_steps.induct) (auto intro: queue_inv_step)

subsection \<open>The balance of the idle callbacks\<close>

definition owed :: "queue_system \<Rightarrow> nat" where
  "owed s = length (filter owes_callback (adders s))"

fun owes_idle :: "runner \<Rightarrow> bool" where
  "owes_idle (RunsNode _) = False"
| "owes_idle (Finished b) = b"

definition owed_idle :: "queue_system \<Rightarrow> nat" where
  "owed_idle s = length (filter owes_idle (runners s))"

definition balanced :: "queue_system \<Rightarrow> bool" where
  "balanced s \<longleftrightarrow> int (count_list (idle_calls s) False + owed s) -
     int (count_list (idle_calls s) True + owed_idle s) = (if IsIdle (squeue s) then 0 else 1)"

lemma balanced_step:
  assumes "queue_step s s'" "queue_inv s" "balanced s"
  shows "balanced s'"
  using assms
proof (cases rule: queue_step.cases)
  case (add item q was_idle n)
  have "IsIdle (squeue s) = was_idle" "\<not> IsIdle q"
    using add(2) by (auto simp: AddItemToQueue_def GetTasksToSubmitToExecutor_def IsIdle_def Let_def
        split: if_splits)
  then show ?thesis using assms(3) add(1) by (auto simp: balanced_def owed_def owed_idle_def)
next
  case (submit_waiting q n)
  have "IsIdle q = IsIdle (squeue s)"
    using submit_waiting(2) assms(2)
    by (auto simp: SubmitWaitingTasksToExecutor_def GetTasksToSubmitToExecutor_def IsIdle_def queue_inv_def
        Let_def split: if_splits)
  then show ?thesis using assms(3) submit_waiting(1) by (auto simp: balanced_def owed_def owed_idle_def)
next
  case (set_running b q)
  have "IsIdle q = IsIdle (squeue s)"
    using set_running(2) by (auto simp: SetRunning_def IsIdle_def Let_def split: if_splits)
  then show ?thesis using assms(3) set_running(1) by (simp add: balanced_def owed_def owed_idle_def)
next
  case (not_idle xs a ys)
  then show ?thesis using assms(3) by (simp add: balanced_def owed_def owed_idle_def)
next
  case (hand_over xs a ys)
  then show ?thesis using assms(3) by (simp add: balanced_def owed_def owed_idle_def)
next
  case (run item q)
  then have "\<not> IsIdle (squeue s)" "\<not> IsIdle q"
    using assms(2) by (auto simp: RunNextTask_pop_def IsIdle_def queue_inv_def split: if_splits)
  then show ?thesis using assms(3) run(1) by (simp add: balanced_def owed_def owed_idle_def)
next
  case (finish xs item ys q idle)
  then have "\<not> IsIdle (squeue s)" "IsIdle q = idle"
    by (auto simp: RunNextTask_finish_def IsIdle_def Let_def split: if_splits)
  then show ?thesis using assms(3) finish(1,2) by (auto simp: balanced_def owed_def owed_idle_def)
next
  case (idle xs ys)
  then show ?thesis using assms(3) by (simp add: balanced_def owed_def owed_idle_def)
qed

text \<open>The runs during which the queue is running all the time.\<close>

inductive running_steps :: "queue_system \<Rightarrow> queue_system \<Rightarrow> bool" where
  refl: "0 < running_count (squeue s) \<Longrightarrow> running_steps s s"
| step: "running_steps s s' \<Longrightarrow> queue_step s' s'' \<Longrightarrow> 0 < running_count (squeue s'') \<Longrightarrow> running_steps s s''"

text \<open>A thread that owes a callback also holds back a task, so the queue is not idle.\<close>

definition holds_back :: "queue_system \<Rightarrow> bool" where
  "holds_back s \<longleftrightarrow> 0 < running_count (squeue s) \<and> owed s \<le> 1 \<and>
     (\<forall>a \<in> set (adders s). owes_callback a \<longrightarrow> 0 < to_submit a)"

lemma owed_not_idle:
  assumes "queue_inv s" "holds_back s" "0 < owed s"
  shows "\<not> IsIdle (squeue s)"
proof -
  obtain a where "a \<in> set (adders s)" "0 < to_submit a"
    using assms(2,3) by (auto simp: owed_def holds_back_def filter_empty_conv)
  then have "0 < promised s"
    using member_le_sum_list [of "to_submit a" "map to_submit (adders s)"] by simp
  then show ?thesis using assms(1) by (simp add: IsIdle_def queue_inv_def)
qed

lemma holds_back_step:
  assumes "queue_step s s'" "queue_inv s" "holds_back s" "0 < running_count (squeue s')"
  shows "holds_back s'"
  using assms
proof (cases rule: queue_step.cases)
  case (add item q was_idle n)
  have n: "0 < n" "was_idle = IsIdle (squeue s)"
    using add(2) assms(2,3)
    by (auto simp: AddItemToQueue_def GetTasksToSubmitToExecutor_def queue_inv_def holds_back_def Let_def)
  then have "was_idle \<Longrightarrow> owed s = 0" using owed_not_idle [OF assms(2,3)] by auto
  then show ?thesis using assms(3,4) add(1) n by (auto simp: holds_back_def owed_def)
next
  case (hand_over xs a ys)
  then show ?thesis using assms(3,4) by (auto simp: holds_back_def owed_def)
next
  case (not_idle xs a ys)
  then show ?thesis using assms(3,4) by (auto simp: holds_back_def owed_def)
qed (auto simp: holds_back_def owed_def)

lemma running_steps_inv:
  "running_steps s s' \<Longrightarrow> queue_inv s \<and> balanced s \<and> holds_back s \<Longrightarrow>
   queue_inv s' \<and> balanced s' \<and> holds_back s'"
  by (induction rule: running_steps.induct) (auto intro: queue_inv_step balanced_step holds_back_step)

text \<open>A queue at the start of a run.\<close>

definition queue_start :: "queue_system \<Rightarrow> bool" where
  "queue_start s \<longleftrightarrow> items (squeue s) = [] \<and> num_pending_tasks (squeue s) = 0 \<and>
     num_tasks_to_add (squeue s) = 0 \<and> adders s = [] \<and> executor_tasks s = 0 \<and> runners s = [] \<and>
     idle_calls s = []"

lemma queue_start_inv: "queue_start s \<Longrightarrow> queue_inv s \<and> balanced s"
  by (simp add: queue_start_def queue_inv_def running_nodes_def balanced_def owed_def owed_idle_def IsIdle_def)

subsection \<open>Properties\<close>

lemma queue_accounting_parts:
  assumes "queue_start s" and "queue_steps s s'"
  shows "0 < executor_tasks s' \<Longrightarrow> \<exists>it. is_top (squeue s') it \<and> RunNextTask_pop (squeue s') it False \<noteq> None"
    and "RunsNode it \<in> set (runners s') \<Longrightarrow> RunNextTask_finish (squeue s') \<noteq> None"
    and "\<lbrakk>\<forall>a \<in> set (adders s'). to_submit a = 0; executor_tasks s' = 0;
          \<forall>r \<in> set (runners s'). \<not> is_running_node r\<rbrakk> \<Longrightarrow> sq_CleanupAfterRun (squeue s') \<noteq> None"
proof -
  have inv: "queue_inv s'" using queue_inv_steps assms queue_start_inv by blast
  show "\<exists>it. is_top (squeue s') it \<and> RunNextTask_pop (squeue s') it False \<noteq> None" if "0 < executor_tasks s'"
  proof -
    have "items (squeue s') \<noteq> []" using inv that by (auto simp: queue_inv_def)
    then show ?thesis using top_exists by (auto simp: RunNextTask_pop_def)
  qed
  show "RunNextTask_finish (squeue s') \<noteq> None" if "RunsNode it \<in> set (runners s')"
  proof -
    have "filter is_running_node (runners s') \<noteq> []" using that by (force simp: filter_empty_conv)
    then have "0 < running_nodes s'" by (simp add: running_nodes_def)
    then show ?thesis using inv by (simp add: queue_inv_def RunNextTask_finish_def Let_def)
  qed
  assume "\<forall>a \<in> set (adders s'). to_submit a = 0" "executor_tasks s' = 0"
    "\<forall>r \<in> set (runners s'). \<not> is_running_node r"
  then have none: "promised s' = 0" "executor_tasks s' = 0" "running_nodes s' = 0"
    by (auto simp: running_nodes_def filter_empty_conv)
  have "num_pending_tasks (squeue s') = 0" "num_tasks_to_add (squeue s') = int (length (items (squeue s')))"
    using inv unfolding queue_inv_def none by simp_all
  then show "sq_CleanupAfterRun (squeue s') \<noteq> None" by (simp add: sq_CleanupAfterRun_def)
qed

text \<open>
  C32: The executor never runs a task for which there is no node. Over every interleaving of
  the threads that add items, submit waiting tasks, pause and resume the queue and run
  tasks: whenever the executor holds a task the queue has an item, so the \<open>CHECK\<close> of
  \<open>RunNextTask\<close> holds; a thread that finishes a node finds a positive number of pending
  tasks; and when no task is out anywhere, the two \<open>CHECK\<close>s of \<open>CleanupAfterRun\<close> hold.
\<close>
theorem queue_accounting:
  assumes "queue_start s" and "queue_steps s s'"
  shows "(0 < executor_tasks s' \<longrightarrow> (\<exists>it. is_top (squeue s') it \<and> RunNextTask_pop (squeue s') it False \<noteq> None)) \<and>
    (\<forall>it. RunsNode it \<in> set (runners s') \<longrightarrow> RunNextTask_finish (squeue s') \<noteq> None) \<and>
    ((\<forall>a \<in> set (adders s'). to_submit a = 0) \<and> executor_tasks s' = 0 \<and>
       (\<forall>r \<in> set (runners s'). \<not> is_running_node r) \<longrightarrow> sq_CleanupAfterRun (squeue s') \<noteq> None)"
  using queue_accounting_parts [OF assms] by blast

text \<open>
  While a queue is running, the scheduler never hears that it became idle before it
  heard the matching notice that it became busy: the number of \<open>idle_callback_(true)\<close> calls
  never exceeds that of \<open>idle_callback_(false)\<close> calls, although the callbacks are made
  without the mutex and by different threads.
\<close>
theorem idle_callbacks_ordered:
  assumes "queue_start s" and "running_steps s s'"
  shows "count_list (idle_calls s') True \<le> count_list (idle_calls s') False"
proof -
  have run: "0 < running_count (squeue s)" using assms(2) by (induction rule: running_steps.induct)
  have "holds_back s" using assms(1) run by (simp add: holds_back_def queue_start_def owed_def)
  then have inv: "queue_inv s'" "balanced s'" "holds_back s'"
    using running_steps_inv [OF assms(2)] queue_start_inv [OF assms(1)] by auto
  show ?thesis
  proof (cases "owed s' = 0")
    case True
    then show ?thesis using inv(2) by (auto simp: balanced_def split: if_splits)
  next
    case False
    then have "\<not> IsIdle (squeue s')" "owed s' = 1"
      using owed_not_idle [OF inv(1,3)] inv(3) by (auto simp: holds_back_def)
    then show ?thesis using inv(2) by (simp add: balanced_def)
  qed
qed

lemma queue_order_parts:
  "\<not> item_less a a"
  "item_less a b \<Longrightarrow> item_less b c \<Longrightarrow> item_less a c"
  "\<not> item_less a b \<Longrightarrow> \<not> item_less b a \<Longrightarrow> \<not> item_less b c \<Longrightarrow> \<not> item_less c b \<Longrightarrow>
     \<not> item_less a c \<and> \<not> item_less c a"
  "item_id a \<noteq> item_id b \<Longrightarrow> item_less a b \<or> item_less b a"
  "is_open_node a \<Longrightarrow> \<not> is_open_node b \<Longrightarrow> item_less b a"
  "\<not> is_open_node a \<Longrightarrow> \<not> is_open_node b \<Longrightarrow> \<not> is_source a \<Longrightarrow> is_source b \<Longrightarrow> item_less b a"
  "items q \<noteq> [] \<Longrightarrow> \<exists>it. is_top q it"
proof -
  show "\<not> item_less a a" by (rule item_less_irrefl)
  show "item_less a b \<Longrightarrow> item_less b c \<Longrightarrow> item_less a c" by (rule item_less_trans)
  show "\<not> item_less a b \<Longrightarrow> \<not> item_less b a \<Longrightarrow> \<not> item_less b c \<Longrightarrow> \<not> item_less c b \<Longrightarrow>
     \<not> item_less a c \<and> \<not> item_less c a"
    using item_incomparable_trans [of a b c] item_incomparable_trans [of c b a] by blast
  show "item_id a \<noteq> item_id b \<Longrightarrow> item_less a b \<or> item_less b a"
    by (auto simp: item_less_def)
  show "is_open_node a \<Longrightarrow> \<not> is_open_node b \<Longrightarrow> item_less b a" by (simp add: item_less_def)
  show "\<not> is_open_node a \<Longrightarrow> \<not> is_open_node b \<Longrightarrow> \<not> is_source a \<Longrightarrow> is_source b \<Longrightarrow> item_less b a"
    by (simp add: item_less_def)
  show "items q \<noteq> [] \<Longrightarrow> \<exists>it. is_top q it" by (rule top_exists)
qed

text \<open>
  The order of the queue is a strict weak order, as \<open>std::priority_queue\<close> requires; it
  distinguishes any two items of different nodes; it runs nodes to open before nodes to
  process and these before sources, and a non-empty queue has a maximal item.
\<close>
theorem queue_order:
  "\<not> item_less a a \<and>
   (item_less a b \<longrightarrow> item_less b c \<longrightarrow> item_less a c) \<and>
   (\<not> item_less a b \<and> \<not> item_less b a \<and> \<not> item_less b c \<and> \<not> item_less c b \<longrightarrow>
     \<not> item_less a c \<and> \<not> item_less c a) \<and>
   (item_id a \<noteq> item_id b \<longrightarrow> item_less a b \<or> item_less b a) \<and>
   (is_open_node a \<and> \<not> is_open_node b \<longrightarrow> item_less b a) \<and>
   (\<not> is_open_node a \<and> \<not> is_open_node b \<and> \<not> is_source a \<and> is_source b \<longrightarrow> item_less b a) \<and>
   (items q \<noteq> [] \<longrightarrow> (\<exists>it. is_top q it))"
  using queue_order_parts by blast

theorem queue_order_witness:
  "item_less (Item_process True 3 0 0 1) (Item_process False 5 0 0 2)"
  using queue_order [of "Item_process False 5 0 0 2" "Item_process True 3 0 0 1"] by (simp add: Item_process_def)

definition demo_queue :: "int \<Rightarrow> queue_system" where
  "demo_queue running = \<lparr>squeue = \<lparr>items = [], running_count = running, num_pending_tasks = 0,
     num_tasks_to_add = 0\<rparr>, adders = [], executor_tasks = 0, runners = [], idle_calls = []\<rparr>"

lemma demo_queue_start: "queue_start (demo_queue n)"
  by (simp add: queue_start_def demo_queue_def)

definition demo_item :: queue_item where
  "demo_item = Item_process False 4 0 0 0"

lemma demo_queue_add:
  "queue_step (demo_queue 1) (demo_queue 1\<lparr>squeue := \<lparr>items = [demo_item], running_count = 1,
     num_pending_tasks = 1, num_tasks_to_add = 0\<rparr>, adders := [\<lparr>owes_callback = True, to_submit = 1\<rparr>]\<rparr>)"
proof -
  have "AddItemToQueue (squeue (demo_queue 1)) demo_item =
      (\<lparr>items = [demo_item], running_count = 1, num_pending_tasks = 1, num_tasks_to_add = 0\<rparr>, True, 1)"
    by (simp add: demo_queue_def AddItemToQueue_def GetTasksToSubmitToExecutor_def IsIdle_def)
  from queue_step.add [OF this] show ?thesis by (simp add: demo_queue_def)
qed

theorem queue_accounting_witness:
  "\<exists>s'. queue_steps (demo_queue 1) s' \<and> executor_tasks s' = 1 \<and>
     (\<exists>it. is_top (squeue s') it \<and> RunNextTask_pop (squeue s') it False \<noteq> None)"
proof -
  let ?q = "\<lparr>items = [demo_item], running_count = 1, num_pending_tasks = 1, num_tasks_to_add = 0\<rparr>"
  let ?s1 = "demo_queue 1\<lparr>squeue := ?q, adders := [\<lparr>owes_callback = True, to_submit = 1\<rparr>]\<rparr>"
  let ?s2 = "?s1\<lparr>adders := [] @ \<lparr>owes_callback = True, to_submit = 1\<rparr>\<lparr>owes_callback := False\<rparr> # [],
    idle_calls := False # idle_calls ?s1\<rparr>"
  let ?s3 = "?s2\<lparr>adders := [] @ \<lparr>owes_callback = False, to_submit = 1\<rparr>\<lparr>to_submit := 1 - 1\<rparr> # [],
    executor_tasks := executor_tasks ?s2 + 1\<rparr>"
  have "queue_step ?s1 ?s2" by (rule queue_step.not_idle) simp_all
  moreover have "queue_step ?s2 ?s3"
    using queue_step.hand_over [of ?s2 "[]" "\<lparr>owes_callback = False, to_submit = 1\<rparr>" "[]"] by simp
  ultimately have steps: "queue_steps (demo_queue 1) ?s3"
    using queue_steps.refl queue_steps.step demo_queue_add by blast
  moreover have "executor_tasks ?s3 = 1" by (simp add: demo_queue_def)
  moreover have "0 < executor_tasks ?s3" by (simp add: demo_queue_def)
  ultimately show ?thesis using queue_accounting [OF demo_queue_start steps] by blast
qed

theorem idle_callbacks_ordered_witness:
  "\<exists>s'. running_steps (demo_queue 1) s' \<and> length (items (squeue s')) = 1 \<and>
     count_list (idle_calls s') True \<le> count_list (idle_calls s') False"
proof -
  let ?s1 = "demo_queue 1\<lparr>squeue := \<lparr>items = [demo_item], running_count = 1,
     num_pending_tasks = 1, num_tasks_to_add = 0\<rparr>, adders := [\<lparr>owes_callback = True, to_submit = 1\<rparr>]\<rparr>"
  have "running_steps (demo_queue 1) ?s1"
    by (rule running_steps.step [OF running_steps.refl demo_queue_add]) (simp_all add: demo_queue_def)
  with idle_callbacks_ordered [OF demo_queue_start this] show ?thesis by force
qed

end
