(* ===== verification/Scheduler.thy ===== *)
theory Scheduler
  imports SchedulerQueue "HOL-Library.Product_Lexorder"
begin

section \<open>The scheduler\<close>

text \<open>
  \<open>scheduler.h/.cc\<close>: the states of a run, the queues, the layers of source nodes, and
  \<open>HandleIdle\<close>, which decides what to do when no queue has work. \<open>HandleIdle\<close> releases the
  mutex while it activates a layer of sources and while it asks the graph to unthrottle, so
  it is a state machine: \<open>idle_handler\<close> is the program point of the one thread that is
  inside it. Its loop holds the mutex between iterations (\<open>AtLoop\<close>).

  Nodes are their ids; \<open>layer\<close> is \<open>source_layer()\<close> and \<open>closed\<close> is \<open>Closed()\<close>. What
  \<open>CalculatorGraph\<close> answers (\<open>UnthrottleSources\<close>, \<open>IsNodeThrottled\<close>) is an argument. The queues share
  \<open>has_error\<close> and \<open>stopping\<close> with the scheduler. The timer is left out.
\<close>

datatype scheduler_state =
    STATE_NOT_STARTED
  | STATE_RUNNING
  | STATE_PAUSED
  | STATE_CANCELLING
  | STATE_TERMINATED

record scheduler =
  sched_state :: scheduler_state
  handling_idle :: bool
  non_idle_queue_count :: int
  active_sources :: "int list"
  sources_queue :: "queue_item list"
  unopened_sources :: "int list"
  scheduler_queues :: "scheduler_queue list"
  non_default_queues :: "string \<rightharpoonup> nat"
  graph_input_streams_closed :: bool
  throttled_graph_input_stream_count :: int
  unthrottle_seq_num :: int
  observed_output_signal :: bool
  waiting_for_observed_output :: bool
  app_thread_tasks :: "nat list"
  state_cond_var :: nat
  has_error :: bool
  stopping :: bool

text \<open>\<open>state_cond_var\<close> counts the calls of \<open>SignalAll\<close>.\<close>

definition SignalAll :: "scheduler \<Rightarrow> scheduler" where
  "SignalAll s = s\<lparr>state_cond_var := state_cond_var s + 1\<rparr>"

subsection \<open>Construction and the start of a run\<close>

definition new_queue :: scheduler_queue where
  "new_queue = \<lparr>items = [], running_count = 0, num_pending_tasks = 0, num_tasks_to_add = 0\<rparr>"

text \<open>Queue 0 is \<open>default_queue_\<close>.\<close>

definition new_scheduler :: scheduler where
  "new_scheduler = \<lparr>sched_state = STATE_NOT_STARTED, handling_idle = False, non_idle_queue_count = 0,
     active_sources = [], sources_queue = [], unopened_sources = [], scheduler_queues = [new_queue],
     non_default_queues = Map.empty, graph_input_streams_closed = False,
     throttled_graph_input_stream_count = 0, unthrottle_seq_num = 0, observed_output_signal = False,
     waiting_for_observed_output = False, app_thread_tasks = [], state_cond_var = 0, has_error = False, stopping = False\<rparr>"

definition sched_Reset :: "bool \<Rightarrow> scheduler \<Rightarrow> scheduler" where
  "sched_Reset streams_closed s = s\<lparr>sched_state := STATE_NOT_STARTED, graph_input_streams_closed := streams_closed,
     throttled_graph_input_stream_count := 0, unthrottle_seq_num := 0, observed_output_signal := False,
     scheduler_queues := map sq_Reset (scheduler_queues s), stopping := False, has_error := False\<rparr>"

definition CloseAllSourceNodes :: "scheduler \<Rightarrow> scheduler" where
  "CloseAllSourceNodes s = s\<lparr>stopping := True\<rparr>"

definition SetNonDefaultExecutor :: "string \<Rightarrow> scheduler \<Rightarrow> scheduler \<times> status" where
  "SetNonDefaultExecutor name s =
     (if sched_state s \<noteq> STATE_NOT_STARTED then (s, ErrorStatus Internal)
      else if non_default_queues s name \<noteq> None then (s, ErrorStatus Internal)
      else (s\<lparr>non_default_queues := (non_default_queues s)(name \<mapsto> length (scheduler_queues s)),
              scheduler_queues := scheduler_queues s @ [new_queue]\<rparr>, OkStatus))"

definition AssignNodeToSchedulerQueue :: "string \<Rightarrow> scheduler \<Rightarrow> nat option" where
  "AssignNodeToSchedulerQueue executor s = (if executor \<noteq> [] then non_default_queues s executor else Some 0)"

text \<open>\<open>std::set\<close> with \<open>SourceLayerCompare\<close>: in the order of layers and, within one, of ids.\<close>

definition AddUnopenedSourceNode :: "(int \<Rightarrow> int) \<Rightarrow> int \<Rightarrow> scheduler \<Rightarrow> scheduler option" where
  "AddUnopenedSourceNode layer n s = do {
     check (sched_state s = STATE_NOT_STARTED);
     Some (s\<lparr>unopened_sources := insort_insert_key (\<lambda>m. (layer m, m)) n (unopened_sources s)\<rparr>) }"

definition AddNodeToSourcesQueue :: "queue_item \<Rightarrow> scheduler \<Rightarrow> scheduler" where
  "AddNodeToSourcesQueue item s = s\<lparr>sources_queue := item # sources_queue s,
     unopened_sources := remove1 (item_id item) (unopened_sources s)\<rparr>"

fun set_all_running :: "bool \<Rightarrow> scheduler_queue list \<Rightarrow> scheduler_queue list option" where
  "set_all_running b [] = Some []"
| "set_all_running b (q # qs) = do { q' \<leftarrow> SetRunning q b; qs' \<leftarrow> set_all_running b qs; Some (q' # qs') }"

definition SetQueuesRunning :: "bool \<Rightarrow> scheduler \<Rightarrow> scheduler option" where
  "SetQueuesRunning b s = do {
     qs \<leftarrow> set_all_running b (scheduler_queues s);
     Some (s\<lparr>scheduler_queues := qs\<rparr>) }"

subsection \<open>HandleIdle\<close>

datatype idle_handler =
    Outside
  | AtLoop
  | PausingQueues "nat option list" nat
  | AddingSources "nat option list" nat
  | ResumingQueues nat
  | SubmittingTasks nat
  | UnthrottlingSources

definition sched_IsIdle :: "scheduler \<Rightarrow> bool" where
  "sched_IsIdle s \<longleftrightarrow> non_idle_queue_count s = 0"

definition CleanupActiveSources :: "(int \<Rightarrow> bool) \<Rightarrow> scheduler \<Rightarrow> scheduler" where
  "CleanupActiveSources closed s = s\<lparr>active_sources := rev (dropWhile closed (rev (active_sources s)))\<rparr>"

definition Quit :: "scheduler \<Rightarrow> scheduler option" where
  "Quit s = do {
     check (sched_state s = STATE_RUNNING \<or> sched_state s = STATE_CANCELLING);
     s \<leftarrow> SetQueuesRunning False s;
     Some (SignalAll (s\<lparr>sched_state := STATE_TERMINATED\<rparr>)) }"

text \<open>The top of \<open>sources_queue_\<close>: only items of the same node can tie, and they agree on the node.\<close>

definition queue_top :: "queue_item list \<Rightarrow> queue_item option" where
  "queue_top xs = find (\<lambda>it. \<forall>x \<in> set xs. \<not> item_less it x) xs"

lemma queue_top_mem: "queue_top xs = Some it \<Longrightarrow> it \<in> set xs"
  by (auto simp: queue_top_def find_Some_iff)

lemma length_remove1_less: "x \<in> set xs \<Longrightarrow> length (remove1 x xs) < length xs"
  using length_pos_if_in_set [of x xs] by (simp add: length_remove1)

text \<open>
  The loop of \<open>TryToScheduleNextSourceLayer\<close> that moves one layer of sources from the
  queue to the active ones, collecting their contexts.
\<close>

function take_layer ::
    "(int \<Rightarrow> int) \<Rightarrow> queue_item list \<Rightarrow> int list \<Rightarrow> nat option list \<Rightarrow> bool \<Rightarrow>
     queue_item list \<times> int list \<times> nat option list \<times> bool" where
  "take_layer layer q active contexts activated_any =
     (case queue_top q of
        None \<Rightarrow> (q, active, contexts, activated_any)
      | Some it \<Rightarrow>
          (if activated_any \<and> layer (item_id it) \<noteq> layer (last active)
           then (q, active, contexts, activated_any)
           else take_layer layer (remove1 it q) (active @ [item_id it]) (contexts @ [item_context it]) True))"
  by pat_completeness auto
termination
  by (relation "measure (\<lambda>(_, q, _). length q)")
     (auto dest: queue_top_mem intro: length_remove1_less)

declare take_layer.simps [simp del]

text \<open>
  \<open>TryToScheduleNextSourceLayer\<close> up to where it releases the mutex: \<open>Inl\<close> is its early
  \<open>return false\<close>, \<open>Inr contexts\<close> goes on with the active sources.
\<close>

definition TryToScheduleNextSourceLayer ::
    "(int \<Rightarrow> int) \<Rightarrow> scheduler \<Rightarrow> (scheduler \<times> (unit + nat option list)) option" where
  "TryToScheduleNextSourceLayer layer s = do {
     check (active_sources s = []);
     top \<leftarrow> queue_top (sources_queue s);
     if unopened_sources s \<noteq> [] \<and> layer (hd (unopened_sources s)) < layer (item_id top)
     then Some (if graph_input_streams_closed s then s\<lparr>has_error := True\<rparr> else s, Inl ())
     else
       let (q, active, contexts, activated_any) = take_layer layer (sources_queue s) [] [] False;
           s = s\<lparr>sources_queue := q, active_sources := active\<rparr>
       in Some (s, if activated_any then Inr contexts else Inl ()) }"

text \<open>A call of \<open>HandleIdle\<close>: the calling thread enters the loop, or finds another thread inside.\<close>

datatype idle_call = NotCalled | Ignored | Entered

definition HandleIdle :: "scheduler \<Rightarrow> scheduler \<times> idle_call" where
  "HandleIdle s = (if handling_idle s then (s, Ignored) else (s\<lparr>handling_idle := True\<rparr>, Entered))"

text \<open>One iteration of the loop, from its head to the next head, its end, or the release of the mutex.\<close>

definition HandleIdle_iterate ::
    "(int \<Rightarrow> int) \<Rightarrow> (int \<Rightarrow> bool) \<Rightarrow> scheduler \<Rightarrow> (scheduler \<times> idle_handler) option" where
  "HandleIdle_iterate layer closed s =
     (if \<not> (sched_IsIdle s \<and> (sched_state s = STATE_RUNNING \<or> sched_state s = STATE_CANCELLING))
      then Some (s\<lparr>handling_idle := False\<rparr>, Outside)
      else
        let s = CleanupActiveSources closed s in
        if has_error s \<or> active_sources s = [] \<and> sources_queue s = [] \<and> graph_input_streams_closed s
        then do { s \<leftarrow> Quit s; Some (s\<lparr>handling_idle := False\<rparr>, Outside) }
        else if active_sources s = [] \<and> sources_queue s \<noteq> [] then do {
          (s, r) \<leftarrow> TryToScheduleNextSourceLayer layer s;
          case r of
            Inl _ \<Rightarrow> do { check (active_sources s = []); Some (s, AtLoop) }
          | Inr contexts \<Rightarrow> Some (s, PausingQueues contexts 0) }
        else if active_sources s \<noteq> [] \<or> 0 < throttled_graph_input_stream_count s
        then Some (s, UnthrottlingSources)
        else Some (s\<lparr>handling_idle := False\<rparr>, Outside))"

text \<open>After \<open>UnthrottleSources\<close>: go on with the loop, or leave it.\<close>

definition HandleIdle_unthrottled :: "bool \<Rightarrow> scheduler \<Rightarrow> scheduler \<times> idle_handler" where
  "HandleIdle_unthrottled did_unthrottle s =
     (if did_unthrottle then (s, AtLoop) else (s\<lparr>handling_idle := False\<rparr>, Outside))"

subsection \<open>The methods\<close>

definition Start :: "scheduler \<Rightarrow> (scheduler \<times> idle_call) option" where
  "Start s = do {
     check (sched_state s = STATE_NOT_STARTED);
     s \<leftarrow> SetQueuesRunning True (s\<lparr>sched_state := STATE_RUNNING\<rparr>);
     Some (HandleIdle s) }"

definition Pause :: "scheduler \<Rightarrow> scheduler option" where
  "Pause s = (if sched_state s \<noteq> STATE_RUNNING then Some s
     else SetQueuesRunning False (s\<lparr>sched_state := STATE_PAUSED\<rparr>))"

definition Resume :: "scheduler \<Rightarrow> (scheduler \<times> idle_call) option" where
  "Resume s = (if sched_state s \<noteq> STATE_PAUSED then Some (s, NotCalled)
     else do {
       s \<leftarrow> SetQueuesRunning True (s\<lparr>sched_state := STATE_RUNNING\<rparr>);
       Some (HandleIdle s) })"

definition Cancel :: "scheduler \<Rightarrow> (scheduler \<times> idle_call) option" where
  "Cancel s =
     (if sched_state s \<noteq> STATE_RUNNING \<and> sched_state s \<noteq> STATE_PAUSED then Some (s, NotCalled)
      else do {
        let s = s\<lparr>has_error := True\<rparr>;
        s \<leftarrow> (if sched_state s = STATE_PAUSED then SetQueuesRunning True s else Some s);
        Some (HandleIdle (s\<lparr>sched_state := STATE_CANCELLING\<rparr>)) })"

definition QueueIdleStateChanged :: "bool \<Rightarrow> scheduler \<Rightarrow> scheduler \<times> idle_call" where
  "QueueIdleStateChanged idle s =
     (let s = s\<lparr>non_idle_queue_count := non_idle_queue_count s + (if idle then -1 else 1)\<rparr>
      in if non_idle_queue_count s = 0 then HandleIdle (SignalAll s) else (s, NotCalled))"

definition AddedPacketToGraphInputStream :: "scheduler \<Rightarrow> scheduler \<times> idle_call" where
  "AddedPacketToGraphInputStream s =
     (if sched_state s = STATE_TERMINATED then (s, NotCalled) else HandleIdle s)"

definition ClosedAllGraphInputStreams :: "scheduler \<Rightarrow> scheduler \<times> idle_call" where
  "ClosedAllGraphInputStreams s = HandleIdle (s\<lparr>graph_input_streams_closed := True\<rparr>)"

definition AddApplicationThreadTask :: "nat \<Rightarrow> scheduler \<Rightarrow> scheduler" where
  "AddApplicationThreadTask task s =
     (let s = s\<lparr>app_thread_tasks := app_thread_tasks s @ [task]\<rparr>
      in if length (app_thread_tasks s) = 1 then SignalAll s else s)"

definition ThrottledGraphInputStream :: "scheduler \<Rightarrow> scheduler" where
  "ThrottledGraphInputStream s =
     s\<lparr>throttled_graph_input_stream_count := throttled_graph_input_stream_count s + 1\<rparr>"

definition UnthrottledGraphInputStream :: "scheduler \<Rightarrow> scheduler" where
  "UnthrottledGraphInputStream s = SignalAll
     (s\<lparr>throttled_graph_input_stream_count := throttled_graph_input_stream_count s - 1,
       unthrottle_seq_num := unthrottle_seq_num s + 1\<rparr>)"

definition EmittedObservedOutput :: "scheduler \<Rightarrow> scheduler" where
  "EmittedObservedOutput s =
     (let s = s\<lparr>observed_output_signal := True\<rparr>
      in if waiting_for_observed_output s then SignalAll s else s)"

text \<open>
  The waits of the application thread. \<open>stop_condition\<close> is the lambda a \<open>Wait\<close> method
  passes (the one of \<open>WaitForObservedOutput\<close> changes the scheduler), and
  \<open>ApplicationThreadAwait\<close> is one iteration of its loop under the mutex: it returns, blocks
  on the condition variable, or takes a task to run without the mutex.
\<close>

datatype wait_for =
    ForGraphInputStreamUnthrottled int
  | ForObservedOutput
  | ForIdle
  | ForDone

fun stop_condition :: "wait_for \<Rightarrow> scheduler \<Rightarrow> scheduler \<times> bool" where
  "stop_condition (ForGraphInputStreamUnthrottled seq_num) s =
     (s, unthrottle_seq_num s \<noteq> seq_num \<or> sched_state s = STATE_TERMINATED)"
| "stop_condition ForObservedOutput s =
     (let observed = observed_output_signal s;
          s = s\<lparr>observed_output_signal := False,
                waiting_for_observed_output := \<not> observed \<and> sched_state s \<noteq> STATE_TERMINATED\<rparr>
      in (s, \<not> waiting_for_observed_output s))"
| "stop_condition ForIdle s = (s, sched_IsIdle s)"
| "stop_condition ForDone s = (s, sched_state s = STATE_TERMINATED)"

datatype await = Returns | Blocks | RunsTask nat

definition ApplicationThreadAwait :: "wait_for \<Rightarrow> scheduler \<Rightarrow> scheduler \<times> await" where
  "ApplicationThreadAwait w s =
     (let (s, stop) = stop_condition w s
      in if stop then (s, Returns)
         else case app_thread_tasks s of
             [] \<Rightarrow> (s, Blocks)
           | task # tasks \<Rightarrow> (s\<lparr>app_thread_tasks := tasks\<rparr>, RunsTask task))"

text \<open>
  \<open>ScheduleNodeIfNotThrottled\<close> on the queue the node is assigned to; its second argument
  is \<open>graph_->IsNodeThrottled\<close>, the third the node's \<open>TryToBeginScheduling\<close>.
\<close>

definition ScheduleNodeIfNotThrottled ::
    "nat \<Rightarrow> bool \<Rightarrow> bool \<Rightarrow> queue_item \<Rightarrow> scheduler \<Rightarrow> (scheduler \<times> bool \<times> int) option" where
  "ScheduleNodeIfNotThrottled i throttled begun item s =
     (if throttled then Some (s, False, 0)
      else do {
        (q, was_idle, tasks) \<leftarrow> AddNode (has_error s) begun (scheduler_queues s ! i) item;
        Some (s\<lparr>scheduler_queues := (scheduler_queues s)[i := q]\<rparr>, was_idle, tasks) })"

text \<open>
  \<open>CleanupAfterRun\<close>: a queue that still holds items calls \<open>QueueIdleStateChanged(true)\<close>. The
  call of \<open>HandleIdle\<close> and the signal this may lead to have no effect: no run is in progress.
\<close>

fun cleanup_queues :: "scheduler_queue list \<Rightarrow> (scheduler_queue list \<times> int) option" where
  "cleanup_queues [] = Some ([], 0)"
| "cleanup_queues (q # qs) = do {
     (q', became_idle) \<leftarrow> sq_CleanupAfterRun q;
     (qs', n) \<leftarrow> cleanup_queues qs;
     Some (q' # qs', n + (if became_idle then 1 else 0)) }"

definition sched_CleanupAfterRun :: "scheduler \<Rightarrow> scheduler option" where
  "sched_CleanupAfterRun s = do {
     check (app_thread_tasks s = []);
     (qs, n) \<leftarrow> cleanup_queues (scheduler_queues s);
     Some (s\<lparr>sources_queue := [], scheduler_queues := qs,
       non_idle_queue_count := non_idle_queue_count s - n,
       unopened_sources := [], active_sources := [], has_error := False\<rparr>) }"

end
