(* ===== verification/SchedulerRuns.thy ===== *)
theory SchedulerRuns
  imports Scheduler "HOL-Library.Multiset"
begin

section \<open>Runs of the scheduler\<close>

text \<open>
  The threads that use a scheduler, as a step relation. A step is a section of the source
  under \<open>state_mutex_\<close>, a section of one queue under its own mutex, or the store of an atomic
  flag. The thread inside \<open>HandleIdle\<close> is \<open>idle_thread\<close>; between its iterations it holds the
  mutex, so the other sections that need the mutex wait. \<open>ignored\<close> records that a call of
  \<open>HandleIdle\<close> was ignored since the last head of the loop.

  The environment: a source is closed, and an opened source is announced, by a thread that
  runs a node, so only while some queue counts as not idle.
\<close>

record sched_system =
  sched :: scheduler
  idle_thread :: idle_handler
  closed_nodes :: "int set"
  ignored :: bool

definition call_idle :: "sched_system \<Rightarrow> scheduler \<times> idle_call \<Rightarrow> sched_system" where
  "call_idle Y r =
     (case snd r of
        NotCalled \<Rightarrow> Y\<lparr>sched := fst r\<rparr>
      | Ignored \<Rightarrow> Y\<lparr>sched := fst r, ignored := True\<rparr>
      | Entered \<Rightarrow> Y\<lparr>sched := fst r, idle_thread := AtLoop\<rparr>)"

text \<open>The sections of a queue that leave \<open>running_count_\<close> alone.\<close>

inductive queue_section :: "scheduler_queue \<Rightarrow> scheduler_queue \<Rightarrow> bool" where
  add: "AddItemToQueue q item = (q', was_idle, n) \<Longrightarrow> queue_section q q'"
| submit: "SubmitWaitingTasksToExecutor q = (q', n) \<Longrightarrow> queue_section q q'"
| pop: "RunNextTask_pop q item False = Some q' \<Longrightarrow> queue_section q q'"
| finish: "RunNextTask_finish q = Some (q', idle) \<Longrightarrow> queue_section q q'"

abbreviation set_queue :: "sched_system \<Rightarrow> nat \<Rightarrow> scheduler_queue \<Rightarrow> scheduler" where
  "set_queue Y i q \<equiv> (sched Y)\<lparr>scheduler_queues := (scheduler_queues (sched Y))[i := q]\<rparr>"

abbreviation unlocked :: "sched_system \<Rightarrow> bool" where
  "unlocked Y \<equiv> idle_thread Y \<noteq> AtLoop"

inductive sched_step :: "(int \<Rightarrow> int) \<Rightarrow> sched_system \<Rightarrow> sched_system \<Rightarrow> bool" for layer where
  start: "unlocked Y \<Longrightarrow> Start (sched Y) = Some r \<Longrightarrow> sched_step layer Y (call_idle Y r)"
| pause: "unlocked Y \<Longrightarrow> Pause (sched Y) = Some s \<Longrightarrow> sched_step layer Y (Y\<lparr>sched := s\<rparr>)"
| resume: "unlocked Y \<Longrightarrow> Resume (sched Y) = Some r \<Longrightarrow> sched_step layer Y (call_idle Y r)"
| cancel: "unlocked Y \<Longrightarrow> Cancel (sched Y) = Some r \<Longrightarrow> sched_step layer Y (call_idle Y r)"
| idle_changed: "unlocked Y \<Longrightarrow> sched_step layer Y (call_idle Y (QueueIdleStateChanged b (sched Y)))"
| added_packet: "unlocked Y \<Longrightarrow> sched_step layer Y (call_idle Y (AddedPacketToGraphInputStream (sched Y)))"
| closed_streams: "unlocked Y \<Longrightarrow> sched_step layer Y (call_idle Y (ClosedAllGraphInputStreams (sched Y)))"
| throttled: "unlocked Y \<Longrightarrow> sched_step layer Y (Y\<lparr>sched := ThrottledGraphInputStream (sched Y)\<rparr>)"
| unthrottled: "unlocked Y \<Longrightarrow> sched_step layer Y (Y\<lparr>sched := UnthrottledGraphInputStream (sched Y)\<rparr>)"
| emitted: "unlocked Y \<Longrightarrow> sched_step layer Y (Y\<lparr>sched := EmittedObservedOutput (sched Y)\<rparr>)"
| add_task: "unlocked Y \<Longrightarrow> sched_step layer Y (Y\<lparr>sched := AddApplicationThreadTask t (sched Y)\<rparr>)"
| await: "unlocked Y \<Longrightarrow> ApplicationThreadAwait w (sched Y) = (s, a) \<Longrightarrow>
    sched_step layer Y (Y\<lparr>sched := s\<rparr>)"
| source_opened: "unlocked Y \<Longrightarrow> non_idle_queue_count (sched Y) \<noteq> 0 \<Longrightarrow> is_source item \<Longrightarrow>
    sched_step layer Y (Y\<lparr>sched := AddNodeToSourcesQueue item (sched Y)\<rparr>)"
| source_closed: "non_idle_queue_count (sched Y) \<noteq> 0 \<Longrightarrow>
    sched_step layer Y (Y\<lparr>closed_nodes := insert n (closed_nodes Y)\<rparr>)"
| error: "sched_step layer Y (Y\<lparr>sched := (sched Y)\<lparr>has_error := True\<rparr>\<rparr>)"
| stop: "sched_step layer Y (Y\<lparr>sched := CloseAllSourceNodes (sched Y)\<rparr>)"
| in_queue: "i < length (scheduler_queues (sched Y)) \<Longrightarrow> queue_section (scheduler_queues (sched Y) ! i) q \<Longrightarrow>
    sched_step layer Y (Y\<lparr>sched := set_queue Y i q\<rparr>)"
| iterate: "idle_thread Y = AtLoop \<Longrightarrow>
    HandleIdle_iterate layer (\<lambda>n. n \<in> closed_nodes Y) (sched Y) = Some (s, h) \<Longrightarrow>
    sched_step layer Y (Y\<lparr>sched := s, idle_thread := h, ignored := False\<rparr>)"
| pause_queue: "idle_thread Y = PausingQueues cs i \<Longrightarrow> i < length (scheduler_queues (sched Y)) \<Longrightarrow>
    SetRunning (scheduler_queues (sched Y) ! i) False = Some q \<Longrightarrow>
    sched_step layer Y (Y\<lparr>sched := set_queue Y i q, idle_thread := PausingQueues cs (i + 1)\<rparr>)"
| paused: "idle_thread Y = PausingQueues cs (length (scheduler_queues (sched Y))) \<Longrightarrow>
    sched_step layer Y (Y\<lparr>idle_thread := AddingSources cs 0\<rparr>)"
| add_source: "idle_thread Y = AddingSources cs i \<Longrightarrow> i < length (active_sources (sched Y)) \<Longrightarrow>
    item_id item = active_sources (sched Y) ! i \<Longrightarrow> is_source item \<Longrightarrow> item_context item = cs ! i \<Longrightarrow>
    k < length (scheduler_queues (sched Y)) \<Longrightarrow>
    ScheduleNodeIfNotThrottled k is_throttled begun item (sched Y) = Some (s, was_idle, tasks) \<Longrightarrow>
    sched_step layer Y (Y\<lparr>sched := s, idle_thread := AddingSources cs (i + 1)\<rparr>)"
| added_sources: "idle_thread Y = AddingSources cs (length (active_sources (sched Y))) \<Longrightarrow>
    sched_step layer Y (Y\<lparr>idle_thread := ResumingQueues 0\<rparr>)"
| resume_queue: "idle_thread Y = ResumingQueues i \<Longrightarrow> i < length (scheduler_queues (sched Y)) \<Longrightarrow>
    SetRunning (scheduler_queues (sched Y) ! i) True = Some q \<Longrightarrow>
    sched_step layer Y (Y\<lparr>sched := set_queue Y i q, idle_thread := ResumingQueues (i + 1)\<rparr>)"
| resumed: "idle_thread Y = ResumingQueues (length (scheduler_queues (sched Y))) \<Longrightarrow>
    sched_step layer Y (Y\<lparr>idle_thread := SubmittingTasks 0\<rparr>)"
| submit_queue: "idle_thread Y = SubmittingTasks i \<Longrightarrow> i < length (scheduler_queues (sched Y)) \<Longrightarrow>
    SubmitWaitingTasksToExecutor (scheduler_queues (sched Y) ! i) = (q, n) \<Longrightarrow>
    sched_step layer Y (Y\<lparr>sched := set_queue Y i q, idle_thread := SubmittingTasks (i + 1)\<rparr>)"
| submitted: "idle_thread Y = SubmittingTasks (length (scheduler_queues (sched Y))) \<Longrightarrow>
    sched_step layer Y (Y\<lparr>idle_thread := AtLoop\<rparr>)"
| unthrottle_sources: "idle_thread Y = UnthrottlingSources \<Longrightarrow>
    HandleIdle_unthrottled b (sched Y) = (s, h) \<Longrightarrow>
    sched_step layer Y (Y\<lparr>sched := s, idle_thread := h\<rparr>)"

inductive sched_steps :: "(int \<Rightarrow> int) \<Rightarrow> sched_system \<Rightarrow> sched_system \<Rightarrow> bool" for layer where
  refl: "sched_steps layer Y Y"
| step: "sched_steps layer Y Y' \<Longrightarrow> sched_step layer Y' Y'' \<Longrightarrow> sched_steps layer Y Y''"

definition sched_start :: "sched_system \<Rightarrow> bool" where
  "sched_start Y \<longleftrightarrow> sched_state (sched Y) = STATE_NOT_STARTED \<and> \<not> handling_idle (sched Y) \<and>
     idle_thread Y = Outside \<and> active_sources (sched Y) = [] \<and> \<not> ignored Y \<and>
     (\<forall>q \<in> set (scheduler_queues (sched Y)). running_count q = 0)"

lemma queue_section_running: "queue_section q q' \<Longrightarrow> running_count q' = running_count q"
  by (erule queue_section.cases)
    (auto simp: AddItemToQueue_def SubmitWaitingTasksToExecutor_def GetTasksToSubmitToExecutor_def
      RunNextTask_pop_def RunNextTask_finish_def Let_def split: if_splits)

subsection \<open>The running counts of the queues\<close>

abbreviation "add_running d q \<equiv> q\<lparr>running_count := running_count q + d\<rparr>"

lemma SetRunning_eq:
  "SetRunning q b = (if running_count q + (if b then 1 else -1) \<le> 1
     then Some (add_running (if b then 1 else -1) q) else None)"
  by (simp add: SetRunning_def Let_def)

lemma set_all_running_eq:
  "set_all_running b qs = (if \<forall>q \<in> set qs. running_count q + (if b then 1 else -1) \<le> 1
     then Some (map (add_running (if b then 1 else -1)) qs) else None)"
  by (induction qs) (auto simp: SetRunning_eq)

lemma SetQueuesRunning_eq:
  "SetQueuesRunning b s = (if \<forall>q \<in> set (scheduler_queues s). running_count q + (if b then 1 else -1) \<le> 1
     then Some (s\<lparr>scheduler_queues := map (add_running (if b then 1 else -1)) (scheduler_queues s)\<rparr>) else None)"
  by (simp add: SetQueuesRunning_def set_all_running_eq)

definition running_now :: "scheduler_state \<Rightarrow> int" where
  "running_now st = (if st = STATE_RUNNING \<or> st = STATE_CANCELLING then 1 else 0)"

text \<open>What the activation of a layer has taken from the count of queue \<open>i\<close>.\<close>

fun held_back :: "idle_handler \<Rightarrow> nat \<Rightarrow> int" where
  "held_back (PausingQueues _ k) i = (if i < k then 1 else 0)"
| "held_back (AddingSources _ _) i = 1"
| "held_back (ResumingQueues k) i = (if i < k then 0 else 1)"
| "held_back _ i = 0"

definition counts_inv :: "sched_system \<Rightarrow> bool" where
  "counts_inv Y \<longleftrightarrow> (handling_idle (sched Y) \<longleftrightarrow> idle_thread Y \<noteq> Outside) \<and>
     (\<forall>i < length (scheduler_queues (sched Y)). running_count (scheduler_queues (sched Y) ! i) =
        running_now (sched_state (sched Y)) - held_back (idle_thread Y) i)"

lemma held_back_range: "0 \<le> held_back h i" "held_back h i \<le> 1"
  by (cases "(h, i)" rule: held_back.cases; simp)+

lemma counts_inv_le: "counts_inv Y \<Longrightarrow> q \<in> set (scheduler_queues (sched Y)) \<Longrightarrow>
    running_count q \<le> running_now (sched_state (sched Y))"
  using held_back_range(1) by (auto simp: counts_inv_def in_set_conv_nth)

lemma counts_inv_Some:
  assumes "counts_inv Y"
  shows "SetQueuesRunning False (sched Y) =
      Some ((sched Y)\<lparr>scheduler_queues := map (add_running (-1)) (scheduler_queues (sched Y))\<rparr>)"
    and "running_now (sched_state (sched Y)) = 0 \<Longrightarrow> SetQueuesRunning True (sched Y) =
      Some ((sched Y)\<lparr>scheduler_queues := map (add_running 1) (scheduler_queues (sched Y))\<rparr>)"
proof -
  have "running_now st \<le> 1" for st by (simp add: running_now_def)
  then show "SetQueuesRunning False (sched Y) =
      Some ((sched Y)\<lparr>scheduler_queues := map (add_running (-1)) (scheduler_queues (sched Y))\<rparr>)"
    using counts_inv_le [OF assms] unfolding SetQueuesRunning_eq by (fastforce intro: order_trans)
qed (use counts_inv_le [OF assms] in \<open>auto simp: SetQueuesRunning_eq\<close>)

lemma SetQueuesRunning_other:
  "SetQueuesRunning b s = Some s' \<Longrightarrow> s' = s\<lparr>scheduler_queues := map (add_running (if b then 1 else -1)) (scheduler_queues s)\<rparr>"
  by (auto simp: SetQueuesRunning_eq split: if_splits)

lemma call_idle_simps [simp]:
  "call_idle Y (HandleIdle s) =
     (if handling_idle s then Y\<lparr>sched := s, ignored := True\<rparr>
      else Y\<lparr>sched := s\<lparr>handling_idle := True\<rparr>, idle_thread := AtLoop\<rparr>)"
  "call_idle Y (s, NotCalled) = Y\<lparr>sched := s\<rparr>"
  by (simp_all add: call_idle_def HandleIdle_def)

lemma Start_cases:
  assumes "Start s = Some r"
  shows "sched_state s = STATE_NOT_STARTED \<and> r = HandleIdle (s\<lparr>sched_state := STATE_RUNNING,
      scheduler_queues := map (add_running 1) (scheduler_queues s)\<rparr>)"
  using assms by (auto simp: Start_def bind_eq_Some_conv dest!: SetQueuesRunning_other split: if_splits)

lemma Pause_cases:
  assumes "Pause s = Some s'"
  obtains "s' = s"
  | "sched_state s = STATE_RUNNING" "s' = s\<lparr>sched_state := STATE_PAUSED,
      scheduler_queues := map (add_running (-1)) (scheduler_queues s)\<rparr>"
  using assms by (auto simp: Pause_def dest!: SetQueuesRunning_other split: if_splits)

lemma Resume_cases:
  assumes "Resume s = Some r"
  obtains "r = (s, NotCalled)"
  | "sched_state s = STATE_PAUSED" "r = HandleIdle (s\<lparr>sched_state := STATE_RUNNING,
      scheduler_queues := map (add_running 1) (scheduler_queues s)\<rparr>)"
  using assms by (auto simp: Resume_def bind_eq_Some_conv dest!: SetQueuesRunning_other split: if_splits)

lemma Cancel_cases:
  assumes "Cancel s = Some r"
  obtains "r = (s, NotCalled)"
  | "sched_state s = STATE_RUNNING"
    "r = HandleIdle (s\<lparr>has_error := True, sched_state := STATE_CANCELLING\<rparr>)"
  | "sched_state s = STATE_PAUSED"
    "r = HandleIdle (s\<lparr>has_error := True, scheduler_queues := map (add_running 1) (scheduler_queues s),
      sched_state := STATE_CANCELLING\<rparr>)"
  using assms by (auto simp: Cancel_def Let_def bind_eq_Some_conv dest!: SetQueuesRunning_other split: if_splits)

lemma QueueIdleStateChanged_cases:
  obtains "QueueIdleStateChanged b s =
      (s\<lparr>non_idle_queue_count := non_idle_queue_count s + (if b then -1 else 1)\<rparr>, NotCalled)"
    "non_idle_queue_count s + (if b then -1 else 1) \<noteq> 0"
  | "QueueIdleStateChanged b s = HandleIdle (s\<lparr>non_idle_queue_count := 0, state_cond_var := state_cond_var s + 1\<rparr>)"
    "non_idle_queue_count s + (if b then -1 else 1) = 0"
  by (cases "non_idle_queue_count s + (if b then -1 else 1) = 0")
    (auto simp: QueueIdleStateChanged_def SignalAll_def Let_def)

lemma AddedPacket_cases:
  obtains "AddedPacketToGraphInputStream s = (s, NotCalled)" | "AddedPacketToGraphInputStream s = HandleIdle s"
  by (cases "sched_state s = STATE_TERMINATED") (simp_all add: AddedPacketToGraphInputStream_def)

lemmas sched_updates = ClosedAllGraphInputStreams_def ThrottledGraphInputStream_def
  UnthrottledGraphInputStream_def EmittedObservedOutput_def AddApplicationThreadTask_def SignalAll_def
  AddNodeToSourcesQueue_def CloseAllSourceNodes_def Let_def

lemma await_frame:
  assumes "ApplicationThreadAwait w s = (s', a)"
  shows "scheduler_queues s' = scheduler_queues s" "sched_state s' = sched_state s"
    "handling_idle s' = handling_idle s" "non_idle_queue_count s' = non_idle_queue_count s"
    "active_sources s' = active_sources s" "sources_queue s' = sources_queue s"
    "graph_input_streams_closed s' = graph_input_streams_closed s" "has_error s' = has_error s"
    "unopened_sources s' = unopened_sources s"
    "throttled_graph_input_stream_count s' = throttled_graph_input_stream_count s"
  using assms by (cases w; auto simp: ApplicationThreadAwait_def Let_def split: if_splits list.splits)+

lemma schedule_node_frame:
  assumes "ScheduleNodeIfNotThrottled k t b item s = Some (s', w, n)"
  obtains q where "s' = s\<lparr>scheduler_queues := (scheduler_queues s)[k := q]\<rparr>"
    "running_count q = running_count (scheduler_queues s ! k)"
  using assms
proof (cases t)
  case True
  then show ?thesis using assms that [of "scheduler_queues s ! k"]
    by (simp add: ScheduleNodeIfNotThrottled_def)
next
  case False
  then obtain q x y where q: "AddNode (has_error s) b (scheduler_queues s ! k) item = Some (q, x, y)"
    "s' = s\<lparr>scheduler_queues := (scheduler_queues s)[k := q]\<rparr>"
    using assms by (auto simp: ScheduleNodeIfNotThrottled_def bind_eq_Some_conv)
  then have "running_count q = running_count (scheduler_queues s ! k)"
    by (auto simp: AddNode_def intro: queue_section_running queue_section.add split: if_splits)
  then show ?thesis using that q(2) by blast
qed

lemma TryToSchedule_frame:
  assumes "TryToScheduleNextSourceLayer layer s = Some (s', r)"
  shows "scheduler_queues s' = scheduler_queues s" "sched_state s' = sched_state s"
    "handling_idle s' = handling_idle s" "non_idle_queue_count s' = non_idle_queue_count s"
    "graph_input_streams_closed s' = graph_input_streams_closed s"
    "throttled_graph_input_stream_count s' = throttled_graph_input_stream_count s"
  using assms
  by (auto simp: TryToScheduleNextSourceLayer_def bind_eq_Some_conv Let_def split: if_splits prod.splits)

text \<open>The outcomes of one iteration of the loop.\<close>

lemma HandleIdle_iterate_cases:
  assumes "HandleIdle_iterate layer closed s = Some (s', h)"
  obtains
    (not_idle) "\<not> (sched_IsIdle s \<and> (sched_state s = STATE_RUNNING \<or> sched_state s = STATE_CANCELLING))"
      "s' = s\<lparr>handling_idle := False\<rparr>" "h = Outside"
  | (quit) c where "sched_IsIdle s" "has_error s \<or> active_sources (CleanupActiveSources closed s) = [] \<and>
        sources_queue s = [] \<and> graph_input_streams_closed s" "Quit (CleanupActiveSources closed s) = Some c"
      "s' = c\<lparr>handling_idle := False\<rparr>" "h = Outside"
  | (layer) contexts where "sched_IsIdle s" "active_sources (CleanupActiveSources closed s) = []"
      "TryToScheduleNextSourceLayer layer (CleanupActiveSources closed s) = Some (s', Inr contexts)"
      "h = PausingQueues contexts 0"
  | (waits) "sched_IsIdle s" "active_sources s' = []" "sources_queue s \<noteq> []"
      "active_sources (CleanupActiveSources closed s) = []"
      "TryToScheduleNextSourceLayer layer (CleanupActiveSources closed s) = Some (s', Inl ())"
      "h = AtLoop"
  | (unthrottle) "sched_IsIdle s"
      "active_sources (CleanupActiveSources closed s) \<noteq> [] \<or> sources_queue s = [] \<and> \<not> graph_input_streams_closed s"
      "s' = CleanupActiveSources closed s" "h = UnthrottlingSources"
  | (nothing) "sched_IsIdle s" "active_sources (CleanupActiveSources closed s) = []" "sources_queue s = []"
      "\<not> graph_input_streams_closed s" "\<not> has_error s"
      "s' = (CleanupActiveSources closed s)\<lparr>handling_idle := False\<rparr>" "h = Outside"
proof -
  let ?c = "CleanupActiveSources closed s"
  have c: "has_error ?c = has_error s" "sources_queue ?c = sources_queue s"
    "graph_input_streams_closed ?c = graph_input_streams_closed s"
    by (simp_all add: CleanupActiveSources_def)
  show ?thesis
  proof (cases "sched_IsIdle s \<and> (sched_state s = STATE_RUNNING \<or> sched_state s = STATE_CANCELLING)")
    case False
    then show ?thesis using assms not_idle by (auto simp: HandleIdle_iterate_def)
  next
    case idle: True
    consider (q) "has_error s \<or> active_sources ?c = [] \<and> sources_queue s = [] \<and> graph_input_streams_closed s"
      | (l) "\<not> has_error s" "active_sources ?c = []" "sources_queue s \<noteq> []"
      | (u) "\<not> has_error s" "active_sources ?c \<noteq> [] \<or> sources_queue s = [] \<and> \<not> graph_input_streams_closed s"
      by blast
    then show ?thesis
    proof cases
      case q
      then obtain d where "Quit ?c = Some d" "s' = d\<lparr>handling_idle := False\<rparr>" "h = Outside"
        using assms idle c by (auto simp: HandleIdle_iterate_def Let_def bind_eq_Some_conv)
      then show ?thesis using quit q idle by blast
    next
      case l
      then have run: "TryToScheduleNextSourceLayer layer ?c \<bind> (\<lambda>(s, r). case r of
            Inl _ \<Rightarrow> do { check (active_sources s = []); Some (s, AtLoop) }
          | Inr contexts \<Rightarrow> Some (s, PausingQueues contexts 0)) = Some (s', h)"
        using assms idle c by (simp add: HandleIdle_iterate_def Let_def del: bind_check)
      then obtain p where p: "TryToScheduleNextSourceLayer layer ?c = Some p"
        by (cases "TryToScheduleNextSourceLayer layer ?c") simp_all
      obtain s1 r where s1: "p = (s1, r)" by (cases p)
      show ?thesis
      proof (cases r)
        case Inl
        then show ?thesis using run p s1 idle l waits by (auto split: if_splits)
      next
        case Inr
        then show ?thesis using run p s1 idle l layer by auto
      qed
    next
      case u
      then show ?thesis using assms idle c
        by (simp add: HandleIdle_iterate_def Let_def split: if_splits)
          (use unthrottle in blast, rule nothing, auto)
    qed
  qed
qed

lemma Quit_eq: "Quit s = Some s' \<Longrightarrow>
    s' = s\<lparr>scheduler_queues := map (add_running (-1)) (scheduler_queues s), sched_state := STATE_TERMINATED,
      state_cond_var := state_cond_var s + 1\<rparr> \<and> (sched_state s = STATE_RUNNING \<or> sched_state s = STATE_CANCELLING)"
  by (auto simp: Quit_def SignalAll_def bind_eq_Some_conv dest!: SetQueuesRunning_other split: if_splits)

lemma counts_inv_iterate:
  assumes "counts_inv Y" "idle_thread Y = AtLoop"
    "HandleIdle_iterate layer closed (sched Y) = Some (s', h)"
  shows "counts_inv (Y\<lparr>sched := s', idle_thread := h, ignored := False\<rparr>)"
  using assms(3)
proof (cases rule: HandleIdle_iterate_cases)
  case (quit c)
  then show ?thesis using assms(1,2)
    by (auto dest!: Quit_eq simp: counts_inv_def CleanupActiveSources_def running_now_def)
next
  case (layer contexts)
  then show ?thesis using assms(1,2) TryToSchedule_frame [OF layer(3)]
    by (auto simp: counts_inv_def CleanupActiveSources_def)
next
  case waits
  then show ?thesis using assms(1,2) TryToSchedule_frame [OF waits(5)]
    by (auto simp: counts_inv_def CleanupActiveSources_def)
qed (use assms(1,2) in \<open>auto simp: counts_inv_def CleanupActiveSources_def\<close>)

lemma counts_inv_step:
  assumes "sched_step layer Y Y'" "counts_inv Y"
  shows "counts_inv Y'"
  using assms
proof (cases rule: sched_step.cases)
  case (iterate s h)
  then show ?thesis using counts_inv_iterate assms(2) by blast
next
  case (start r)
  from Start_cases [OF start(3)] show ?thesis using start(1,2) assms(2)
    by (simp add: counts_inv_def running_now_def)
next
  case (pause s)
  from pause(3) show ?thesis using pause(1,2) assms(2)
    by (cases rule: Pause_cases) (simp_all add: counts_inv_def running_now_def)
next
  case (resume r)
  from resume(3) show ?thesis using resume(1,2) assms(2)
    by (cases rule: Resume_cases) (simp_all add: counts_inv_def running_now_def)
next
  case (cancel r)
  from cancel(3) show ?thesis using cancel(1,2) assms(2)
    by (cases rule: Cancel_cases) (simp_all add: counts_inv_def running_now_def)
next
  case (idle_changed b)
  show ?thesis using idle_changed assms(2)
    by (cases rule: QueueIdleStateChanged_cases [of b "sched Y"]) (simp_all add: counts_inv_def)
next
  case added_packet
  show ?thesis using added_packet assms(2)
    by (cases rule: AddedPacket_cases [of "sched Y"]) (simp_all add: counts_inv_def)
next
  case (await w s a)
  then show ?thesis using assms(2) by (simp add: counts_inv_def await_frame [OF await(3)])
next
  case (in_queue i q)
  then show ?thesis using assms(2) queue_section_running [OF in_queue(3)]
    by (auto simp: counts_inv_def nth_list_update)
next
  case (pause_queue cs i q)
  then show ?thesis using assms(2)
    by (auto simp: counts_inv_def nth_list_update SetRunning_eq split: if_splits)
next
  case (add_source cs i item k t b s w n)
  then obtain q where "s = set_queue Y k q" "running_count q = running_count (scheduler_queues (sched Y) ! k)"
    using schedule_node_frame by blast
  then show ?thesis using assms(2) add_source by (auto simp: counts_inv_def nth_list_update)
next
  case (resume_queue i q)
  then show ?thesis using assms(2)
    by (auto simp: counts_inv_def nth_list_update SetRunning_eq split: if_splits)
next
  case (submit_queue i q n)
  then show ?thesis using assms(2) queue_section_running [OF queue_section.submit [OF submit_queue(4)]]
    by (auto simp: counts_inv_def nth_list_update)
next
  case (unthrottle_sources b s h)
  then show ?thesis using assms(2)
    by (auto simp: counts_inv_def HandleIdle_unthrottled_def split: if_splits)
qed (use assms(2) in \<open>simp_all add: counts_inv_def sched_updates\<close>)

lemma counts_inv_steps: "sched_steps layer Y Y' \<Longrightarrow> counts_inv Y \<Longrightarrow> counts_inv Y'"
  by (induction rule: sched_steps.induct) (auto intro: counts_inv_step)

lemma sched_start_counts: "sched_start Y \<Longrightarrow> counts_inv Y"
  by (simp add: sched_start_def counts_inv_def running_now_def)

subsection \<open>Taking a layer of sources\<close>

lemma queue_top_None [simp]: "queue_top xs = None \<longleftrightarrow> xs = []"
  using top_exists [of "new_queue\<lparr>items := xs\<rparr>"]
  by (auto simp: queue_top_def find_None_iff is_top_def)

lemma queue_top_max: "queue_top xs = Some it \<Longrightarrow> x \<in> set xs \<Longrightarrow> \<not> item_less it x"
  by (auto simp: queue_top_def find_Some_iff)

lemma mset_remove1_eq: "it \<in> set q \<Longrightarrow> mset q = add_mset it (mset (remove1 it q))"
  by simp

definition layered_item :: "(int \<Rightarrow> int) \<Rightarrow> queue_item \<Rightarrow> bool" where
  "layered_item layer it \<longleftrightarrow> is_source it \<and> \<not> is_open_node it \<and> item_layer it = layer (item_id it)"

lemma layered_less: "layered_item layer a \<Longrightarrow> layered_item layer b \<Longrightarrow> \<not> item_less a b \<Longrightarrow>
    layer (item_id a) \<le> layer (item_id b)"
  by (auto simp: layered_item_def item_less_def split: if_splits)

lemma take_layer_spec:
  assumes "take_layer layer q active contexts any = (q', active', contexts', any')"
    and "any \<longleftrightarrow> active \<noteq> []" and "\<forall>it \<in> set q. layered_item layer it"
    and "\<forall>it \<in> set q. \<forall>n \<in> set active. layer n \<le> layer (item_id it)"
    and "\<forall>n \<in> set active. layer n = layer (last active)"
  shows "\<exists>taken. active' = active @ map item_id taken \<and> contexts' = contexts @ map item_context taken \<and>
     mset q = mset taken + mset q' \<and> any' = (any \<or> q \<noteq> []) \<and>
     (\<forall>n \<in> set active'. layer n = layer (last active')) \<and>
     (\<forall>it \<in> set q'. layer (last active') < layer (item_id it)) \<and>
     sorted_wrt (\<lambda>a b. \<not> item_less a b) taken"
  using assms
proof (induction layer q active contexts any arbitrary: q' active' contexts' any' rule: take_layer.induct)
  case (1 layer q active contexts any)
  note run1 = 1(2) [unfolded take_layer.simps [of layer q active contexts any]]
  show ?case
  proof (cases "queue_top q")
    case None
    with run1 have "q' = q" "active' = active" "contexts' = contexts" "any' = any" "q = []"
      by simp_all
    then show ?thesis using 1(3-6) by (intro exI [of _ "[]"]) simp
  next
    case (Some it)
    have it: "it \<in> set q" "\<And>x. x \<in> set q \<Longrightarrow> \<not> item_less it x"
      using Some queue_top_mem queue_top_max by blast+
    have le: "layer (item_id it) \<le> layer (item_id x)" if "x \<in> set q" for x
      using layered_less 1(4) it that by blast
    show ?thesis
    proof (cases "any \<and> layer (item_id it) \<noteq> layer (last active)")
      case True
      then have eq: "q' = q" "active' = active" "contexts' = contexts" "any' = any"
        using run1 Some True by simp_all
      have "layer (last active) < layer (item_id it)" using True 1(3,5) it(1) by (simp add: order_less_le)
      then show ?thesis using eq 1(6) True le by (intro exI [of _ "[]"]) force
    next
      case False
      have run: "take_layer layer (remove1 it q) (active @ [item_id it]) (contexts @ [item_context it]) True =
          (q', active', contexts', any')"
        using run1 Some False by auto
      have sub: "set (remove1 it q) \<subseteq> set q" by (rule set_remove1_subset)
      have eqs: "layer n = layer (item_id it)" if "n \<in> set active" for n
        using that False 1(3,6) by fastforce
      have prem: "\<forall>x \<in> set (remove1 it q). layered_item layer x"
        "\<forall>x \<in> set (remove1 it q). \<forall>n \<in> set (active @ [item_id it]). layer n \<le> layer (item_id x)"
        "\<forall>n \<in> set (active @ [item_id it]). layer n = layer (last (active @ [item_id it]))"
        using sub 1(4) le eqs by (auto dest!: subsetD)
      have ne: "True = (active @ [item_id it] \<noteq> [])" by simp
      from 1(1) [OF Some False run ne prem] obtain taken where t:
        "active' = (active @ [item_id it]) @ map item_id taken"
        "contexts' = (contexts @ [item_context it]) @ map item_context taken"
        "mset (remove1 it q) = mset taken + mset q'" "any' = (True \<or> remove1 it q \<noteq> [])"
        "\<forall>n \<in> set active'. layer n = layer (last active')"
        "\<forall>it \<in> set q'. layer (last active') < layer (item_id it)" "sorted_wrt (\<lambda>a b. \<not> item_less a b) taken"
        by blast
      have m: "mset q = mset (it # taken) + mset q'"
        using mset_remove1_eq [OF it(1)] unfolding t(3) by simp
      have in_q: "set taken \<subseteq> set q" using arg_cong [OF m, of set_mset] by auto
      show ?thesis
      proof (intro exI [of _ "it # taken"] conjI)
        show "any' = (any \<or> q \<noteq> [])" using t(4) it(1) by auto
        show "sorted_wrt (\<lambda>a b. \<not> item_less a b) (it # taken)" using t(7) it(2) in_q by auto
      qed (use t(1,2) in simp, use t(2) in simp, rule m, rule t(5), rule t(6))
    qed
  qed
qed

end
