(* ===== verification/SchedulerIdle.thy ===== *)
theory SchedulerIdle
  imports SchedulerRuns
begin

section \<open>What the scheduler guarantees\<close>

text \<open>
  The properties of the runs of \<open>SchedulerRuns\<close>: no \<open>CHECK\<close> fails, the state machine, layers
  of sources, the waits of the application thread, and what is left to do when the
  scheduler rests, with the two situations in which it does not do it.
\<close>

subsection \<open>No CHECK fails\<close>

lemma take_layer_flag:
  assumes "q \<noteq> []"
  shows "\<exists>q' active contexts. take_layer layer q [] [] False = (q', active, contexts, True)"
proof -
  have keep: "take_layer layer q active contexts True = (q', a', c', f) \<Longrightarrow> f"
    for q active contexts q' a' c' f
  proof (induction layer q active contexts True arbitrary: q' a' c' f rule: take_layer.induct)
    case (1 layer q active contexts)
    note run = 1(2) [unfolded take_layer.simps [of layer q active contexts True]]
    show ?case
    proof (cases "queue_top q")
      case None
      show ?thesis using run unfolding None by simp
    next
      case (Some it)
      show ?thesis
      proof (cases "layer (item_id it) \<noteq> layer (last active)")
        case True
        then show ?thesis using run Some by simp
      next
        case False
        then show ?thesis using run Some 1(1) [OF Some] by simp
      qed
    qed
  qed
  obtain it where it: "queue_top q = Some it" using assms by (cases "queue_top q") auto
  obtain q' a c f where r: "take_layer layer (remove1 it q) [item_id it] [item_context it] True = (q', a, c, f)"
    by (cases "take_layer layer (remove1 it q) [item_id it] [item_context it] True") auto
  then have "take_layer layer q [] [] False = (q', a, c, f)"
    using it by (simp add: take_layer.simps [of layer q "[]" "[]" False])
  then show ?thesis using keep [OF r] by auto
qed

lemma take_layer_nonempty:
  "active \<noteq> [] \<Longrightarrow> fst (snd (take_layer layer q active contexts any)) \<noteq> []"
proof (induction layer q active contexts any rule: take_layer.induct)
  case (1 layer q active contexts any)
  show ?case
  proof (cases "queue_top q")
    case None
    show ?thesis using 1(2) unfolding take_layer.simps [of layer q active contexts any] None by simp
  next
    case (Some it)
    then show ?thesis using 1(1) [OF Some] 1(2)
      unfolding take_layer.simps [of layer q active contexts any] by simp
  qed
qed

lemma HandleIdle_iterate_Some:
  assumes "counts_inv Y" "idle_thread Y = AtLoop"
  shows "HandleIdle_iterate layer closed (sched Y) \<noteq> None"
proof -
  let ?s = "CleanupActiveSources closed (sched Y)"
  have quit: "Quit ?s \<noteq> None"
    if "sched_state (sched Y) = STATE_RUNNING \<or> sched_state (sched Y) = STATE_CANCELLING"
  proof -
    have "counts_inv (Y\<lparr>sched := ?s\<rparr>)" using assms(1) by (simp add: counts_inv_def CleanupActiveSources_def)
    from counts_inv_Some(1) [OF this] show ?thesis using that
      by (auto simp: Quit_def CleanupActiveSources_def)
  qed
  have layer: "(\<exists>s'. TryToScheduleNextSourceLayer layer ?s = Some (s', Inl ()) \<and> active_sources s' = []) \<or>
      (\<exists>s' cs. TryToScheduleNextSourceLayer layer ?s = Some (s', Inr cs))"
    if nonempty: "active_sources ?s = []" "sources_queue ?s \<noteq> []"
  proof -
    obtain it where it: "queue_top (sources_queue ?s) = Some it"
      using nonempty(2) by (cases "queue_top (sources_queue ?s)") auto
    obtain q' a c where take: "take_layer layer (sources_queue ?s) [] [] False = (q', a, c, True)"
      using take_layer_flag nonempty(2) by blast
    show ?thesis using nonempty(1) it take by (auto simp: TryToScheduleNextSourceLayer_def)
  qed
  show ?thesis
    using quit layer unfolding HandleIdle_iterate_def by (auto simp: Let_def split: if_splits)
qed

lemma scheduler_never_aborts_parts:
  assumes "sched_start Y" and "sched_steps layer Y Y'"
  shows "q \<in> set (scheduler_queues (sched Y')) \<Longrightarrow> running_count q \<le> 1"
    and "\<lbrakk>idle_thread Y' \<in> {Outside, AtLoop, UnthrottlingSources}; q \<in> set (scheduler_queues (sched Y'))\<rbrakk> \<Longrightarrow>
      running_count q = (if sched_state (sched Y') \<in> {STATE_RUNNING, STATE_CANCELLING} then 1 else 0)"
    and "Pause (sched Y') \<noteq> None" "Resume (sched Y') \<noteq> None" "Cancel (sched Y') \<noteq> None"
    and "idle_thread Y' = AtLoop \<Longrightarrow> HandleIdle_iterate layer closed (sched Y') \<noteq> None"
    and "\<lbrakk>idle_thread Y' = ResumingQueues i; i < length (scheduler_queues (sched Y'))\<rbrakk> \<Longrightarrow>
      SetRunning (scheduler_queues (sched Y') ! i) True \<noteq> None"
proof -
  have inv: "counts_inv Y'" using counts_inv_steps assms sched_start_counts by blast
  have mem: "\<exists>i < length (scheduler_queues (sched Y')). q = scheduler_queues (sched Y') ! i"
    if "q \<in> set (scheduler_queues (sched Y'))" for q
    using that by (auto simp: in_set_conv_nth)
  show "running_count q \<le> 1" if "q \<in> set (scheduler_queues (sched Y'))"
    using counts_inv_le [OF inv that] by (simp add: running_now_def split: if_splits)
  show "running_count q = (if sched_state (sched Y') \<in> {STATE_RUNNING, STATE_CANCELLING} then 1 else 0)"
    if "idle_thread Y' \<in> {Outside, AtLoop, UnthrottlingSources}" "q \<in> set (scheduler_queues (sched Y'))"
    using mem [OF that(2)] inv that(1) by (auto simp: counts_inv_def running_now_def)
  show "Pause (sched Y') \<noteq> None" using counts_inv_Some(1) [OF inv]
    by (auto simp: Pause_def SetQueuesRunning_eq split: if_splits)
  show "Resume (sched Y') \<noteq> None" "Cancel (sched Y') \<noteq> None"
    using counts_inv_Some(2) [OF inv]
    by (auto simp: Resume_def Cancel_def SetQueuesRunning_eq running_now_def split: if_splits)
  show "HandleIdle_iterate layer closed (sched Y') \<noteq> None" if "idle_thread Y' = AtLoop"
    using HandleIdle_iterate_Some inv that by blast
  show "SetRunning (scheduler_queues (sched Y') ! i) True \<noteq> None"
    if "idle_thread Y' = ResumingQueues i" "i < length (scheduler_queues (sched Y'))"
    using inv that by (auto simp: counts_inv_def SetRunning_eq running_now_def)
qed


subsection \<open>The state machine\<close>

definition scheduler_transition :: "scheduler_state \<Rightarrow> scheduler_state \<Rightarrow> bool" where
  "scheduler_transition a b \<longleftrightarrow> (a, b) \<in> {(STATE_NOT_STARTED, STATE_RUNNING), (STATE_RUNNING, STATE_PAUSED),
     (STATE_PAUSED, STATE_RUNNING), (STATE_RUNNING, STATE_CANCELLING), (STATE_PAUSED, STATE_CANCELLING),
     (STATE_RUNNING, STATE_TERMINATED), (STATE_CANCELLING, STATE_TERMINATED)}"

lemma step_state:
  assumes "sched_step layer Y Y'" "sched_state (sched Y') \<noteq> sched_state (sched Y)"
  shows "scheduler_transition (sched_state (sched Y)) (sched_state (sched Y')) \<and>
    (sched_state (sched Y') = STATE_TERMINATED \<longrightarrow> idle_thread Y = AtLoop \<and>
       sched_state (sched Y) \<in> {STATE_RUNNING, STATE_CANCELLING} \<and>
       HandleIdle_iterate layer (\<lambda>n. n \<in> closed_nodes Y) (sched Y) = Some (sched Y', idle_thread Y'))"
  using assms
proof (cases rule: sched_step.cases)
  case (iterate s h)
  from iterate(3) show ?thesis
  proof (cases rule: HandleIdle_iterate_cases)
    case (quit c)
    then have "sched_state c = STATE_TERMINATED"
      "sched_state (sched Y) = STATE_RUNNING \<or> sched_state (sched Y) = STATE_CANCELLING"
      using Quit_eq [OF quit(3)] by (auto simp: CleanupActiveSources_def)
    then show ?thesis using iterate quit(4,5) by (auto simp: scheduler_transition_def)
  next
    case (layer contexts)
    then show ?thesis using iterate assms(2) TryToSchedule_frame(2) [OF layer(3)]
      by (simp add: CleanupActiveSources_def)
  next
    case waits
    then show ?thesis using iterate assms(2) TryToSchedule_frame(2) [OF waits(5)]
      by (simp add: CleanupActiveSources_def)
  qed (use iterate assms(2) in \<open>auto simp: CleanupActiveSources_def\<close>)
next
  case (await w s a)
  then show ?thesis using assms(2) await_frame(2) [OF await(3)] by simp
next
  case (add_source cs i item k t b s w n)
  then obtain q where "s = set_queue Y k q" using schedule_node_frame by blast
  then show ?thesis using assms(2) add_source by simp
next
  case (unthrottle_sources b s h)
  then show ?thesis using assms(2) by (auto simp: HandleIdle_unthrottled_def split: if_splits)
next
  case (start r)
  from Start_cases [OF start(3)] show ?thesis using start(1,2) assms(2) by (simp add: scheduler_transition_def split: if_splits)
next
  case (pause s)
  from pause(3) show ?thesis using pause(1,2) assms(2) by (cases rule: Pause_cases) (simp_all add: scheduler_transition_def split: if_splits)
next
  case (resume r)
  from resume(3) show ?thesis using resume(1,2) assms(2) by (cases rule: Resume_cases) (simp_all add: scheduler_transition_def split: if_splits)
next
  case (cancel r)
  from cancel(3) show ?thesis using cancel(1,2) assms(2) by (cases rule: Cancel_cases) (simp_all add: scheduler_transition_def split: if_splits)
next
  case (idle_changed b)
  show ?thesis using idle_changed assms(2)
    by (cases rule: QueueIdleStateChanged_cases [of b "sched Y"]) (simp_all add: scheduler_transition_def split: if_splits)
next
  case added_packet
  show ?thesis using added_packet assms(2)
    by (cases rule: AddedPacket_cases [of "sched Y"]) (simp_all add: scheduler_transition_def split: if_splits)
qed (use assms(2) in \<open>simp_all add: sched_updates split: if_splits\<close>)

lemma HandleIdle_iterate_terminates:
  assumes "HandleIdle_iterate layer closed s = Some (s', h)" "sched_state s' = STATE_TERMINATED"
    "sched_state s \<noteq> STATE_TERMINATED"
  shows "sched_IsIdle s \<and> (has_error s \<or> (\<forall>n \<in> set (active_sources s). closed n) \<and> sources_queue s = [] \<and>
    graph_input_streams_closed s)"
  using assms(1)
proof (cases rule: HandleIdle_iterate_cases)
  case (layer contexts)
  then show ?thesis using assms(2,3) TryToSchedule_frame(2) [OF layer(3)] by (simp add: CleanupActiveSources_def)
next
  case waits
  then show ?thesis using assms(2,3) TryToSchedule_frame(2) [OF waits(5)] by (simp add: CleanupActiveSources_def)
qed (use assms(2,3) in \<open>auto simp: CleanupActiveSources_def\<close>)

lemma scheduler_state_machine_parts:
  assumes "sched_step layer Y Y'" and "sched_state (sched Y') \<noteq> sched_state (sched Y)"
  shows "scheduler_transition (sched_state (sched Y)) (sched_state (sched Y'))"
    and "sched_state (sched Y') = STATE_TERMINATED \<Longrightarrow>
      non_idle_queue_count (sched Y) = 0 \<and>
      (has_error (sched Y) \<or> set (active_sources (sched Y)) \<subseteq> closed_nodes Y \<and> sources_queue (sched Y) = [] \<and>
        graph_input_streams_closed (sched Y))"
proof -
  show "scheduler_transition (sched_state (sched Y)) (sched_state (sched Y'))"
    using step_state [OF assms] by simp
  assume "sched_state (sched Y') = STATE_TERMINATED"
  then show "non_idle_queue_count (sched Y) = 0 \<and>
      (has_error (sched Y) \<or> set (active_sources (sched Y)) \<subseteq> closed_nodes Y \<and> sources_queue (sched Y) = [] \<and>
        graph_input_streams_closed (sched Y))"
    using step_state [OF assms] HandleIdle_iterate_terminates
    by (fastforce simp: sched_IsIdle_def)
qed


subsection \<open>The waits of the application thread\<close>

definition blocked :: "wait_for \<Rightarrow> scheduler \<Rightarrow> bool" where
  "blocked w s \<longleftrightarrow> ApplicationThreadAwait w s = (s, Blocks)"

lemma blocked_iff:
  "blocked w s \<longleftrightarrow> app_thread_tasks s = [] \<and>
     (case w of
        ForGraphInputStreamUnthrottled n \<Rightarrow> unthrottle_seq_num s = n \<and> sched_state s \<noteq> STATE_TERMINATED
      | ForObservedOutput \<Rightarrow> \<not> observed_output_signal s \<and> waiting_for_observed_output s \<and>
          sched_state s \<noteq> STATE_TERMINATED
      | ForIdle \<Rightarrow> non_idle_queue_count s \<noteq> 0
      | ForDone \<Rightarrow> sched_state s \<noteq> STATE_TERMINATED)"
proof (cases w)
  case ForObservedOutput
  have "s\<lparr>observed_output_signal := False, waiting_for_observed_output := True\<rparr> = s \<longleftrightarrow>
      \<not> observed_output_signal s \<and> waiting_for_observed_output s"
    by (cases s) auto
  then show ?thesis unfolding ForObservedOutput
    by (auto simp: blocked_def ApplicationThreadAwait_def Let_def split: list.splits if_splits)
qed (auto simp: blocked_def ApplicationThreadAwait_def sched_IsIdle_def split: list.splits if_splits)

definition wait_fields :: "scheduler \<Rightarrow> _" where
  "wait_fields s = (app_thread_tasks s, unthrottle_seq_num s, sched_state s = STATE_TERMINATED,
     observed_output_signal s, waiting_for_observed_output s, non_idle_queue_count s = 0)"

lemma blocked_cong: "wait_fields s' = wait_fields s \<Longrightarrow> blocked w s' = blocked w s"
  by (cases w) (auto simp: wait_fields_def blocked_iff)

lemma TryToSchedule_waits:
  "TryToScheduleNextSourceLayer layer s = Some (s', r) \<Longrightarrow> wait_fields s' = wait_fields s"
  by (auto simp: TryToScheduleNextSourceLayer_def bind_eq_Some_conv wait_fields_def Let_def
      split: if_splits prod.splits)

lemma wait_fields_cleanup: "wait_fields (CleanupActiveSources closed s) = wait_fields s"
  by (simp add: CleanupActiveSources_def wait_fields_def)

lemma wait_fields_handling: "wait_fields (s\<lparr>handling_idle := b\<rparr>) = wait_fields s"
  by (simp add: wait_fields_def)

lemma HandleIdle_iterate_waits:
  assumes "HandleIdle_iterate layer closed s = Some (s', h)"
  shows "wait_fields s' = wait_fields s \<or> state_cond_var s < state_cond_var s'"
  using assms
proof (cases rule: HandleIdle_iterate_cases)
  case (quit c)
  then show ?thesis using Quit_eq [OF quit(3)] by (simp add: CleanupActiveSources_def)
next
  case (layer contexts)
  then show ?thesis using TryToSchedule_waits [OF layer(3)] by (simp add: wait_fields_cleanup)
next
  case waits
  then show ?thesis using TryToSchedule_waits [OF waits(5)] by (simp add: wait_fields_cleanup)
qed (simp_all add: wait_fields_cleanup wait_fields_handling)

lemma await_blocked:
  assumes "blocked w s" "ApplicationThreadAwait w' s = (s', a)"
  shows "blocked w s'"
  using assms
  by (cases w'; cases w)
    (auto simp: blocked_iff ApplicationThreadAwait_def Let_def sched_IsIdle_def split: if_splits)

text \<open>
  C39: No wake-up of an application thread is lost: when a thread is blocked in one of the
  waits (for a throttled graph input stream, an observed output, idleness or termination) and
  a step of any thread makes its condition true or gives it a task to run, that step
  signals \<open>state_cond_var_\<close>.
\<close>
theorem no_lost_wakeup:
  assumes "sched_step layer Y Y'" and "blocked w (sched Y)" and "\<not> blocked w (sched Y')"
  shows "state_cond_var (sched Y) < state_cond_var (sched Y')"
proof -
  have *: thesis if "wait_fields (sched Y') = wait_fields (sched Y)" for thesis
    using assms(2,3) blocked_cong that by blast
  from assms(1) show ?thesis
  proof (cases rule: sched_step.cases)
    case (idle_changed b)
    have w: "wait_fields (sched Y') = wait_fields (sched Y) \<or> state_cond_var (sched Y) < state_cond_var (sched Y') \<or>
        non_idle_queue_count (sched Y') \<noteq> 0 \<and> sched Y' = (sched Y)\<lparr>non_idle_queue_count := non_idle_queue_count (sched Y')\<rparr>"
      using idle_changed by (cases rule: QueueIdleStateChanged_cases [of b "sched Y"]) simp_all
    have "blocked w (sched Y')"
      if "non_idle_queue_count (sched Y') \<noteq> 0"
        "sched Y' = (sched Y)\<lparr>non_idle_queue_count := non_idle_queue_count (sched Y')\<rparr>"
    proof -
      have "blocked w ((sched Y)\<lparr>non_idle_queue_count := non_idle_queue_count (sched Y')\<rparr>)"
        using assms(2) that(1) by (cases w) (simp_all add: blocked_iff)
      then show ?thesis using that(2) by simp
    qed
    then show ?thesis using w * assms(3) by blast
  next
    case (await w' s a)
    then show ?thesis using await_blocked assms(2,3) by auto
  next
    case (iterate s h)
    then show ?thesis using HandleIdle_iterate_waits [OF iterate(3)] * by auto
  next
    case emitted
    then show ?thesis using assms(2,3) by (cases w) (simp_all add: blocked_iff sched_updates split: if_splits)
  next
    case (add_task t)
    then show ?thesis using assms(2) by (simp add: blocked_iff sched_updates)
  next
    case (add_source cs i item k t b s w n)
    then obtain q where "s = set_queue Y k q" using schedule_node_frame by blast
    then show ?thesis using * add_source by (simp add: wait_fields_def)
  next
    case (start r)
    from Start_cases [OF start(3)] have "wait_fields (sched Y') = wait_fields (sched Y)"
      using start(1,2) by (simp add: wait_fields_def)
    then show ?thesis by (rule *)
  next
    case (pause s)
    from pause(3) have "wait_fields (sched Y') = wait_fields (sched Y)"
      using pause(1,2) by (cases rule: Pause_cases) (simp_all add: wait_fields_def)
    then show ?thesis by (rule *)
  next
    case (resume r)
    from resume(3) have "wait_fields (sched Y') = wait_fields (sched Y)"
      using resume(1,2) by (cases rule: Resume_cases) (simp_all add: wait_fields_def)
    then show ?thesis by (rule *)
  next
    case (cancel r)
    from cancel(3) have "wait_fields (sched Y') = wait_fields (sched Y)"
      using cancel(1,2) by (cases rule: Cancel_cases) (simp_all add: wait_fields_def)
    then show ?thesis by (rule *)
  next
    case added_packet
    then have "wait_fields (sched Y') = wait_fields (sched Y)"
      by (cases rule: AddedPacket_cases [of "sched Y"]) (simp_all add: wait_fields_def)
    then show ?thesis by (rule *)
  next
    case (unthrottle_sources b s h)
    then show ?thesis using * by (auto simp: HandleIdle_unthrottled_def wait_fields_def split: if_splits)
  qed (use * in \<open>simp_all add: sched_updates wait_fields_def split: if_splits\<close>)
qed

subsection \<open>What is left to do when the scheduler rests\<close>

definition may_act :: "sched_system \<Rightarrow> bool" where
  "may_act Y \<longleftrightarrow> sched_IsIdle (sched Y) \<and> sched_state (sched Y) \<in> {STATE_RUNNING, STATE_CANCELLING}"

text \<open>The active sources are closed, and there is a layer to activate or the run is over.\<close>

definition work_left :: "sched_system \<Rightarrow> bool" where
  "work_left Y \<longleftrightarrow> set (active_sources (sched Y)) \<subseteq> closed_nodes Y \<and>
     (sources_queue (sched Y) \<noteq> [] \<or> graph_input_streams_closed (sched Y))"

definition rest_inv :: "sched_system \<Rightarrow> bool" where
  "rest_inv Y \<longleftrightarrow> counts_inv Y \<and>
     (idle_thread Y \<in> {Outside, UnthrottlingSources} \<and> may_act Y \<and> work_left Y \<longrightarrow> ignored Y)"

lemma cleanup_all_closed:
  "active_sources (CleanupActiveSources closed s) = [] \<longleftrightarrow> (\<forall>n \<in> set (active_sources s). closed n)"
  by (simp add: CleanupActiveSources_def)

lemma cleanup_keeps_open:
  assumes "active_sources (CleanupActiveSources closed s) \<noteq> []"
  shows "\<exists>m \<in> set (active_sources (CleanupActiveSources closed s)). \<not> closed m"
proof -
  let ?xs = "dropWhile closed (rev (active_sources s))"
  have "?xs \<noteq> []" using assms by (simp add: CleanupActiveSources_def)
  then have "hd ?xs \<in> set ?xs" "\<not> closed (hd ?xs)" by (rule hd_in_set, rule hd_dropWhile)
  then show ?thesis by (auto simp: CleanupActiveSources_def)
qed

lemma rest_inv_iterate:
  assumes "rest_inv Y" "idle_thread Y = AtLoop"
    "HandleIdle_iterate layer (\<lambda>n. n \<in> closed_nodes Y) (sched Y) = Some (s', h)"
  shows "\<not> (h \<in> {Outside, UnthrottlingSources} \<and> may_act (Y\<lparr>sched := s'\<rparr>) \<and> work_left (Y\<lparr>sched := s'\<rparr>))"
  using assms(3)
proof (cases rule: HandleIdle_iterate_cases)
  case not_idle
  then show ?thesis by (auto simp: may_act_def sched_IsIdle_def)
next
  case (quit c)
  then show ?thesis using Quit_eq [OF quit(3)] by (simp add: may_act_def)
next
  case unthrottle
  show ?thesis
  proof (cases "active_sources s' = []")
    case True
    then show ?thesis using unthrottle(2,3) by (simp add: work_left_def CleanupActiveSources_def)
  next
    case False
    then obtain m where "m \<in> set (active_sources s')" "m \<notin> closed_nodes Y"
      using unthrottle(3) cleanup_keeps_open by blast
    then show ?thesis by (auto simp: work_left_def)
  qed
next
  case nothing
  then show ?thesis by (simp add: work_left_def CleanupActiveSources_def)
qed auto

lemma rest_inv_step:
  assumes "sched_step layer Y Y'" "rest_inv Y"
  shows "rest_inv Y'"
proof -
  have counts: "counts_inv Y'" using counts_inv_step assms by (auto simp: rest_inv_def)
  have handling: "handling_idle (sched Y) \<longleftrightarrow> idle_thread Y \<noteq> Outside"
    using assms(2) by (simp add: rest_inv_def counts_inv_def)
  note inv = assms(2) [unfolded rest_inv_def]
  have "idle_thread Y' \<in> {Outside, UnthrottlingSources} \<and> may_act Y' \<and> work_left Y' \<longrightarrow> ignored Y'"
    using assms(1)
  proof (cases rule: sched_step.cases)
    case (start r)
    from Start_cases [OF start(3)] show ?thesis using start(1,2) by simp
  next
    case (pause s)
    from pause(3) show ?thesis using pause(1,2) inv
      by (cases rule: Pause_cases) (simp_all add: may_act_def)
  next
    case (resume r)
    from resume(3) show ?thesis using resume(1,2) inv by (cases rule: Resume_cases) simp_all
  next
    case (cancel r)
    from cancel(3) show ?thesis using cancel(1,2) inv by (cases rule: Cancel_cases) simp_all
  next
    case (idle_changed b)
    show ?thesis using idle_changed inv
      by (cases rule: QueueIdleStateChanged_cases [of b "sched Y"]) (simp_all add: may_act_def sched_IsIdle_def)
  next
    case added_packet
    then show ?thesis using inv by (cases rule: AddedPacket_cases [of "sched Y"]) simp_all
  next
    case closed_streams
    then show ?thesis by (simp add: sched_updates)
  next
    case (emitted)
    then show ?thesis using inv by (auto simp: sched_updates may_act_def work_left_def sched_IsIdle_def)
  next
    case (add_task t)
    then show ?thesis using inv by (auto simp: sched_updates may_act_def work_left_def sched_IsIdle_def)
  next
    case (await w s a)
    then show ?thesis using inv await_frame [OF await(3)]
      by (simp add: may_act_def work_left_def sched_IsIdle_def)
  next
    case (iterate s h)
    have "may_act Y' = may_act (Y\<lparr>sched := s\<rparr>)" "work_left Y' = work_left (Y\<lparr>sched := s\<rparr>)"
      using iterate(1) by (simp_all add: may_act_def work_left_def)
    then show ?thesis using rest_inv_iterate [OF assms(2) iterate(2,3)] iterate(1) by simp
  next
    case (add_source cs i item k t b s w n)
    then show ?thesis by simp
  next
    case (unthrottle_sources b s h)
    then show ?thesis using inv
      by (auto simp: HandleIdle_unthrottled_def may_act_def work_left_def sched_IsIdle_def split: if_splits)
  qed (use inv in \<open>simp_all add: sched_updates may_act_def work_left_def sched_IsIdle_def\<close>)
  then show ?thesis using counts by (simp add: rest_inv_def)
qed

lemma rest_inv_steps: "sched_steps layer Y Y' \<Longrightarrow> rest_inv Y \<Longrightarrow> rest_inv Y'"
  by (induction rule: sched_steps.induct) (auto intro: rest_inv_step)

lemma sched_start_rest: "sched_start Y \<Longrightarrow> rest_inv Y"
  using sched_start_counts by (auto simp: rest_inv_def sched_start_def may_act_def)


definition demo_sched :: sched_system where
  "demo_sched = \<lparr>sched = new_scheduler, idle_thread = Outside, closed_nodes = {}, ignored = False\<rparr>"

lemma demo_sched_start: "sched_start demo_sched"
  by (simp add: sched_start_def demo_sched_def new_scheduler_def new_queue_def)

text \<open>The scheduler while it runs, with no source node and an open graph input stream.\<close>

definition demo_running :: scheduler where
  "demo_running = new_scheduler\<lparr>sched_state := STATE_RUNNING, handling_idle := True,
     scheduler_queues := [new_queue\<lparr>running_count := 1\<rparr>]\<rparr>"

definition demo_at :: "scheduler \<Rightarrow> idle_handler \<Rightarrow> bool \<Rightarrow> sched_system" where
  "demo_at s h b = \<lparr>sched = s, idle_thread = h, closed_nodes = {}, ignored = b\<rparr>"

lemma demo_started: "sched_step layer demo_sched (demo_at demo_running AtLoop False)"
proof -
  have "Start (sched demo_sched) = Some (HandleIdle (new_scheduler\<lparr>sched_state := STATE_RUNNING,
      scheduler_queues := [new_queue\<lparr>running_count := 1\<rparr>]\<rparr>))"
    by (simp add: demo_sched_def new_scheduler_def Start_def SetQueuesRunning_eq new_queue_def)
  from sched_step.start [OF _ this] show ?thesis
    by (simp add: demo_sched_def demo_at_def demo_running_def new_scheduler_def)
qed

lemma demo_rest: "sched_step layer (demo_at demo_running AtLoop False)
    (demo_at (demo_running\<lparr>handling_idle := False\<rparr>) Outside False)"
proof -
  have "HandleIdle_iterate layer (\<lambda>n. n \<in> closed_nodes (demo_at demo_running AtLoop False))
      (sched (demo_at demo_running AtLoop False)) = Some (demo_running\<lparr>handling_idle := False\<rparr>, Outside)"
    by (simp add: HandleIdle_iterate_def CleanupActiveSources_def sched_IsIdle_def demo_at_def demo_running_def
        new_scheduler_def)
  from sched_step.iterate [OF _ this] show ?thesis by (simp add: demo_at_def)
qed

lemma demo_rest_steps: "sched_steps layer demo_sched (demo_at (demo_running\<lparr>handling_idle := False\<rparr>) Outside False)"
  by (rule sched_steps.step [OF sched_steps.step [OF sched_steps.refl demo_started] demo_rest])



theorem no_lost_wakeup_witness:
  "state_cond_var (sched demo_sched) < state_cond_var (AddApplicationThreadTask 7 (sched demo_sched))"
proof -
  have step: "sched_step (\<lambda>_. 0) demo_sched (demo_sched\<lparr>sched := AddApplicationThreadTask 7 (sched demo_sched)\<rparr>)"
    by (rule sched_step.add_task) (simp add: demo_sched_def)
  have "blocked ForDone (sched demo_sched)"
    by (simp add: blocked_iff demo_sched_def new_scheduler_def)
  moreover have "\<not> blocked ForDone (AddApplicationThreadTask 7 (sched demo_sched))"
    by (simp add: blocked_iff sched_updates demo_sched_def new_scheduler_def)
  ultimately show ?thesis using no_lost_wakeup [OF step, of ForDone] by simp
qed


text \<open>
  C37: The exception of the previous property happens. \<open>HandleIdle\<close> finds a throttled graph
  input stream and releases the mutex; an application thread closes the last graph input
  stream, and its call of \<open>HandleIdle\<close> is ignored; \<open>UnthrottleSources\<close> finds nothing it may
  grow (the full stream is a graph output stream) and the loop ends without another look.
  The scheduler rests in \<open>STATE_RUNNING\<close>, idle, without sources and with all graph input
  streams closed, and has not quit.
\<close>
theorem lost_quit:
  "\<exists>Y'. sched_steps (\<lambda>_. 0) demo_sched Y' \<and> idle_thread Y' = Outside \<and>
     non_idle_queue_count (sched Y') = 0 \<and> sched_state (sched Y') = STATE_RUNNING \<and>
     active_sources (sched Y') = [] \<and> sources_queue (sched Y') = [] \<and> graph_input_streams_closed (sched Y')"
proof -
  let ?r = "demo_running\<lparr>handling_idle := False\<rparr>"
  let ?t = "ThrottledGraphInputStream ?r"
  let ?h = "?t\<lparr>handling_idle := True\<rparr>"
  let ?c = "?h\<lparr>graph_input_streams_closed := True\<rparr>"
  have 1: "sched_step (\<lambda>_. 0) (demo_at ?r Outside False) (demo_at ?t Outside False)"
    using sched_step.throttled [of "demo_at ?r Outside False"] by (simp add: demo_at_def)
  have 2: "sched_step (\<lambda>_. 0) (demo_at ?t Outside False) (demo_at ?h AtLoop False)"
    using sched_step.added_packet [of "demo_at ?t Outside False"]
    by (simp add: demo_at_def AddedPacketToGraphInputStream_def sched_updates demo_running_def)
  have "HandleIdle_iterate (\<lambda>_. 0) (\<lambda>n. n \<in> closed_nodes (demo_at ?h AtLoop False))
      (sched (demo_at ?h AtLoop False)) = Some (?h, UnthrottlingSources)"
    by (simp add: HandleIdle_iterate_def CleanupActiveSources_def sched_IsIdle_def demo_at_def demo_running_def
        new_scheduler_def ThrottledGraphInputStream_def)
  then have 3: "sched_step (\<lambda>_. 0) (demo_at ?h AtLoop False) (demo_at ?h UnthrottlingSources False)"
    using sched_step.iterate [of "demo_at ?h AtLoop False"] by (simp add: demo_at_def)
  have 4: "sched_step (\<lambda>_. 0) (demo_at ?h UnthrottlingSources False) (demo_at ?c UnthrottlingSources True)"
    using sched_step.closed_streams [of "demo_at ?h UnthrottlingSources False"]
    by (simp add: demo_at_def ClosedAllGraphInputStreams_def)
  have 5: "sched_step (\<lambda>_. 0) (demo_at ?c UnthrottlingSources True)
      (demo_at (?c\<lparr>handling_idle := False\<rparr>) Outside True)"
    using sched_step.unthrottle_sources [of "demo_at ?c UnthrottlingSources True" False]
    by (simp add: demo_at_def HandleIdle_unthrottled_def)
  have "sched_steps (\<lambda>_. 0) demo_sched (demo_at (?c\<lparr>handling_idle := False\<rparr>) Outside True)"
    using sched_steps.step [OF _ 5] sched_steps.step [OF _ 4] sched_steps.step [OF _ 3]
      sched_steps.step [OF _ 2] sched_steps.step [OF demo_rest_steps 1] by blast
  then show ?thesis
    by (intro exI [of _ "demo_at (?c\<lparr>handling_idle := False\<rparr>) Outside True"])
      (simp add: demo_at_def demo_running_def new_scheduler_def ThrottledGraphInputStream_def)
qed

subsection \<open>Layers of sources\<close>

text \<open>
  Activating sources takes exactly one layer, the lowest: all the sources taken have the
  same layer, every source left in the queue has a higher one, a source not yet opened has
  no lower one, the sources are activated in the order of the queue, each with its own
  context, and none is lost or duplicated.
\<close>
theorem activated_layer:
  assumes "TryToScheduleNextSourceLayer layer s = Some (s', Inr contexts)"
    and "\<forall>it \<in> set (sources_queue s). layered_item layer it"
  shows "\<exists>taken. taken \<noteq> [] \<and> active_sources s' = map item_id taken \<and> contexts = map item_context taken \<and>
      mset (sources_queue s) = mset taken + mset (sources_queue s') \<and>
      sorted_wrt (\<lambda>a b. \<not> item_less a b) taken \<and>
      (\<forall>a \<in> set taken. layer (item_id a) = layer (last (active_sources s')) \<and>
        (unopened_sources s \<noteq> [] \<longrightarrow> layer (item_id a) \<le> layer (hd (unopened_sources s))) \<and>
        (\<forall>b \<in> set (sources_queue s'). layer (item_id a) < layer (item_id b)))"
proof -
  obtain it where it: "queue_top (sources_queue s) = Some it"
    and none: "\<not> (unopened_sources s \<noteq> [] \<and> layer (hd (unopened_sources s)) < layer (item_id it))"
    using assms(1) by (auto simp: TryToScheduleNextSourceLayer_def bind_eq_Some_conv split: if_splits)
  obtain q active cs where take: "take_layer layer (sources_queue s) [] [] False = (q, active, cs, True)"
    and s': "sources_queue s' = q" "active_sources s' = active" "contexts = cs"
  proof -
    obtain q active cs f where r: "take_layer layer (sources_queue s) [] [] False = (q, active, cs, f)"
      by (cases "take_layer layer (sources_queue s) [] [] False") auto
    have "f \<and> sources_queue s' = q \<and> active_sources s' = active \<and> contexts = cs"
      using assms(1) it none r by (auto simp: TryToScheduleNextSourceLayer_def split: if_splits)
    then show ?thesis using r that [of q active cs] by simp
  qed
  have spec: "(False = (([]::int list) \<noteq> []))" "\<forall>it \<in> set (sources_queue s). \<forall>n \<in> set []. layer n \<le> layer (item_id it)"
    "\<forall>n \<in> set []. layer n = layer (last [])"
    by simp_all
  from take_layer_spec [OF take spec(1) assms(2) spec(2,3)] obtain taken where t:
    "active = [] @ map item_id taken" "cs = [] @ map item_context taken"
    "mset (sources_queue s) = mset taken + mset q" "\<forall>n \<in> set active. layer n = layer (last active)"
    "\<forall>it \<in> set q. layer (last active) < layer (item_id it)" "sorted_wrt (\<lambda>a b. \<not> item_less a b) taken"
    by blast
  have "it \<in> set taken \<union> set q"
    using queue_top_mem [OF it] arg_cong [OF t(3), of set_mset] by auto
  then have low: "layer (last active) \<le> layer (item_id it)" using t(1,4,5) by fastforce
  have "taken \<noteq> []"
  proof
    assume none: "taken = []"
    have "active \<noteq> []"
      using take it take_layer_nonempty [of "[item_id it]" layer "remove1 it (sources_queue s)" "[item_context it]" True]
      unfolding take_layer.simps [of layer "sources_queue s" "[]" "[]" False] by simp
    then show False using none t(1) by simp
  qed
  then show ?thesis using t s' low none
    by (intro exI [of _ taken]) auto
qed

lemma sched_steps_invariant:
  assumes "sched_steps layer Y Y'" "\<And>A B. sched_step layer A B \<Longrightarrow> P A \<Longrightarrow> P B" "P Y"
  shows "P Y'"
  using assms by (induction rule: sched_steps.induct) auto

lemma TryToSchedule_error:
  "TryToScheduleNextSourceLayer layer s = Some (s', r) \<Longrightarrow> has_error s \<Longrightarrow> has_error s'"
  by (auto simp: TryToScheduleNextSourceLayer_def bind_eq_Some_conv Let_def split: if_splits prod.splits)

lemma has_error_step:
  assumes "sched_step layer Y Y'" "has_error (sched Y)"
  shows "has_error (sched Y')"
  using assms(1)
proof (cases rule: sched_step.cases)
  case (start r)
  from Start_cases [OF start(3)] show ?thesis using start(1,2) assms(2) by simp
next
  case (pause s)
  from pause(3) show ?thesis using pause(1,2) assms(2) by (cases rule: Pause_cases) simp_all
next
  case (resume r)
  from resume(3) show ?thesis using resume(1,2) assms(2) by (cases rule: Resume_cases) simp_all
next
  case (cancel r)
  from cancel(3) show ?thesis using cancel(1,2) assms(2) by (cases rule: Cancel_cases) simp_all
next
  case (idle_changed b)
  show ?thesis using idle_changed assms(2)
    by (cases rule: QueueIdleStateChanged_cases [of b "sched Y"]) simp_all
next
  case added_packet
  then show ?thesis using assms(2) by (cases rule: AddedPacket_cases [of "sched Y"]) simp_all
next
  case (await w s a)
  then show ?thesis using assms(2) await_frame(8) [OF await(3)] by simp
next
  case (iterate s h)
  have "has_error s" using iterate(3)
  proof (cases rule: HandleIdle_iterate_cases)
    case (quit c)
    then show ?thesis using Quit_eq [OF quit(3)] assms(2) by (simp add: CleanupActiveSources_def)
  next
    case (layer contexts)
    then show ?thesis using TryToSchedule_error [OF layer(3)] assms(2) by (simp add: CleanupActiveSources_def)
  next
    case waits
    then show ?thesis using TryToSchedule_error [OF waits(5)] assms(2) by (simp add: CleanupActiveSources_def)
  qed (use assms(2) in \<open>simp_all add: CleanupActiveSources_def\<close>)
  then show ?thesis using iterate(1) by simp
next
  case (add_source cs i item k t b s w n)
  then obtain q where "s = set_queue Y k q" using schedule_node_frame by blast
  then show ?thesis using assms(2) add_source by simp
next
  case (unthrottle_sources b s h)
  then show ?thesis using assms(2) by (auto simp: HandleIdle_unthrottled_def split: if_splits)
qed (use assms(2) in \<open>simp_all add: sched_updates\<close>)

lemma layer_livelock_parts:
  assumes "idle_thread Y = AtLoop" and "non_idle_queue_count (sched Y) = 0"
    and "sched_state (sched Y) \<in> {STATE_RUNNING, STATE_CANCELLING}"
    and "set (active_sources (sched Y)) \<subseteq> closed_nodes Y"
    and "\<not> graph_input_streams_closed (sched Y)"
    and "queue_top (sources_queue (sched Y)) = Some it" and "unopened_sources (sched Y) = n # ns"
    and "layer n < layer (item_id it)"
    and "sched_steps layer Y Y'" and "\<not> has_error (sched Y')"
  shows "idle_thread Y' = AtLoop" and "\<exists>Y''. sched_step layer Y' Y''"
proof -
  let ?spin = "\<lambda>Y. idle_thread Y = AtLoop \<and> non_idle_queue_count (sched Y) = 0 \<and>
    sched_state (sched Y) \<in> {STATE_RUNNING, STATE_CANCELLING} \<and>
    set (active_sources (sched Y)) \<subseteq> closed_nodes Y \<and> \<not> graph_input_streams_closed (sched Y) \<and>
    queue_top (sources_queue (sched Y)) = Some it \<and> unopened_sources (sched Y) = n # ns"
  have spin_iterate: "HandleIdle_iterate layer (\<lambda>n. n \<in> closed_nodes Y) (sched Y) =
      Some ((sched Y)\<lparr>active_sources := []\<rparr>, AtLoop)" if "?spin Y" "\<not> has_error (sched Y)" for Y
  proof -
    have c: "CleanupActiveSources (\<lambda>n. n \<in> closed_nodes Y) (sched Y) = (sched Y)\<lparr>active_sources := []\<rparr>"
    proof -
      have "dropWhile (\<lambda>n. n \<in> closed_nodes Y) (rev (active_sources (sched Y))) = []"
        using that(1) by (auto simp: dropWhile_eq_Nil_conv)
      then show ?thesis by (simp add: CleanupActiveSources_def)
    qed
    have "sources_queue (sched Y) \<noteq> []" using that(1) by (auto simp: queue_top_def)
    then show ?thesis using that assms(8) unfolding HandleIdle_iterate_def
      by (auto simp: c sched_IsIdle_def TryToScheduleNextSourceLayer_def)
  qed
  have spin_step: "?spin Y2 \<or> has_error (sched Y2)" if "sched_step layer Y1 Y2" "?spin Y1 \<or> has_error (sched Y1)"
    for Y1 Y2
  proof (cases "has_error (sched Y1)")
    case True
    then show ?thesis using has_error_step that(1) by blast
  next
    case False
    then have spin: "?spin Y1" using that(2) by blast
    from that(1) show ?thesis
    proof (cases rule: sched_step.cases)
      case (iterate s h)
      then have "s = (sched Y1)\<lparr>active_sources := []\<rparr>" "h = AtLoop" using spin_iterate [OF spin False] by simp_all
      then show ?thesis using spin iterate(1) by simp
    qed (use spin in \<open>simp_all add: CloseAllSourceNodes_def\<close>)
  qed
  have "?spin Y' \<or> has_error (sched Y')"
    using sched_steps_invariant [OF assms(9), of "\<lambda>Y. ?spin Y \<or> has_error (sched Y)"] spin_step assms(1-7) by blast
  then have spin: "?spin Y'" using assms(10) by blast
  then show "idle_thread Y' = AtLoop" by blast
  from spin sched_step.iterate [OF _ spin_iterate [OF spin assms(10)]]
  show "\<exists>Y''. sched_step layer Y' Y''" by blast
qed

text \<open>
  A source that is opened but whose layer must wait makes \<open>HandleIdle\<close> spin. If a
  source of a lower layer is not opened yet, the scheduler is idle, all active sources are
  closed and some graph input stream is still open, then no thread but one that records
  an error ends the loop: it never leaves it, and never releases the mutex.
\<close>
theorem layer_livelock:
  assumes "idle_thread Y = AtLoop" and "non_idle_queue_count (sched Y) = 0"
    and "sched_state (sched Y) \<in> {STATE_RUNNING, STATE_CANCELLING}"
    and "set (active_sources (sched Y)) \<subseteq> closed_nodes Y"
    and "\<not> graph_input_streams_closed (sched Y)"
    and "queue_top (sources_queue (sched Y)) = Some it" and "unopened_sources (sched Y) = n # ns"
    and "layer n < layer (item_id it)"
    and "sched_steps layer Y Y'" and "\<not> has_error (sched Y')"
  shows "idle_thread Y' = AtLoop \<and> (\<exists>Y''. sched_step layer Y' Y'')"
  using layer_livelock_parts [OF assms] by blast

definition demo_source :: "int \<Rightarrow> int \<Rightarrow> queue_item" where
  "demo_source n l = Item_process True n l 0 0"

text \<open>Node 5, in layer 1, is opened; node 4, in layer 0, is not.\<close>

definition demo_waiting :: scheduler where
  "demo_waiting = demo_running\<lparr>sources_queue := [demo_source 5 1], unopened_sources := [4]\<rparr>"

theorem layer_livelock_witness:
  "\<exists>Y. sched_step (\<lambda>n. n - 4) (demo_at demo_waiting AtLoop False) Y \<and> idle_thread Y = AtLoop \<and>
     (\<exists>Y''. sched_step (\<lambda>n. n - 4) Y Y'')"
proof -
  let ?Y = "demo_at demo_waiting AtLoop False"
  have top: "queue_top (sources_queue (sched ?Y)) = Some (demo_source 5 1)"
    by (simp add: demo_at_def demo_waiting_def queue_top_def item_less_irrefl)
  have step: "sched_step (\<lambda>n. n - 4) ?Y (?Y\<lparr>sched := CloseAllSourceNodes (sched ?Y)\<rparr>)"
    by (rule sched_step.stop)
  have "idle_thread (?Y\<lparr>sched := CloseAllSourceNodes (sched ?Y)\<rparr>) = AtLoop \<and>
      (\<exists>Y''. sched_step (\<lambda>n. n - 4) (?Y\<lparr>sched := CloseAllSourceNodes (sched ?Y)\<rparr>) Y'')"
  proof (rule conjI)
    have facts: "idle_thread ?Y = AtLoop" "non_idle_queue_count (sched ?Y) = 0"
      "sched_state (sched ?Y) \<in> {STATE_RUNNING, STATE_CANCELLING}"
      "set (active_sources (sched ?Y)) \<subseteq> closed_nodes ?Y" "\<not> graph_input_streams_closed (sched ?Y)"
      "unopened_sources (sched ?Y) = 4 # []" "(\<lambda>n. n - 4) 4 < (\<lambda>n. n - 4) (item_id (demo_source 5 1))"
      "\<not> has_error (sched (?Y\<lparr>sched := CloseAllSourceNodes (sched ?Y)\<rparr>))"
      by (simp_all add: demo_at_def demo_waiting_def demo_running_def new_scheduler_def CloseAllSourceNodes_def
          demo_source_def Item_process_def)
    note spin = layer_livelock [OF facts(1-5) top facts(6,7) sched_steps.step [OF sched_steps.refl step] facts(8)]
    from spin show "idle_thread (?Y\<lparr>sched := CloseAllSourceNodes (sched ?Y)\<rparr>) = AtLoop" by blast
    from spin show "\<exists>Y''. sched_step (\<lambda>n. n - 4) (?Y\<lparr>sched := CloseAllSourceNodes (sched ?Y)\<rparr>) Y''" by blast
  qed
  with step show ?thesis by blast
qed

definition demo_layers :: scheduler where
  "demo_layers = demo_running\<lparr>sources_queue := [demo_source 6 2, demo_source 5 1]\<rparr>"

theorem activated_layer_witness:
  "\<exists>s' taken. TryToScheduleNextSourceLayer (\<lambda>n. n - 4) demo_layers = Some (s', Inr [Some 0]) \<and> taken \<noteq> [] \<and>
     active_sources s' = map item_id taken \<and> mset (sources_queue demo_layers) = mset taken + mset (sources_queue s')"
proof -
  have less: "item_less (demo_source 6 2) (demo_source 5 1)" "\<not> item_less (demo_source 5 1) (demo_source 6 2)"
    "\<not> item_less (demo_source 6 2) (demo_source 6 2)" "\<not> item_less (demo_source 5 1) (demo_source 5 1)"
    by (simp_all add: item_less_def demo_source_def Item_process_def)
  have ne: "demo_source 6 2 \<noteq> demo_source 5 1" by (simp add: demo_source_def Item_process_def)
  have tops: "queue_top [demo_source 6 2, demo_source 5 1] = Some (demo_source 5 1)"
    "queue_top [demo_source 6 2] = Some (demo_source 6 2)"
    by (simp_all add: queue_top_def less)
  have take: "take_layer (\<lambda>n. n - 4) [demo_source 6 2, demo_source 5 1] [] [] False =
      ([demo_source 6 2], [5], [Some 0], True)"
    by (simp add: take_layer.simps [of _ "[demo_source 6 2, demo_source 5 1]"] take_layer.simps [of _ "[demo_source 6 2]"]
        tops ne ne [symmetric])
      (simp add: demo_source_def Item_process_def)
  let ?s = "demo_layers\<lparr>sources_queue := [demo_source 6 2], active_sources := [5]\<rparr>"
  have run: "TryToScheduleNextSourceLayer (\<lambda>n. n - 4) demo_layers = Some (?s, Inr [Some 0])"
    by (simp add: TryToScheduleNextSourceLayer_def demo_layers_def demo_running_def new_scheduler_def tops take)
  have "\<forall>it \<in> set (sources_queue demo_layers). layered_item (\<lambda>n. n - 4) it"
    by (simp add: demo_layers_def layered_item_def demo_source_def Item_process_def)
  from activated_layer [OF run this] run show ?thesis by blast
qed

end
