(* ===== verification/NodeScheduling.thy ===== *)
theory NodeScheduling
  imports Prelude
begin

section \<open>The scheduling of a node\<close>

text \<open>
  \<open>calculator_node.h/.cc\<close>: the status of a node and the concurrency control that lets one
  thread at a time prepare its invocations. The sections under \<open>status_mutex_\<close> are functions;
  the threads that execute them are a step relation. What the thread in \<open>SchedulingLoop\<close>
  does between them, \<open>InputStreamHandler::ScheduleInvocations\<close>, is modelled in
  \<open>ScheduleInvocations\<close>; here it is the number of invocations it schedules, at most its
  allowance.
\<close>

datatype node_status = kStateUninitialized | kStatePrepared | kStateOpened | kStateActive | kStateClosed

datatype scheduling_state = kNodeIdle | kScheduling | kSchedulingPending

fun status_rank :: "node_status \<Rightarrow> nat" where
  "status_rank kStateUninitialized = 0"
| "status_rank kStatePrepared = 1"
| "status_rank kStateOpened = 2"
| "status_rank kStateActive = 3"
| "status_rank kStateClosed = 4"

record node_control =
  node_status :: node_status
  max_in_flight :: int
  current_in_flight :: int
  scheduling_state :: scheduling_state
  input_stream_headers_ready_called :: bool
  input_side_packets_ready_called :: bool
  input_stream_headers_ready :: bool
  input_side_packets_ready :: bool

subsection \<open>The status\<close>

definition Prepared :: "node_control \<Rightarrow> bool" where
  "Prepared c \<longleftrightarrow> status_rank kStatePrepared \<le> status_rank (node_status c)"

definition Opened :: "node_control \<Rightarrow> bool" where
  "Opened c \<longleftrightarrow> status_rank kStateOpened \<le> status_rank (node_status c)"

definition Active :: "node_control \<Rightarrow> bool" where
  "Active c \<longleftrightarrow> status_rank kStateActive \<le> status_rank (node_status c)"

definition Closed :: "node_control \<Rightarrow> bool" where
  "Closed c \<longleftrightarrow> status_rank kStateClosed \<le> status_rank (node_status c)"

text \<open>The constructor and the part of \<open>Initialize\<close> that concerns this state.\<close>

definition new_node_control :: "int \<Rightarrow> node_control" where
  "new_node_control configured = \<lparr>node_status = kStateUninitialized,
     max_in_flight = (if configured \<noteq> 0 then configured else 1), current_in_flight = 0,
     scheduling_state = kNodeIdle, input_stream_headers_ready_called = False,
     input_side_packets_ready_called = False, input_stream_headers_ready = False,
     input_side_packets_ready = False\<rparr>"

text \<open>The end of \<open>PrepareForRun\<close>, with the counts the two handlers report.\<close>

definition control_PrepareForRun :: "int \<Rightarrow> int \<Rightarrow> node_control \<Rightarrow> node_control" where
  "control_PrepareForRun unset_headers missing_side_packets c = c\<lparr>node_status := kStatePrepared,
     scheduling_state := kNodeIdle, current_in_flight := 0, input_stream_headers_ready_called := False,
     input_side_packets_ready_called := False, input_stream_headers_ready := (unset_headers = 0),
     input_side_packets_ready := (missing_side_packets = 0)\<rparr>"

definition ReadyForOpen :: "node_control \<Rightarrow> bool" where
  "ReadyForOpen c \<longleftrightarrow> input_stream_headers_ready c \<and> input_side_packets_ready c"

text \<open>True: the section is followed by a call of \<open>ready_for_open_callback_\<close>.\<close>

definition InputStreamHeadersReady :: "node_control \<Rightarrow> (node_control \<times> bool) option" where
  "InputStreamHeadersReady c = do {
     check (node_status c = kStatePrepared);
     check (\<not> input_stream_headers_ready_called c);
     Some (c\<lparr>input_stream_headers_ready_called := True, input_stream_headers_ready := True\<rparr>,
           input_side_packets_ready c) }"

definition InputSidePacketsReady :: "node_control \<Rightarrow> (node_control \<times> bool) option" where
  "InputSidePacketsReady c = do {
     check (node_status c = kStatePrepared);
     check (\<not> input_side_packets_ready_called c);
     Some (c\<lparr>input_side_packets_ready_called := True, input_side_packets_ready := True\<rparr>,
           input_stream_headers_ready c) }"

definition ActivateNode :: "node_control \<Rightarrow> node_control option" where
  "ActivateNode c = do {
     check (node_status c = kStateOpened);
     Some (c\<lparr>node_status := kStateActive\<rparr>) }"

definition control_CleanupAfterRun :: "node_control \<Rightarrow> node_control" where
  "control_CleanupAfterRun c =
     c\<lparr>node_status := kStateUninitialized, scheduling_state := kNodeIdle, current_in_flight := 0\<rparr>"

subsection \<open>The sections of the scheduling\<close>

text \<open>True: the calling thread goes on with \<open>SchedulingLoop\<close>.\<close>

definition CheckIfBecameReady :: "node_control \<Rightarrow> node_control \<times> bool" where
  "CheckIfBecameReady c =
     (if node_status c \<noteq> kStateOpened then (c, False)
      else if scheduling_state c = kNodeIdle \<and> current_in_flight c < max_in_flight c
      then (c\<lparr>scheduling_state := kScheduling\<rparr>, True)
      else if scheduling_state c = kScheduling then (c\<lparr>scheduling_state := kSchedulingPending\<rparr>, False)
      else (c, False))"

text \<open>The first section of \<open>SchedulingLoop\<close>: the allowance of its first round, or its return.\<close>

definition SchedulingLoop_enter :: "node_control \<Rightarrow> node_control \<times> int option" where
  "SchedulingLoop_enter c =
     (if node_status c = kStateClosed then (c\<lparr>scheduling_state := kNodeIdle\<rparr>, None)
      else (c, Some (max_in_flight c - current_in_flight c)))"

text \<open>The section at the end of a round.\<close>

definition SchedulingLoop_next :: "node_control \<Rightarrow> node_control \<times> int option" where
  "SchedulingLoop_next c =
     (if scheduling_state c = kSchedulingPending \<and> current_in_flight c < max_in_flight c
      then (c\<lparr>scheduling_state := kScheduling\<rparr>, Some (max_in_flight c - current_in_flight c))
      else (c\<lparr>scheduling_state := kNodeIdle\<rparr>, None))"

definition EndScheduling :: "node_control \<Rightarrow> (node_control \<times> bool) option" where
  "EndScheduling c =
     (if node_status c \<noteq> kStateOpened \<and> node_status c \<noteq> kStateActive then Some (c, False)
      else do {
        let c = c\<lparr>current_in_flight := current_in_flight c - 1\<rparr>;
        check (0 \<le> current_in_flight c);
        Some (if scheduling_state c = kScheduling then (c\<lparr>scheduling_state := kSchedulingPending\<rparr>, False)
              else if scheduling_state c = kSchedulingPending then (c, False)
              else (c\<lparr>scheduling_state := kScheduling\<rparr>, True)) })"

definition TryToBeginScheduling :: "node_control \<Rightarrow> node_control \<times> bool" where
  "TryToBeginScheduling c =
     (if current_in_flight c < max_in_flight c
      then (c\<lparr>current_in_flight := current_in_flight c + 1\<rparr>, True)
      else (c, False))"

subsection \<open>The threads of a node with input streams\<close>

text \<open>
  A thread in \<open>SchedulingLoop\<close> is about to execute its first section, or it is in a round,
  with its allowance and the invocations it has scheduled in it. \<open>in_flight\<close> counts the
  invocations the scheduler has committed to and not yet ended, \<open>being_opened\<close> is the thread
  between \<open>OpenNode\<close> and \<open>NodeOpened\<close>, and \<open>changed\<close> says that the inputs or the contexts of
  the node have changed since the last round of \<open>SchedulingLoop\<close> began.
\<close>

datatype scheduling_thread = Entering | Round int int

record node_system =
  control :: node_control
  schedulers :: "scheduling_thread list"
  in_flight :: nat
  being_opened :: bool
  changed :: bool

definition enter_loop :: "node_system \<Rightarrow> node_control \<times> bool \<Rightarrow> node_system" where
  "enter_loop s r = s\<lparr>control := fst r,
     schedulers := (if snd r then Entering # schedulers s else schedulers s)\<rparr>"

inductive node_step :: "node_system \<Rightarrow> node_system \<Rightarrow> bool" where
  open_node: "node_status (control s) = kStatePrepared \<Longrightarrow>
    node_step s (s\<lparr>control := (control s)\<lparr>node_status := kStateOpened\<rparr>, being_opened := True\<rparr>)"
| node_opened: "being_opened s \<Longrightarrow>
    node_step s (enter_loop (s\<lparr>being_opened := False\<rparr>) (CheckIfBecameReady (control s)))"
| notified: "node_step s (enter_loop (s\<lparr>changed := True\<rparr>) (CheckIfBecameReady (control s)))"
| enter: "schedulers s = xs @ Entering # ys \<Longrightarrow> SchedulingLoop_enter (control s) = (c, Some a) \<Longrightarrow>
    node_step s (s\<lparr>control := c, schedulers := xs @ Round a 0 # ys, changed := False\<rparr>)"
| leave: "schedulers s = xs @ Entering # ys \<Longrightarrow> SchedulingLoop_enter (control s) = (c, None) \<Longrightarrow>
    node_step s (s\<lparr>control := c, schedulers := xs @ ys\<rparr>)"
| schedule: "schedulers s = xs @ Round a n # ys \<Longrightarrow> n < a \<Longrightarrow>
    TryToBeginScheduling (control s) = (c, True) \<Longrightarrow>
    node_step s (s\<lparr>control := c, schedulers := xs @ Round a (n + 1) # ys, in_flight := in_flight s + 1\<rparr>)"
| not_scheduled: "schedulers s = xs @ Round a n # ys \<Longrightarrow> n < a \<Longrightarrow>
    node_step s (s\<lparr>schedulers := xs @ Round a (n + 1) # ys\<rparr>)"
| next_round: "schedulers s = xs @ Round a n # ys \<Longrightarrow> SchedulingLoop_next (control s) = (c, Some a') \<Longrightarrow>
    node_step s (s\<lparr>control := c, schedulers := xs @ Round a' 0 # ys, changed := False\<rparr>)"
| end_loop: "schedulers s = xs @ Round a n # ys \<Longrightarrow> SchedulingLoop_next (control s) = (c, None) \<Longrightarrow>
    node_step s (s\<lparr>control := c, schedulers := xs @ ys\<rparr>)"
| close: "0 < in_flight s \<Longrightarrow>
    node_step s (s\<lparr>control := (control s)\<lparr>node_status := kStateClosed\<rparr>\<rparr>)"
| finish: "0 < in_flight s \<Longrightarrow> EndScheduling (control s) = Some r \<Longrightarrow>
    node_step s (enter_loop (s\<lparr>in_flight := in_flight s - 1, changed := True\<rparr>) r)"

inductive node_steps :: "node_system \<Rightarrow> node_system \<Rightarrow> bool" where
  refl: "node_steps s s"
| step: "node_steps s s' \<Longrightarrow> node_step s' s'' \<Longrightarrow> node_steps s s''"

definition node_start :: "node_system \<Rightarrow> bool" where
  "node_start s \<longleftrightarrow> node_status (control s) = kStatePrepared \<and> scheduling_state (control s) = kNodeIdle \<and>
     current_in_flight (control s) = 0 \<and> 1 \<le> max_in_flight (control s) \<and> schedulers s = [] \<and>
     in_flight s = 0 \<and> \<not> being_opened s"

subsection \<open>The invariant\<close>

fun within_allowance :: "node_control \<Rightarrow> scheduling_thread \<Rightarrow> bool" where
  "within_allowance c Entering = True"
| "within_allowance c (Round a n) = (0 \<le> n \<and> current_in_flight c + (a - n) \<le> max_in_flight c)"

lemma within_allowance_update [simp]:
  "within_allowance (c\<lparr>scheduling_state := st\<rparr>) t = within_allowance c t"
  "within_allowance (c\<lparr>node_status := ns\<rparr>) t = within_allowance c t"
  by (cases t; simp)+

lemma within_allowance_decr:
  "within_allowance c t \<Longrightarrow> within_allowance (c\<lparr>current_in_flight := current_in_flight c - 1\<rparr>) t"
  by (cases t) auto

definition node_inv :: "node_system \<Rightarrow> bool" where
  "node_inv s \<longleftrightarrow>
     1 \<le> max_in_flight (control s) \<and>
     length (schedulers s) \<le> 1 \<and>
     (schedulers s = [] \<longleftrightarrow> scheduling_state (control s) = kNodeIdle) \<and>
     (\<forall>t \<in> set (schedulers s). within_allowance (control s) t) \<and>
     current_in_flight (control s) \<le> max_in_flight (control s) \<and>
     int (in_flight s) \<le> current_in_flight (control s) \<and>
     (node_status (control s) \<noteq> kStateClosed \<longrightarrow> current_in_flight (control s) = int (in_flight s)) \<and>
     (node_status (control s) = kStatePrepared \<longrightarrow> in_flight s = 0 \<and> schedulers s = []) \<and>
     node_status (control s) \<in> {kStatePrepared, kStateOpened, kStateClosed} \<and>
     (node_status (control s) = kStateOpened \<and> changed s \<longrightarrow>
        being_opened s \<or> schedulers s = [Entering] \<or> scheduling_state (control s) = kSchedulingPending \<or>
        current_in_flight (control s) = max_in_flight (control s))"

lemmas node_sections = CheckIfBecameReady_def SchedulingLoop_enter_def SchedulingLoop_next_def
  EndScheduling_def TryToBeginScheduling_def enter_loop_def

lemma one_thread: "length (xs @ t # ys) \<le> 1 \<Longrightarrow> xs = [] \<and> ys = []"
  by simp

lemma node_inv_step:
  assumes "node_step s s'" "node_inv s"
  shows "node_inv s'"
  using assms
proof (cases rule: node_step.cases)
  case open_node
  then show ?thesis using assms(2) by (auto simp: node_inv_def)
next
  case node_opened
  then show ?thesis using assms(2)
    by (cases "scheduling_state (control s)") (auto simp: node_inv_def node_sections split: if_splits)
next
  case notified
  then show ?thesis using assms(2)
    by (cases "scheduling_state (control s)") (auto simp: node_inv_def node_sections split: if_splits)
next
  case (enter xs ys c a)
  then have "xs = []" "ys = []" using assms(2) one_thread by (auto simp: node_inv_def)
  then show ?thesis using enter assms(2) by (auto simp: node_inv_def node_sections split: if_splits)
next
  case (leave xs ys c)
  then have "xs = []" "ys = []" using assms(2) one_thread by (auto simp: node_inv_def)
  then show ?thesis using leave assms(2) by (auto simp: node_inv_def node_sections split: if_splits)
next
  case (schedule xs a n ys c)
  then have "xs = []" "ys = []" using assms(2) one_thread by (auto simp: node_inv_def)
  then show ?thesis using schedule assms(2) by (auto simp: node_inv_def node_sections split: if_splits)
next
  case (not_scheduled xs a n ys)
  then have "xs = []" "ys = []" using assms(2) one_thread by (auto simp: node_inv_def)
  then show ?thesis using not_scheduled assms(2) by (auto simp: node_inv_def)
next
  case (next_round xs a n ys c a')
  then have "xs = []" "ys = []" using assms(2) one_thread by (auto simp: node_inv_def)
  then show ?thesis using next_round assms(2) by (auto simp: node_inv_def node_sections split: if_splits)
next
  case (end_loop xs a n ys c)
  then have "xs = []" "ys = []" using assms(2) one_thread by (auto simp: node_inv_def)
  then show ?thesis using end_loop assms(2)
    by (cases "scheduling_state (control s)") (auto simp: node_inv_def node_sections split: if_splits)
next
  case close
  then show ?thesis using assms(2) by (auto simp: node_inv_def)
next
  case (finish r)
  let ?c = "(control s)\<lparr>current_in_flight := current_in_flight (control s) - 1\<rparr>"
  show ?thesis
  proof (cases "node_status (control s) = kStateOpened")
    case False
    then have "r = (control s, False)" "node_status (control s) = kStateClosed"
      using finish assms(2) by (auto simp: node_inv_def EndScheduling_def)
    then show ?thesis using finish(1,2) assms(2) by (simp add: node_inv_def enter_loop_def)
  next
    case True
    have allow: "\<forall>t \<in> set (schedulers s). within_allowance ?c t"
      using assms(2) within_allowance_decr by (simp add: node_inv_def)
    have "r = (if scheduling_state (control s) = kScheduling then (?c\<lparr>scheduling_state := kSchedulingPending\<rparr>, False)
        else if scheduling_state (control s) = kSchedulingPending then (?c, False)
        else (?c\<lparr>scheduling_state := kScheduling\<rparr>, True))"
      using finish(3) True by (simp add: EndScheduling_def Let_def split: if_splits)
    then show ?thesis using finish(1,2) assms(2) allow True
      by (cases "scheduling_state (control s)") (auto simp: node_inv_def enter_loop_def)
  qed
qed

lemma node_inv_steps: "node_steps s s' \<Longrightarrow> node_inv s \<Longrightarrow> node_inv s'"
  by (induction rule: node_steps.induct) (auto intro: node_inv_step)

lemma node_start_inv: "node_start s \<Longrightarrow> node_inv s"
  by (simp add: node_start_def node_inv_def)

subsection \<open>Properties\<close>

text \<open>
  C10: At most one thread at a time schedules a node; it never schedules more than the node
  may run in parallel, so the \<open>TryToBeginScheduling\<close> of an invocation it has prepared always
  succeeds (otherwise the \<open>CHECK\<close> of \<open>SchedulerQueue::AddNode\<close> fails); and the count of the
  running invocations stays between zero and \<open>max_in_flight_\<close>, so \<open>EndScheduling\<close> fails no
  \<open>CHECK\<close>.
\<close>
theorem node_scheduling_exclusive:
  assumes "node_start s" and "node_steps s s'"
  shows "length (schedulers s') \<le> 1 \<and>
    (\<forall>a n. Round a n \<in> set (schedulers s') \<and> n < a \<longrightarrow> snd (TryToBeginScheduling (control s'))) \<and>
    (0 < in_flight s' \<longrightarrow> EndScheduling (control s') \<noteq> None) \<and>
    0 \<le> current_in_flight (control s') \<and> current_in_flight (control s') \<le> max_in_flight (control s')"
proof -
  have inv: "node_inv s'" using node_inv_steps assms node_start_inv by blast
  have "snd (TryToBeginScheduling (control s'))" if "Round a n \<in> set (schedulers s')" "n < a" for a n
    using inv that by (auto simp: node_inv_def TryToBeginScheduling_def dest!: bspec)
  moreover have "0 < in_flight s' \<longrightarrow> EndScheduling (control s') \<noteq> None"
    using inv by (auto simp: node_inv_def EndScheduling_def Let_def)
  ultimately show ?thesis using inv by (auto simp: node_inv_def)
qed

text \<open>
  C11: No change of the inputs of a node is missed, although a notification that finds another
  thread scheduling the node, or the node fully in flight, returns at once: when an opened
  node has no thread in \<open>SchedulingLoop\<close> and may run one more invocation, nothing has changed
  since its readiness was last asked for.
\<close>
theorem no_readiness_lost:
  assumes "node_start s" and "node_steps s s'"
    and "node_status (control s') = kStateOpened" and "\<not> being_opened s'" and "schedulers s' = []"
    and "current_in_flight (control s') < max_in_flight (control s')"
  shows "\<not> changed s'"
  using node_inv_steps [OF assms(2) node_start_inv [OF assms(1)]] assms(3-6)
  by (auto simp: node_inv_def)

definition demo_node :: node_system where
  "demo_node = \<lparr>control = control_PrepareForRun 0 0 (new_node_control 1), schedulers = [], in_flight = 0,
     being_opened = False, changed = False\<rparr>"

lemma demo_node_start: "node_start demo_node"
  by (simp add: demo_node_def node_start_def control_PrepareForRun_def new_node_control_def)

text \<open>The node is opened, asks for its readiness, and schedules one invocation.\<close>

definition demo_node_at :: "scheduling_state \<Rightarrow> int \<Rightarrow> scheduling_thread list \<Rightarrow> nat \<Rightarrow> node_system" where
  "demo_node_at st n threads k = demo_node\<lparr>control := (control demo_node)\<lparr>node_status := kStateOpened,
     scheduling_state := st, current_in_flight := n\<rparr>, schedulers := threads, in_flight := k\<rparr>"

lemmas demo_node_defs = demo_node_at_def demo_node_def control_PrepareForRun_def new_node_control_def

lemma demo_node_round: "node_steps demo_node (demo_node_at kScheduling 0 [Round 1 0] 0)"
proof -
  let ?o = "demo_node_at kNodeIdle 0 [] 0"
  have 1: "node_step demo_node (?o\<lparr>being_opened := True\<rparr>)"
    using node_step.open_node [of demo_node] by (simp add: demo_node_defs)
  have 2: "node_step (?o\<lparr>being_opened := True\<rparr>) (demo_node_at kScheduling 0 [Entering] 0)"
    using node_step.node_opened [of "?o\<lparr>being_opened := True\<rparr>"]
    by (simp add: demo_node_defs CheckIfBecameReady_def enter_loop_def)
  have 3: "node_step (demo_node_at kScheduling 0 [Entering] 0) (demo_node_at kScheduling 0 [Round 1 0] 0)"
    using node_step.enter [of "demo_node_at kScheduling 0 [Entering] 0" "[]" "[]" _ 1]
    by (simp add: demo_node_defs SchedulingLoop_enter_def)
  show ?thesis using node_steps.step [OF node_steps.step [OF node_steps.step [OF node_steps.refl 1] 2] 3] .
qed

theorem node_scheduling_exclusive_witness:
  "\<exists>s'. node_steps demo_node s' \<and> schedulers s' = [Round 1 0] \<and> snd (TryToBeginScheduling (control s'))"
  using node_scheduling_exclusive [OF demo_node_start demo_node_round] demo_node_round
  by (intro exI [of _ "demo_node_at kScheduling 0 [Round 1 0] 0"]) (simp add: demo_node_at_def)

theorem no_readiness_lost_witness:
  "\<exists>s'. node_steps demo_node s' \<and> node_status (control s') = kStateOpened \<and> schedulers s' = [] \<and> \<not> changed s'"
proof -
  let ?e = "demo_node_at kNodeIdle 0 [] 0"
  have "node_step (demo_node_at kScheduling 0 [Round 1 0] 0) ?e"
    using node_step.end_loop [of "demo_node_at kScheduling 0 [Round 1 0] 0" "[]" 1 0 "[]"]
    by (simp add: demo_node_defs SchedulingLoop_next_def)
  then have run: "node_steps demo_node ?e" by (rule node_steps.step [OF demo_node_round])
  have "node_status (control ?e) = kStateOpened" "\<not> being_opened ?e" "schedulers ?e = []"
    "current_in_flight (control ?e) < max_in_flight (control ?e)" by (simp_all add: demo_node_defs)
  with no_readiness_lost [OF demo_node_start run this] run show ?thesis by blast
qed

end
