(* ===== verification/CalculatorNode.thy ===== *)
theory CalculatorNode
  imports NodeScheduling ScheduleInvocations OutputStreamHandler
begin

section \<open>Opening, running and closing a node\<close>

text \<open>
  \<open>calculator_node.cc\<close>: \<open>OpenNode\<close>, \<open>ProcessNode\<close>, \<open>CloseNode\<close> and \<open>CleanupAfterRun\<close>, and the two
  functions of \<open>scheduler_queue.cc\<close> that call them. The calculator is a parameter: three
  functions that take its state and the context and return both and a status. The virtual
  methods of the stream handlers a node uses while it runs are arguments as well:
  \<open>fill\<close> is \<open>FillInputSet\<close> and \<open>post\<close> is \<open>PostProcess\<close>. Side packets, which only matter for a
  node without streams, are the field \<open>outputs_constant\<close>. Profiling is left out.

  An operation returns \<open>None\<close> when the process aborts; otherwise the node, the messages its
  output streams sent, and the status.
\<close>

record ('a, 'c) calculator =
  calc_Open :: "'c \<Rightarrow> 'a calculator_context \<Rightarrow> 'c \<times> 'a calculator_context \<times> status"
  calc_Process :: "'c \<Rightarrow> 'a calculator_context \<Rightarrow> 'c \<times> 'a calculator_context \<times> status"
  calc_Close :: "'c \<Rightarrow> 'a calculator_context \<Rightarrow> 'c \<times> 'a calculator_context \<times> status"

record ('a, 'h, 'c) calculator_node =
  node_control :: node_control
  input_handler :: "('a, 'h) input_stream_handler"
  output_handler :: "'a output_stream_handler"
  context_manager :: "'a context_manager"
  calculator_state :: 'c
  needs_to_close :: bool
  outputs_constant :: bool

type_synonym ('a, 'h, 'c) node_result =
  "(('a, 'h, 'c) calculator_node \<times> 'a out_msg list \<times> handler_event list \<times> status) option"

type_synonym 'a post_method =
  "'a output_stream_handler \<Rightarrow> 'a context_manager \<Rightarrow> timestamp \<Rightarrow>
     ('a output_stream_handler \<times> 'a context_manager \<times> 'a out_msg list) option"

abbreviation StatusStop :: status where
  "StatusStop \<equiv> ErrorStatus Stop"

definition IsSource :: "('a, 'h, 'c) calculator_node \<Rightarrow> bool" where
  "IsSource n \<longleftrightarrow> input_stream_managers (input_handler n) = [] \<and>
     output_stream_managers (output_handler n) \<noteq> []"

definition set_status :: "node_status \<Rightarrow> ('a, 'h, 'c) calculator_node \<Rightarrow> ('a, 'h, 'c) calculator_node" where
  "set_status st n = n\<lparr>node_control := (node_control n)\<lparr>node_status := st\<rparr>\<rparr>"

definition OutputsAreConstant :: "('a, 'h, 'c) calculator_node \<Rightarrow> 'a calculator_context \<Rightarrow> bool" where
  "OutputsAreConstant n cc \<longleftrightarrow> inputs cc = [] \<and> outputs cc = [] \<and> outputs_constant n"

text \<open>A call of a method of the calculator, skipped if the outputs are constant.\<close>

definition call_calculator ::
    "('c \<Rightarrow> 'a calculator_context \<Rightarrow> 'c \<times> 'a calculator_context \<times> status) \<Rightarrow>
     ('a, 'h, 'c) calculator_node \<Rightarrow> context_ref \<Rightarrow> (('a, 'h, 'c) calculator_node \<times> status) option" where
  "call_calculator f n r = do {
     cc \<leftarrow> get_context (context_manager n) r;
     if OutputsAreConstant n cc then Some (n, OkStatus)
     else (let (c, cc, result) = f (calculator_state n) cc in
       Some (n\<lparr>calculator_state := c, context_manager := put_context (context_manager n) r cc\<rparr>, result)) }"

definition update_context ::
    "context_ref \<Rightarrow> ('a calculator_context \<Rightarrow> 'a calculator_context) \<Rightarrow>
     ('a, 'h, 'c) calculator_node \<Rightarrow> ('a, 'h, 'c) calculator_node option" where
  "update_context r f n = do {
     cc \<leftarrow> get_context (context_manager n) r;
     Some (n\<lparr>context_manager := put_context (context_manager n) r (f cc)\<rparr>) }"

definition pop_timestamp ::
    "context_ref \<Rightarrow> ('a, 'h, 'c) calculator_node \<Rightarrow> ('a, 'h, 'c) calculator_node option" where
  "pop_timestamp r n = do {
     cc \<leftarrow> get_context (context_manager n) r;
     cc \<leftarrow> PopInputTimestamp cc;
     Some (n\<lparr>context_manager := put_context (context_manager n) r cc\<rparr>) }"

subsection \<open>OpenNode\<close>

definition OpenNode :: "('a, 'c) calculator \<Rightarrow> ('a, 'h, 'c) calculator_node \<Rightarrow> ('a, 'h, 'c) node_result" where
  "OpenNode calc n = do {
     r \<leftarrow> GetDefaultCalculatorContext (context_manager n);
     n \<leftarrow> update_context r (\<lambda>cc. PushInputTimestamp Timestamp_Unstarted
            (cc\<lparr>inputs := UpdateInputShardHeaders (input_handler n) (inputs cc),
                outputs := PrepareOutputs (output_handler n) (outputs cc)\<rparr>)) n;
     (n, result) \<leftarrow> call_calculator (calc_Open calc) n r;
     n \<leftarrow> pop_timestamp r n;
     n \<leftarrow> (if IsSource n then update_context r (PushInputTimestamp (Timestamp_of 0)) n else Some n);
     check (result \<noteq> StatusStop);
     if \<not> ok result then Some (n, [], [], result)
     else do {
       let n = n\<lparr>needs_to_close := True\<rparr>;
       cc \<leftarrow> get_context (context_manager n) r;
       (osh, shards, msgs) \<leftarrow> osh_Open (output_handler n) (outputs cc);
       let n = n\<lparr>output_handler := osh,
                 context_manager := put_context (context_manager n) r (cc\<lparr>outputs := shards\<rparr>)\<rparr>;
       Some (set_status kStateOpened n, msgs, [], OkStatus) } }"

subsection \<open>CloseNode\<close>

definition CloseInputStreams :: "('a, 'h, 'c) calculator_node \<Rightarrow> ('a, 'h, 'c) calculator_node" where
  "CloseInputStreams n =
     (if node_status (node_control n) = kStateClosed then n
      else n\<lparr>input_handler := ish_Close (input_handler n)\<rparr>)"

definition CloseOutputStreams ::
    "'a output_stream_shard list option \<Rightarrow> ('a, 'h, 'c) calculator_node \<Rightarrow>
     ('a, 'h, 'c) calculator_node \<times> 'a out_msg list" where
  "CloseOutputStreams shards n =
     (if node_status (node_control n) = kStateClosed then (n, [])
      else let (osh, msgs) = osh_Close (output_handler n) shards
           in (n\<lparr>output_handler := osh\<rparr>, msgs))"

definition CloseNode ::
    "('a, 'c) calculator \<Rightarrow> status \<Rightarrow> bool \<Rightarrow> ('a, 'h, 'c) calculator_node \<Rightarrow> ('a, 'h, 'c) node_result" where
  "CloseNode calc status graph_run_ended n =
     (if node_status (node_control n) = kStateClosed then Some (n, [], [], ErrorStatus Internal)
      else do {
        let n = CloseInputStreams n;
        r \<leftarrow> GetDefaultCalculatorContext (context_manager n);
        n \<leftarrow> update_context r (\<lambda>cc. cc\<lparr>outputs := PrepareOutputs (output_handler n) (outputs cc)\<rparr>) n;
        n \<leftarrow> (if IsSource n
               then do { n \<leftarrow> pop_timestamp r n; update_context r (PushInputTimestamp Timestamp_Done) n }
               else Some n);
        n \<leftarrow> update_context r (SetGraphStatus status) n;
        (n, result) \<leftarrow> call_calculator (calc_Close calc) n r;
        let n = n\<lparr>needs_to_close := False\<rparr>;
        check (result \<noteq> StatusStop);
        cc \<leftarrow> get_context (context_manager n) r;
        let (n, msgs) = (if graph_run_ended then (n, []) else CloseOutputStreams (Some (outputs cc)) n);
        let n = set_status kStateClosed n;
        Some (n, msgs, [], result) })"

definition CleanupAfterRun ::
    "('a, 'c) calculator \<Rightarrow> status \<Rightarrow> ('a, 'h, 'c) calculator_node \<Rightarrow>
     (('a, 'h, 'c) calculator_node \<times> 'a out_msg list) option" where
  "CleanupAfterRun calc status n = do {
     (n, msgs) \<leftarrow> (if needs_to_close n
        then do {
          r \<leftarrow> GetDefaultCalculatorContext (context_manager n);
          n \<leftarrow> update_context r (PushInputTimestamp Timestamp_Done) n;
          (n, msgs, _, _) \<leftarrow> CloseNode calc status True n;
          Some (n, msgs) }
        else Some (n, []));
     let n = n\<lparr>context_manager := cm_CleanupAfterRun (context_manager n)\<rparr>;
     let n = CloseInputStreams n;
     let (n, msgs') = CloseOutputStreams None n;
     Some (n\<lparr>node_control := control_CleanupAfterRun (node_control n)\<rparr>, msgs @ msgs') }"

subsection \<open>ProcessNode\<close>

definition process_source ::
    "('a, 'c) calculator \<Rightarrow> 'a post_method \<Rightarrow> context_ref \<Rightarrow>
     ('a, 'h, 'c) calculator_node \<Rightarrow> ('a, 'h, 'c) node_result" where
  "process_source calc post r n =
     (if Closed (node_control n) then Some (n, [], [], OkStatus)
      else do {
        cc \<leftarrow> get_context (context_manager n) r;
        let t = InputTimestamp cc;
        n \<leftarrow> update_context r (\<lambda>cc. cc\<lparr>outputs := PrepareOutputs (output_handler n) (outputs cc)\<rparr>) n;
        cc \<leftarrow> get_context (context_manager n) r;
        let (c, cc, result) = calc_Process calc (calculator_state n) cc;
        let n = n\<lparr>calculator_state := c, context_manager := put_context (context_manager n) r cc\<rparr>;
        if \<not> ok result \<and> result \<noteq> StatusStop then Some (n, [], [], result)
        else do {
          (osh, cm, msgs) \<leftarrow> post (output_handler n) (context_manager n) t;
          let n = n\<lparr>output_handler := osh, context_manager := cm\<rparr>;
          if result = StatusStop
          then do {
            (n, msgs', ev, st) \<leftarrow> CloseNode calc OkStatus False n;
            Some (n, msgs @ msgs', ev, st) }
          else Some (n, msgs, [], OkStatus) } })"

text \<open>
  The rounds of the loop of a non-source node. A round ends the loop, with its status, or
  goes on to the next.
\<close>

definition process_round ::
    "('a, 'c) calculator \<Rightarrow> ('a, 'h) fill_method \<Rightarrow> 'a post_method \<Rightarrow> context_ref \<Rightarrow>
     ('a, 'h, 'c) calculator_node \<Rightarrow>
     (('a, 'h, 'c) calculator_node \<times> 'a out_msg list \<times> handler_event list \<times> status \<times> bool) option" where
  "process_round calc fill post r n = do {
     cc \<leftarrow> get_context (context_manager n) r;
     let t = InputTimestamp cc;
     if IsAllowedInStream t then do {
       (h, shards, ev) \<leftarrow> FinalizeInputSet fill (input_handler n) t (inputs cc);
       let n = n\<lparr>input_handler := h, context_manager := put_context (context_manager n) r
         (cc\<lparr>inputs := shards, outputs := PrepareOutputs (output_handler n) (outputs cc)\<rparr>)\<rparr>;
       (n, result) \<leftarrow> call_calculator (calc_Process calc) n r;
       cm \<leftarrow> ClearCurrentInputs (context_manager n) r;
       let n = n\<lparr>context_manager := cm\<rparr>;
       if \<not> ok result \<and> result \<noteq> StatusStop then Some (n, [], ev, result, False)
       else do {
         (osh, cm, msgs) \<leftarrow> post (output_handler n) (context_manager n) t;
         Some (n\<lparr>output_handler := osh, context_manager := cm\<rparr>, msgs, ev, result, result \<noteq> StatusStop) } }
     else if t = Timestamp_Done then do {
       check (NumberOfTimestamps cc = 1);
       (n, msgs, ev, st) \<leftarrow> CloseNode calc OkStatus False n;
       Some (n, msgs, ev, st, False) }
     else Some (n, [], [], ErrorStatus Internal, False) }"

fun process_rounds ::
    "('a, 'c) calculator \<Rightarrow> ('a, 'h) fill_method \<Rightarrow> 'a post_method \<Rightarrow> context_ref \<Rightarrow> nat \<Rightarrow>
     status \<Rightarrow> ('a, 'h, 'c) calculator_node \<Rightarrow> ('a, 'h, 'c) node_result" where
  "process_rounds calc fill post r 0 result n = Some (n, [], [], result)"
| "process_rounds calc fill post r (Suc k) result n = do {
     (n, msgs, ev, st, continue) \<leftarrow> process_round calc fill post r n;
     if continue then do {
       (n, msgs', ev', st') \<leftarrow> process_rounds calc fill post r k st n;
       Some (n, msgs @ msgs', ev @ ev', st') }
     else Some (n, msgs, ev, st) }"

definition ProcessNode ::
    "('a, 'c) calculator \<Rightarrow> ('a, 'h) fill_method \<Rightarrow> 'a post_method \<Rightarrow> context_ref \<Rightarrow>
     ('a, 'h, 'c) calculator_node \<Rightarrow> ('a, 'h, 'c) node_result" where
  "ProcessNode calc fill post r n =
     (if IsSource n then process_source calc post r n
      else do {
        cc \<leftarrow> get_context (context_manager n) r;
        let num_invocations = NumberOfTimestamps cc;
        if \<not> (num_invocations \<le> 1 \<or> max_in_flight (node_control n) \<le> 1)
        then Some (n, [], [], ErrorStatus Internal)
        else process_rounds calc fill post r (nat num_invocations) (ErrorStatus Internal) n })"

subsection \<open>Running a task of the scheduler queue\<close>

text \<open>
  \<open>RunCalculatorNode\<close>: what it returns beside the node are the new value of \<open>stopping\<close>, the
  error it reports, and whether \<open>EndScheduling\<close> goes on with \<open>SchedulingLoop\<close>.
\<close>

definition RunCalculatorNode ::
    "('a, 'c) calculator \<Rightarrow> ('a, 'h) fill_method \<Rightarrow> 'a post_method \<Rightarrow> bool \<Rightarrow> context_ref \<Rightarrow>
     ('a, 'h, 'c) calculator_node \<Rightarrow>
     (('a, 'h, 'c) calculator_node \<times> 'a out_msg list \<times> handler_event list \<times> bool \<times> status option \<times> bool) option" where
  "RunCalculatorNode calc fill post stopping r n = do {
     (n, msgs, ev, stopping, err) \<leftarrow>
       (if stopping \<and> IsSource n then do {
          (n, msgs, ev, result) \<leftarrow> CloseNode calc OkStatus False n;
          Some (n, msgs, ev, stopping, if ok result then None else Some result) }
        else do {
          (n, msgs, ev, result) \<leftarrow> ProcessNode calc fill post r n;
          if result = StatusStop then do { check (\<not> IsSource n); Some (n, msgs, ev, True, None) }
          else Some (n, msgs, ev, stopping, if ok result then None else Some result) });
     (c, loop) \<leftarrow> EndScheduling (node_control n);
     Some (n\<lparr>node_control := c\<rparr>, msgs, ev, stopping, err, loop) }"

text \<open>
  \<open>OpenCalculatorNode\<close> and the \<open>NodeOpened\<close> that follows: an error is reported; otherwise a
  source is announced to the scheduler, and a node with inputs checks its readiness.
\<close>

datatype opened = OpenFailed status | SourceOpened | InputsChecked bool | NothingToDo

definition OpenCalculatorNode ::
    "('a, 'c) calculator \<Rightarrow> ('a, 'h, 'c) calculator_node \<Rightarrow>
     (('a, 'h, 'c) calculator_node \<times> 'a out_msg list \<times> opened) option" where
  "OpenCalculatorNode calc n = do {
     (n, msgs, _, result) \<leftarrow> OpenNode calc n;
     Some (if \<not> ok result then (n, msgs, OpenFailed result)
       else if IsSource n then (n, msgs, SourceOpened)
       else if input_stream_managers (input_handler n) \<noteq> []
       then (let (c, loop) = CheckIfBecameReady (node_control n)
             in (n\<lparr>node_control := c\<rparr>, msgs, InputsChecked loop))
       else (n, msgs, NothingToDo)) }"

end
