(* ===== verification/NodeLifecycle.thy ===== *)
theory NodeLifecycle
  imports CalculatorNode
begin

section \<open>What a node does in a run\<close>

text \<open>
  Lemmas and properties of \<open>CalculatorNode\<close>: closing a node closes its streams once, and a
  batch of invocations gives the calculator each input set once and in order.
\<close>

subsection \<open>Contexts\<close>

lemma update_context_Some:
  "get_context (context_manager n) r = Some cc \<Longrightarrow>
   update_context r f n = Some (n\<lparr>context_manager := put_context (context_manager n) r (f cc)\<rparr>)"
  by (simp add: update_context_def)

lemma put_put_context [simp]: "put_context (put_context cm r a) r b = put_context cm r b"
  by (cases r) (auto simp: case_prod_beta)

lemma GetDefault_Some: "default_context cm = Some cc \<Longrightarrow> GetDefaultCalculatorContext cm = Some DefaultContext"
  by (simp add: GetDefaultCalculatorContext_def)

subsection \<open>Closing\<close>

lemma osm_Close_result:
  assumes "osm_Close m = (m', msgs)"
  shows "osm_closed m'"
    and "\<not> osm_closed m \<Longrightarrow> mi \<in> set (mirrors m) \<Longrightarrow> MsgSetNextTimestampBound mi Timestamp_Done \<in> set msgs"
  using assms by (auto simp: osm_Close_def split: if_splits)

lemma Propagate_frame:
  assumes "PropagateUpdatesToMirrors m b sh = (m', sh', msgs)"
  shows "mirrors m' = mirrors m" "osm_closed m' = osm_closed m"
  using assms by (auto simp: PropagateUpdatesToMirrors_def Let_def split: if_splits)

text \<open>Every stream ends up closed, and tells each of its mirrors.\<close>

lemma close_loop_closes:
  assumes "close_loop ms shards = (ms', msgs)"
  shows "(\<forall>m \<in> set ms'. osm_closed m) \<and>
    (\<forall>m \<in> set ms. \<not> osm_closed m \<longrightarrow>
      (\<forall>mi \<in> set (mirrors m). MsgSetNextTimestampBound mi Timestamp_Done \<in> set msgs))"
  using assms
proof (induction ms arbitrary: shards ms' msgs)
  case (Cons m ms)
  obtain m1 msgs1 where 1: "(case shards of
      Some (sh # _) \<Rightarrow> (case PropagateUpdatesToMirrors m Timestamp_Done sh of (m1, _, msgs) \<Rightarrow> (m1, msgs))
    | _ \<Rightarrow> (m, [])) = (m1, msgs1)" by fastforce
  obtain m2 msgs2 where 2: "osm_Close m1 = (m2, msgs2)" by fastforce
  obtain ms3 msgs3 where 3: "close_loop ms (map_option tl shards) = (ms3, msgs3)" by fastforce
  have eq: "ms' = m2 # ms3" "msgs = msgs1 @ msgs2 @ msgs3"
    using Cons.prems 1 2 3 by simp_all
  have "mirrors m1 = mirrors m \<and> osm_closed m1 = osm_closed m"
    using 1 by (auto split: option.splits list.splits prod.splits dest: Propagate_frame)
  then show ?case using Cons.IH [OF 3] osm_Close_result [OF 2] eq by auto
qed simp

lemma ism_Close_closed: "closed (ism_Close s)"
  by (simp add: ism_Close_def)

lemma call_calculator_frame:
  assumes "call_calculator f n r = Some (n', st)"
  shows "node_control n' = node_control n" "input_handler n' = input_handler n"
    "output_handler n' = output_handler n"
  using assms
  by (auto simp: call_calculator_def bind_eq_Some_conv split: if_splits prod.splits)

lemma call_calculator_Some:
  assumes "default_context (context_manager n) = Some cc" "\<forall>c cc. snd (snd (f c cc)) \<noteq> StatusStop"
  shows "\<exists>n' st cc'. call_calculator f n DefaultContext = Some (n', st) \<and> st \<noteq> StatusStop \<and>
    default_context (context_manager n') = Some cc'"
proof (cases "OutputsAreConstant n cc")
  case False
  obtain c cc' st where f: "f (calculator_state n) cc = (c, cc', st)" by (cases "f (calculator_state n) cc") auto
  then have "st \<noteq> StatusStop" using assms(2) by (metis snd_conv)
  then show ?thesis using False f assms(1) by (simp add: call_calculator_def)
qed (use assms(1) in \<open>simp add: call_calculator_def\<close>)


subsection \<open>Batches\<close>

lemma propagate_stream_Some:
  assumes "IsAllowedInStream t"
  shows "\<exists>r. propagate_stream t m sh = Some r"
proof -
  obtain b where "ComputeOutputTimestampBound m sh t = Some (b, [])"
    using ComputeOutputTimestampBound_Some [of t m sh] assms by blast
  then show ?thesis by (auto simp: propagate_stream_def Let_def split: prod.splits)
qed

lemma propagate_loop_Some:
  assumes "IsAllowedInStream t"
  shows "\<exists>r. propagate_loop t ms shs = Some r"
proof (induction ms arbitrary: shs)
  case (Cons m ms)
  show ?case
  proof (cases shs)
    case (Cons sh shs')
    obtain m' sh' msgs where 1: "propagate_stream t m sh = Some (m', sh', msgs)"
      using propagate_stream_Some [OF assms] by (metis prod_cases3)
    obtain ms' shs'' msgs' where 2: "propagate_loop t ms shs' = Some (ms', shs'', msgs')"
      using Cons.IH by (metis prod_cases3)
    show ?thesis by (simp add: Cons 1 2)
  qed simp
qed simp

lemma PostProcess_sequential_Some:
  assumes "IsAllowedInStream t" "default_context cm = Some cc"
  obtains h' os msgs where
    "PostProcess_sequential h cm t = Some (h', cm\<lparr>default_context := Some (cc\<lparr>outputs := os\<rparr>)\<rparr>, msgs)"
proof -
  obtain ms os msgs where "propagate_loop t (output_stream_managers h) (outputs cc) = Some (ms, os, msgs)"
    using propagate_loop_Some [OF assms(1)] by (metis prod_cases3)
  then show ?thesis using that assms(2)
    by (simp add: PostProcess_sequential_def PropagateOutputPackets_def GetDefault_Some)
qed

text \<open>
  A calculator that reads its inputs, does not touch the input side of the context, and
  never fails: what it makes of its state is \<open>upd\<close>.
\<close>

definition reads_inputs :: "('c \<Rightarrow> timestamp \<Rightarrow> 'a packet list \<Rightarrow> 'c) \<Rightarrow> ('a, 'c) calculator \<Rightarrow> bool" where
  "reads_inputs upd calc \<longleftrightarrow> (\<forall>c cc. \<exists>os. calc_Process calc c cc =
     (upd c (InputTimestamp cc) (map shard_Value (inputs cc)), cc\<lparr>outputs := os\<rparr>, OkStatus))"

lemma process_round_batch:
  assumes "reads_inputs upd calc" "default_context (context_manager n) = Some cc"
    and "input_timestamps cc = t # ts" "IsAllowedInStream t" "inputs cc \<noteq> []"
    and "\<not> late_preparation (input_handler n)"
  obtains n' msgs cc' where
    "process_round calc fill PostProcess_sequential DefaultContext n = Some (n', msgs, [], OkStatus, True)"
    "calculator_state n' = upd (calculator_state n) t (map shard_Value (inputs cc))"
    "default_context (context_manager n') = Some cc'" "input_timestamps cc' = ts"
    "inputs cc' = map ClearCurrentPacket (inputs cc)" "input_handler n' = input_handler n"
proof -
  let ?cc1 = "cc\<lparr>outputs := PrepareOutputs (output_handler n) (outputs cc)\<rparr>"
  obtain os where p: "calc_Process calc (calculator_state n) ?cc1 =
      (upd (calculator_state n) t (map shard_Value (inputs cc)), ?cc1\<lparr>outputs := os\<rparr>, OkStatus)"
    using assms(1,3) by (auto simp: reads_inputs_def InputTimestamp_def dest!: spec [of _ "calculator_state n"]
        spec [of _ ?cc1])
  let ?cc2 = "cc\<lparr>outputs := os, input_timestamps := ts, inputs := map ClearCurrentPacket (inputs cc)\<rparr>"
  let ?cm = "(context_manager n)\<lparr>default_context := Some ?cc2\<rparr>"
  have "default_context ?cm = Some ?cc2" by simp
  from PostProcess_sequential_Some [OF assms(4) this, of "output_handler n"] obtain h' os' msgs
    where post: "PostProcess_sequential (output_handler n) ?cm t =
      Some (h', ?cm\<lparr>default_context := Some (?cc2\<lparr>outputs := os'\<rparr>)\<rparr>, msgs)" by blast
  show ?thesis
    using p post assms
    by (intro that [of "n\<lparr>calculator_state := upd (calculator_state n) t (map shard_Value (inputs cc)),
          context_manager := ?cm\<lparr>default_context := Some (?cc2\<lparr>outputs := os'\<rparr>)\<rparr>, output_handler := h'\<rparr>" msgs "?cc2\<lparr>outputs := os'\<rparr>"])
      (simp_all add: process_round_def FinalizeInputSet_def call_calculator_def OutputsAreConstant_def
        ClearCurrentInputs_def PopInputTimestamp_def InputTimestamp_def)
qed

lemma process_rounds_batch:
  assumes "reads_inputs upd calc"
  shows "default_context (context_manager n) = Some cc \<Longrightarrow> input_timestamps cc = ts \<Longrightarrow>
    \<forall>t \<in> set ts. IsAllowedInStream t \<Longrightarrow> inputs cc \<noteq> [] \<Longrightarrow> \<not> late_preparation (input_handler n) \<Longrightarrow>
    \<forall>sh \<in> set (inputs cc). length (packet_queue sh) = length ts \<Longrightarrow>
    \<exists>n' msgs cc'. process_rounds calc fill PostProcess_sequential DefaultContext (length ts) st n =
        Some (n', msgs, [], if ts = [] then st else OkStatus) \<and>
      calculator_state n' = fold (\<lambda>i c. upd c (ts ! i) (map (\<lambda>sh. packet_queue sh ! i) (inputs cc)))
        [0..<length ts] (calculator_state n) \<and>
      default_context (context_manager n') = Some cc' \<and> input_timestamps cc' = [] \<and>
      (\<forall>sh \<in> set (inputs cc'). packet_queue sh = [])"
proof (induction ts arbitrary: n cc st)
  case (Cons t ts)
  have "IsAllowedInStream t" using Cons.prems(3) by simp
  from process_round_batch [OF assms Cons.prems(1,2) this Cons.prems(4,5)]
  obtain n1 msgs1 cc1 where
    1: "process_round calc fill PostProcess_sequential DefaultContext n = Some (n1, msgs1, [], OkStatus, True)"
    "calculator_state n1 = upd (calculator_state n) t (map shard_Value (inputs cc))"
    "default_context (context_manager n1) = Some cc1" "input_timestamps cc1 = ts"
    "inputs cc1 = map ClearCurrentPacket (inputs cc)" "input_handler n1 = input_handler n" .
  have "\<exists>n' msgs cc'. process_rounds calc fill PostProcess_sequential DefaultContext (length ts) OkStatus n1 =
        Some (n', msgs, [], if ts = [] then OkStatus else OkStatus) \<and>
      calculator_state n' = fold (\<lambda>i c. upd c (ts ! i) (map (\<lambda>sh. packet_queue sh ! i) (inputs cc1)))
        [0..<length ts] (calculator_state n1) \<and>
      default_context (context_manager n') = Some cc' \<and> input_timestamps cc' = [] \<and>
      (\<forall>sh \<in> set (inputs cc'). packet_queue sh = [])"
    using Cons.prems 1(5,6) by (intro Cons.IH [OF 1(3,4)]) (auto simp: ClearCurrentPacket_def)
  then obtain n2 msgs2 cc2 where
    2: "process_rounds calc fill PostProcess_sequential DefaultContext (length ts) OkStatus n1 = Some (n2, msgs2, [], OkStatus)"
    "calculator_state n2 = fold (\<lambda>i c. upd c (ts ! i) (map (\<lambda>sh. packet_queue sh ! i) (inputs cc1)))
        [0..<length ts] (calculator_state n1)"
    "default_context (context_manager n2) = Some cc2" "input_timestamps cc2 = []"
    "\<forall>sh \<in> set (inputs cc2). packet_queue sh = []" by auto
  have ne: "sh \<in> set (inputs cc) \<Longrightarrow> packet_queue sh \<noteq> []" for sh using Cons.prems(6) by fastforce
  have head: "map shard_Value (inputs cc) = map (\<lambda>sh. packet_queue sh ! 0) (inputs cc)"
    using ne by (auto simp: shard_Value_def hd_conv_nth split: list.splits)
  have tail: "map (\<lambda>sh. packet_queue sh ! i) (inputs cc1) = map (\<lambda>sh. packet_queue sh ! Suc i) (inputs cc)"
    if "i < length ts" for i
    using Cons.prems(6) that by (auto simp: 1(5) ClearCurrentPacket_def nth_tl)
  have "fold (\<lambda>i c. upd c ((t # ts) ! i) (map (\<lambda>sh. packet_queue sh ! i) (inputs cc))) [0..<length (t # ts)] (calculator_state n) =
      fold (\<lambda>i c. upd c (ts ! i) (map (\<lambda>sh. packet_queue sh ! Suc i) (inputs cc))) [0..<length ts] (calculator_state n1)"
    unfolding 1(2) head by (simp add: upt_rec [of 0] map_Suc_upt [symmetric] fold_map comp_def del: upt_Suc)
  also have "\<dots> = calculator_state n2"
    unfolding 2(2) by (rule fold_cong) (auto simp: tail)
  finally show ?case using 1(1) 2 by auto
qed auto


subsection \<open>An example\<close>

text \<open>A calculator that logs the input sets it sees, with one input and one output stream.\<close>

definition demo_calculator :: "(nat, (timestamp \<times> nat packet list) list) calculator" where
  "demo_calculator = (let f = (\<lambda>c cc. (c @ [(InputTimestamp cc, map shard_Value (inputs cc))], cc, OkStatus))
     in \<lparr>calc_Open = f, calc_Process = f, calc_Close = f\<rparr>)"

definition demo_calculator_node :: "(nat, unit, (timestamp \<times> nat packet list) list) calculator_node" where
  "demo_calculator_node =
     \<lparr>node_control = (new_node_control 1)\<lparr>node_status := kStateOpened\<rparr>,
      input_handler = \<lparr>input_stream_managers = [demo_stream], ish_run_in_parallel = False,
        prepared_context_for_close = False, late_preparation = False, batch_size = 2,
        process_timestamps = False, unset_header_count = 0, policy = ()\<rparr>,
      output_handler = \<lparr>output_stream_managers = [demo_output 0], osh_run_in_parallel = False,
        completed_input_timestamps = [], task_timestamp_bound = Timestamp_Unset, propagation_state = kIdle\<rparr>,
      context_manager = \<lparr>cm_run_in_parallel = False, num_inputs = 1, num_outputs = 1,
        setup_shards_callback = (\<lambda>cc. (cc, OkStatus)),
        default_context = Some \<lparr>input_timestamps = [Timestamp_of 10, Timestamp_of 20],
          inputs = [new_input_shard\<lparr>packet_queue := [demo_packet 1 10, demo_packet 2 20]\<rparr>],
          outputs = [new_output_shard], graph_status = OkStatus\<rparr>,
        active_contexts = [], idle_contexts = []\<rparr>,
      calculator_state = [], needs_to_close = True, outputs_constant = False\<rparr>"



end
