(* ===== verification/Connection.thy ===== *)
theory Connection
  imports OutputStreamHandler InputStreamHandler
begin

section \<open>From an output stream to the input streams connected to it\<close>

text \<open>
  The two ends of an edge of the graph. An output stream manager calls its mirrors, input
  stream handlers with the id of one of their streams; the calls are the messages of
  \<open>OutputStream\<close>. Here the messages are delivered to a handler, and the ends are shown to
  agree: what the calculator upstream emits is what the queue downstream receives, and the
  bound at the input end never passes the one the manager has announced.
\<close>

subsection \<open>Delivery\<close>

text \<open>The calls on the handler number \<open>k\<close>, in their order; an error goes to its error callback.\<close>

fun deliver_msg ::
    "nat \<Rightarrow> 'a out_msg \<Rightarrow> ('a, 'h) input_stream_handler \<Rightarrow>
     (('a, 'h) input_stream_handler \<times> handler_event list) option" where
  "deliver_msg k (MsgAddPackets mi ps) h = Some (if fst mi = k then ish_AddPackets h (snd mi) ps else (h, []))"
| "deliver_msg k (MsgSetNextTimestampBound mi b) h =
     Some (if fst mi = k then ish_SetNextTimestampBound h (snd mi) b else (h, []))"
| "deliver_msg k (MsgSetHeader mi p) h = (if fst mi = k then ish_SetHeader h (snd mi) p else Some (h, []))"
| "deliver_msg k (MsgSetMaxQueueSize mi n) h =
     Some (if fst mi = k then ish_SetMaxQueueSize h (snd mi) n else (h, []))"
| "deliver_msg k (MsgError st) h = Some (h, [])"

fun deliver ::
    "nat \<Rightarrow> 'a out_msg list \<Rightarrow> ('a, 'h) input_stream_handler \<Rightarrow>
     (('a, 'h) input_stream_handler \<times> handler_event list) option" where
  "deliver k [] h = Some (h, [])"
| "deliver k (m # ms) h = do {
     (h, ev) \<leftarrow> deliver_msg k m h;
     (h, ev') \<leftarrow> deliver k ms h;
     Some (h, ev @ ev') }"

text \<open>What a calculator does to a shard in one invocation: it adds some packets.\<close>

fun emit ::
    "'a output_stream_spec \<Rightarrow> 'a packet list \<Rightarrow> 'a output_stream_shard \<Rightarrow>
     ('a output_stream_shard \<times> 'a out_msg list) option" where
  "emit spec [] sh = Some (sh, [])"
| "emit spec (p # ps) sh = do {
     (sh, msgs) \<leftarrow> shard_AddPacket spec sh p;
     (sh, msgs') \<leftarrow> emit spec ps sh;
     Some (sh, msgs @ msgs') }"

text \<open>
  One invocation as the output stream sees it: the shard is reset, the calculator adds its
  packets, and the handler propagates them at the input timestamp \<open>t\<close>.
\<close>

definition invocation ::
    "timestamp \<Rightarrow> 'a packet list \<Rightarrow> 'a output_stream_manager \<Rightarrow> 'a output_stream_shard \<Rightarrow>
     ('a output_stream_manager \<times> 'a output_stream_shard \<times> 'a out_msg list) option" where
  "invocation t ps m sh = do {
     (sh, msgs) \<leftarrow> emit (output_stream_spec m) ps (ResetShard m sh);
     (m, sh, msgs') \<leftarrow> propagate_stream t m sh;
     Some (m, sh, msgs @ msgs') }"

fun invocations ::
    "(timestamp \<times> 'a packet list) list \<Rightarrow> 'a output_stream_manager \<Rightarrow> 'a output_stream_shard \<Rightarrow>
     ('a output_stream_manager \<times> 'a output_stream_shard \<times> 'a out_msg list) option" where
  "invocations [] m sh = Some (m, sh, [])"
| "invocations ((t, ps) # invs) m sh = do {
     (m, sh, msgs) \<leftarrow> invocation t ps m sh;
     (m, sh, msgs') \<leftarrow> invocations invs m sh;
     Some (m, sh, msgs @ msgs') }"

subsection \<open>Emitting\<close>

definition emittable :: "'a output_stream_spec \<Rightarrow> 'a packet \<Rightarrow> bool" where
  "emittable spec p \<longleftrightarrow> \<not> packet_IsEmpty p \<and> IsAllowedInStream (packet_timestamp p) \<and>
     packet_timestamp p \<noteq> Timestamp_PostStream \<and> spec_packet_type spec p = OkStatus"

lemma emit_shard:
  assumes "\<not> shard_closed sh" "\<forall>p \<in> set ps. emittable spec p"
  shows "emit spec ps sh = Some (sh\<lparr>output_queue := output_queue sh @ ps,
      shard_next_timestamp_bound := (if ps = [] then shard_next_timestamp_bound sh
        else NextAllowedInStream (packet_timestamp (last ps))),
      updated_next_timestamp_bound := (if ps = [] then updated_next_timestamp_bound sh
        else NextAllowedInStream (packet_timestamp (last ps)))\<rparr>, [])"
  using assms
proof (induction ps arbitrary: sh)
  case (Cons p ps)
  let ?b = "NextAllowedInStream (packet_timestamp p)"
  let ?sh = "sh\<lparr>output_queue := output_queue sh @ [p], shard_next_timestamp_bound := ?b,
    updated_next_timestamp_bound := ?b\<rparr>"
  have "shard_AddPacket spec sh p = Some (?sh, [])"
    using Cons.prems by (simp add: shard_AddPacket_def AddPacketInternal_def emittable_def Let_def)
  then show ?case using Cons.IH [of ?sh] Cons.prems by simp
qed simp

subsection \<open>Delivering to all mirrors\<close>

text \<open>What the messages of one propagation do to the stream of a mirror.\<close>

definition mirror_msgs :: "'a packet list \<Rightarrow> bool \<Rightarrow> timestamp \<Rightarrow> mirror \<Rightarrow> 'a out_msg list" where
  "mirror_msgs ps set_bound b mi = (if ps \<noteq> [] then [MsgAddPackets mi ps] else []) @
     (if set_bound then [MsgSetNextTimestampBound mi b] else [])"

definition receive :: "'a packet list \<Rightarrow> bool \<Rightarrow> timestamp \<Rightarrow> 'a input_stream \<Rightarrow> 'a input_stream" where
  "receive ps set_bound b s =
     (let s = (if ps \<noteq> [] then fst (AddOrMovePacketsInternal s ps) else s)
      in if set_bound then fst (SetNextTimestampBound s b) else s)"

lemma deliver_append:
  "deliver k (xs @ ys) h = do {
     (h, ev) \<leftarrow> deliver k xs h;
     (h, ev') \<leftarrow> deliver k ys h;
     Some (h, ev @ ev') }"
proof (induction xs arbitrary: h)
  case Nil
  show ?case by (cases "deliver k ys h") auto
next
  case (Cons m xs)
  show ?case
  proof (cases "deliver_msg k m h")
    case (Some r)
    obtain h1 e1 where "r = (h1, e1)" by (cases r)
    then show ?thesis using Some Cons.IH [of h1]
      by (cases "deliver k xs h1"; cases "deliver k ys (fst (the (deliver k xs h1)))") auto
  qed simp
qed

lemma ish_AddPackets_stream:
  "input_stream_managers (fst (ish_AddPackets h j ps)) = (input_stream_managers h)
     [j := fst (AddOrMovePacketsInternal (input_stream_managers h ! j) ps)]"
  by (simp add: ish_AddPackets_def Let_def split: prod.splits)

lemma ish_SetNextTimestampBound_stream:
  "input_stream_managers (fst (ish_SetNextTimestampBound h j b)) = (input_stream_managers h)
     [j := fst (SetNextTimestampBound (input_stream_managers h ! j) b)]"
  by (simp add: ish_SetNextTimestampBound_def Let_def split: prod.splits)

lemma deliver_mirror:
  assumes "i < length (input_stream_managers h)"
  shows "\<exists>h' ev. deliver k (mirror_msgs ps sb b mi) h = Some (h', ev) \<and>
    length (input_stream_managers h') = length (input_stream_managers h) \<and>
    input_stream_managers h' ! i =
      (if mi = (k, i) then receive ps sb b (input_stream_managers h ! i) else input_stream_managers h ! i)"
proof -
  obtain j l where mi: "mi = (j, l)" by (cases mi)
  obtain h1 ev1 where 1: "ish_AddPackets h l ps = (h1, ev1)" by (cases "ish_AddPackets h l ps")
  obtain h2 ev2 where 2: "ish_SetNextTimestampBound h l b = (h2, ev2)"
    by (cases "ish_SetNextTimestampBound h l b")
  obtain h3 ev3 where 3: "ish_SetNextTimestampBound h1 l b = (h3, ev3)"
    by (cases "ish_SetNextTimestampBound h1 l b")
  note streams = ish_AddPackets_stream [of h l ps] ish_SetNextTimestampBound_stream [of h l b]
    ish_SetNextTimestampBound_stream [of h1 l b]
  show ?thesis
    using assms streams 1 2 3
    by (cases "j = k"; cases "l = i"; cases "ps = []"; cases sb)
      (simp_all add: mi mirror_msgs_def receive_def)
qed

lemma deliver_mirrors:
  assumes "i < length (input_stream_managers h)" "distinct ms"
  shows "\<exists>h' ev. deliver k (concat (map (mirror_msgs ps sb b) ms)) h = Some (h', ev) \<and>
    length (input_stream_managers h') = length (input_stream_managers h) \<and>
    input_stream_managers h' ! i =
      (if (k, i) \<in> set ms then receive ps sb b (input_stream_managers h ! i) else input_stream_managers h ! i)"
  using assms
proof (induction ms arbitrary: h)
  case (Cons mi ms)
  obtain h1 ev1 where 1: "deliver k (mirror_msgs ps sb b mi) h = Some (h1, ev1)"
    "length (input_stream_managers h1) = length (input_stream_managers h)"
    "input_stream_managers h1 ! i =
      (if mi = (k, i) then receive ps sb b (input_stream_managers h ! i) else input_stream_managers h ! i)"
    using deliver_mirror [OF Cons.prems(1)] by blast
  from Cons.IH [of h1] obtain h2 ev2 where 2: "deliver k (concat (map (mirror_msgs ps sb b) ms)) h1 = Some (h2, ev2)"
    "length (input_stream_managers h2) = length (input_stream_managers h1)"
    "input_stream_managers h2 ! i =
      (if (k, i) \<in> set ms then receive ps sb b (input_stream_managers h1 ! i) else input_stream_managers h1 ! i)"
    using Cons.prems 1(2) by auto
  show ?case using 1 2 Cons.prems by (auto simp: deliver_append)
qed simp

subsection \<open>The contract of an edge\<close>

text \<open>
  The abstract view of an edge: the next timestamp bound and the packets sent so far. One
  invocation at \<open>t\<close> appends its packets, each at or past the bound the one before it left, and
  raises the bound to what the packets and the offset of the stream imply.
\<close>

fun admissible :: "'a output_stream_spec \<Rightarrow> timestamp \<Rightarrow> 'a packet list \<Rightarrow> bool" where
  "admissible spec b [] \<longleftrightarrow> True"
| "admissible spec b (p # ps) \<longleftrightarrow> emittable spec p \<and> b \<le> packet_timestamp p \<and>
     admissible spec (NextAllowedInStream (packet_timestamp p)) ps"

definition packets_bound :: "timestamp \<Rightarrow> 'a packet list \<Rightarrow> timestamp" where
  "packets_bound b ps = (if ps = [] then b else NextAllowedInStream (packet_timestamp (last ps)))"

definition edge_bound :: "'a output_stream_spec \<Rightarrow> timestamp \<Rightarrow> timestamp \<Rightarrow> 'a packet list \<Rightarrow> timestamp" where
  "edge_bound spec b t ps =
     (case offset_input_bound spec t of
        None \<Rightarrow> packets_bound b ps
      | Some ib \<Rightarrow> max (packets_bound b ps) ib)"

fun admissible_run :: "'a output_stream_spec \<Rightarrow> timestamp \<Rightarrow> (timestamp \<times> 'a packet list) list \<Rightarrow> bool" where
  "admissible_run spec b [] \<longleftrightarrow> True"
| "admissible_run spec b ((t, ps) # invs) \<longleftrightarrow> (t = Timestamp_Unstarted \<or> IsAllowedInStream t) \<and>
     admissible spec b ps \<and> admissible_run spec (edge_bound spec b t ps) invs"

fun run_bound :: "'a output_stream_spec \<Rightarrow> timestamp \<Rightarrow> (timestamp \<times> 'a packet list) list \<Rightarrow> timestamp" where
  "run_bound spec b [] = b"
| "run_bound spec b ((t, ps) # invs) = run_bound spec (edge_bound spec b t ps) invs"

text \<open>The two ends agree.\<close>

definition edge_ok ::
    "'a output_stream_manager \<Rightarrow> nat \<Rightarrow> nat \<Rightarrow> ('a, 'h) input_stream_handler \<Rightarrow> bool" where
  "edge_ok m k i h \<longleftrightarrow> distinct (mirrors m) \<and> (k, i) \<in> set (mirrors m) \<and> \<not> osm_closed m \<and>
     i < length (input_stream_managers h) \<and>
     (let s = input_stream_managers h ! i
      in timed_inv s \<and> \<not> closed s \<and> next_timestamp_bound s = osm_next_timestamp_bound m \<and>
         (\<forall>p. emittable (output_stream_spec m) p \<longrightarrow> packet_type s p = OkStatus))"

lemma admissible_emittable: "admissible spec b ps \<Longrightarrow> \<forall>p \<in> set ps. emittable spec p"
  by (induction ps arbitrary: b) auto

lemma packets_bound_ge:
  "admissible spec b ps \<Longrightarrow> b \<le> packets_bound b ps"
proof (induction ps arbitrary: b)
  case (Cons p ps)
  let ?n = "NextAllowedInStream (packet_timestamp p)"
  have "b \<le> packet_timestamp p" "packet_timestamp p < ?n"
    using Cons.prems by (auto simp: emittable_def intro: Next_greater_allowed)
  moreover have "?n \<le> packets_bound ?n ps" using Cons by simp
  ultimately have "b \<le> packets_bound ?n ps" by order
  then show ?case by (simp add: packets_bound_def split: if_splits)
qed (simp add: packets_bound_def)

text \<open>The loop of the input stream takes all the packets.\<close>

lemma add_packets_loop_admissible:
  assumes "admissible spec (next_timestamp_bound s) ps" "timed_inv s" "\<not> closed s"
    and "\<forall>p. emittable spec p \<longrightarrow> packet_type s p = OkStatus"
  shows "\<exists>s'. add_packets_loop s ps = (s', OkStatus) \<and> timed_inv s' \<and> \<not> closed s' \<and>
    packet_type s' = packet_type s \<and> queue s' = queue s @ ps \<and>
    next_timestamp_bound s' = packets_bound (next_timestamp_bound s) ps"
  using assms
proof (induction ps arbitrary: s)
  case (Cons p ps)
  have "accepts s p" using Cons.prems by (auto simp: accepts_def emittable_def)
  moreover have "timed_inv (enqueue s p)"
    by (rule timed_inv_enqueue [OF Cons.prems(2,3) \<open>accepts s p\<close>])
  ultimately show ?case
    using Cons.IH [of "enqueue s p"] Cons.prems timed_invD(1) [OF Cons.prems(2)]
    by (auto simp: add_packets_loop_Cons packets_bound_def split: if_splits)
qed (simp add: packets_bound_def)

lemma receive_admissible:
  assumes "admissible spec (next_timestamp_bound s) ps" "timed_inv s" "\<not> closed s"
    and "\<forall>p. emittable spec p \<longrightarrow> packet_type s p = OkStatus"
    and "packets_bound (next_timestamp_bound s) ps \<le> b"
    and "sb \<or> b = packets_bound (next_timestamp_bound s) ps"
  shows "timed_inv (receive ps sb b s) \<and> \<not> closed (receive ps sb b s) \<and>
    packet_type (receive ps sb b s) = packet_type s \<and> queue (receive ps sb b s) = queue s @ ps \<and>
    next_timestamp_bound (receive ps sb b s) = b"
proof -
  obtain s1 where s1: "add_packets_loop s ps = (s1, OkStatus)" "timed_inv s1" "\<not> closed s1"
    "packet_type s1 = packet_type s" "queue s1 = queue s @ ps"
    "next_timestamp_bound s1 = packets_bound (next_timestamp_bound s) ps"
    using add_packets_loop_admissible [OF assms(1-4)] by blast
  have 1: "(if ps \<noteq> [] then fst (AddOrMovePacketsInternal s ps) else s) = s1"
    using s1(1) assms(3) by (auto simp: AddOrMovePacketsInternal_def Let_def)
  show ?thesis
  proof (cases sb)
    case True
    obtain s2 r n where 2: "SetNextTimestampBound s1 b = (s2, r, n)" by (metis prod_cases3)
    have "timed_inv s2 \<and> closed s2 = closed s1"
      using timed_inv_SetNextTimestampBound [OF s1(2) 2] by simp
    moreover have "packet_type s2 = packet_type s1 \<and> queue s2 = queue s1 \<and> next_timestamp_bound s2 = b"
      using 2 s1(3,6) assms(5) by (auto simp: SetNextTimestampBound_def split: if_splits)
    ultimately show ?thesis using s1 1 2 True by (simp add: receive_def)
  next
    case False
    then show ?thesis using s1 1 assms(6) by (simp add: receive_def)
  qed
qed

text \<open>What one invocation sends.\<close>

lemma max_Unset: "max Timestamp_Unset x = x" "max x Timestamp_Unset = x"
  by (auto simp: max_def intro: antisym)

lemma invocation_sends:
  assumes t: "t = Timestamp_Unstarted \<or> IsAllowedInStream t" and "\<not> osm_closed m"
    and ps: "\<forall>p \<in> set ps. emittable (output_stream_spec m) p"
    and pre: "Timestamp_PreStream \<le> osm_next_timestamp_bound m"
  shows "\<exists>sh' sb. invocation t ps m sh =
      Some (m\<lparr>osm_next_timestamp_bound := edge_bound (output_stream_spec m) (osm_next_timestamp_bound m) t ps\<rparr>, sh',
        concat (map (mirror_msgs ps sb (edge_bound (output_stream_spec m) (osm_next_timestamp_bound m) t ps))
          (mirrors m))) \<and>
    (sb \<or> edge_bound (output_stream_spec m) (osm_next_timestamp_bound m) t ps =
       packets_bound (osm_next_timestamp_bound m) ps)"
proof -
  let ?spec = "output_stream_spec m" and ?b = "osm_next_timestamp_bound m"
  let ?n = "packets_bound ?b ps"
  let ?sh = "(ResetShard m sh)\<lparr>output_queue := ps, shard_next_timestamp_bound := ?n,
      updated_next_timestamp_bound := (if ps = [] then Timestamp_Unset else ?n)\<rparr>"
  have emit: "emit ?spec ps (ResetShard m sh) = Some (?sh, [])"
    using emit_shard [of "ResetShard m sh" ps ?spec] assms(2) ps
    by (simp add: ResetShard_def shard_Reset_def packets_bound_def)
  define sh1 where "sh1 = ?sh"
  have sh1: "output_queue sh1 = ps" "\<not> shard_closed sh1" "emit ?spec ps (ResetShard m sh) = Some (sh1, [])"
    using assms(2) emit by (simp_all add: sh1_def ResetShard_def shard_Reset_def)
  obtain b ib where ib: "offset_input_bound ?spec t = Some ib"
    and b: "ComputeOutputTimestampBound m sh1 t = Some (b, [])"
      "b = max (if ?n < ib then ib else Timestamp_Unset) (if ps = [] then Timestamp_Unset else ?n)"
    using ComputeOutputTimestampBound_Some [OF t, of m sh1]
    by (auto simp: sh1_def max_Unset packets_bound_def)
  let ?e = "edge_bound ?spec ?b t ps"
  have e: "?e = max ?n ib" by (simp add: edge_bound_def ib)
  have n: "Timestamp_Unset < ?n"
  proof (cases "ps = []")
    case True
    have "Timestamp_Unset < Timestamp_PreStream" by (simp add: ts_iff)
    then show ?thesis using pre True by (simp add: packets_bound_def)
  next
    case False
    then have "IsAllowedInStream (packet_timestamp (last ps))" using ps by (simp add: emittable_def)
    from Next_greater_allowed [OF this] show ?thesis
      using False by (simp add: packets_bound_def order_le_less_trans [OF Unset_least])
  qed
  show ?thesis
  proof (cases "ps = [] \<and> ib \<le> ?n")
    case True
    then have "b = Timestamp_Unset" "?e = ?b" using b(2) e
      by (auto simp: packets_bound_def max_def)
    then have "invocation t ps m sh = Some (m, sh1\<lparr>output_queue := []\<rparr>, concat (map (mirror_msgs ps False ?e) (mirrors m)))"
      using True assms(2) sh1 b
      by (simp add: invocation_def propagate_stream_def PropagateUpdatesToMirrors_def mirror_msgs_def [abs_def] Let_def)
    moreover have "m\<lparr>osm_next_timestamp_bound := ?e\<rparr> = m" using \<open>?e = ?b\<close> by simp
    ultimately show ?thesis using True \<open>?e = ?b\<close>
      by (intro exI [of _ "sh1\<lparr>output_queue := []\<rparr>"] exI [of _ False]) (simp add: packets_bound_def)
  next
    case False
    then have be: "b = ?e" using b(2) e n by (auto simp: max_def)
    then have "b \<noteq> Timestamp_Unset" using n e by (metis less_max_iff_disj less_irrefl)
    then have "invocation t ps m sh = Some (m\<lparr>osm_next_timestamp_bound := ?e\<rparr>, sh1\<lparr>output_queue := []\<rparr>,
        concat (map (mirror_msgs ps (ps = [] \<or> ?n \<noteq> b) ?e) (mirrors m)))"
      using assms(2) sh1 b(1) be
      by (simp add: invocation_def propagate_stream_def PropagateUpdatesToMirrors_def mirror_msgs_def [abs_def]
          packets_bound_def Let_def)
    moreover have "(ps = [] \<or> ?n \<noteq> b) \<or> ?e = ?n" using be by auto
    ultimately show ?thesis by blast
  qed
qed

lemma edge_step:
  assumes ok: "edge_ok m k i h"
    and t: "t = Timestamp_Unstarted \<or> IsAllowedInStream t"
    and ps: "admissible (output_stream_spec m) (osm_next_timestamp_bound m) ps"
  shows "\<exists>m' sh' msgs h' ev. invocation t ps m sh = Some (m', sh', msgs) \<and> deliver k msgs h = Some (h', ev) \<and>
    edge_ok m' k i h' \<and> output_stream_spec m' = output_stream_spec m \<and>
    osm_next_timestamp_bound m' = edge_bound (output_stream_spec m) (osm_next_timestamp_bound m) t ps \<and>
    queue (input_stream_managers h' ! i) = queue (input_stream_managers h ! i) @ ps"
proof -
  let ?s = "input_stream_managers h ! i" and ?spec = "output_stream_spec m"
  let ?e = "edge_bound ?spec (osm_next_timestamp_bound m) t ps"
  have s: "timed_inv ?s" "\<not> closed ?s" "next_timestamp_bound ?s = osm_next_timestamp_bound m"
    "\<forall>p. emittable ?spec p \<longrightarrow> packet_type ?s p = OkStatus"
    and m: "distinct (mirrors m)" "(k, i) \<in> set (mirrors m)" "\<not> osm_closed m" "i < length (input_stream_managers h)"
    using ok by (auto simp: edge_ok_def Let_def)
  have "Timestamp_PreStream \<le> osm_next_timestamp_bound m" using s(1,3) by (simp add: timed_inv_def)
  from invocation_sends [OF t m(3) admissible_emittable [OF ps] this, of sh] obtain sh' sb where
    inv: "invocation t ps m sh = Some (m\<lparr>osm_next_timestamp_bound := ?e\<rparr>, sh',
      concat (map (mirror_msgs ps sb ?e) (mirrors m)))"
    and sb: "sb \<or> ?e = packets_bound (osm_next_timestamp_bound m) ps" by blast
  from deliver_mirrors [OF m(4,1), of k ps sb ?e] obtain h' ev where
    h': "deliver k (concat (map (mirror_msgs ps sb ?e) (mirrors m))) h = Some (h', ev)"
    "length (input_stream_managers h') = length (input_stream_managers h)"
    "input_stream_managers h' ! i = receive ps sb ?e ?s"
    using m(2) by auto
  have ge: "packets_bound (next_timestamp_bound ?s) ps \<le> ?e"
    using s(3) by (simp add: edge_bound_def split: option.split)
  have "timed_inv (receive ps sb ?e ?s) \<and> \<not> closed (receive ps sb ?e ?s) \<and>
    packet_type (receive ps sb ?e ?s) = packet_type ?s \<and> queue (receive ps sb ?e ?s) = queue ?s @ ps \<and>
    next_timestamp_bound (receive ps sb ?e ?s) = ?e"
    by (rule receive_admissible [OF _ s(1,2,4) ge]) (use ps sb s(3) in simp_all)
  then show ?thesis using inv h' m s(4) by (auto simp: edge_ok_def Let_def)
qed

lemma edge_run:
  assumes "edge_ok m k i h" "admissible_run (output_stream_spec m) (osm_next_timestamp_bound m) invs"
  shows "\<exists>m' sh' msgs h' ev. invocations invs m sh = Some (m', sh', msgs) \<and> deliver k msgs h = Some (h', ev) \<and>
    edge_ok m' k i h' \<and>
    osm_next_timestamp_bound m' = run_bound (output_stream_spec m) (osm_next_timestamp_bound m) invs \<and>
    queue (input_stream_managers h' ! i) = queue (input_stream_managers h ! i) @ concat (map snd invs)"
  using assms
proof (induction invs arbitrary: m sh h)
  case (Cons inv invs)
  obtain t ps where [simp]: "inv = (t, ps)" by (cases inv)
  obtain m1 sh1 msgs1 h1 ev1 where 1: "invocation t ps m sh = Some (m1, sh1, msgs1)"
    "deliver k msgs1 h = Some (h1, ev1)" "edge_ok m1 k i h1" "output_stream_spec m1 = output_stream_spec m"
    "osm_next_timestamp_bound m1 = edge_bound (output_stream_spec m) (osm_next_timestamp_bound m) t ps"
    "queue (input_stream_managers h1 ! i) = queue (input_stream_managers h ! i) @ ps"
    using edge_step [OF Cons.prems(1), of t ps sh] Cons.prems(2) by auto
  have "admissible_run (output_stream_spec m1) (osm_next_timestamp_bound m1) invs"
    using Cons.prems(2) 1(4,5) by simp
  from Cons.IH [OF 1(3) this, of sh1] obtain m2 sh2 msgs2 h2 ev2 where
    "invocations invs m1 sh1 = Some (m2, sh2, msgs2)" "deliver k msgs2 h1 = Some (h2, ev2)" "edge_ok m2 k i h2"
    "osm_next_timestamp_bound m2 = run_bound (output_stream_spec m1) (osm_next_timestamp_bound m1) invs"
    "queue (input_stream_managers h2 ! i) = queue (input_stream_managers h1 ! i) @ concat (map snd invs)"
    by blast
  then show ?case using 1 by (simp add: deliver_append)
qed simp


definition demo_receiver :: "(nat, unit) input_stream_handler" where
  "demo_receiver = \<lparr>input_stream_managers = [demo_stream], ish_run_in_parallel = False,
     prepared_context_for_close = False, late_preparation = False, batch_size = 1,
     process_timestamps = False, unset_header_count = 0, policy = ()\<rparr>"


end
