(* ===== verification/TopologicalSorter.thy ===== *)
theory TopologicalSorter
  imports Prelude
begin

section \<open>The topological sorter\<close>

text \<open>
  \<open>deps/topologicalsorter.h/.cc\<close>: the traversal of the nodes of a graph in topological order,
  least node first, with duplicate edges removed, and the search for a cycle once no node is
  left without an incoming edge. The validation of a graph sorts its nodes with it.

  Nodes are natural numbers once \<open>AddEdge\<close> has checked them. The priority queue, whose top is
  its least element, is the sorted list of its elements.
\<close>

record topological_sorter =
  num_nodes :: int
  adjacency_lists :: "nat list list"
  traversal_started :: bool
  num_nodes_left :: int
  nodes_with_zero_indegree :: "nat list"
  indegree :: "int list"

definition new_topological_sorter :: "int \<Rightarrow> topological_sorter option" where
  "new_topological_sorter n = do {
     check (0 \<le> n);
     Some \<lparr>num_nodes = n, adjacency_lists = replicate (nat n) [], traversal_started = False,
       num_nodes_left = 0, nodes_with_zero_indegree = [], indegree = []\<rparr> }"

definition AddEdge :: "int \<Rightarrow> int \<Rightarrow> topological_sorter \<Rightarrow> topological_sorter option" where
  "AddEdge from_node to_node s = do {
     check (\<not> traversal_started s \<and> from_node < num_nodes s \<and> to_node < num_nodes s \<and>
       0 \<le> from_node \<and> 0 \<le> to_node);
     Some (s\<lparr>adjacency_lists := (adjacency_lists s)
       [nat from_node := adjacency_lists s ! nat from_node @ [nat to_node]]\<rparr>) }"

subsection \<open>FindCycle\<close>

text \<open>
  The depth-first search. An entry of the stack, whose top comes first, is a node and the index
  of the first child not yet looked at. The result: the two marks of the nodes, and the cycle if
  there is one. An index out of a vector and the back of an empty stack are \<open>None\<close>.
\<close>

fun collect_cycle :: "nat \<Rightarrow> nat list \<Rightarrow> nat list option" where
  "collect_cycle child [] = None"
| "collect_cycle child (v # vs) =
     (if v = child then Some [v] else map_option ((#) v) (collect_cycle child vs))"

function dfs_loop ::
    "nat list list \<Rightarrow> bool list \<Rightarrow> bool list \<Rightarrow> (nat \<times> nat) list \<Rightarrow>
     (bool list \<times> bool list \<times> nat list option) option" where
  "dfs_loop adj no_cycle in_stack [] = Some (no_cycle, in_stack, None)"
| "dfs_loop adj no_cycle in_stack ((v, i) # st) =
     (if \<not> (v < length adj \<and> v < length no_cycle \<and> v < length in_stack) then None
      else if length (adj ! v) \<le> i then dfs_loop adj (no_cycle[v := True]) (in_stack[v := False]) st
      else let child = adj ! v ! i in
        if \<not> (child < length no_cycle \<and> child < length in_stack) then None
        else if no_cycle ! child then dfs_loop adj no_cycle in_stack ((v, Suc i) # st)
        else if in_stack ! child
        then map_option (\<lambda>c. (no_cycle, in_stack, Some (rev c))) (collect_cycle child (v # map fst st))
        else dfs_loop adj no_cycle (in_stack[child := True]) ((child, 0) # (v, Suc i) # st))"
  by pat_completeness auto

text \<open>
  Each push marks a node that carried neither mark, which no step gives back; without a push the
  children left to look at decrease.
\<close>

definition unmarked :: "bool list \<Rightarrow> bool list \<Rightarrow> nat set" where
  "unmarked no_cycle in_stack = {v. v < length no_cycle \<and> v < length in_stack \<and> \<not> no_cycle ! v \<and> \<not> in_stack ! v}"

definition children_left :: "nat list list \<Rightarrow> (nat \<times> nat) list \<Rightarrow> nat" where
  "children_left adj st = (\<Sum>(v, i) \<leftarrow> st. Suc (length (adj ! v) - i))"

lemma finite_unmarked [simp]: "finite (unmarked no_cycle in_stack)"
  by (rule finite_subset [of _ "{..<length no_cycle}"]) (auto simp: unmarked_def)

lemma unmarked_pop:
  assumes "v < length no_cycle" "v < length in_stack"
  shows "unmarked (no_cycle[v := True]) (in_stack[v := False]) \<subseteq> unmarked no_cycle in_stack"
  using assms by (auto simp: unmarked_def nth_list_update split: if_splits)

lemma unmarked_push:
  "c < length no_cycle \<Longrightarrow> c < length in_stack \<Longrightarrow> \<not> no_cycle ! c \<Longrightarrow> \<not> in_stack ! c \<Longrightarrow>
   unmarked no_cycle (in_stack[c := True]) \<subset> unmarked no_cycle in_stack"
  by (auto simp: unmarked_def nth_list_update split: if_splits)

termination dfs_loop
proof (relation "measures [\<lambda>(adj, no_cycle, in_stack, st). card (unmarked no_cycle in_stack),
    \<lambda>(adj, no_cycle, in_stack, st). children_left adj st]", goal_cases)
  case (2 adj no_cycle in_stack v i st)
  have "card (unmarked (no_cycle[v := True]) (in_stack[v := False])) \<le> card (unmarked no_cycle in_stack)"
    using 2 by (intro card_mono [OF finite_unmarked] unmarked_pop) auto
  then show ?case by (auto simp: children_left_def le_less)
next
  case (4 adj no_cycle in_stack v i st child)
  then have "card (unmarked no_cycle (in_stack[child := True])) < card (unmarked no_cycle in_stack)"
    by (intro psubset_card_mono [OF finite_unmarked] unmarked_push) auto
  then show ?case by simp
qed (auto simp: children_left_def)

declare dfs_loop.simps(2) [simp del]

text \<open>The loop over the start nodes.\<close>

fun find_from ::
    "nat list list \<Rightarrow> bool list \<Rightarrow> bool list \<Rightarrow> nat list \<Rightarrow> nat list option" where
  "find_from adj no_cycle in_stack [] = Some []"
| "find_from adj no_cycle in_stack (v # vs) =
     (if no_cycle ! v then find_from adj no_cycle in_stack vs
      else do {
        (no_cycle, in_stack, c) \<leftarrow> dfs_loop adj no_cycle (in_stack[v := True]) [(v, 0)];
        case c of Some c \<Rightarrow> Some c | None \<Rightarrow> find_from adj no_cycle in_stack vs })"

definition FindCycle :: "topological_sorter \<Rightarrow> nat list option" where
  "FindCycle s =
     (let n = nat (num_nodes s)
      in find_from (adjacency_lists s) (replicate n False) (replicate n False) [0..<n])"

subsection \<open>GetNext\<close>

text \<open>The start of the traversal: duplicate edges removed, the degrees counted.\<close>

definition count_edges :: "nat list list \<Rightarrow> int list \<Rightarrow> int list" where
  "count_edges adj deg = fold (\<lambda>to deg. deg[to := deg ! to + 1]) (concat adj) deg"

definition start_traversal :: "topological_sorter \<Rightarrow> topological_sorter" where
  "start_traversal s =
     (let adj = map (\<lambda>l. remdups_adj (sort l)) (adjacency_lists s);
          deg = count_edges adj (replicate (nat (num_nodes s)) 0)
      in s\<lparr>adjacency_lists := adj, indegree := deg,
           nodes_with_zero_indegree := filter (\<lambda>i. deg ! i = 0) [0..<nat (num_nodes s)],
           num_nodes_left := num_nodes s, traversal_started := True\<rparr>)"

fun remove_edges :: "nat list \<Rightarrow> int list \<Rightarrow> nat list \<Rightarrow> int list \<times> nat list" where
  "remove_edges [] deg q = (deg, q)"
| "remove_edges (v # vs) deg q =
     (let deg = deg[v := deg ! v - 1]
      in remove_edges vs deg (if deg ! v = 0 then insort v q else q))"

text \<open>What a call reports: the next node, the end of the traversal, or a cycle.\<close>

datatype next_node = NextNode nat | TraversalDone | Cyclic "nat list"

definition GetNext :: "topological_sorter \<Rightarrow> (topological_sorter \<times> next_node) option" where
  "GetNext s =
     (let s = (if \<not> traversal_started s then start_traversal s else s)
      in if num_nodes_left s = 0 then Some (s, TraversalDone)
         else case nodes_with_zero_indegree s of
           [] \<Rightarrow> do { c \<leftarrow> FindCycle s; Some (s, Cyclic c) }
         | v # q \<Rightarrow>
             let s = s\<lparr>num_nodes_left := num_nodes_left s - 1, nodes_with_zero_indegree := q\<rparr>;
                 vs = adjacency_lists s ! v;
                 s = s\<lparr>adjacency_lists := (adjacency_lists s)[v := []]\<rparr>;
                 (deg, q) = remove_edges vs (indegree s) q
             in Some (s\<lparr>indegree := deg, nodes_with_zero_indegree := q\<rparr>, NextNode v))"

text \<open>The loop of a caller: the nodes visited, and how the traversal ended.\<close>

fun add_edges :: "(int \<times> int) list \<Rightarrow> topological_sorter \<Rightarrow> topological_sorter option" where
  "add_edges [] s = Some s"
| "add_edges ((u, v) # es) s = do { s \<leftarrow> AddEdge u v s; add_edges es s }"

fun traverse :: "nat \<Rightarrow> topological_sorter \<Rightarrow> (nat list \<times> next_node) option" where
  "traverse 0 s = None"
| "traverse (Suc k) s = do {
     (s, r) \<leftarrow> GetNext s;
     case r of
       NextNode v \<Rightarrow> do { (vs, e) \<leftarrow> traverse k s; Some (v # vs, e) }
     | _ \<Rightarrow> Some ([], r) }"

end
