(* ===== verification/TopologicalOrder.thy ===== *)
theory TopologicalOrder
  imports TopologicalSorter
begin

section \<open>Correctness of the topological sorter\<close>

text \<open>
  The search finds a cycle of the graph, unless the graph has none; the traversal visits the
  nodes in topological order, always the least one that is ready.
\<close>

subsection \<open>Cycles and orders\<close>

definition is_cycle :: "nat list list \<Rightarrow> nat list \<Rightarrow> bool" where
  "is_cycle adj c \<longleftrightarrow> c \<noteq> [] \<and> distinct c \<and> set c \<subseteq> {..<length adj} \<and> successively (\<lambda>u v. v \<in> set (adj ! u)) c \<and>
     hd c \<in> set (adj ! last c)"

text \<open>The finished nodes, the latest first: the edges of each lead to those after it.\<close>

fun closed_order :: "nat list list \<Rightarrow> nat list \<Rightarrow> bool" where
  "closed_order adj [] \<longleftrightarrow> True"
| "closed_order adj (v # vs) \<longleftrightarrow> v \<notin> set vs \<and> set (adj ! v) \<subseteq> set vs \<and> closed_order adj vs"

definition wf_adj :: "nat list list \<Rightarrow> bool" where
  "wf_adj adj \<longleftrightarrow> (\<forall>l \<in> set adj. \<forall>v \<in> set l. v < length adj)"

lemma wf_adjD: "wf_adj adj \<Longrightarrow> u < length adj \<Longrightarrow> v \<in> set (adj ! u) \<Longrightarrow> v < length adj"
  by (auto simp: wf_adj_def)

lemma collect_cycle_eq:
  "child \<in> set vs \<Longrightarrow> collect_cycle child vs = Some (takeWhile (\<lambda>v. v \<noteq> child) vs @ [child])"
  by (induction vs) auto

subsection \<open>The search\<close>

text \<open>The part of the stack below its top \<open>w\<close>: each entry is looking at the node above it.\<close>

fun below :: "nat list list \<Rightarrow> bool list \<Rightarrow> nat \<Rightarrow> (nat \<times> nat) list \<Rightarrow> bool" where
  "below adj fin w [] \<longleftrightarrow> True"
| "below adj fin w ((v, i) # st) \<longleftrightarrow>
     (\<exists>j. i = Suc j \<and> j < length (adj ! v) \<and> adj ! v ! j = w \<and> (\<forall>k < j. fin ! (adj ! v ! k))) \<and>
     below adj fin v st"

definition marks :: "nat list list \<Rightarrow> bool list \<Rightarrow> bool list \<Rightarrow> nat set \<Rightarrow> bool" where
  "marks adj fin cur on_stack \<longleftrightarrow> wf_adj adj \<and> length fin = length adj \<and> length cur = length adj \<and>
     (\<forall>v < length adj. cur ! v \<longleftrightarrow> v \<in> on_stack) \<and>
     (\<exists>L. closed_order adj L \<and> (\<forall>v. v \<in> set L \<longleftrightarrow> v < length adj \<and> fin ! v))"

definition dfs_inv :: "nat list list \<Rightarrow> bool list \<Rightarrow> bool list \<Rightarrow> (nat \<times> nat) list \<Rightarrow> bool" where
  "dfs_inv adj fin cur st \<longleftrightarrow> marks adj fin cur (fst ` set st) \<and> distinct (map fst st) \<and>
     (\<forall>v \<in> fst ` set st. v < length adj \<and> \<not> fin ! v) \<and>
     (case st of [] \<Rightarrow> True
      | (v, i) # st \<Rightarrow> (\<forall>k < i. k < length (adj ! v) \<longrightarrow> fin ! (adj ! v ! k)) \<and> below adj fin v st)"

lemma below_path:
  "below adj fin w st \<Longrightarrow> successively (\<lambda>u v. u \<in> set (adj ! v)) (w # map fst st)"
proof (induction st arbitrary: w)
  case (Cons e st)
  then show ?case by (cases e) (auto simp: nth_mem)
qed simp

lemma below_mono:
  "below adj fin w st \<Longrightarrow> \<forall>k. fin ! k \<longrightarrow> fin' ! k \<Longrightarrow> below adj fin' w st"
  by (induction adj fin w st rule: below.induct) auto

lemma cycle_found:
  assumes st: "below adj fin v st" "distinct (v # map fst st)"
    and child: "child \<in> set (adj ! v)" "child \<in> set (v # map fst st)"
    and bounds: "set (v # map fst st) \<subseteq> {..<length adj}"
  shows "\<exists>c. collect_cycle child (v # map fst st) = Some (rev c) \<and> is_cycle adj c"
proof -
  let ?vs = "v # map fst st"
  obtain xs ys where xs: "?vs = xs @ child # ys" "child \<notin> set xs" using split_list_first [OF child(2)] by blast
  define p where "p = xs @ [child]"
  have "takeWhile (\<lambda>v. v \<noteq> child) (xs @ child # ys) = xs" using xs(2) by (subst takeWhile_append2) auto
  then have collect: "collect_cycle child ?vs = Some p"
    using collect_cycle_eq [OF child(2)] by (simp only: xs(1) p_def)
  have ys: "?vs = p @ ys" by (simp add: p_def xs(1))
  have "successively (\<lambda>u v. u \<in> set (adj ! v)) p"
    using below_path [OF st(1)] unfolding ys by (simp add: successively_append_iff)
  moreover have "distinct p" "set p \<subseteq> {..<length adj}" using st(2) bounds unfolding ys by simp_all
  moreover have "hd p = v" "p \<noteq> []" "last p = child" using ys by (auto simp: p_def Cons_eq_append_conv)
  ultimately have "is_cycle adj (rev p)"
    using child(1) by (simp add: is_cycle_def hd_rev last_rev)
  with collect show ?thesis by (intro exI [of _ "rev p"]) simp
qed

lemma dfs_invD:
  assumes "dfs_inv adj fin cur ((v, i) # st)"
  shows "wf_adj adj" "length fin = length adj" "length cur = length adj" "v < length adj" "\<not> fin ! v"
    "v \<notin> fst ` set st" "\<And>u. u < length adj \<Longrightarrow> cur ! u \<longleftrightarrow> u = v \<or> u \<in> fst ` set st"
    "\<And>k. k < i \<Longrightarrow> k < length (adj ! v) \<Longrightarrow> fin ! (adj ! v ! k)" "below adj fin v st"
  using assms by (auto simp: dfs_inv_def marks_def image_iff)

lemma dfs_inv_pop:
  assumes inv: "dfs_inv adj fin cur ((v, i) # st)" and i: "length (adj ! v) \<le> i"
  shows "dfs_inv adj (fin[v := True]) (cur[v := False]) st"
proof -
  note d = dfs_invD [OF inv]
  obtain L where L: "closed_order adj L" "\<And>v. v \<in> set L \<longleftrightarrow> v < length adj \<and> fin ! v"
    using inv by (auto simp: dfs_inv_def marks_def)
  have "set (adj ! v) \<subseteq> set L"
  proof
    fix u assume u: "u \<in> set (adj ! v)"
    then obtain k where "k < length (adj ! v)" "adj ! v ! k = u" by (auto simp: in_set_conv_nth)
    then show "u \<in> set L" using d(8) [of k] i wf_adjD [OF d(1,4) u] by (auto simp: L(2))
  qed
  then have order: "closed_order adj (v # L)" "u \<in> set (v # L) \<longleftrightarrow> u < length adj \<and> (fin[v := True]) ! u" for u
    using L d(2,4,5) by (auto simp: nth_list_update)
  have "marks adj (fin[v := True]) (cur[v := False]) (fst ` set st)"
    unfolding marks_def
  proof (intro conjI exI [of _ "v # L"] allI impI)
    show "(cur[v := False]) ! u \<longleftrightarrow> u \<in> fst ` set st" if "u < length adj" for u
      using that d(3,4,6,7) by (auto simp: nth_list_update)
  qed (use d(1-3) order in auto)
  moreover have st: "distinct (map fst st)" "\<forall>u \<in> fst ` set st. u < length adj \<and> \<not> (fin[v := True]) ! u"
    using inv d(6) by (auto simp: dfs_inv_def nth_list_update image_iff)
  moreover have "(\<forall>k < j. k < length (adj ! u) \<longrightarrow> (fin[v := True]) ! (adj ! u ! k)) \<and> below adj (fin[v := True]) u st'"
    if "st = (u, j) # st'" for u j st'
  proof -
    have mono: "\<forall>k. fin ! k \<longrightarrow> (fin[v := True]) ! k" by (metis d(2,4) nth_list_update)
    from d(9) that obtain j' where j': "j = Suc j'" "adj ! u ! j' = v" "\<forall>k < j'. fin ! (adj ! u ! k)"
      "below adj fin u st'" by auto
    then show ?thesis using below_mono [OF j'(4) mono] mono d(2,4)
      by (auto simp: less_Suc_eq)
  qed
  ultimately show ?thesis unfolding dfs_inv_def by (auto split: list.split)
qed

lemma dfs_inv_advance:
  assumes inv: "dfs_inv adj fin cur ((v, i) # st)" and "i < length (adj ! v)" "fin ! (adj ! v ! i)"
  shows "dfs_inv adj fin cur ((v, Suc i) # st)"
  using assms by (auto simp: dfs_inv_def less_Suc_eq)

lemma dfs_inv_push:
  assumes inv: "dfs_inv adj fin cur ((v, i) # st)" and i: "i < length (adj ! v)"
    and child: "\<not> fin ! (adj ! v ! i)" "\<not> cur ! (adj ! v ! i)"
  shows "dfs_inv adj fin (cur[adj ! v ! i := True]) ((adj ! v ! i, 0) # (v, Suc i) # st)"
proof -
  let ?c = "adj ! v ! i"
  note d = dfs_invD [OF inv]
  have c: "?c < length adj" by (rule wf_adjD [OF d(1,4) nth_mem [OF i]])
  then have new: "?c \<noteq> v" "?c \<notin> fst ` set st" using child(2) d(7) by auto
  have "below adj fin ?c ((v, Suc i) # st)" using i d(8,9) by auto
  moreover have "marks adj fin (cur[?c := True]) (fst ` set ((?c, 0) # (v, Suc i) # st))"
    using inv c d(3) by (auto simp: dfs_inv_def marks_def nth_list_update)
  ultimately show ?thesis
    using inv child c new by (auto simp: dfs_inv_def)
qed

definition dfs_result ::
    "nat list list \<Rightarrow> bool list \<Rightarrow> nat set \<Rightarrow> bool list \<times> bool list \<times> nat list option \<Rightarrow> bool" where
  "dfs_result adj fin vs res = (case res of (fin', cur', r) \<Rightarrow>
     (case r of
        Some c \<Rightarrow> is_cycle adj c
      | None \<Rightarrow> dfs_inv adj fin' cur' [] \<and> (\<forall>v < length adj. fin ! v \<longrightarrow> fin' ! v) \<and> (\<forall>v \<in> vs. fin' ! v)))"

lemma dfs_result_mono:
  assumes "dfs_result adj fin vs res" "\<forall>v < length adj. fin' ! v \<longrightarrow> fin ! v"
    "\<forall>v \<in> vs'. v \<in> vs \<or> (v < length adj \<and> fin ! v)"
  shows "dfs_result adj fin' vs' res"
  using assms by (cases res; cases "snd (snd res)") (auto simp: dfs_result_def)

lemma dfs_loop_correct:
  "dfs_inv adj fin cur st \<Longrightarrow>
   \<exists>res. dfs_loop adj fin cur st = Some res \<and> dfs_result adj fin (fst ` set st) res"
proof (induction adj fin cur st rule: dfs_loop.induct)
  case (1 adj fin cur)
  then show ?case by (simp add: dfs_result_def)
next
  case (2 adj fin cur v i st)
  note inv = 2(4)
  note d = dfs_invD [OF inv]
  let ?c = "adj ! v ! i"
  have c: "?c < length adj" if "i < length (adj ! v)" using wf_adjD [OF d(1,4) nth_mem [OF that]] .
  consider (pop) "length (adj ! v) \<le> i"
    | (skip) "i < length (adj ! v)" "fin ! ?c"
    | (cycle) "i < length (adj ! v)" "\<not> fin ! ?c" "cur ! ?c"
    | (push) "i < length (adj ! v)" "\<not> fin ! ?c" "\<not> cur ! ?c"
    by fastforce
  then show ?case
  proof cases
    case pop
    have "v < length adj \<and> v < length fin \<and> v < length cur" using d(2-4) by simp
    from 2(1) [OF _ pop dfs_inv_pop [OF inv pop]] this obtain res where
      IH: "dfs_loop adj (fin[v := True]) (cur[v := False]) st = Some res"
      "dfs_result adj (fin[v := True]) (fst ` set st) res" by blast
    have "dfs_result adj fin (fst ` set ((v, i) # st)) res"
      by (rule dfs_result_mono [OF IH(2)]) (use d(2,4) in \<open>auto simp: nth_list_update\<close>)
    with IH(1) show ?thesis
      using d(2-4) pop by (simp add: dfs_loop.simps(2) [of adj fin cur v i st])
  next
    case skip
    from 2(2) [OF _ _ HOL.refl _ skip(2) dfs_inv_advance [OF inv skip]] obtain res where
      IH: "dfs_loop adj fin cur ((v, Suc i) # st) = Some res"
      "dfs_result adj fin (fst ` set ((v, Suc i) # st)) res"
      using d(2-4) skip(1) c [OF skip(1)] by auto
    then show ?thesis
      using d(2-4) skip c [OF skip(1)] by (simp add: dfs_loop.simps(2) [of adj fin cur v i st] Let_def)
  next
    case cycle
    have "distinct (v # map fst st)" "?c \<in> set (v # map fst st)" "set (v # map fst st) \<subseteq> {..<length adj}"
      using inv cycle(3) d(7) [OF c [OF cycle(1)]] by (auto simp: dfs_inv_def)
    from cycle_found [OF d(9) this(1) nth_mem [OF cycle(1)] this(2,3)]
    obtain cs where "collect_cycle ?c (v # map fst st) = Some (rev cs)" "is_cycle adj cs" by blast
    then show ?thesis using d(2-4) cycle c [OF cycle(1)]
      by (simp add: dfs_loop.simps(2) [of adj fin cur v i st] Let_def dfs_result_def del: collect_cycle.simps)
  next
    case push
    from 2(3) [OF _ _ HOL.refl _ push(2,3) dfs_inv_push [OF inv push]] obtain res where
      IH: "dfs_loop adj fin (cur[?c := True]) ((?c, 0) # (v, Suc i) # st) = Some res"
      "dfs_result adj fin (fst ` set ((?c, 0) # (v, Suc i) # st)) res"
      using d(2-4) push(1) c [OF push(1)] by auto
    have "dfs_result adj fin (fst ` set ((v, i) # st)) res"
      by (rule dfs_result_mono [OF IH(2)]) auto
    with IH(1) show ?thesis
      using d(2-4) push c [OF push(1)] by (simp add: dfs_loop.simps(2) [of adj fin cur v i st] Let_def)
  qed
qed

text \<open>The loop over the start nodes: the result is a cycle, or every node gets finished.\<close>

lemma dfs_inv_start:
  "dfs_inv adj fin cur [] \<Longrightarrow> v < length adj \<Longrightarrow> \<not> fin ! v \<Longrightarrow> dfs_inv adj fin (cur[v := True]) [(v, 0)]"
  by (auto simp: dfs_inv_def marks_def nth_list_update)

definition ordered_nodes :: "nat list list \<Rightarrow> nat set \<Rightarrow> bool" where
  "ordered_nodes adj vs \<longleftrightarrow> (\<exists>L. closed_order adj L \<and> vs \<subseteq> set L)"

lemma find_from_correct:
  "dfs_inv adj fin cur [] \<Longrightarrow> set vs \<subseteq> {..<length adj} \<Longrightarrow>
   \<exists>c. find_from adj fin cur vs = Some c \<and>
     (is_cycle adj c \<or> ordered_nodes adj ({v. v < length adj \<and> fin ! v} \<union> set vs))"
proof (induction vs arbitrary: fin cur)
  case Nil
  then obtain L where "closed_order adj L" "\<forall>v. v \<in> set L \<longleftrightarrow> v < length adj \<and> fin ! v"
    by (auto simp: dfs_inv_def marks_def)
  then have "ordered_nodes adj {v. v < length adj \<and> fin ! v}"
    unfolding ordered_nodes_def by (intro exI [of _ L]) auto
  then show ?case by simp
next
  case (Cons v vs)
  show ?case
  proof (cases "fin ! v")
    case True
    then have "{v. v < length adj \<and> fin ! v} \<union> set (v # vs) = {v. v < length adj \<and> fin ! v} \<union> set vs"
      using Cons.prems(2) by auto
    then show ?thesis using Cons True by simp
  next
    case False
    then have "dfs_inv adj fin (cur[v := True]) [(v, 0)]"
      using dfs_inv_start [OF Cons.prems(1), of v] Cons.prems(2) by simp
    from dfs_loop_correct [OF this] obtain fin' cur' r where
      loop: "dfs_loop adj fin (cur[v := True]) [(v, 0)] = Some (fin', cur', r)"
      and res: "dfs_result adj fin {v} (fin', cur', r)" by force
    show ?thesis
    proof (cases r)
      case None
      with res have inv: "dfs_inv adj fin' cur' []" and le: "\<forall>v < length adj. fin ! v \<longrightarrow> fin' ! v" "fin' ! v"
        by (simp_all add: dfs_result_def)
      have "{v. v < length adj \<and> fin ! v} \<union> set (v # vs) \<subseteq> {v. v < length adj \<and> fin' ! v} \<union> set vs"
        using le Cons.prems(2) by auto
      then have "ordered_nodes adj ({v. v < length adj \<and> fin' ! v} \<union> set vs) \<Longrightarrow>
        ordered_nodes adj ({v. v < length adj \<and> fin ! v} \<union> set (v # vs))"
        unfolding ordered_nodes_def by blast
      with Cons.IH [OF inv] Cons.prems(2) show ?thesis using False loop None by auto
    qed (use False loop res in \<open>simp add: dfs_result_def\<close>)
  qed
qed

lemma closed_orderD: "closed_order adj L \<Longrightarrow> x \<in> set L \<Longrightarrow> set (adj ! x) \<subseteq> set L"
  by (induction L) auto

lemma ordered_has_source:
  "closed_order adj L \<Longrightarrow> R \<noteq> {} \<Longrightarrow> R \<subseteq> set L \<Longrightarrow> \<exists>v \<in> R. \<forall>u \<in> R. v \<notin> set (adj ! u)"
proof (induction L arbitrary: R)
  case (Cons w L)
  show ?case
  proof (cases "w \<in> R")
    case True
    have "w \<notin> set (adj ! u)" if u: "u \<in> R" for u
    proof
      assume "w \<in> set (adj ! u)"
      moreover have "u = w \<or> u \<in> set L" using u Cons.prems(3) by auto
      moreover have "set (adj ! x) \<subseteq> set L" if "x \<in> set L" for x
        using Cons.prems(1) closed_orderD [of adj L x] that by simp
      ultimately show False using Cons.prems(1) by auto
    qed
    then show ?thesis using True by blast
  next
    case False
    then show ?thesis using Cons by auto
  qed
qed simp

text \<open>With no node left that has no incoming edge, the search finds a cycle.\<close>

lemma FindCycle_correct:
  assumes "length (adjacency_lists s) = nat (num_nodes s)" "wf_adj (adjacency_lists s)"
    and "R \<noteq> {}" "R \<subseteq> {..<nat (num_nodes s)}"
    and "\<And>v. v \<in> R \<Longrightarrow> \<exists>u \<in> R. v \<in> set (adjacency_lists s ! u)"
  shows "\<exists>c. FindCycle s = Some c \<and> is_cycle (adjacency_lists s) c"
proof -
  let ?adj = "adjacency_lists s" and ?n = "nat (num_nodes s)"
  have "closed_order ?adj []" by simp
  then have "dfs_inv ?adj (replicate ?n False) (replicate ?n False) []"
    using assms(1,2) unfolding dfs_inv_def marks_def
    by (intro conjI exI [of _ "[]"]) auto
  from find_from_correct [OF this, of "[0..<?n]"] assms(1) obtain c where
    c: "FindCycle s = Some c" "is_cycle ?adj c \<or> ordered_nodes ?adj ({v. v < ?n \<and> replicate ?n False ! v} \<union> {..<?n})"
    unfolding FindCycle_def Let_def by (auto simp: atLeast0LessThan [symmetric])
  moreover have "\<not> ordered_nodes ?adj ({v. v < ?n \<and> replicate ?n False ! v} \<union> {..<?n})"
    using ordered_has_source [of ?adj _ R] assms(3-5) unfolding ordered_nodes_def by blast
  ultimately show ?thesis by blast
qed

end
