(* ===== verification/TopologicalTraversal.thy ===== *)
theory TopologicalTraversal
  imports TopologicalOrder
begin

section \<open>The traversal of the topological sorter\<close>

text \<open>
  The queue always holds exactly the unvisited nodes without an unvisited predecessor. Hence
  the traversal is the naive algorithm that looks for the first such node each time, and when
  the queue runs empty too early the nodes left contain a cycle, which \<open>FindCycle\<close> returns.
\<close>

subsection \<open>The graph and the nodes that are ready\<close>

definition graph_ok :: "nat list list \<Rightarrow> bool" where
  "graph_ok G \<longleftrightarrow> wf_adj G \<and> (\<forall>l \<in> set G. distinct l)"

definition preds_left :: "nat list list \<Rightarrow> nat list \<Rightarrow> nat \<Rightarrow> nat set" where
  "preds_left G out v = {u. u < length G \<and> u \<notin> set out \<and> v \<in> set (G ! u)}"

definition ready_node :: "nat list list \<Rightarrow> nat list \<Rightarrow> nat \<Rightarrow> bool" where
  "ready_node G out v \<longleftrightarrow> v < length G \<and> v \<notin> set out \<and> preds_left G out v = {}"

lemma finite_preds_left [simp]: "finite (preds_left G out v)"
  by (rule finite_subset [of _ "{..<length G}"]) (auto simp: preds_left_def)

definition traversal_inv :: "nat list list \<Rightarrow> nat list \<Rightarrow> topological_sorter \<Rightarrow> bool" where
  "traversal_inv G out s \<longleftrightarrow> graph_ok G \<and> distinct out \<and> set out \<subseteq> {..<length G} \<and>
     traversal_started s \<and> num_nodes s = int (length G) \<and>
     num_nodes_left s = int (length G) - int (length out) \<and>
     length (adjacency_lists s) = length G \<and>
     (\<forall>u < length G. adjacency_lists s ! u = (if u \<in> set out then [] else G ! u)) \<and>
     length (indegree s) = length G \<and>
     (\<forall>v < length G. indegree s ! v = int (card (preds_left G out v))) \<and>
     sorted (nodes_with_zero_indegree s) \<and> distinct (nodes_with_zero_indegree s) \<and>
     (\<forall>v. v \<in> set (nodes_with_zero_indegree s) \<longleftrightarrow> ready_node G out v) \<and>
     (\<forall>v \<in> set out. preds_left G out v = {})"

subsection \<open>Removing the edges of a node\<close>

lemma remove_edges_correct:
  assumes "remove_edges vs deg q = (deg', q')" "distinct vs" "\<forall>v \<in> set vs. v < length deg"
    and "sorted q" "distinct q" "\<forall>v \<in> set vs. v \<in> set q \<longrightarrow> deg ! v \<noteq> 1"
  shows "length deg' = length deg \<and>
    (\<forall>w < length deg. deg' ! w = deg ! w - (if w \<in> set vs then 1 else 0)) \<and>
    sorted q' \<and> distinct q' \<and> set q' = set q \<union> {v \<in> set vs. deg ! v = 1}"
  using assms
proof (induction vs arbitrary: deg q)
  case (Cons v vs)
  let ?deg = "deg[v := deg ! v - 1]"
  let ?q = "if ?deg ! v = 0 then insort v q else q"
  have v: "v < length deg" "v \<notin> set vs" using Cons.prems(2,3) by auto
  have eq: "remove_edges vs ?deg ?q = (deg', q')" using Cons.prems(1) by (simp add: Let_def)
  have same: "?deg ! w = deg ! w" if "w \<in> set vs" for w using v that by (metis nth_list_update_neq)
  have q: "sorted ?q" "distinct ?q" using Cons.prems(4-6) v by (auto simp: sorted_insort distinct_insort)
  have set: "set ?q = set q \<union> (if deg ! v = 1 then {v} else {})" using v by (auto simp: set_insort_key)
  have "\<forall>w \<in> set vs. w \<in> set ?q \<longrightarrow> ?deg ! w \<noteq> 1"
    using Cons.prems(6) v(2) same set by (auto split: if_splits)
  with Cons.IH [OF eq _ _ q] Cons.prems(2,3) have IH: "length deg' = length deg"
    "\<forall>w < length deg. deg' ! w = ?deg ! w - (if w \<in> set vs then 1 else 0)"
    "sorted q'" "distinct q'" "set q' = set ?q \<union> {w \<in> set vs. ?deg ! w = 1}" by auto
  have "deg' ! w = deg ! w - (if w \<in> set (v # vs) then 1 else 0)" if "w < length deg" for w
    using IH(2) that v by (cases "w = v") auto
  moreover have "set q' = set q \<union> {w \<in> set (v # vs). deg ! w = 1}"
    using IH(5) set same by (auto split: if_splits)
  ultimately show ?case using IH(1,3,4) by blast
qed auto

lemma length_count_edges [simp]: "length (count_edges adj deg) = length deg"
proof -
  have "length (fold (\<lambda>to deg. deg[to := deg ! to + 1]) xs deg) = length deg" for xs :: "nat list"
    by (induction xs arbitrary: deg) auto
  then show ?thesis by (simp add: count_edges_def)
qed

lemma count_edges_nth:
  assumes "set (concat adj) \<subseteq> {..<length deg}" "v < length deg"
  shows "count_edges adj deg ! v = deg ! v + int (count_list (concat adj) v)"
proof -
  have "fold (\<lambda>to deg. deg[to := deg ! to + 1]) xs deg ! v = deg ! v + int (count_list xs v)"
    if "set xs \<subseteq> {..<length deg}" "v < length deg" for xs
    using that
  proof (induction xs arbitrary: deg)
    case (Cons x xs)
    then show ?case by (auto simp: nth_list_update)
  qed simp
  then show ?thesis using assms unfolding count_edges_def by blast
qed

lemma count_list_distinct: "distinct xs \<Longrightarrow> count_list xs v = (if v \<in> set xs then 1 else 0)"
  by (induction xs) auto

lemma count_list_concat:
  "\<forall>l \<in> set adj. distinct l \<Longrightarrow>
   count_list (concat adj) v = card {u. u < length adj \<and> v \<in> set (adj ! u)}"
proof (induction adj rule: rev_induct)
  case (snoc l adj)
  have "{u. u < length (adj @ [l]) \<and> v \<in> set ((adj @ [l]) ! u)} =
      {u. u < length adj \<and> v \<in> set (adj ! u)} \<union> (if v \<in> set l then {length adj} else {})"
    by (auto simp: nth_append less_Suc_eq split: if_splits)
  then show ?case using snoc by (auto simp: count_list_distinct)
qed simp

subsection \<open>The start and the steps of the traversal\<close>

definition simple_graph :: "nat list list \<Rightarrow> nat list list" where
  "simple_graph adj = map (\<lambda>l. remdups_adj (sort l)) adj"

lemma distinct_remdups_adj_sorted: "sorted xs \<Longrightarrow> distinct (remdups_adj xs)"
proof (induction xs rule: remdups_adj.induct)
  case (3 x y xs)
  then show ?case by (auto simp: less_le)
qed simp_all

lemma graph_ok_simple: "wf_adj adj \<Longrightarrow> graph_ok (simple_graph adj)"
  by (auto simp: graph_ok_def wf_adj_def simple_graph_def distinct_remdups_adj_sorted)

lemma traversal_inv_start:
  assumes "\<not> traversal_started s" "0 \<le> num_nodes s" "length (adjacency_lists s) = nat (num_nodes s)"
    and "wf_adj (adjacency_lists s)"
  shows "traversal_inv (simple_graph (adjacency_lists s)) [] (start_traversal s)"
proof -
  let ?G = "simple_graph (adjacency_lists s)" and ?n = "nat (num_nodes s)"
  have G: "graph_ok ?G" "length ?G = ?n" using graph_ok_simple [OF assms(4)] assms(3) by (simp_all add: simple_graph_def)
  let ?deg = "count_edges ?G (replicate ?n 0)"
  have "set (concat ?G) \<subseteq> {..<?n}" using G by (auto simp: graph_ok_def wf_adj_def)
  then have deg: "length ?deg = ?n" "v < ?n \<Longrightarrow> ?deg ! v = int (card (preds_left ?G [] v))" for v
    using count_edges_nth [of ?G "replicate ?n 0" v] count_list_concat [of ?G v] G
    by (simp_all add: graph_ok_def preds_left_def)
  have "v \<in> set (filter (\<lambda>i. ?deg ! i = 0) [0..<?n]) \<longleftrightarrow> ready_node ?G [] v" for v
    using deg(2) G(2) by (auto simp: ready_node_def)
  then show ?thesis using G deg assms(2)
    by (simp add: traversal_inv_def start_traversal_def Let_def simple_graph_def sorted_wrt_filter)
qed

lemma preds_left_visit: "preds_left G (out @ [v]) w = preds_left G out w - {v}"
  by (auto simp: preds_left_def)

lemma traversal_inv_visit:
  assumes inv: "traversal_inv G out s" and q: "nodes_with_zero_indegree s = v # q"
    and rm: "remove_edges (adjacency_lists s ! v) (indegree s) q = (deg', q')"
  shows "traversal_inv G (out @ [v]) (s\<lparr>num_nodes_left := num_nodes_left s - 1,
    adjacency_lists := (adjacency_lists s)[v := []], indegree := deg', nodes_with_zero_indegree := q'\<rparr>)"
proof -
  have v: "ready_node G out v" and vq: "sorted (v # q)" "distinct (v # q)"
    "\<And>w. w \<in> set (v # q) \<longleftrightarrow> ready_node G out w"
    using inv q by (auto simp: traversal_inv_def)
  have vG: "v < length G" "v \<notin> set out" "preds_left G out v = {}" using v by (simp_all add: ready_node_def)
  have ok: "distinct (G ! v)" "\<And>w. w \<in> set (G ! v) \<Longrightarrow> w < length G"
    using inv vG(1) wf_adjD [of G v] by (auto simp: traversal_inv_def graph_ok_def)
  have adj: "adjacency_lists s ! v = G ! v" using inv vG by (simp add: traversal_inv_def)
  have deg: "length (indegree s) = length G" "\<And>w. w < length G \<Longrightarrow> indegree s ! w = int (card (preds_left G out w))"
    using inv by (simp_all add: traversal_inv_def)
  have pred: "v \<in> preds_left G out w" if "w \<in> set (G ! v)" for w
    using vG that by (simp add: preds_left_def)
  have "\<forall>w \<in> set (G ! v). w \<in> set q \<longrightarrow> indegree s ! w \<noteq> 1"
    using pred vq(3) by (auto simp: ready_node_def)
  from remove_edges_correct [OF rm [unfolded adj] ok(1) _ _ _ this] ok(2) deg(1) vq(1,2)
  have rm': "length deg' = length G"
    "\<And>w. w < length G \<Longrightarrow> deg' ! w = indegree s ! w - (if w \<in> set (G ! v) then 1 else 0)"
    "sorted q'" "distinct q'" "set q' = set q \<union> {w \<in> set (G ! v). indegree s ! w = 1}"
    by auto
  have card: "card (preds_left G out w - {v}) = card (preds_left G out w) - (if w \<in> set (G ! v) then 1 else 0)" for w
    using pred [of w] by (auto simp: preds_left_def)
  have pos: "0 < card (preds_left G out w)" if "w \<in> set (G ! v)" for w
    using pred [OF that] by (auto simp: card_gt_0_iff)
  have deg': "deg' ! w = int (card (preds_left G (out @ [v]) w))" if "w < length G" for w
    using rm'(2) [OF that] deg(2) [OF that] card [of w] pos [of w] by (auto simp: preds_left_visit of_nat_diff)
  have "w \<in> set q' \<longleftrightarrow> ready_node G (out @ [v]) w" for w
  proof (cases "w \<in> set (G ! v)")
    case True
    then have w: "w < length G" "v \<in> preds_left G out w" using ok(2) pred by auto
    then have "w \<notin> set q" "w \<noteq> v" "w \<notin> set out"
      using vq(3) [of w] vG(3) inv by (auto simp: ready_node_def traversal_inv_def)
    moreover have "preds_left G out w - {v} = {} \<longleftrightarrow> card (preds_left G out w) = 1"
      using w(2) by (auto simp: card_1_singleton_iff)
    ultimately show ?thesis using True w(1) rm'(5) deg(2) [OF w(1)]
      by (auto simp: ready_node_def preds_left_visit)
  next
    case False
    then have "preds_left G out w - {v} = preds_left G out w" by (auto simp: preds_left_def)
    then show ?thesis using False rm'(5) vq(2) vq(3) [of w] by (auto simp: ready_node_def preds_left_visit)
  qed
  moreover have "\<forall>w \<in> set (out @ [v]). preds_left G (out @ [v]) w = {}"
    using inv vG(3) by (auto simp: traversal_inv_def preds_left_visit)
  ultimately show ?thesis using inv vG deg' rm'
    by (auto simp: traversal_inv_def nth_list_update)
qed

lemma length_out: "distinct out \<Longrightarrow> set out \<subseteq> {..<n} \<Longrightarrow> length out \<le> n \<and> (length out = n \<longleftrightarrow> set out = {..<n})"
  using card_mono [of "{..<n}" "set out"] card_subset_eq [of "{..<n}" "set out"] distinct_card [of out]
  by auto

lemma queue_is_filter:
  "traversal_inv G out s \<Longrightarrow> nodes_with_zero_indegree s = filter (ready_node G out) [0..<length G]"
  by (rule sorted_distinct_set_unique) (auto simp: traversal_inv_def ready_node_def sorted_wrt_filter)

lemma GetNext_step:
  assumes inv: "traversal_inv G out s"
  shows "GetNext s = Some (s, TraversalDone) \<and> length out = length G
    \<or> (\<exists>c. GetNext s = Some (s, Cyclic c) \<and> is_cycle G c \<and> filter (ready_node G out) [0..<length G] = [] \<and>
         length out < length G)
    \<or> (\<exists>s' v q. GetNext s = Some (s', NextNode v) \<and> filter (ready_node G out) [0..<length G] = v # q \<and>
         traversal_inv G (out @ [v]) s' \<and> length out < length G)"
proof -
  have s: "traversal_started s" "num_nodes s = int (length G)" "length (adjacency_lists s) = length G"
    "num_nodes_left s = int (length G) - int (length out)" "distinct out" "set out \<subseteq> {..<length G}"
    "\<And>u. u < length G \<Longrightarrow> adjacency_lists s ! u = (if u \<in> set out then [] else G ! u)" "wf_adj G"
    using inv by (auto simp: traversal_inv_def graph_ok_def)
  note len = length_out [OF s(5,6)]
  consider (end_) "length out = length G"
    | (stuck) "length out < length G" "nodes_with_zero_indegree s = []"
    | (visit) v q where "length out < length G" "nodes_with_zero_indegree s = v # q"
    using len by (cases "nodes_with_zero_indegree s") force+
  then show ?thesis
  proof cases
    case end_
    then show ?thesis using s(1,4) by (simp add: GetNext_def)
  next
    case stuck
    let ?R = "{..<length G} - set out" and ?adj = "adjacency_lists s"
    have sub: "set (?adj ! u) \<subseteq> set (G ! u)" if "u < length G" for u using s(7) [OF that] by auto
    have "wf_adj ?adj"
      using sub s(3,8) by (fastforce simp: wf_adj_def in_set_conv_nth Ball_def)
    moreover have "?R \<noteq> {}" using stuck(1) len s(6) by auto
    moreover have "\<exists>u \<in> ?R. v \<in> set (?adj ! u)" if "v \<in> ?R" for v
    proof -
      have "\<not> ready_node G out v" using inv stuck(2) by (auto simp: traversal_inv_def)
      with that obtain u where "u < length G" "u \<notin> set out" "v \<in> set (G ! u)"
        by (auto simp: ready_node_def preds_left_def)
      then show ?thesis using s(7) by (intro bexI [of _ u]) auto
    qed
    ultimately obtain c where c: "FindCycle s = Some c" "is_cycle ?adj c"
      using FindCycle_correct [of s ?R] s(2,3) by auto
    have "is_cycle G c"
      using c(2) sub s(3) unfolding is_cycle_def
      by (auto elim!: successively_mono dest: last_in_set)
    then show ?thesis using stuck s(1,4) c(1) queue_is_filter [OF inv] by (simp add: GetNext_def)
  next
    case (visit v q)
    obtain deg' q' where rm: "remove_edges (adjacency_lists s ! v) (indegree s) q = (deg', q')" by force
    show ?thesis
      using visit s(1,4) rm queue_is_filter [OF inv] traversal_inv_visit [OF inv visit(2) rm]
      by (simp add: GetNext_def Let_def)
  qed
qed

subsection \<open>The reference: the first node whose predecessors have all been visited\<close>

definition node_ready :: "(int \<times> int) list \<Rightarrow> nat list \<Rightarrow> nat \<Rightarrow> bool" where
  "node_ready es out v \<longleftrightarrow> v \<notin> set out \<and> (\<forall>(a, b) \<in> set es. b = int v \<longrightarrow> nat a \<in> set out)"

fun reference_order :: "nat \<Rightarrow> (int \<times> int) list \<Rightarrow> nat \<Rightarrow> nat list \<Rightarrow> nat list" where
  "reference_order n es 0 out = []"
| "reference_order n es (Suc k) out =
     (case filter (node_ready es out) [0..<n] of
        [] \<Rightarrow> []
      | v # _ \<Rightarrow> v # reference_order n es k (out @ [v]))"

definition edges_ok :: "nat \<Rightarrow> (int \<times> int) list \<Rightarrow> bool" where
  "edges_ok n es \<longleftrightarrow> (\<forall>(a, b) \<in> set es. 0 \<le> a \<and> a < int n \<and> 0 \<le> b \<and> b < int n)"

definition graph_of :: "nat \<Rightarrow> (int \<times> int) list \<Rightarrow> nat list list \<Rightarrow> bool" where
  "graph_of n es G \<longleftrightarrow> length G = n \<and> (\<forall>u < n. \<forall>v. v \<in> set (G ! u) \<longleftrightarrow> (int u, int v) \<in> set es)"

lemma node_ready_eq:
  assumes "graph_of n es G" "edges_ok n es" "v < n"
  shows "node_ready es out v \<longleftrightarrow> ready_node G out v"
proof -
  have "(\<forall>(a, b) \<in> set es. b = int v \<longrightarrow> nat a \<in> set out) \<longleftrightarrow> (\<forall>u < n. v \<in> set (G ! u) \<longrightarrow> u \<in> set out)"
  proof
    assume L: "\<forall>(a, b) \<in> set es. b = int v \<longrightarrow> nat a \<in> set out"
    show "\<forall>u < n. v \<in> set (G ! u) \<longrightarrow> u \<in> set out"
      using L assms(1) by (fastforce simp: graph_of_def)
  next
    assume R: "\<forall>u < n. v \<in> set (G ! u) \<longrightarrow> u \<in> set out"
    show "\<forall>(a, b) \<in> set es. b = int v \<longrightarrow> nat a \<in> set out"
    proof (intro ballI, clarify)
      fix a assume e: "(a, int v) \<in> set es"
      then have "0 \<le> a" "nat a < n" using assms(2) by (auto simp: edges_ok_def)
      with e assms(1) have "v \<in> set (G ! nat a)" by (simp add: graph_of_def)
      with R \<open>nat a < n\<close> show "nat a \<in> set out" by blast
    qed
  qed
  then show ?thesis using assms(1,3)
    by (auto simp: node_ready_def ready_node_def preds_left_def graph_of_def)
qed

lemma traverse_correct:
  assumes "traversal_inv G out s" "graph_of n es G" "edges_ok n es" "n - length out < k"
  shows "\<exists>vs e. traverse k s = Some (vs, e) \<and> vs = reference_order n es (n - length out) out \<and>
    distinct (out @ vs) \<and> set vs \<subseteq> {..<n} \<and>
    (e = TraversalDone \<and> set (out @ vs) = {..<n} \<or> (\<exists>c. e = Cyclic c \<and> is_cycle G c))"
  using assms
proof (induction k arbitrary: out s)
  case (Suc k)
  have G: "length G = n" using Suc.prems(2) by (simp add: graph_of_def)
  have ready: "filter (ready_node G out) [0..<n] = filter (node_ready es out) [0..<n]"
    using node_ready_eq [OF Suc.prems(2,3)] by (auto intro: filter_cong)
  have out: "distinct out" "set out \<subseteq> {..<n}" using Suc.prems(1) G by (auto simp: traversal_inv_def)
  from GetNext_step [OF Suc.prems(1)] show ?case
  proof (elim disjE exE conjE)
    assume "GetNext s = Some (s, TraversalDone)" "length out = length G"
    then show ?thesis using length_out [OF out] G out by auto
  next
    fix c assume "GetNext s = Some (s, Cyclic c)" "is_cycle G c" "filter (ready_node G out) [0..<length G] = []"
      "length out < length G"
    then show ?thesis using out G ready by (cases "n - length out") auto
  next
    fix s' v q assume 1: "GetNext s = Some (s', NextNode v)" "filter (ready_node G out) [0..<length G] = v # q"
      "traversal_inv G (out @ [v]) s'" "length out < length G"
    obtain m where m: "n - length out = Suc m" "m = n - length (out @ [v])" using 1(4) G by (cases "n - length out") auto
    have "n - length (out @ [v]) < k" using Suc.prems(4) m by simp
    from Suc.IH [OF 1(3) Suc.prems(2,3) this] obtain vs e where IH: "traverse k s' = Some (vs, e)"
      "vs = reference_order n es m (out @ [v])" "distinct (out @ v # vs)" "set vs \<subseteq> {..<n}"
      "e = TraversalDone \<and> set (out @ v # vs) = {..<n} \<or> (\<exists>c. e = Cyclic c \<and> is_cycle G c)"
      unfolding m(2) by auto
    have "v < n" using 1(3) G by (auto simp: traversal_inv_def)
    moreover have "reference_order n es (n - length out) out = v # vs"
      using 1(2) m(1) ready G IH(2) by simp
    ultimately show ?thesis using 1(1) IH by (intro exI [of _ "v # vs"] exI [of _ e]) auto
  qed
qed simp

text \<open>The graph that \<open>AddEdge\<close> builds.\<close>

lemma add_edges_correct:
  assumes "edges_ok n es" "graph_of n es0 (adjacency_lists s)" "edges_ok n es0" "num_nodes s = int n" "\<not> traversal_started s"
  shows "\<exists>s'. add_edges es s = Some s' \<and> graph_of n (es0 @ es) (adjacency_lists s') \<and> num_nodes s' = int n \<and>
    \<not> traversal_started s'"
  using assms
proof (induction es arbitrary: s es0)
  case (Cons e es)
  obtain a b where e [simp]: "e = (a, b)" by (cases e)
  have ab: "0 \<le> a" "a < int n" "0 \<le> b" "b < int n" using Cons.prems(1) by (auto simp: edges_ok_def)
  let ?s = "s\<lparr>adjacency_lists := (adjacency_lists s)[nat a := adjacency_lists s ! nat a @ [nat b]]\<rparr>"
  have "AddEdge a b s = Some ?s" using ab Cons.prems(4,5) by (simp add: AddEdge_def)
  moreover have "graph_of n (es0 @ [e]) (adjacency_lists ?s)"
    using Cons.prems(2) ab by (auto simp: graph_of_def nth_list_update)
  moreover have "edges_ok n es" "edges_ok n (es0 @ [e])" using Cons.prems(1,3) ab by (auto simp: edges_ok_def)
  ultimately show ?case using Cons.IH [of "es0 @ [e]" ?s] Cons.prems(4,5) by simp
qed simp

lemma graph_of_simple: "graph_of n es adj \<Longrightarrow> graph_of n es (simple_graph adj)"
  by (simp add: graph_of_def simple_graph_def)

lemma graph_of_wf: "graph_of n es adj \<Longrightarrow> edges_ok n es \<Longrightarrow> wf_adj adj"
  by (fastforce simp: graph_of_def edges_ok_def wf_adj_def in_set_conv_nth [of _ adj])

lemma GetNext_starts: "\<not> traversal_started s \<Longrightarrow> GetNext s = GetNext (start_traversal s)"
  by (simp add: GetNext_def start_traversal_def Let_def)

lemma topological_sorter_correct:
  assumes "edges_ok n es"
  shows "\<exists>s0 s G vs e. new_topological_sorter (int n) = Some s0 \<and> add_edges es s0 = Some s \<and> graph_of n es G \<and>
    traverse (Suc n) s = Some (vs, e) \<and> vs = reference_order n es n [] \<and> distinct vs \<and> set vs \<subseteq> {..<n} \<and>
    (e = TraversalDone \<and> set vs = {..<n} \<or> (\<exists>c. e = Cyclic c \<and> is_cycle G c))"
proof -
  obtain s0 where s0: "new_topological_sorter (int n) = Some s0" "adjacency_lists s0 = replicate n []"
    "num_nodes s0 = int n" "\<not> traversal_started s0" by (simp add: new_topological_sorter_def)
  have "graph_of n [] (adjacency_lists s0)" "edges_ok n []" using s0(2) by (simp_all add: graph_of_def edges_ok_def)
  from add_edges_correct [OF assms this s0(3,4)] obtain s where s: "add_edges es s0 = Some s"
    "graph_of n es (adjacency_lists s)" "num_nodes s = int n" "\<not> traversal_started s" by auto
  let ?G = "simple_graph (adjacency_lists s)"
  have "traversal_inv ?G [] (start_traversal s)"
    by (rule traversal_inv_start) (use s graph_of_wf [OF s(2) assms] in \<open>simp_all add: graph_of_def\<close>)
  from traverse_correct [OF this graph_of_simple [OF s(2)] assms, of "Suc n"] obtain vs e where
    "traverse (Suc n) (start_traversal s) = Some (vs, e)" "vs = reference_order n es n []" "distinct vs" "set vs \<subseteq> {..<n}"
    "e = TraversalDone \<and> set vs = {..<n} \<or> (\<exists>c. e = Cyclic c \<and> is_cycle ?G c)" by auto
  moreover have "traverse (Suc n) (start_traversal s) = traverse (Suc n) s"
    using GetNext_starts [OF s(4)] by simp
  ultimately show ?thesis using s0(1) s(1) graph_of_simple [OF s(2)] by metis
qed

subsection \<open>The properties\<close>

definition cycle_in :: "(int \<times> int) list \<Rightarrow> nat list \<Rightarrow> bool" where
  "cycle_in es c \<longleftrightarrow> c \<noteq> [] \<and> distinct c \<and> successively (\<lambda>u v. (int u, int v) \<in> set es) c \<and>
     (int (last c), int (hd c)) \<in> set es"

lemma is_cycle_in: "graph_of n es G \<Longrightarrow> is_cycle G c \<Longrightarrow> cycle_in es c"
  unfolding is_cycle_def cycle_in_def graph_of_def
  by (auto elim!: successively_mono dest: last_in_set)

lemma reference_order_ready:
  "j < length (reference_order n es k out) \<Longrightarrow>
   node_ready es (out @ take j (reference_order n es k out)) (reference_order n es k out ! j)"
proof (induction k arbitrary: out j)
  case (Suc k)
  show ?case
  proof (cases "filter (node_ready es out) [0..<n]")
    case (Cons v q)
    then have "v \<in> set (filter (node_ready es out) [0..<n])" by simp
    then have "node_ready es out v" by simp
    then show ?thesis using Cons Suc.prems Suc.IH [of "j - 1" "out @ [v]"] by (cases j) auto
  qed (use Suc.prems in simp)
qed simp

text \<open>
  C27: Sorting a graph gives a topological order, or a cycle. For every number of nodes and
  every list of edges between them, duplicates and self-loops included, building the sorter
  and calling \<open>GetNext\<close> until it returns false never aborts and ends after one call more than
  there are nodes; the nodes returned are distinct, and every predecessor of a node comes
  before it; and either all nodes were returned, or the call that ended the traversal
  reported a cycle of the graph. The search for the cycle always ends.
\<close>
theorem topological_sort:
  assumes "edges_ok n es"
  shows "\<exists>s0 s vs e. new_topological_sorter (int n) = Some s0 \<and> add_edges es s0 = Some s \<and>
    traverse (Suc n) s = Some (vs, e) \<and> distinct vs \<and> set vs \<subseteq> {..<n} \<and>
    (\<forall>j < length vs. \<forall>(a, b) \<in> set es. b = int (vs ! j) \<longrightarrow> nat a \<in> set (take j vs)) \<and>
    (e = TraversalDone \<and> set vs = {..<n} \<or> (\<exists>c. e = Cyclic c \<and> cycle_in es c))"
proof -
  obtain s0 s G vs e where r: "new_topological_sorter (int n) = Some s0" "add_edges es s0 = Some s"
    "graph_of n es G" "traverse (Suc n) s = Some (vs, e)" "vs = reference_order n es n []" "distinct vs"
    "set vs \<subseteq> {..<n}" "e = TraversalDone \<and> set vs = {..<n} \<or> (\<exists>c. e = Cyclic c \<and> is_cycle G c)"
    using topological_sorter_correct [OF assms] by blast
  have "\<forall>(a, b) \<in> set es. b = int (vs ! j) \<longrightarrow> nat a \<in> set (take j vs)" if "j < length vs" for j
    using reference_order_ready [of j n es n "[]"] that r(5) by (auto simp: node_ready_def)
  moreover have "e = TraversalDone \<and> set vs = {..<n} \<or> (\<exists>c. e = Cyclic c \<and> cycle_in es c)"
    using r(8) is_cycle_in [OF r(3)] by blast
  ultimately show ?thesis using r(1,2,4,6,7) by (intro exI conjI) auto
qed

text \<open>
  C29: The traversal returns the least node first. The order in which the sorter, with its queue
  and its degrees, returns the nodes is the one of the naive algorithm that each time takes the
  first node whose predecessors have all been returned.
\<close>
theorem traversal_least_first:
  assumes "edges_ok n es"
  shows "\<exists>s0 s e. new_topological_sorter (int n) = Some s0 \<and> add_edges es s0 = Some s \<and>
    traverse (Suc n) s = Some (reference_order n es n [], e)"
  using topological_sorter_correct [OF assms] by blast

theorem traversal_least_first_witness:
  "\<exists>s0 s e. new_topological_sorter 4 = Some s0 \<and> add_edges [(3, 0), (2, 1), (3, 0)] s0 = Some s \<and>
    traverse 5 s = Some ([2, 1, 3, 0], e)"
proof -
  have "edges_ok 4 [(3, 0), (2, 1), (3, 0)]" by (simp add: edges_ok_def)
  moreover have "reference_order 4 [(3, 0), (2, 1), (3, 0)] 4 [] = [2, 1, 3, 0]" by code_simp
  ultimately show ?thesis using traversal_least_first [of 4 "[(3, 0), (2, 1), (3, 0)]"] by simp
qed

theorem topological_sort_witness:
  "\<exists>s0 s vs e. new_topological_sorter 3 = Some s0 \<and> add_edges [(0, 1), (1, 2), (2, 1)] s0 = Some s \<and>
    traverse 4 s = Some (vs, e) \<and> (\<exists>c. e = Cyclic c \<and> cycle_in [(0, 1), (1, 2), (2, 1)] c)"
proof -
  let ?es = "[(0, 1), (1, 2), (2, 1)] :: (int \<times> int) list"
  have "edges_ok 3 ?es" by (simp add: edges_ok_def)
  then obtain s0 s vs e where r: "new_topological_sorter 3 = Some s0" "add_edges ?es s0 = Some s"
    "traverse 4 s = Some (vs, e)"
    "e = TraversalDone \<and> set vs = {..<3} \<or> (\<exists>c. e = Cyclic c \<and> cycle_in ?es c)"
    using topological_sort [of 3 ?es] by auto
  have "new_topological_sorter 3 \<bind> add_edges ?es \<bind> traverse 4 = Some ([0], Cyclic [1, 2])" by code_simp
  then have "e = Cyclic [1, 2]" using r(1-3) by (simp del: add_edges.simps)
  then show ?thesis using r by blast
qed

end
