(* ===== verification/TagMap.thy ===== *)
theory TagMap
  imports ValidateName "HOL-Library.List_Lexorder"
begin

section \<open>Tag maps\<close>

text \<open>
  \<open>tool/tag_map.h/.cc\<close> and \<open>tool/tag_map_helper.cc\<close>: the map from tags and indexes to the ids of
  the streams or side packets of a node. An ordered map of the source (\<open>std::map\<close>,
  \<open>absl::btree_map\<close>) is a list of pairs with increasing keys; the order of strings is the
  lexicographic one. A \<open>CollectionItemId\<close> is its value, and an empty name marks an index that
  no entry has used yet. \<open>StrAppend\<close> and \<open>StrJoin\<close> only concatenate.
\<close>

record tag_data =
  td_id :: int
  td_count :: int

record tag_map =
  num_entries :: int
  mapping :: "(string \<times> tag_data) list"
  names :: "string list"

fun update_key :: "'k::linorder \<Rightarrow> 'v \<Rightarrow> ('k \<times> 'v) list \<Rightarrow> ('k \<times> 'v) list" where
  "update_key k v [] = [(k, v)]"
| "update_key k v ((k', v') # xs) =
     (if k < k' then (k, v) # (k', v') # xs else if k = k' then (k, v) # xs else (k', v') # update_key k v xs)"

text \<open>\<open>operator[]\<close>: the value, or the default-constructed one.\<close>

definition lookup_key :: "'v \<Rightarrow> ('k \<times> 'v) list \<Rightarrow> 'k \<Rightarrow> 'v" where
  "lookup_key v xs k = (case map_of xs k of None \<Rightarrow> v | Some v' \<Rightarrow> v')"

subsection \<open>Initialize\<close>

type_synonym tag_maps = "(string \<times> tag_data) list \<times> (string \<times> string list) list"

definition add_entry :: "strings \<Rightarrow> string \<Rightarrow> tag_maps \<Rightarrow> tag_maps result" where
  "add_entry A tag_index_name maps = (case maps of (ms, tag_to_names) \<Rightarrow>
     result_bind (ParseTagIndexName A tag_index_name) (\<lambda>(tag, index, name).
       let data = lookup_key \<lparr>td_id = -1, td_count = 0\<rparr> ms tag;
           index = (if index = -1 then td_count data else index);
           ms = update_key tag (data\<lparr>td_count := td_count data + 1\<rparr>) ms;
           ns = lookup_key [] tag_to_names tag;
           ns = (if int (length ns) \<le> index then ns @ replicate (nat index + 1 - length ns) '''' else ns)
       in if ns ! nat index \<noteq> [] then Inl FailedPrecondition
          else Inr (ms, update_key tag (ns[nat index := name]) tag_to_names)))"

fun add_entries :: "strings \<Rightarrow> string list \<Rightarrow> tag_maps \<Rightarrow> tag_maps result" where
  "add_entries A [] maps = Inr maps"
| "add_entries A (s # ss) maps = result_bind (add_entry A s maps) (add_entries A ss)"

text \<open>The loop that sets the first id of each tag; the ids and the number of entries.\<close>

fun assign_ids ::
    "(string \<times> string list) list \<Rightarrow> (string \<times> tag_data) list \<Rightarrow> int \<Rightarrow> ((string \<times> tag_data) list \<times> int) result" where
  "assign_ids tag_to_names [] current_index = Inr ([], current_index)"
| "assign_ids tag_to_names ((tag, data) # ms) current_index =
     (if td_count data \<noteq> int (length (lookup_key [] tag_to_names tag)) then Inl FailedPrecondition
      else result_bind (assign_ids tag_to_names ms (current_index + td_count data)) (\<lambda>(ms, n).
        Inr ((tag, data\<lparr>td_id := current_index\<rparr>) # ms, n)))"

definition InitializeNames :: "(string \<times> string list) list \<Rightarrow> string list" where
  "InitializeNames tag_to_names = concat (map snd tag_to_names)"

definition Create :: "strings \<Rightarrow> string list \<Rightarrow> tag_map result" where
  "Create A tag_index_names =
     result_bind (add_entries A tag_index_names ([], [])) (\<lambda>(ms, tag_to_names).
       result_bind (assign_ids tag_to_names ms 0) (\<lambda>(ms, n).
         Inr \<lparr>num_entries = n, mapping = ms, names = InitializeNames tag_to_names\<rparr>))"

text \<open>From the older structure, which has either a tag for each name or none at all.\<close>

fun add_tags ::
    "(string \<times> string) list \<Rightarrow> (string \<times> tag_data) list \<times> (string \<times> string list) list \<Rightarrow>
     ((string \<times> tag_data) list \<times> (string \<times> string list) list) result" where
  "add_tags [] maps = Inr maps"
| "add_tags ((tag, name) # rest) (ms, tag_to_names) =
     result_bind (ret_check (map_of ms tag = None)) (\<lambda>_.
       add_tags rest (update_key tag \<lparr>td_id = -1, td_count = 0\<rparr> ms,
         update_key tag (lookup_key [] tag_to_names tag @ [name]) tag_to_names))"

fun number_tags :: "(string \<times> tag_data) list \<Rightarrow> int \<Rightarrow> (string \<times> tag_data) list" where
  "number_tags [] n = []"
| "number_tags ((tag, data) # ms) n = (tag, \<lparr>td_id = n, td_count = 1\<rparr>) # number_tags ms (n + 1)"

definition Create_from_info :: "tag_and_name_info \<Rightarrow> tag_map result" where
  "Create_from_info info =
     (if info_tags info = []
      then Inr \<lparr>num_entries = int (length (info_names info)),
             mapping = (if info_names info \<noteq> []
               then [('''', \<lparr>td_id = 0, td_count = int (length (info_names info))\<rparr>)] else []),
             names = info_names info\<rparr>
      else if length (info_tags info) \<noteq> length (info_names info) then Inl FailedPrecondition
      else result_bind (add_tags (zip (info_tags info) (info_names info)) ([], [])) (\<lambda>(ms, tag_to_names).
        Inr \<lparr>num_entries = int (length ms), mapping = number_tags ms 0, names = InitializeNames tag_to_names\<rparr>))"

subsection \<open>Queries\<close>

text \<open>The entries of one tag, written back.\<close>

definition tag_entries :: "strings \<Rightarrow> string list \<Rightarrow> string \<times> tag_data \<Rightarrow> string list" where
  "tag_entries A ns item = (case item of (tag, data) \<Rightarrow>
     let name = (\<lambda>i. ns ! nat (td_id data + i))
     in if tag = [] then map (\<lambda>i. name (int i)) [0..<nat (td_count data)]
        else if td_count data \<le> 1 then [tag @ '':'' @ name 0]
        else map (\<lambda>i. tag @ '':'' @ StrCat_int A (int i) @ '':'' @ name (int i)) [0..<nat (td_count data)])"

definition CanonicalEntries :: "strings \<Rightarrow> tag_map \<Rightarrow> string list" where
  "CanonicalEntries A m = concat (map (tag_entries A (names m)) (mapping m))"

fun join_lines :: "string list \<Rightarrow> string" where
  "join_lines [] = ''''"
| "join_lines [s] = s"
| "join_lines (s # ss) = s @ CHR 0x0A # join_lines ss"

definition TagMap_DebugString :: "strings \<Rightarrow> tag_map \<Rightarrow> string" where
  "TagMap_DebugString A m = (if num_entries m = 0 then ''empty'' else join_lines (CanonicalEntries A m))"

definition tag_debug :: "strings \<Rightarrow> string \<times> tag_data \<Rightarrow> string" where
  "tag_debug A item = (case item of (tag, data) \<Rightarrow>
     if td_count data = 0 then CHR 0x22 # tag @ [CHR 0x22]
     else CHR 0x7B # CHR 0x22 # tag @ [CHR 0x22, CHR '','', CHR '' ''] @ StrCat_int A (td_count data) @ [CHR 0x7D])"

definition ShortDebugString :: "strings \<Rightarrow> tag_map \<Rightarrow> string" where
  "ShortDebugString A m =
     (if num_entries m = 0 then ''empty''
      else fold (\<lambda>item output. (if output \<noteq> [] then output @ '', '' else output) @ tag_debug A item) (mapping m) [])"

definition HasTag :: "tag_map \<Rightarrow> string \<Rightarrow> bool" where
  "HasTag m tag \<longleftrightarrow> map_of (mapping m) tag \<noteq> None"

definition NumEntries :: "tag_map \<Rightarrow> string \<Rightarrow> int" where
  "NumEntries m tag = (case map_of (mapping m) tag of None \<Rightarrow> 0 | Some data \<Rightarrow> td_count data)"

definition GetId :: "tag_map \<Rightarrow> string \<Rightarrow> int \<Rightarrow> int" where
  "GetId m tag index =
     (case map_of (mapping m) tag of
        None \<Rightarrow> -1
      | Some data \<Rightarrow> if index < 0 \<or> td_count data \<le> index then -1 else td_id data + index)"

definition TagAndIndexFromId :: "tag_map \<Rightarrow> int \<Rightarrow> string \<times> int" where
  "TagAndIndexFromId m item =
     (case filter (\<lambda>(tag, data). td_id data \<le> item \<and> item < td_id data + td_count data) (mapping m) of
        [] \<Rightarrow> ('''', -1)
      | (tag, data) # _ \<Rightarrow> (tag, item - td_id data))"

definition BeginId :: "tag_map \<Rightarrow> string \<Rightarrow> int" where
  "BeginId m tag = GetId m tag 0"

definition EndId :: "tag_map \<Rightarrow> string \<Rightarrow> int" where
  "EndId m tag = (case map_of (mapping m) tag of None \<Rightarrow> -1 | Some data \<Rightarrow> td_id data + td_count data)"

definition GetTags :: "tag_map \<Rightarrow> string set" where
  "GetTags m = set (map fst (mapping m))"

definition TagMap_SameAs :: "strings \<Rightarrow> tag_map \<Rightarrow> tag_map \<Rightarrow> bool" where
  "TagMap_SameAs A m m' \<longleftrightarrow> m = m' \<or> ShortDebugString A m = ShortDebugString A m'"

subsection \<open>The helpers\<close>

definition CreateTagMap :: "strings \<Rightarrow> int \<Rightarrow> tag_map result" where
  "CreateTagMap A n =
     result_bind (ret_check (0 \<le> n)) (\<lambda>_. Create A (map (\<lambda>i. ''name'' @ StrCat_int A (int i)) [0..<nat n]))"

definition CreateTagMapFromTags :: "strings \<Rightarrow> string list \<Rightarrow> tag_map result" where
  "CreateTagMapFromTags A tags =
     Create A (map (\<lambda>i. tags ! i @ '':name'' @ StrCat_int A (int i)) [0..<length tags])"

end
