(* ===== verification/NameGrammar.thy ===== *)
theory NameGrammar
  imports ValidateName
begin

section \<open>The grammar of names\<close>

subsection \<open>What the code relies on in the string library\<close>

fun join_colon :: "string list \<Rightarrow> string" where
  "join_colon [] = ''''"
| "join_colon [s] = s"
| "join_colon (s # ss) = s @ '':'' @ join_colon ss"

definition digit_value :: "char \<Rightarrow> int" where
  "digit_value c = int (of_char c) - int (of_char CHR ''0'')"

definition decimal_value :: "string \<Rightarrow> int" where
  "decimal_value s = foldl (\<lambda>n c. n * 10 + digit_value c) 0 s"

text \<open>
  \<open>StrSplit\<close> cuts a string at its colons, \<open>SimpleAtoi\<close> reads a decimal that fits 64 bits, \<open>StrCat\<close>
  writes a non-negative integer as a decimal without leading zeros.
\<close>

definition strings_ok :: "strings \<Rightarrow> bool" where
  "strings_ok A \<longleftrightarrow>
     (\<forall>s. StrSplit A s \<noteq> [] \<and> (\<forall>p \<in> set (StrSplit A s). CHR '':'' \<notin> set p) \<and> join_colon (StrSplit A s) = s) \<and>
     (\<forall>s. s \<noteq> [] \<and> list_all isdigit s \<longrightarrow>
        SimpleAtoi A s = (if decimal_value s \<le> 9223372036854775807 then Some (decimal_value s) else None)) \<and>
     (\<forall>n \<ge> 0. ValidateNumber (StrCat_int A n) = OkStatus \<and> decimal_value (StrCat_int A n) = n)"

lemma join_colon_Cons: "ps \<noteq> [] \<Longrightarrow> join_colon (p # ps) = p @ CHR '':'' # join_colon ps"
  by (cases ps) auto

text \<open>There is one way to cut a string at its colons.\<close>

lemma first_colon:
  "CHR '':'' \<notin> set p \<Longrightarrow> CHR '':'' \<notin> set q \<Longrightarrow> p @ CHR '':'' # xs = q @ CHR '':'' # ys \<Longrightarrow> p = q \<and> xs = ys"
proof (induction p arbitrary: q)
  case Nil
  then show ?case by (cases q) auto
next
  case (Cons c p)
  then show ?case by (cases q) auto
qed

lemma join_colon_inj:
  "join_colon ps = join_colon qs \<Longrightarrow> ps \<noteq> [] \<Longrightarrow> qs \<noteq> [] \<Longrightarrow>
   \<forall>p \<in> set ps. CHR '':'' \<notin> set p \<Longrightarrow> \<forall>q \<in> set qs. CHR '':'' \<notin> set q \<Longrightarrow> ps = qs"
proof (induction ps arbitrary: qs)
  case (Cons p ps)
  obtain q qs' where qs: "qs = q # qs'" using Cons.prems(3) by (cases qs) auto
  have no: "CHR '':'' \<notin> set p" "CHR '':'' \<notin> set q" using Cons.prems(4,5) qs by auto
  show ?case
  proof (cases "ps = []"; cases "qs' = []")
    assume "ps \<noteq> []" "qs' \<noteq> []"
    then show ?thesis
      using Cons.IH [of qs'] Cons.prems qs first_colon [OF no] by (auto simp: join_colon_Cons)
  next
    assume "ps = []" "qs' \<noteq> []"
    then have "CHR '':'' \<in> set p" using Cons.prems(1) qs by (simp add: join_colon_Cons)
    with no show ?thesis by simp
  next
    assume "ps \<noteq> []" "qs' = []"
    then have "CHR '':'' \<in> set q" using Cons.prems(1) qs by (auto simp: join_colon_Cons)
    with no show ?thesis by simp
  qed (use Cons.prems qs in auto)
qed simp

lemma StrSplit_join:
  assumes "strings_ok A" "ps \<noteq> []" "\<forall>p \<in> set ps. CHR '':'' \<notin> set p"
  shows "StrSplit A (join_colon ps) = ps"
  by (rule join_colon_inj) (use assms in \<open>auto simp: strings_ok_def\<close>)

lemma StrSplit_iff:
  assumes "strings_ok A"
  shows "StrSplit A s = ps \<longleftrightarrow> ps \<noteq> [] \<and> (\<forall>p \<in> set ps. CHR '':'' \<notin> set p) \<and> join_colon ps = s"
  using StrSplit_join [OF assms, of ps] assms by (auto simp: strings_ok_def)

subsection \<open>Regular expressions\<close>

text \<open>The expressions of the macros: character classes, sequence, alternative, repetition, option.\<close>

datatype regex = Class "char \<Rightarrow> bool" | Sequence regex regex | Alternative regex regex | Repeat regex | Optional regex

inductive matches :: "regex \<Rightarrow> string \<Rightarrow> bool" where
  Class: "P c \<Longrightarrow> matches (Class P) [c]"
| Sequence: "matches r s \<Longrightarrow> matches r' s' \<Longrightarrow> matches (Sequence r r') (s @ s')"
| Left: "matches r s \<Longrightarrow> matches (Alternative r r') s"
| Right: "matches r' s \<Longrightarrow> matches (Alternative r r') s"
| Stop: "matches (Repeat r) []"
| More: "matches r s \<Longrightarrow> matches (Repeat r) s' \<Longrightarrow> matches (Repeat r) (s @ s')"
| Present: "matches r s \<Longrightarrow> matches (Optional r) s"
| Absent: "matches (Optional r) []"

inductive_cases matches_ClassE: "matches (Class P) s"
inductive_cases matches_SequenceE: "matches (Sequence r r') s"
inductive_cases matches_AlternativeE: "matches (Alternative r r') s"
inductive_cases matches_OptionalE: "matches (Optional r) s"

lemma matches_Class [simp]: "matches (Class P) s \<longleftrightarrow> (\<exists>c. s = [c] \<and> P c)"
  by (auto elim: matches_ClassE intro: matches.Class)

lemma matches_Sequence: "matches (Sequence r r') s \<longleftrightarrow> (\<exists>t t'. s = t @ t' \<and> matches r t \<and> matches r' t')"
  by (blast elim: matches_SequenceE intro: matches.Sequence)

lemma matches_Alternative [simp]: "matches (Alternative r r') s \<longleftrightarrow> matches r s \<or> matches r' s"
  by (auto elim: matches_AlternativeE intro: matches.Left matches.Right)

lemma matches_Optional [simp]: "matches (Optional r) s \<longleftrightarrow> s = [] \<or> matches r s"
  by (auto elim: matches_OptionalE intro: matches.Present matches.Absent)

lemma matches_Repeat_Class [simp]: "matches (Repeat (Class P)) s \<longleftrightarrow> list_all P s"
proof
  have "matches r s \<Longrightarrow> r = Repeat (Class P) \<Longrightarrow> list_all P s" for r
    by (induction rule: matches.induct) (auto simp: matches_ClassE)
  then show "matches (Repeat (Class P)) s \<Longrightarrow> list_all P s" by blast
  show "list_all P s \<Longrightarrow> matches (Repeat (Class P)) s"
  proof (induction s)
    case (Cons c s)
    then show ?case using matches.More [of "Class P" "[c]" s] by simp
  qed (simp add: matches.Stop)
qed

lemma matches_head [simp]:
  "matches (Sequence (Class P) r) s \<longleftrightarrow> (\<exists>c t. s = c # t \<and> P c \<and> matches r t)"
proof
  assume "\<exists>c t. s = c # t \<and> P c \<and> matches r t"
  then obtain c t where "s = [c] @ t" "P c" "matches r t" by auto
  then show "matches (Sequence (Class P) r) s" using matches.Sequence [of "Class P" "[c]" r t] by simp
qed (auto simp: matches_Sequence)

definition literal :: "char \<Rightarrow> regex" where
  "literal c = Class (\<lambda>x. x = c)"

definition NAME_REGEX :: regex where
  "NAME_REGEX = Sequence (Class (\<lambda>c. islower c \<or> c = CHR ''_'')) (Repeat (Class (\<lambda>c. islower c \<or> isdigit c \<or> c = CHR ''_'')))"

definition NUMBER_REGEX :: regex where
  "NUMBER_REGEX = Alternative (literal CHR ''0'')
     (Sequence (Class (\<lambda>c. CHR ''1'' \<le> c \<and> c \<le> CHR ''9'')) (Repeat (Class isdigit)))"

definition TAG_REGEX :: regex where
  "TAG_REGEX = Sequence (Class (\<lambda>c. isupper c \<or> c = CHR ''_'')) (Repeat (Class (\<lambda>c. isupper c \<or> isdigit c \<or> c = CHR ''_'')))"

definition TAG_AND_NAME_REGEX :: regex where
  "TAG_AND_NAME_REGEX = Sequence (Optional (Sequence TAG_REGEX (literal CHR '':''))) NAME_REGEX"

definition TAG_INDEX_NAME_REGEX :: regex where
  "TAG_INDEX_NAME_REGEX = Sequence
     (Optional (Sequence (Sequence TAG_REGEX (literal CHR '':''))
        (Optional (Sequence NUMBER_REGEX (literal CHR '':''))))) NAME_REGEX"

definition TAG_INDEX_REGEX :: regex where
  "TAG_INDEX_REGEX = Sequence (Optional TAG_REGEX) (Optional (Sequence (literal CHR '':'') NUMBER_REGEX))"

lemma ValidateName_iff: "ValidateName s = OkStatus \<longleftrightarrow> matches NAME_REGEX s"
  by (cases s) (auto simp: ValidateName_def validity_def NAME_REGEX_def list_all_iff)

lemma ValidateTag_iff: "ValidateTag s = OkStatus \<longleftrightarrow> matches TAG_REGEX s"
  by (cases s) (auto simp: ValidateTag_def validity_def TAG_REGEX_def list_all_iff)

lemma digit_split: "isdigit c \<longleftrightarrow> c = CHR ''0'' \<or> (CHR ''1'' \<le> c \<and> c \<le> CHR ''9'')"
  "\<not> CHR ''1'' \<le> CHR ''0''"
proof -
  show "isdigit c \<longleftrightarrow> c = CHR ''0'' \<or> (CHR ''1'' \<le> c \<and> c \<le> CHR ''9'')"
    using of_char_eq_iff [of c "CHR ''0''", where ?'a = nat]
    by (auto simp: isdigit_def less_eq_char_def)
qed code_simp

lemma ValidateNumber_iff: "ValidateNumber s = OkStatus \<longleftrightarrow> matches NUMBER_REGEX s"
proof (cases s)
  case (Cons c t)
  have "ValidateNumber s = OkStatus \<longleftrightarrow> t = [] \<and> isdigit c \<or> t \<noteq> [] \<and> isdigit c \<and> c \<noteq> CHR ''0'' \<and> list_all isdigit t"
    by (cases t) (simp_all add: ValidateNumber_def validity_def Cons)
  moreover have "matches NUMBER_REGEX s \<longleftrightarrow>
      c = CHR ''0'' \<and> t = [] \<or> (CHR ''1'' \<le> c \<and> c \<le> CHR ''9'') \<and> list_all isdigit t"
    by (auto simp: NUMBER_REGEX_def literal_def Cons)
  ultimately show ?thesis using digit_split(1) [of c] digit_split(2) by (cases t) auto
qed (simp add: ValidateNumber_def validity_def NUMBER_REGEX_def literal_def)

lemmas validate_iff = ValidateName_iff ValidateTag_iff ValidateNumber_iff

lemma colon_class: "\<not> islower CHR '':''" "\<not> isupper CHR '':''" "\<not> isdigit CHR '':''" "\<not> CHR '':'' \<le> CHR ''9''"
  by code_simp+

lemma no_colon:
  "matches NAME_REGEX s \<Longrightarrow> CHR '':'' \<notin> set s"
  "matches TAG_REGEX s \<Longrightarrow> CHR '':'' \<notin> set s"
  "matches NUMBER_REGEX s \<Longrightarrow> CHR '':'' \<notin> set s"
  using colon_class
  by (auto simp: NAME_REGEX_def TAG_REGEX_def NUMBER_REGEX_def literal_def list_all_iff
      dest: bspec [where x = "CHR '':''"])

lemma regex_nonempty: "\<not> matches NAME_REGEX []" "\<not> matches TAG_REGEX []" "\<not> matches NUMBER_REGEX []"
  by (simp_all add: NAME_REGEX_def TAG_REGEX_def NUMBER_REGEX_def literal_def)

subsection \<open>What the parsers accept\<close>

lemma number_digits: "matches NUMBER_REGEX s \<Longrightarrow> s \<noteq> [] \<and> list_all isdigit s"
  by (auto simp: NUMBER_REGEX_def literal_def digit_split(1))

lemma decimal_value_nonneg: "list_all isdigit s \<Longrightarrow> 0 \<le> decimal_value s"
proof -
  have digit: "isdigit c \<Longrightarrow> 0 \<le> digit_value c" for c
    by (simp add: isdigit_def digit_value_def less_eq_char_def)
  have "list_all isdigit s \<Longrightarrow> 0 \<le> n \<Longrightarrow> 0 \<le> foldl (\<lambda>n c. n * 10 + digit_value c) n s" for n
    by (induction s arbitrary: n) (auto simp: digit)
  then show "list_all isdigit s \<Longrightarrow> ?thesis" by (simp add: decimal_value_def)
qed

lemma parse_index_number:
  assumes "strings_ok A" "matches NUMBER_REGEX s"
  shows "parse_index A s d = (if decimal_value s \<le> kMaxCollectionItemId then Inr (decimal_value s) else Inl Internal)"
  using assms number_digits [OF assms(2)]
  by (auto simp: parse_index_def validate_iff strings_ok_def kMaxCollectionItemId_def)

lemma parse_index_other: "\<not> matches NUMBER_REGEX s \<Longrightarrow> parse_index A s d = Inr d"
  by (simp add: parse_index_def validate_iff)

lemma length_pieces:
  "length v = Suc 0 \<longleftrightarrow> (\<exists>a. v = [a])" "length v = 2 \<longleftrightarrow> (\<exists>a b. v = [a, b])" "length v = 3 \<longleftrightarrow> (\<exists>a b c. v = [a, b, c])"
  by (auto simp: numeral_eq_Suc length_Suc_conv)

lemma ParseTagIndexName_cases:
  assumes A: "strings_ok A"
  shows "ParseTagIndexName A s = Inr (tag, index, name) \<longleftrightarrow>
    (tag = [] \<and> index = -1 \<and> s = name \<and> matches NAME_REGEX name) \<or>
    (index = 0 \<and> s = tag @ '':'' @ name \<and> matches TAG_REGEX tag \<and> matches NAME_REGEX name) \<or>
    (\<exists>num. s = tag @ '':'' @ num @ '':'' @ name \<and> matches TAG_REGEX tag \<and> matches NUMBER_REGEX num \<and>
       matches NAME_REGEX name \<and> index = decimal_value num \<and> index \<le> kMaxCollectionItemId)"
    (is "?L \<longleftrightarrow> ?R")
proof
  assume L: ?L
  consider (1) a where "StrSplit A s = [a]" | (2) a b where "StrSplit A s = [a, b]"
    | (3) a b c where "StrSplit A s = [a, b, c]"
    using L unfolding ParseTagIndexName_def Let_def by (auto simp: length_pieces split: if_splits)
  then show ?R
  proof cases
    case (1 a)
    with L StrSplit_iff [OF A, of s "[a]"] show ?thesis
      by (auto simp: ParseTagIndexName_def Let_def validate_iff split: if_splits)
  next
    case (2 a b)
    with L StrSplit_iff [OF A, of s "[a, b]"] show ?thesis
      by (auto simp: ParseTagIndexName_def Let_def validate_iff split: if_splits)
  next
    case (3 a b c)
    then have s: "s = a @ '':'' @ b @ '':'' @ c" using StrSplit_iff [OF A, of s "[a, b, c]"] by auto
    have num: "matches NUMBER_REGEX b" "matches TAG_REGEX a" "matches NAME_REGEX c"
      "tag = a" "name = c" "parse_index A b 0 = Inr index"
      using L 3 by (auto simp: ParseTagIndexName_def Let_def validate_iff result_bind_Inr split: if_splits)
    then show ?thesis using s parse_index_number [OF A num(1)] by (auto split: if_splits)
  qed
next
  assume ?R
  then show ?L
  proof (elim disjE conjE exE)
    assume 1: "tag = []" "index = -1" "s = name" "matches NAME_REGEX name"
    then have "StrSplit A s = [name]" using StrSplit_iff [OF A, of s "[name]"] no_colon by auto
    then show ?thesis using 1 by (simp add: ParseTagIndexName_def validate_iff)
  next
    assume 2: "index = 0" "s = tag @ '':'' @ name" "matches TAG_REGEX tag" "matches NAME_REGEX name"
    then have "StrSplit A s = [tag, name]" using StrSplit_iff [OF A, of s "[tag, name]"] no_colon by auto
    then show ?thesis using 2 by (simp add: ParseTagIndexName_def validate_iff)
  next
    fix num assume 3: "s = tag @ '':'' @ num @ '':'' @ name" "matches TAG_REGEX tag" "matches NUMBER_REGEX num"
       "matches NAME_REGEX name" "index = decimal_value num" "index \<le> kMaxCollectionItemId"
    then have "StrSplit A s = [tag, num, name]" using StrSplit_iff [OF A, of s "[tag, num, name]"] no_colon by auto
    then show ?thesis using 3 parse_index_number [OF A 3(3)] by (simp add: ParseTagIndexName_def validate_iff)
  qed
qed

lemma Optional_cases:
  "matches (Sequence (Optional r) r') s \<longleftrightarrow> matches r' s \<or> matches (Sequence r r') s"
  "matches (Sequence r (Optional r')) s \<longleftrightarrow> matches r s \<or> matches (Sequence r r') s"
  by (auto simp: matches_Sequence)

lemma colon_cases:
  "matches (Sequence r (literal c)) s \<longleftrightarrow> (\<exists>t. s = t @ [c] \<and> matches r t)"
  "matches (Sequence (literal c) r) s \<longleftrightarrow> (\<exists>t. s = c # t \<and> matches r t)"
  by (auto simp: matches_Sequence literal_def)

lemma Sequence_cases: "matches (Sequence (Sequence r r') r'') s \<longleftrightarrow> (\<exists>t t' t''. s = t @ t' @ t'' \<and>
    matches r t \<and> matches r' t' \<and> matches r'' t'')"
  by (simp add: matches_Sequence) (metis append.assoc)

lemma Sequence_assoc: "matches (Sequence (Sequence r r') r'') s \<longleftrightarrow> matches (Sequence r (Sequence r' r'')) s"
  unfolding Sequence_cases by (auto simp: matches_Sequence)

lemma colon_Sequence:
  "matches (Sequence (Sequence r (literal c)) r') s \<longleftrightarrow> (\<exists>t t'. s = t @ c # t' \<and> matches r t \<and> matches r' t')"
  unfolding Sequence_cases by (auto simp: literal_def)

lemma TAG_INDEX_NAME_cases:
  "matches TAG_INDEX_NAME_REGEX s \<longleftrightarrow> matches NAME_REGEX s \<or>
     (\<exists>tag name. s = tag @ '':'' @ name \<and> matches TAG_REGEX tag \<and> matches NAME_REGEX name) \<or>
     (\<exists>tag num name. s = tag @ '':'' @ num @ '':'' @ name \<and> matches TAG_REGEX tag \<and> matches NUMBER_REGEX num \<and>
        matches NAME_REGEX name)"
proof -
  let ?T = "Sequence TAG_REGEX (literal CHR '':'')" and ?N = "Sequence NUMBER_REGEX (literal CHR '':'')"
  have "matches (Sequence (Sequence ?T (Optional ?N)) NAME_REGEX) s \<longleftrightarrow>
      matches (Sequence ?T NAME_REGEX) s \<or> matches (Sequence (Sequence ?T ?N) NAME_REGEX) s"
    unfolding matches_Sequence [of _ NAME_REGEX] Optional_cases by blast
  moreover have "matches (Sequence ?T NAME_REGEX) s \<longleftrightarrow>
      (\<exists>tag name. s = tag @ '':'' @ name \<and> matches TAG_REGEX tag \<and> matches NAME_REGEX name)"
    by (simp add: colon_Sequence)
  moreover have "matches (Sequence (Sequence ?T ?N) NAME_REGEX) s \<longleftrightarrow>
      (\<exists>tag num name. s = tag @ '':'' @ num @ '':'' @ name \<and> matches TAG_REGEX tag \<and> matches NUMBER_REGEX num \<and>
        matches NAME_REGEX name)"
    unfolding Sequence_assoc [of ?T] colon_Sequence by auto
  ultimately show ?thesis by (simp add: TAG_INDEX_NAME_REGEX_def Optional_cases(1))
qed

lemma ParseTagAndName_cases:
  assumes A: "strings_ok A"
  shows "ParseTagAndName A s = Inr (tag, name) \<longleftrightarrow>
    (tag = [] \<and> s = name \<and> matches NAME_REGEX name) \<or>
    (s = tag @ '':'' @ name \<and> matches TAG_REGEX tag \<and> matches NAME_REGEX name)"
    (is "?L \<longleftrightarrow> ?R")
proof
  assume L: ?L
  consider (1) a where "StrSplit A s = [a]" | (2) a b where "StrSplit A s = [a, b]"
    using L unfolding ParseTagAndName_def Let_def by (auto simp: length_pieces split: if_splits)
  then show ?R
  proof cases
    case (1 a)
    with L StrSplit_iff [OF A, of s "[a]"] show ?thesis
      by (auto simp: ParseTagAndName_def Let_def validate_iff split: if_splits)
  next
    case (2 a b)
    with L StrSplit_iff [OF A, of s "[a, b]"] show ?thesis
      by (auto simp: ParseTagAndName_def Let_def validate_iff split: if_splits)
  qed
next
  assume ?R
  then have "StrSplit A s = (if tag = [] then [name] else [tag, name])"
    using StrSplit_iff [OF A, of s "[name]"] StrSplit_iff [OF A, of s "[tag, name]"] no_colon regex_nonempty by auto
  with \<open>?R\<close> show ?L using regex_nonempty by (auto simp: ParseTagAndName_def Let_def validate_iff)
qed

lemma ParseTagIndex_cases:
  assumes A: "strings_ok A"
  shows "ParseTagIndex A s = Inr (tag, index) \<longleftrightarrow> (tag = [] \<or> matches TAG_REGEX tag) \<and>
    (index = 0 \<and> s = tag \<or>
     (\<exists>num. s = tag @ '':'' @ num \<and> matches NUMBER_REGEX num \<and> index = decimal_value num \<and> index \<le> kMaxCollectionItemId))"
    (is "?L \<longleftrightarrow> ?R")
proof
  assume L: ?L
  consider (1) a where "StrSplit A s = [a]" | (2) a b where "StrSplit A s = [a, b]"
    using L unfolding ParseTagIndex_def Let_def by (auto simp: length_pieces split: if_splits)
  then show ?R
  proof cases
    case (1 a)
    with L StrSplit_iff [OF A, of s "[a]"] show ?thesis
      by (auto simp: ParseTagIndex_def Let_def validate_iff split: if_splits)
  next
    case (2 a b)
    then have s: "s = a @ '':'' @ b" using StrSplit_iff [OF A, of s "[a, b]"] by auto
    have num: "matches NUMBER_REGEX b" "a = [] \<or> matches TAG_REGEX a" "tag = a" "parse_index A b (-1) = Inr index"
      using L 2 by (auto simp: ParseTagIndex_def Let_def validate_iff result_bind_Inr split: if_splits)
    then show ?thesis using s parse_index_number [OF A num(1)] by (auto split: if_splits)
  qed
next
  assume R: ?R
  then have tag: "tag = [] \<or> matches TAG_REGEX tag" "CHR '':'' \<notin> set tag" using no_colon(2) by auto
  from R consider "index = 0" "s = tag"
    | num where "s = tag @ '':'' @ num" "matches NUMBER_REGEX num" "index = decimal_value num" "index \<le> kMaxCollectionItemId"
    by blast
  then show ?L
  proof cases
    case 1
    then have "StrSplit A s = [tag]" using StrSplit_iff [OF A, of s "[tag]"] tag(2) by auto
    then show ?thesis using 1 tag(1) by (auto simp: ParseTagIndex_def Let_def validate_iff)
  next
    case (2 num)
    have "StrSplit A s = [tag, num]" using StrSplit_iff [OF A, of s "[tag, num]"] tag(2) 2 no_colon(3) by auto
    moreover have "0 \<le> decimal_value num" using decimal_value_nonneg number_digits [OF 2(2)] by blast
    ultimately show ?thesis using 2 tag(1) parse_index_number [OF A 2(2)]
      by (auto simp: ParseTagIndex_def Let_def validate_iff)
  qed
qed

lemma TAG_AND_NAME_cases:
  "matches TAG_AND_NAME_REGEX s \<longleftrightarrow> matches NAME_REGEX s \<or>
     (\<exists>tag name. s = tag @ '':'' @ name \<and> matches TAG_REGEX tag \<and> matches NAME_REGEX name)"
  by (simp add: TAG_AND_NAME_REGEX_def Optional_cases(1) colon_Sequence)

lemma TAG_INDEX_cases:
  "matches TAG_INDEX_REGEX s \<longleftrightarrow> (\<exists>tag. (tag = [] \<or> matches TAG_REGEX tag) \<and>
     (s = tag \<or> (\<exists>num. s = tag @ '':'' @ num \<and> matches NUMBER_REGEX num)))"
  by (auto simp: TAG_INDEX_REGEX_def Optional_cases(2) matches_Sequence [of "Optional TAG_REGEX"] colon_cases)

text \<open>
  The second of the pieces of a string, if it is a number, is at most the largest id of a
  collection.
\<close>

definition small_index :: "string \<Rightarrow> bool" where
  "small_index s \<longleftrightarrow> (\<forall>t num t'. (s = join_colon [t, num, t'] \<or> s = join_colon [t, num]) \<and>
     CHR '':'' \<notin> set t \<and> CHR '':'' \<notin> set t' \<and> matches NUMBER_REGEX num \<longrightarrow>
     decimal_value num \<le> kMaxCollectionItemId)"

lemma small_index_pieces:
  assumes "ps \<noteq> []" "\<forall>p \<in> set ps. CHR '':'' \<notin> set p"
  shows "small_index (join_colon ps) \<longleftrightarrow>
    ((length ps = 2 \<or> length ps = 3) \<and> matches NUMBER_REGEX (ps ! 1) \<longrightarrow> decimal_value (ps ! 1) \<le> kMaxCollectionItemId)"
proof -
  have eq: "join_colon ps = join_colon qs \<longleftrightarrow> ps = qs" if "qs \<noteq> []" "\<forall>q \<in> set qs. CHR '':'' \<notin> set q" for qs
    using join_colon_inj [OF _ assms(1) that(1) assms(2) that(2)] by blast
  then have 1: "join_colon ps = join_colon [t, num, t'] \<longleftrightarrow> ps = [t, num, t']"
    "join_colon ps = join_colon [t, num] \<longleftrightarrow> ps = [t, num]"
    if "CHR '':'' \<notin> set t" "CHR '':'' \<notin> set t'" "matches NUMBER_REGEX num" for t num t'
    using eq [of "[t, num, t']"] eq [of "[t, num]"] that no_colon(3) by (simp_all del: join_colon.simps)
  show ?thesis
  proof
    assume L: "small_index (join_colon ps)"
    show "(length ps = 2 \<or> length ps = 3) \<and> matches NUMBER_REGEX (ps ! 1) \<longrightarrow>
        decimal_value (ps ! 1) \<le> kMaxCollectionItemId"
    proof (intro impI, elim conjE disjE)
      assume "length ps = 2" "matches NUMBER_REGEX (ps ! 1)"
      moreover from this obtain a b where ps: "ps = [a, b]" by (auto simp: length_pieces)
      ultimately show "decimal_value (ps ! 1) \<le> kMaxCollectionItemId"
        using L [unfolded small_index_def, rule_format, of a b "[]"] assms(2) by auto
    next
      assume "length ps = 3" "matches NUMBER_REGEX (ps ! 1)"
      moreover from this obtain a b c where ps: "ps = [a, b, c]" by (auto simp: length_pieces)
      ultimately show "decimal_value (ps ! 1) \<le> kMaxCollectionItemId"
        using L [unfolded small_index_def, rule_format, of a b c] assms(2) by auto
    qed
  next
    assume R: "(length ps = 2 \<or> length ps = 3) \<and> matches NUMBER_REGEX (ps ! 1) \<longrightarrow>
        decimal_value (ps ! 1) \<le> kMaxCollectionItemId"
    show "small_index (join_colon ps)"
      unfolding small_index_def
    proof (intro allI impI, elim conjE disjE)
      fix t num t' assume "CHR '':'' \<notin> set t" "CHR '':'' \<notin> set t'" "matches NUMBER_REGEX num"
        "join_colon ps = join_colon [t, num, t']"
      then have "ps = [t, num, t']" "matches NUMBER_REGEX num" using 1(1) by blast+
      then show "decimal_value num \<le> kMaxCollectionItemId" using R by simp
    next
      fix t num t' assume "CHR '':'' \<notin> set t" "CHR '':'' \<notin> set (t' :: string)" "matches NUMBER_REGEX num"
        "join_colon ps = join_colon [t, num]"
      then have "ps = [t, num]" "matches NUMBER_REGEX num" using 1(2) by blast+
      then show "decimal_value num \<le> kMaxCollectionItemId" using R by simp
    qed
  qed
qed

lemma name_not_number: "matches NAME_REGEX s \<Longrightarrow> \<not> matches NUMBER_REGEX s"
proof
  assume name: "matches NAME_REGEX s" and num: "matches NUMBER_REGEX s"
  from name obtain c t where c: "s = c # t" "islower c \<or> c = CHR ''_''" unfolding NAME_REGEX_def by auto
  have "isdigit c" using number_digits [OF num] c(1) by simp
  with c(2) show False by (elim disjE) (simp_all add: islower_def isdigit_def less_eq_char_def)
qed

lemma small_index_name [simp]: "matches NAME_REGEX name \<Longrightarrow> small_index name"
  using small_index_pieces [of "[name]"] no_colon(1) [of name] by simp

lemma small_index_tag [simp]: "tag = [] \<or> matches TAG_REGEX tag \<Longrightarrow> small_index tag"
proof -
  assume "tag = [] \<or> matches TAG_REGEX tag"
  then have "CHR '':'' \<notin> set tag" using no_colon(2) [of tag] by auto
  then show "small_index tag" using small_index_pieces [of "[tag]"] by simp
qed

lemma small_index_tag_name [simp]:
  "matches TAG_REGEX tag \<Longrightarrow> matches NAME_REGEX name \<Longrightarrow> small_index (tag @ CHR '':'' # name)"
  using small_index_pieces [of "[tag, name]"] no_colon(1) [of name] no_colon(2) [of tag] name_not_number [of name]
  by simp

lemma small_index_tag_index_name [simp]:
  "matches TAG_REGEX tag \<Longrightarrow> matches NUMBER_REGEX num \<Longrightarrow> matches NAME_REGEX name \<Longrightarrow>
     small_index (tag @ CHR '':'' # num @ CHR '':'' # name) \<longleftrightarrow> decimal_value num \<le> kMaxCollectionItemId"
  using small_index_pieces [of "[tag, num, name]"] no_colon(1) [of name] no_colon(2) [of tag] no_colon(3) [of num]
  by simp

lemma small_index_tag_index [simp]:
  assumes "tag = [] \<or> matches TAG_REGEX tag" "matches NUMBER_REGEX num"
  shows "small_index (tag @ CHR '':'' # num) \<longleftrightarrow> decimal_value num \<le> kMaxCollectionItemId"
proof -
  have "CHR '':'' \<notin> set tag" using assms(1) no_colon(2) [of tag] by auto
  then show ?thesis using small_index_pieces [of "[tag, num]"] no_colon(3) [of num] assms(2) by simp
qed

lemma small_index_index [simp]:
  "matches NUMBER_REGEX num \<Longrightarrow> small_index (CHR '':'' # num) \<longleftrightarrow> decimal_value num \<le> kMaxCollectionItemId"
  using small_index_tag_index [of "[]" num] by simp

text \<open>
  C30: The parsers accept the grammar their error messages state, and nothing else. A string is
  parsed as a tag and a name, as a tag, an index and a name, or as a tag and an index, exactly
  when it matches the regular expression of the macro, with an index of at most 10000. Every
  other string, empty pieces, leading zeros, signs and numbers beyond 64 bits included, is
  an error.
\<close>
theorem parsers_accept_grammar:
  assumes "strings_ok A"
  shows "((\<exists>r. ParseTagAndName A s = Inr r) \<longleftrightarrow> matches TAG_AND_NAME_REGEX s) \<and>
    ((\<exists>r. ParseTagIndexName A s = Inr r) \<longleftrightarrow> matches TAG_INDEX_NAME_REGEX s \<and> small_index s) \<and>
    ((\<exists>r. ParseTagIndex A s = Inr r) \<longleftrightarrow> matches TAG_INDEX_REGEX s \<and> small_index s)"
proof -
  have "(\<exists>r. ParseTagAndName A s = Inr r) \<longleftrightarrow> matches TAG_AND_NAME_REGEX s"
    unfolding split_paired_Ex ParseTagAndName_cases [OF assms] TAG_AND_NAME_cases by blast
  moreover have "(\<exists>r. ParseTagIndexName A s = Inr r) \<longleftrightarrow> matches TAG_INDEX_NAME_REGEX s \<and> small_index s"
  proof
    assume "\<exists>r. ParseTagIndexName A s = Inr r"
    then show "matches TAG_INDEX_NAME_REGEX s \<and> small_index s"
      unfolding split_paired_Ex ParseTagIndexName_cases [OF assms] TAG_INDEX_NAME_cases by auto
  next
    assume R: "matches TAG_INDEX_NAME_REGEX s \<and> small_index s"
    then have small: "small_index s" by simp
    from R consider "matches NAME_REGEX s"
      | tag name where "s = tag @ '':'' @ name" "matches TAG_REGEX tag" "matches NAME_REGEX name"
      | tag num name where "s = tag @ '':'' @ num @ '':'' @ name" "matches TAG_REGEX tag" "matches NUMBER_REGEX num"
          "matches NAME_REGEX name"
      unfolding TAG_INDEX_NAME_cases by blast
    then show "\<exists>r. ParseTagIndexName A s = Inr r"
    proof cases
      case 1
      then show ?thesis using ParseTagIndexName_cases [OF assms] by blast
    next
      case 2
      then show ?thesis using ParseTagIndexName_cases [OF assms] by blast
    next
      case (3 tag num name)
      then have "decimal_value num \<le> kMaxCollectionItemId" using small by simp
      with 3 show ?thesis using ParseTagIndexName_cases [OF assms] by blast
    qed
  qed
  moreover have "(\<exists>r. ParseTagIndex A s = Inr r) \<longleftrightarrow> matches TAG_INDEX_REGEX s \<and> small_index s"
  proof
    assume "\<exists>r. ParseTagIndex A s = Inr r"
    then show "matches TAG_INDEX_REGEX s \<and> small_index s"
      unfolding split_paired_Ex ParseTagIndex_cases [OF assms] TAG_INDEX_cases by auto
  next
    assume R: "matches TAG_INDEX_REGEX s \<and> small_index s"
    then obtain tag where tag: "tag = [] \<or> matches TAG_REGEX tag"
      "s = tag \<or> (\<exists>num. s = tag @ '':'' @ num \<and> matches NUMBER_REGEX num)" unfolding TAG_INDEX_cases by blast
    show "\<exists>r. ParseTagIndex A s = Inr r"
    proof (cases "s = tag")
      case True
      then show ?thesis using ParseTagIndex_cases [OF assms] tag(1) by blast
    next
      case False
      then obtain num where num: "s = tag @ '':'' @ num" "matches NUMBER_REGEX num" using tag(2) by blast
      then have "decimal_value num \<le> kMaxCollectionItemId" using R tag(1) by simp
      then show ?thesis using ParseTagIndex_cases [OF assms] tag(1) num by blast
    qed
  qed
  ultimately show ?thesis by blast
qed

subsection \<open>A string library\<close>

text \<open>Functions that do what the code relies on, for the examples.\<close>

fun split_colon :: "string \<Rightarrow> string list" where
  "split_colon [] = [[]]"
| "split_colon (c # s) =
     (if c = CHR '':'' then [] # split_colon s
      else case split_colon s of [] \<Rightarrow> [[c]] | p # ps \<Rightarrow> (c # p) # ps)"

fun show_nat :: "nat \<Rightarrow> string" where
  "show_nat n = (if n < 10 then [char_of (48 + n)] else show_nat (n div 10) @ [char_of (48 + n mod 10)])"

declare show_nat.simps [simp del]

definition reference_strings :: strings where
  "reference_strings = \<lparr>StrSplit = split_colon,
     SimpleAtoi = (\<lambda>s. if s \<noteq> [] \<and> list_all isdigit s \<and> decimal_value s \<le> 9223372036854775807
        then Some (decimal_value s) else None),
     StrCat_int = (\<lambda>n. show_nat (nat n))\<rparr>"

lemma split_colon_ok:
  "split_colon s \<noteq> [] \<and> (\<forall>p \<in> set (split_colon s). CHR '':'' \<notin> set p) \<and> join_colon (split_colon s) = s"
proof (induction s)
  case (Cons c s)
  obtain p ps where ps: "split_colon s = p # ps" using Cons by (cases "split_colon s") auto
  then show ?case using Cons by (cases ps) auto
qed simp

lemma digit_char: "n < 10 \<Longrightarrow> isdigit (char_of (48 + n)) \<and> digit_value (char_of (48 + n)) = int n"
  "n < 10 \<Longrightarrow> 0 < n \<Longrightarrow> CHR ''1'' \<le> char_of (48 + n) \<and> char_of (48 + n) \<le> CHR ''9''"
  by (auto simp: isdigit_def digit_value_def less_eq_char_def of_char_of)

lemma decimal_value_snoc: "decimal_value (s @ [c]) = decimal_value s * 10 + digit_value c"
  by (simp add: decimal_value_def)

lemma show_nat_ok: "matches NUMBER_REGEX (show_nat n) \<and> decimal_value (show_nat n) = int n \<and>
  (0 < n \<longrightarrow> hd (show_nat n) \<noteq> CHR ''0'')"
proof (induction n rule: show_nat.induct)
  case (1 n)
  show ?case
  proof (cases "n < 10")
    case True
    then have "show_nat n = [char_of (48 + n)]" by (simp add: show_nat.simps)
    moreover have "char_of (48 :: nat) = CHR ''0''" by code_simp
    ultimately show ?thesis using True digit_char [of n] digit_split(2)
      by (cases "n = 0") (auto simp: NUMBER_REGEX_def literal_def decimal_value_def)
  next
    case False
    let ?d = "char_of (48 + n mod 10) :: char" and ?s = "show_nat (n div 10)"
    have IH: "matches NUMBER_REGEX ?s" "decimal_value ?s = int (n div 10)" "hd ?s \<noteq> CHR ''0''"
      using 1 [OF False] False by auto
    obtain c t where c: "?s = c # t" using regex_nonempty(3) IH(1) by (cases ?s) auto
    have "matches NUMBER_REGEX (?s @ [?d])"
      using IH(1,3) digit_char(1) [of "n mod 10"] by (auto simp: NUMBER_REGEX_def literal_def c)
    moreover have "decimal_value (?s @ [?d]) = int n"
      using IH(2) digit_char(1) [of "n mod 10"] by (simp add: decimal_value_snoc zdiv_int zmod_int)
    ultimately show ?thesis using False IH(3) c by (simp add: show_nat.simps [of n])
  qed
qed

lemma reference_strings_ok: "strings_ok reference_strings"
  using split_colon_ok show_nat_ok by (auto simp: strings_ok_def reference_strings_def validate_iff)

theorem parsers_accept_grammar_witness:
  "matches TAG_INDEX_NAME_REGEX ''VIDEO:2:name_b'' \<and> \<not> (\<exists>r. ParseTagAndName reference_strings ''VIDEO:2:name_b'' = Inr r)
     \<and> \<not> matches TAG_AND_NAME_REGEX ''VIDEO:2:name_b''"
proof -
  have "ParseTagIndexName reference_strings ''VIDEO:2:name_b'' = Inr (''VIDEO'', 2, ''name_b'')"
    "ParseTagAndName reference_strings ''VIDEO:2:name_b'' = Inl InvalidArgument" by code_simp+
  then show ?thesis using parsers_accept_grammar [OF reference_strings_ok, of "''VIDEO:2:name_b''"] by simp
qed

end
