(* ===== verification/TagMapLookup.thy ===== *)
theory TagMapLookup
  imports TagMap NameGrammar
begin

section \<open>What a tag map finds\<close>

text \<open>
  The ids of a tag map created from the entries of a config: they number the pairs of a tag and
  an index without gaps, \<open>GetId\<close> and \<open>TagAndIndexFromId\<close> are inverse to each other, and the name
  at the id of an entry is the one the entry gives.
\<close>

subsection \<open>Ordered maps\<close>

abbreviation sorted_keys :: "('k::linorder \<times> 'v) list \<Rightarrow> bool" where
  "sorted_keys xs \<equiv> sorted_wrt (<) (map fst xs)"

lemma set_update_key: "fst ` set (update_key k v xs) = insert k (fst ` set xs)"
  by (induction xs rule: update_key.induct) auto

lemma sorted_update_key: "sorted_keys xs \<Longrightarrow> sorted_keys (update_key k v xs)"
proof (induction xs rule: update_key.induct)
  case (2 k v k' v' xs)
  have "\<forall>x \<in> fst ` set (update_key k v xs). k' < x" if "k' < k"
    using 2(2) that by (simp add: set_update_key)
  with 2 show ?case by (auto simp: not_less)
qed simp

lemma map_of_update_key: "sorted_keys xs \<Longrightarrow> map_of (update_key k v xs) = (map_of xs)(k \<mapsto> v)"
proof (induction xs rule: update_key.induct)
  case (2 k v k' v' xs)
  then show ?case by (auto simp: fun_eq_iff)
qed simp

lemma lookup_update_key:
  "sorted_keys xs \<Longrightarrow> lookup_key d (update_key k v xs) k' = (if k' = k then v else lookup_key d xs k')"
  by (simp add: lookup_key_def map_of_update_key)

lemma keys_update_key: "map fst xs = map fst ys \<Longrightarrow> map fst (update_key k v xs) = map fst (update_key k w ys)"
proof (induction xs arbitrary: ys)
  case (Cons x xs)
  then obtain y ys' where "ys = y # ys'" by (cases ys) auto
  with Cons show ?case by (cases x; cases y) auto
qed simp

lemma sum_update_key:
  fixes f :: "'v \<Rightarrow> nat"
  assumes "sorted_keys xs" "f d = 0"
  shows "(\<Sum>(k', v) \<leftarrow> update_key k v xs. f v) + f (lookup_key d xs k) = (\<Sum>(k', v) \<leftarrow> xs. f v) + f v"
  using assms(1)
proof (induction xs)
  case Nil
  then show ?case by (simp add: lookup_key_def assms(2))
next
  case (Cons x xs)
  obtain k' v' where x: "x = (k', v')" by (cases x)
  have "map_of xs k = None" if "k < k'"
    using Cons.prems x that by (fastforce simp: map_of_eq_None_iff)
  moreover have "k \<noteq> k' \<Longrightarrow> lookup_key d (x # xs) k = lookup_key d xs k" by (simp add: lookup_key_def x)
  ultimately show ?case using Cons x by (auto simp: lookup_key_def assms(2))
qed

lemma lookup_key_mem: "sorted_keys xs \<Longrightarrow> (k, v) \<in> set xs \<Longrightarrow> lookup_key d xs k = v"
proof -
  assume "sorted_keys xs" "(k, v) \<in> set xs"
  moreover from this(1) have "distinct (map fst xs)" by (simp add: strict_sorted_iff)
  ultimately show ?thesis by (simp add: lookup_key_def)
qed

subsection \<open>The numbering of the ids\<close>

fun numbered :: "(string \<times> tag_data) list \<Rightarrow> int \<Rightarrow> int \<Rightarrow> bool" where
  "numbered [] k n \<longleftrightarrow> k = n"
| "numbered ((tag, data) # ms) k n \<longleftrightarrow> td_id data = k \<and> 0 < td_count data \<and> numbered ms (k + td_count data) n"

definition tag_map_ok :: "tag_map \<Rightarrow> bool" where
  "tag_map_ok m \<longleftrightarrow> sorted_keys (mapping m) \<and> numbered (mapping m) 0 (num_entries m)"

lemma numbered_bounds:
  "numbered ms k n \<Longrightarrow> (tag, data) \<in> set ms \<Longrightarrow> k \<le> td_id data \<and> 0 < td_count data \<and> td_id data + td_count data \<le> n"
proof (induction ms arbitrary: k)
  case (Cons x ms)
  obtain t d where [simp]: "x = (t, d)" by (cases x)
  have le: "numbered ms k n \<Longrightarrow> k \<le> n" for k ms
    by (induction ms arbitrary: k) (fastforce split: prod.splits)+
  show ?case using Cons le [of ms "k + td_count d"] by fastforce
qed simp

lemma numbered_owner:
  assumes "numbered ms k n" "k \<le> i" "i < n"
  shows "\<exists>tag data. (tag, data) \<in> set ms \<and> td_id data \<le> i \<and> i < td_id data + td_count data \<and>
    filter (\<lambda>(tag, data). td_id data \<le> i \<and> i < td_id data + td_count data) ms = [(tag, data)]"
  using assms
proof (induction ms arbitrary: k)
  case (Cons x ms)
  obtain t d where x: "x = (t, d)" by (cases x)
  show ?case
  proof (cases "i < k + td_count d")
    case True
    have "\<not> (td_id d' \<le> i)" if "(t', d') \<in> set ms" for t' d'
      using numbered_bounds [of ms "k + td_count d" n t' d'] Cons.prems(1) x that True by auto
    then have "filter (\<lambda>(tag, data). td_id data \<le> i \<and> i < td_id data + td_count data) ms = []"
      by (auto simp: filter_empty_conv)
    then show ?thesis using True Cons.prems x by auto
  next
    case False
    then have "numbered ms (k + td_count d) n" "k + td_count d \<le> i" using Cons.prems(1) x by auto
    from Cons.IH [OF this Cons.prems(3)] obtain tag data where "(tag, data) \<in> set ms"
      "td_id data \<le> i" "i < td_id data + td_count data"
      "filter (\<lambda>(tag, data). td_id data \<le> i \<and> i < td_id data + td_count data) ms = [(tag, data)]" by blast
    then show ?thesis using False Cons.prems(1) x by auto
  qed
qed simp

lemma tag_map_ids:
  assumes "tag_map_ok m"
  shows "0 \<le> i \<and> i < NumEntries m tag \<Longrightarrow> 0 \<le> GetId m tag i \<and> GetId m tag i < num_entries m \<and>
      TagAndIndexFromId m (GetId m tag i) = (tag, i)"
    and "0 \<le> item \<and> item < num_entries m \<Longrightarrow> TagAndIndexFromId m item = (tag, i) \<Longrightarrow>
      0 \<le> i \<and> i < NumEntries m tag \<and> GetId m tag i = item"
proof -
  have dist: "distinct (map fst (mapping m))" using assms by (simp add: tag_map_ok_def strict_sorted_iff)
  have num: "numbered (mapping m) 0 (num_entries m)" using assms by (simp add: tag_map_ok_def)
  assume i: "0 \<le> i \<and> i < NumEntries m tag"
  then obtain data where data: "map_of (mapping m) tag = Some data" "i < td_count data"
    by (auto simp: NumEntries_def split: option.splits)
  then have mem: "(tag, data) \<in> set (mapping m)" by (simp add: map_of_SomeD)
  have id: "GetId m tag i = td_id data + i" using i data by (simp add: GetId_def)
  note b = numbered_bounds [OF num mem]
  then have range: "0 \<le> GetId m tag i" "GetId m tag i < num_entries m" using i data(2) id by auto
  from numbered_owner [OF num this] obtain tag' data' where o: "(tag', data') \<in> set (mapping m)"
    "filter (\<lambda>(t, d). td_id d \<le> GetId m tag i \<and> GetId m tag i < td_id d + td_count d) (mapping m) = [(tag', data')]"
    by blast
  have "(tag, data) \<in> set (filter (\<lambda>(t, d). td_id d \<le> GetId m tag i \<and> GetId m tag i < td_id d + td_count d) (mapping m))"
    using mem i data(2) id by simp
  then have "(tag', data') = (tag, data)" unfolding o(2) by simp
  then show "0 \<le> GetId m tag i \<and> GetId m tag i < num_entries m \<and> TagAndIndexFromId m (GetId m tag i) = (tag, i)"
    using range o(2) id by (simp add: TagAndIndexFromId_def)
next
  have dist: "distinct (map fst (mapping m))" using assms by (simp add: tag_map_ok_def strict_sorted_iff)
  have num: "numbered (mapping m) 0 (num_entries m)" using assms by (simp add: tag_map_ok_def)
  assume item: "0 \<le> item \<and> item < num_entries m" and tag: "TagAndIndexFromId m item = (tag, i)"
  from numbered_owner [OF num] item obtain tag' data where o: "(tag', data) \<in> set (mapping m)"
    "td_id data \<le> item" "item < td_id data + td_count data"
    "filter (\<lambda>(t, d). td_id d \<le> item \<and> item < td_id d + td_count d) (mapping m) = [(tag', data)]" by blast
  then have "tag' = tag" "i = item - td_id data" using tag by (simp_all add: TagAndIndexFromId_def)
  moreover have "map_of (mapping m) tag' = Some data" using o(1) dist by simp
  ultimately show "0 \<le> i \<and> i < NumEntries m tag \<and> GetId m tag i = item"
    using o(2,3) by (simp add: NumEntries_def GetId_def)
qed

subsection \<open>The entries\<close>

definition tag_of :: "strings \<Rightarrow> string \<Rightarrow> string" where
  "tag_of A s = (case ParseTagIndexName A s of Inr (tag, _, _) \<Rightarrow> tag | Inl _ \<Rightarrow> [])"

definition name_of :: "strings \<Rightarrow> string \<Rightarrow> string" where
  "name_of A s = (case ParseTagIndexName A s of Inr (_, _, name) \<Rightarrow> name | Inl _ \<Rightarrow> [])"

text \<open>The index of entry \<open>k\<close>: the one it gives, or the number of entries without a tag before it.\<close>

definition index_of :: "strings \<Rightarrow> string list \<Rightarrow> nat \<Rightarrow> int" where
  "index_of A es k =
     (case ParseTagIndexName A (es ! k) of
        Inr (tag, index, _) \<Rightarrow>
          if index = -1 then int (length (filter (\<lambda>s. tag_of A s = tag) (take k es))) else index
      | Inl _ \<Rightarrow> -1)"

definition used :: "string list \<Rightarrow> nat" where
  "used ns = length (filter (\<lambda>n. n \<noteq> []) ns)"

definition count_of :: "(string \<times> tag_data) list \<Rightarrow> string \<Rightarrow> int" where
  "count_of ms tag = td_count (lookup_key \<lparr>td_id = -1, td_count = 0\<rparr> ms tag)"

definition entries_inv :: "strings \<Rightarrow> string list \<Rightarrow> tag_maps \<Rightarrow> bool" where
  "entries_inv A es maps = (case maps of (ms, ttn) \<Rightarrow>
     map fst ms = map fst ttn \<and> sorted_keys ms \<and>
     (\<forall>tag. count_of ms tag = int (used (lookup_key [] ttn tag)) \<and>
        count_of ms tag = int (length (filter (\<lambda>s. tag_of A s = tag) es))) \<and>
     (\<forall>tag \<in> fst ` set ms. 0 < count_of ms tag) \<and>
     (\<Sum>(tag, ns) \<leftarrow> ttn. used ns) = length es \<and>
     (\<forall>k < length es. 0 \<le> index_of A es k \<and>
        nat (index_of A es k) < length (lookup_key [] ttn (tag_of A (es ! k))) \<and>
        lookup_key [] ttn (tag_of A (es ! k)) ! nat (index_of A es k) = name_of A (es ! k) \<and>
        name_of A (es ! k) \<noteq> []))"

lemma used_update: "i < length ns \<Longrightarrow> ns ! i = [] \<Longrightarrow> n \<noteq> [] \<Longrightarrow> used (ns[i := n]) = Suc (used ns)"
proof (induction ns arbitrary: i)
  case (Cons x ns)
  then show ?case by (cases i) (auto simp: used_def)
qed simp

lemma used_append_empty: "used (ns @ replicate k []) = used ns"
  by (simp add: used_def)

lemma used_le: "used ns \<le> length ns"
  by (simp add: used_def)

lemma index_of_append: "k < length es \<Longrightarrow> index_of A (es @ es') k = index_of A es k"
  by (simp add: index_of_def nth_append split: sum.splits)

lemma parsed_entry:
  assumes "strings_ok A" "ParseTagIndexName A s = Inr (tag, index, name)"
  shows "name \<noteq> []" "index = -1 \<longleftrightarrow> tag = []" "-1 \<le> index" "tag_of A s = tag" "name_of A s = name"
  using assms(2) ParseTagIndexName_cases [OF assms(1), of s tag index name] regex_nonempty decimal_value_nonneg number_digits
  by (fastforce simp: tag_of_def name_of_def)+

lemma add_entry_parts:
  assumes "strings_ok A" "\<And>tag. 0 \<le> count_of ms tag" "add_entry A s (ms, ttn) = Inr (ms', ttn')"
  obtains tag index name ns i where "ParseTagIndexName A s = Inr (tag, index, name)"
    "i = (if index = -1 then count_of ms tag else index)" "0 \<le> i"
    "ns = lookup_key [] ttn tag @ replicate (nat i + 1 - length (lookup_key [] ttn tag)) []"
    "ns ! nat i = []"
    "ms' = update_key tag ((lookup_key \<lparr>td_id = -1, td_count = 0\<rparr> ms tag)\<lparr>td_count := count_of ms tag + 1\<rparr>) ms"
    "ttn' = update_key tag (ns[nat i := name]) ttn"
proof -
  obtain tag index name where p: "ParseTagIndexName A s = Inr (tag, index, name)"
    using assms by (cases "ParseTagIndexName A s") (auto simp: add_entry_def)
  let ?i = "if index = -1 then count_of ms tag else index"
  let ?ns = "lookup_key [] ttn tag"
  have i: "0 \<le> ?i" using assms(2) parsed_entry(3) [OF assms(1) p] by simp
  then have ns: "(if int (length ?ns) \<le> ?i then ?ns @ replicate (nat ?i + 1 - length ?ns) [] else ?ns) =
      ?ns @ replicate (nat ?i + 1 - length ?ns) []" by auto
  from assms(3) show thesis
    using that [OF p HOL.refl i HOL.refl] ns
    by (simp add: add_entry_def p Let_def count_of_def split: if_splits)
qed

lemma entries_inv_add:
  assumes A: "strings_ok A" and inv: "entries_inv A es (ms, ttn)"
    and add: "add_entry A s (ms, ttn) = Inr (ms', ttn')"
  shows "entries_inv A (es @ [s]) (ms', ttn')"
proof -
  have i: "map fst ms = map fst ttn" "sorted_keys ms" "sorted_keys ttn"
    "\<And>tag. count_of ms tag = int (used (lookup_key [] ttn tag))"
    "\<And>tag. count_of ms tag = int (length (filter (\<lambda>s. tag_of A s = tag) es))"
    "\<And>tag. tag \<in> fst ` set ms \<Longrightarrow> 0 < count_of ms tag"
    "(\<Sum>(tag, ns) \<leftarrow> ttn. used ns) = length es"
    "\<And>k. k < length es \<Longrightarrow> 0 \<le> index_of A es k \<and>
        nat (index_of A es k) < length (lookup_key [] ttn (tag_of A (es ! k))) \<and>
        lookup_key [] ttn (tag_of A (es ! k)) ! nat (index_of A es k) = name_of A (es ! k) \<and> name_of A (es ! k) \<noteq> []"
    using inv unfolding entries_inv_def prod.case by (blast, blast, metis, blast, blast, blast, blast, blast)
  have nonneg: "0 \<le> count_of ms t" for t using i(5) by simp
  obtain tag index name ns j where
    p: "ParseTagIndexName A s = Inr (tag, index, name)"
    and j: "j = (if index = -1 then count_of ms tag else index)" "0 \<le> j"
    and ns: "ns = lookup_key [] ttn tag @ replicate (nat j + 1 - length (lookup_key [] ttn tag)) []" "ns ! nat j = []"
    and ms': "ms' = update_key tag ((lookup_key \<lparr>td_id = -1, td_count = 0\<rparr> ms tag)\<lparr>td_count := count_of ms tag + 1\<rparr>) ms"
    and ttn': "ttn' = update_key tag (ns[nat j := name]) ttn"
    by (rule add_entry_parts [OF A nonneg add])
  note e = parsed_entry [OF A p]
  have len: "nat j < length ns" using ns(1) by auto
  have used: "used (ns[nat j := name]) = Suc (used (lookup_key [] ttn tag))"
    using used_update [OF len ns(2) e(1)] by (simp add: ns(1) used_append_empty)
  have look: "lookup_key [] ttn' t = (if t = tag then ns[nat j := name] else lookup_key [] ttn t)" for t
    by (simp add: ttn' lookup_update_key [OF i(3)])
  have count: "count_of ms' t = count_of ms t + (if t = tag then 1 else 0)" for t
    by (simp add: ms' count_of_def lookup_update_key [OF i(2)])
  have idx: "index_of A (es @ [s]) (length es) = j"
    using j(1) i(5) [of tag] by (simp add: index_of_def p)
  have keys: "map fst ms' = map fst ttn'" unfolding ms' ttn' by (rule keys_update_key [OF i(1)])
  have entry: "0 \<le> index_of A (es @ [s]) k \<and>
      nat (index_of A (es @ [s]) k) < length (lookup_key [] ttn' (tag_of A ((es @ [s]) ! k))) \<and>
      lookup_key [] ttn' (tag_of A ((es @ [s]) ! k)) ! nat (index_of A (es @ [s]) k) = name_of A ((es @ [s]) ! k) \<and>
      name_of A ((es @ [s]) ! k) \<noteq> []" if "k < length (es @ [s])" for k
  proof (cases "k = length es")
    case True
    then show ?thesis using j(2) idx len e by (simp add: look)
  next
    case False
    then have k: "k < length es" using that by simp
    have "nat j \<noteq> nat (index_of A es k)" if "tag_of A (es ! k) = tag"
    proof
      assume "nat j = nat (index_of A es k)"
      then show False using i(8) [OF k] that ns by (auto simp: nth_append)
    qed
    then show ?thesis using i(8) [OF k] k
      by (auto simp: look index_of_append nth_append ns(1))
  qed
  have "(\<Sum>(tag, ns) \<leftarrow> ttn'. used ns) = length (es @ [s])"
    using sum_update_key [OF i(3), of used "[]" tag "ns[nat j := name]"] i(7) used
    by (simp add: ttn' used_def)
  moreover have "sorted_keys ms'" using i(2) by (simp add: ms' sorted_update_key)
  moreover have "count_of ms' t = int (used (lookup_key [] ttn' t)) \<and>
      count_of ms' t = int (length (filter (\<lambda>s. tag_of A s = t) (es @ [s])))" for t
    using i(4,5) [of t] used e(4) by (simp add: count look)
  moreover have "0 < count_of ms' t" if "t \<in> fst ` set ms'" for t
  proof -
    have "t = tag \<or> t \<in> fst ` set ms" using that unfolding ms' set_update_key by simp
    then show ?thesis using i(6) [of t] nonneg [of tag] by (auto simp: count)
  qed
  ultimately show ?thesis using keys entry unfolding entries_inv_def prod.case by blast
qed

lemma add_entries_inv:
  "strings_ok A \<Longrightarrow> entries_inv A es maps \<Longrightarrow> add_entries A ss maps = Inr maps' \<Longrightarrow> entries_inv A (es @ ss) maps'"
proof (induction ss arbitrary: es maps)
  case (Cons s ss)
  obtain ms ttn where [simp]: "maps = (ms, ttn)" by (cases maps)
  from Cons.prems(3) obtain ms1 ttn1 where 1: "add_entry A s (ms, ttn) = Inr (ms1, ttn1)"
    "add_entries A ss (ms1, ttn1) = Inr maps'" by (auto simp: result_bind_Inr)
  have "entries_inv A (es @ [s]) (ms1, ttn1)"
    by (rule entries_inv_add [OF Cons.prems(1) _ 1(1)]) (use Cons.prems(2) in simp)
  from Cons.IH [OF Cons.prems(1) this 1(2)] show ?case by simp
qed simp

lemma entries_inv_start: "entries_inv A [] ([], [])"
  by (simp add: entries_inv_def count_of_def lookup_key_def used_def)

subsection \<open>The finished map\<close>

lemma assign_ids_keys: "assign_ids ttn ms k = Inr (ms', n) \<Longrightarrow> map fst ms' = map fst ms"
  by (induction ms arbitrary: k ms') (auto simp: result_bind_Inr split: if_splits)

lemma assign_ids_numbered:
  "assign_ids ttn ms k = Inr (ms', n) \<Longrightarrow> \<forall>(tag, data) \<in> set ms. 0 < td_count data \<Longrightarrow> numbered ms' k n"
proof (induction ms arbitrary: k ms')
  case (Cons x ms)
  obtain t d where "x = (t, d)" by (cases x)
  then show ?case using Cons by (fastforce simp: result_bind_Inr split: if_splits)
qed simp

lemma assign_ids_counts:
  "assign_ids ttn ms k = Inr (ms', n) \<Longrightarrow> (tag, d) \<in> set ms \<Longrightarrow> td_count d = int (length (lookup_key [] ttn tag))"
  by (induction ms arbitrary: k ms') (auto simp: result_bind_Inr split: if_splits)

text \<open>The names of a tag stand at its ids, when the names are those of the tags, in order.\<close>

lemma assign_ids_names:
  "assign_ids ttn ms k = Inr (ms', n) \<Longrightarrow> 0 \<le> k \<Longrightarrow> \<forall>(tag, data) \<in> set ms. 0 < td_count data \<Longrightarrow>
   (tag, data) \<in> set ms' \<Longrightarrow>
   td_count data = int (length (lookup_key [] ttn tag)) \<and> k \<le> td_id data \<and>
   (\<forall>i < length (lookup_key [] ttn tag).
      concat (map (\<lambda>(t, _). lookup_key [] ttn t) ms) ! nat (td_id data - k + int i) = lookup_key [] ttn tag ! i)"
proof (induction ms arbitrary: k ms')
  case (Cons x ms)
  obtain t d where x: "x = (t, d)" by (cases x)
  let ?ns = "lookup_key [] ttn t"
  have d: "td_count d = int (length ?ns)" and pos: "0 < td_count d"
    using Cons.prems(1,3) x by (auto split: if_splits)
  obtain ms1 where 1: "assign_ids ttn ms (k + td_count d) = Inr (ms1, n)" "ms' = (t, d\<lparr>td_id := k\<rparr>) # ms1"
    using Cons.prems(1) x d by (auto simp: result_bind_Inr)
  show ?case
  proof (cases "(tag, data) \<in> set ms1")
    case True
    have IH: "td_count data = int (length (lookup_key [] ttn tag)) \<and> k + td_count d \<le> td_id data \<and>
      (\<forall>i < length (lookup_key [] ttn tag).
        concat (map (\<lambda>(t, _). lookup_key [] ttn t) ms) ! nat (td_id data - (k + td_count d) + int i) =
        lookup_key [] ttn tag ! i)"
      using Cons.IH [OF 1(1) _ _ True] Cons.prems(2,3) pos by simp
    have "nat (td_id data - k + int i) = length ?ns + nat (td_id data - (k + td_count d) + int i)" for i
    proof -
      have "k + int (length ?ns) \<le> td_id data" using IH d by simp
      then show ?thesis unfolding d by arith
    qed
    then show ?thesis using IH pos by (simp add: x nth_append)
  next
    case False
    then have "tag = t" "data = d\<lparr>td_id := k\<rparr>" using Cons.prems(4) 1(2) by auto
    then show ?thesis using d by (simp add: x nth_append)
  qed
qed simp

lemma map_lookup_keys:
  assumes "sorted_keys ttn" "map fst ms = map fst ttn"
  shows "map (\<lambda>(t, _). lookup_key [] ttn t) ms = map snd ttn"
proof -
  have "map (\<lambda>(t, _). lookup_key [] ttn t) ms = map (lookup_key [] ttn) (map fst ms)" by (simp add: split_def)
  also have "\<dots> = map (\<lambda>(t, _). lookup_key [] ttn t) ttn" unfolding assms(2) by (simp add: split_def)
  also have "\<dots> = map snd ttn"
    using lookup_key_mem [OF assms(1)] by (intro map_cong HOL.refl) auto
  finally show ?thesis .
qed

lemma assign_ids_total:
  "assign_ids ttn ms k = Inr (ms', n) \<Longrightarrow> n = k + int (length (concat (map (\<lambda>(t, _). lookup_key [] ttn t) ms)))"
proof (induction ms arbitrary: k ms')
  case (Cons x ms)
  obtain t d where "x = (t, d)" by (cases x)
  then show ?case using Cons by (fastforce simp: result_bind_Inr split: if_splits)
qed simp

lemma Create_parts:
  assumes A: "strings_ok A" and create: "Create A es = Inr m"
  shows "tag_map_ok m"
    and "num_entries m = int (length es)"
    and "k < length es \<Longrightarrow> 0 \<le> index_of A es k \<and> index_of A es k < NumEntries m (tag_of A (es ! k)) \<and>
      names m ! nat (GetId m (tag_of A (es ! k)) (index_of A es k)) = name_of A (es ! k)"
    and "length (names m) = length es"
proof -
  from create obtain ms ttn where maps: "add_entries A es ([], []) = Inr (ms, ttn)"
    and ids: "assign_ids ttn ms 0 = Inr (mapping m, num_entries m)" and names: "names m = concat (map snd ttn)"
    by (auto simp: Create_def InitializeNames_def result_bind_Inr)
  have inv: "entries_inv A es (ms, ttn)" using add_entries_inv [OF A entries_inv_start maps] by simp
  have i: "map fst ms = map fst ttn" "sorted_keys ms" "sorted_keys ttn"
    "\<And>tag. count_of ms tag = int (used (lookup_key [] ttn tag))"
    "\<And>tag. tag \<in> fst ` set ms \<Longrightarrow> 0 < count_of ms tag"
    "(\<Sum>(tag, ns) \<leftarrow> ttn. used ns) = length es"
    using inv unfolding entries_inv_def prod.case by (blast, blast, metis, blast, blast, blast)
  have pos: "\<forall>(tag, data) \<in> set ms. 0 < td_count data"
    using i(5) lookup_key_mem [OF i(2)] by (force simp: count_of_def)
  have mk: "map (\<lambda>(t, _). lookup_key [] ttn t) ms = map snd ttn" by (rule map_lookup_keys [OF i(3,1)])
  have keys: "map fst (mapping m) = map fst ms" by (rule assign_ids_keys [OF ids])
  show ok: "tag_map_ok m"
    using assign_ids_numbered [OF ids pos] i(2) keys by (simp add: tag_map_ok_def)
  have all: "td_count data = int (length (lookup_key [] ttn tag)) \<and> 0 \<le> td_id data \<and>
      (\<forall>j < length (lookup_key [] ttn tag). names m ! nat (td_id data + int j) = lookup_key [] ttn tag ! j)"
    if "(tag, data) \<in> set (mapping m)" for tag data
    using assign_ids_names [OF ids _ pos that] by (simp add: names mk)
  have full: "used ns = length ns" if "(tag, ns) \<in> set ttn" for tag ns
  proof -
    have "tag \<in> set (map fst ms)" unfolding i(1) using that by force
    then obtain d where d: "(tag, d) \<in> set ms" by auto
    have "lookup_key [] ttn tag = ns" by (rule lookup_key_mem [OF i(3) that])
    then show ?thesis
      using i(4) [of tag] assign_ids_counts [OF ids d] lookup_key_mem [OF i(2) d] by (simp add: count_of_def)
  qed
  then have "(\<Sum>(tag, ns) \<leftarrow> ttn. used ns) = length (concat (map snd ttn))"
    by (auto simp: length_concat split_def comp_def intro!: arg_cong [of _ _ sum_list] map_cong)
  then show "num_entries m = int (length es)"
    using assign_ids_total [OF ids] i(6) by (simp add: mk)
  then show "length (names m) = length es" using assign_ids_total [OF ids] by (simp add: mk names)
  assume k: "k < length es"
  let ?t = "tag_of A (es ! k)"
  have e: "0 \<le> index_of A es k" "nat (index_of A es k) < length (lookup_key [] ttn ?t)"
    "lookup_key [] ttn ?t ! nat (index_of A es k) = name_of A (es ! k)"
    using inv k unfolding entries_inv_def prod.case by blast+
  then have "lookup_key [] ttn ?t \<noteq> []" by auto
  then have "?t \<in> fst ` set ttn" by (force simp: lookup_key_def image_iff dest: map_of_SomeD split: option.splits)
  then obtain data where mem: "(?t, data) \<in> set (mapping m)" using keys i(1) by (metis (no_types, lifting) image_iff list.set_map prod.collapse)
  have "distinct (map fst (mapping m))" using ok by (simp add: tag_map_ok_def strict_sorted_iff)
  then have "map_of (mapping m) ?t = Some data" using mem by simp
  then show "0 \<le> index_of A es k \<and> index_of A es k < NumEntries m ?t \<and>
      names m ! nat (GetId m ?t (index_of A es k)) = name_of A (es ! k)"
    using e all [OF mem] by (auto simp: NumEntries_def GetId_def)
qed

subsection \<open>The properties\<close>

text \<open>
  C31: Ids and pairs of a tag and an index correspond one to one. For every list of entries from
  which a tag map can be created, \<open>GetId\<close> takes each index of each tag to an id below the number of
  entries, \<open>TagAndIndexFromId\<close> takes it back, and every id comes from one pair.
\<close>
theorem tag_map_ids_roundtrip:
  assumes "strings_ok A" and "Create A es = Inr m"
  shows "(\<forall>tag i. 0 \<le> i \<and> i < NumEntries m tag \<longrightarrow> 0 \<le> GetId m tag i \<and> GetId m tag i < num_entries m \<and>
      TagAndIndexFromId m (GetId m tag i) = (tag, i)) \<and>
    (\<forall>item. 0 \<le> item \<and> item < num_entries m \<longrightarrow> (case TagAndIndexFromId m item of (tag, i) \<Rightarrow>
      0 \<le> i \<and> i < NumEntries m tag \<and> GetId m tag i = item))"
  using tag_map_ids [OF Create_parts(1) [OF assms]] by (auto split: prod.split)

text \<open>
  A tag map finds the name of every entry. There are as many ids as entries; at the id of the
  tag and index of an entry stands its name, where an entry without a tag has the number of
  such entries before it as its index. So no two entries share a tag and an index, and no
  index of a tag is left out.
\<close>
theorem tag_map_finds_names:
  assumes "strings_ok A" and "Create A es = Inr m"
  shows "num_entries m = int (length es) \<and>
    (\<forall>k < length es. 0 \<le> index_of A es k \<and> index_of A es k < NumEntries m (tag_of A (es ! k)) \<and>
      names m ! nat (GetId m (tag_of A (es ! k)) (index_of A es k)) = name_of A (es ! k))"
  using Create_parts(2,3) [OF assms] by blast

definition demo_entries :: "string list" where
  "demo_entries = [''B:b'', ''A:1:a1'', ''plain'', ''A:0:a0'']"

lemma demo_entries_created:
  "\<exists>m. Create reference_strings demo_entries = Inr m \<and> GetId m ''A'' 1 = 2 \<and> NumEntries m ''A'' = 2 \<and> num_entries m = 4"
proof -
  have "Create reference_strings demo_entries = Inr \<lparr>num_entries = 4,
      mapping = [('''', \<lparr>td_id = 0, td_count = 1\<rparr>), (''A'', \<lparr>td_id = 1, td_count = 2\<rparr>), (''B'', \<lparr>td_id = 3, td_count = 1\<rparr>)],
      names = [''plain'', ''a0'', ''a1'', ''b'']\<rparr>" by code_simp
  then show ?thesis by (simp add: GetId_def NumEntries_def)
qed

theorem tag_map_ids_roundtrip_witness:
  "\<exists>m. Create reference_strings demo_entries = Inr m \<and> TagAndIndexFromId m 2 = (''A'', 1)"
proof -
  obtain m where m: "Create reference_strings demo_entries = Inr m" "GetId m ''A'' 1 = 2" "NumEntries m ''A'' = 2"
    using demo_entries_created by blast
  have "TagAndIndexFromId m (GetId m ''A'' 1) = (''A'', 1)"
    using tag_map_ids_roundtrip [OF reference_strings_ok m(1)] m(3) by simp
  then show ?thesis using m(1,2) by auto
qed

theorem tag_map_finds_names_witness:
  "\<exists>m. Create reference_strings demo_entries = Inr m \<and> names m ! 2 = ''a1''"
proof -
  obtain m where m: "Create reference_strings demo_entries = Inr m" "GetId m ''A'' 1 = 2"
    using demo_entries_created by blast
  have "1 < length demo_entries" "tag_of reference_strings (demo_entries ! 1) = ''A''"
    "index_of reference_strings demo_entries 1 = 1" "name_of reference_strings (demo_entries ! 1) = ''a1''" by code_simp+
  then have "names m ! nat (GetId m ''A'' 1) = ''a1''"
    using tag_map_finds_names [OF reference_strings_ok m(1)] by metis
  then show ?thesis using m by auto
qed

end
