(* ===== verification/GraphThrottling.thy ===== *)
theory GraphThrottling
  imports InputStreamManager_Inv
begin

section \<open>Throttling the sources of a graph\<close>

text \<open>
  \<open>calculator_graph.cc\<close>: for each source node and each graph input stream, the set of input
  streams that depend on it and are full. The callbacks of an input stream whose queue becomes
  full or not full any more run after the lock of the stream has been released, so they may
  run late and in any order; each recomputes the change under \<open>full_input_streams_mutex_\<close>.

  An input stream is its index. What the validated graph computes, the node that produces a
  stream and the sources above a node, is a record. A \<open>DCHECK\<close> that fails is \<open>None\<close>.
\<close>

record throttling_config =
  num_calculators :: nat
  output_stream_to_node :: "string \<Rightarrow> nat"
  ancestor_sources :: "nat \<Rightarrow> nat list"
  graph_output_streams :: "nat list"
  report_deadlock :: bool
  node_is_running :: "nat \<Rightarrow> bool"

record 'a throttling =
  streams :: "'a input_stream list"
  full_input_streams :: "nat set list"

text \<open>The calls on the scheduler.\<close>

datatype throttling_call = UnthrottledInput | ThrottledInput | ScheduleUnthrottledNode nat

definition upstream_nodes :: "throttling_config \<Rightarrow> string \<Rightarrow> nat list" where
  "upstream_nodes cfg name =
     (let node_index = output_stream_to_node cfg name
      in if num_calculators cfg \<le> node_index then [node_index] else ancestor_sources cfg node_index)"

text \<open>The loop over the upstream nodes, once the fullness of the stream has changed.\<close>

definition update_node ::
    "throttling_config \<Rightarrow> nat \<Rightarrow> bool \<Rightarrow> nat \<Rightarrow> nat set list \<Rightarrow> (nat set list \<times> throttling_call list) option" where
  "update_node cfg stream stream_is_full node_id full_sets = do {
     let was_throttled = (full_sets ! node_id \<noteq> {});
     check (stream \<in> full_sets ! node_id \<longleftrightarrow> \<not> stream_is_full);
     let full_sets = full_sets[node_id := (if stream_is_full then insert stream (full_sets ! node_id)
       else full_sets ! node_id - {stream})];
     let is_throttled = (full_sets ! node_id \<noteq> {});
     Some (full_sets,
       if num_calculators cfg \<le> node_id
       then (if \<not> is_throttled then [UnthrottledInput] else if \<not> was_throttled then [ThrottledInput] else [])
       else (if \<not> is_throttled \<and> node_is_running cfg node_id then [ScheduleUnthrottledNode node_id] else [])) }"

fun update_nodes ::
    "throttling_config \<Rightarrow> nat \<Rightarrow> bool \<Rightarrow> nat list \<Rightarrow> nat set list \<Rightarrow> (nat set list \<times> throttling_call list) option" where
  "update_nodes cfg stream stream_is_full [] full_sets = Some (full_sets, [])"
| "update_nodes cfg stream stream_is_full (node_id # ids) full_sets = do {
     (full_sets, calls) \<leftarrow> update_node cfg stream stream_is_full node_id full_sets;
     (full_sets, calls') \<leftarrow> update_nodes cfg stream stream_is_full ids full_sets;
     Some (full_sets, calls @ calls') }"

definition UpdateThrottledNodes ::
    "throttling_config \<Rightarrow> nat \<Rightarrow> 'a throttling \<Rightarrow> ('a throttling \<times> throttling_call list) option" where
  "UpdateThrottledNodes cfg stream g =
     (let s = streams g ! stream;
          stream_is_full = ism_IsFull s
      in do {
        (full_sets, calls) \<leftarrow>
          (if last_reported_stream_full s \<noteq> stream_is_full
           then update_nodes cfg stream stream_is_full (upstream_nodes cfg (ism_name s)) (full_input_streams g)
           else Some (full_input_streams g, []));
        Some (g\<lparr>full_input_streams := full_sets,
                streams := (streams g)[stream := s\<lparr>last_reported_stream_full := stream_is_full\<rparr>]\<rparr>, calls) })"

definition IsNodeThrottled :: "int32 \<Rightarrow> nat \<Rightarrow> 'a throttling \<Rightarrow> bool" where
  "IsNodeThrottled max_size node_id g \<longleftrightarrow> max_size \<noteq> -1 \<and> full_input_streams g ! node_id \<noteq> {}"

text \<open>The start of a run.\<close>

definition throttling_PrepareForRun :: "nat \<Rightarrow> 'a throttling \<Rightarrow> 'a throttling" where
  "throttling_PrepareForRun num_nodes g =
     g\<lparr>streams := map ism_PrepareForRun (streams g), full_input_streams := replicate num_nodes {}\<rparr>"

text \<open>
  \<open>UnthrottleSources\<close>: the streams it is going to grow, its result, and the growth of one
  stream, to one more than its queue holds. The size of a queue is converted to an \<open>int\<close>.
\<close>

definition streams_to_grow :: "throttling_config \<Rightarrow> 'a throttling \<Rightarrow> nat set" where
  "streams_to_grow cfg g = \<Union> (set (full_input_streams g)) - set (graph_output_streams cfg)"

definition grow_stream :: "nat \<Rightarrow> 'a throttling \<Rightarrow> 'a throttling \<times> queue_event list" where
  "grow_stream stream g =
     (let (s, ev) = ism_SetMaxQueueSize (streams g ! stream) (of_nat (length (queue (streams g ! stream))) + 1)
      in (g\<lparr>streams := (streams g)[stream := s]\<rparr>, ev))"

text \<open>
  The loop, on the streams in some order: with \<open>report_deadlock\<close> it reports an error for each
  and changes nothing.
\<close>

fun grow_streams :: "nat list \<Rightarrow> 'a throttling \<Rightarrow> 'a throttling \<times> (nat \<times> queue_event) list" where
  "grow_streams [] g = (g, [])"
| "grow_streams (i # is) g =
     (let (g, ev) = grow_stream i g; (g, evs) = grow_streams is g in (g, map (Pair i) ev @ evs))"

definition UnthrottleSources ::
    "throttling_config \<Rightarrow> nat list \<Rightarrow> 'a throttling \<Rightarrow>
     'a throttling \<times> (nat \<times> queue_event) list \<times> status list \<times> bool" where
  "UnthrottleSources cfg order g =
     (if report_deadlock cfg then (g, [], map (\<lambda>_. ErrorStatus Unavailable) order, order \<noteq> [])
      else (let (g, evs) = grow_streams order g in (g, evs, [], order \<noteq> [])))"

subsection \<open>Streams and callbacks\<close>

text \<open>
  The steps: a stream changes through one of its methods, successfully, and each event adds a
  callback that has to run; a callback runs. A method that fails puts the graph into its error
  state, which ends the run. \<open>calls_made\<close> are the calls on the scheduler so far.
\<close>

record 'a throttling_system =
  graph :: "'a throttling"
  pending :: "nat list"
  calls_made :: "throttling_call list"

inductive throttling_step :: "throttling_config \<Rightarrow> 'a throttling_system \<Rightarrow> 'a throttling_system \<Rightarrow> bool"
  for cfg where
  stream: "i < length (streams (graph t)) \<Longrightarrow>
    stream_step op (streams (graph t) ! i) = Some (s', out, OkStatus, notify, ev) \<Longrightarrow>
    throttling_step cfg t (t\<lparr>graph := (graph t)\<lparr>streams := (streams (graph t))[i := s']\<rparr>,
      pending := pending t @ map (\<lambda>_. i) ev\<rparr>)"
| callback: "pending t = xs @ i # ys \<Longrightarrow> UpdateThrottledNodes cfg i (graph t) = Some (g, calls) \<Longrightarrow>
    throttling_step cfg t (t\<lparr>graph := g, pending := xs @ ys, calls_made := calls_made t @ calls\<rparr>)"

inductive throttling_steps :: "throttling_config \<Rightarrow> 'a throttling_system \<Rightarrow> 'a throttling_system \<Rightarrow> bool"
  for cfg where
  refl: "throttling_steps cfg t t"
| step: "throttling_steps cfg t t' \<Longrightarrow> throttling_step cfg t' t'' \<Longrightarrow> throttling_steps cfg t t''"

text \<open>A validated graph, with a name for each stream, at the start of a run.\<close>

definition throttling_start :: "throttling_config \<Rightarrow> 'a throttling_system \<Rightarrow> bool" where
  "throttling_start cfg t \<longleftrightarrow>
     (\<forall>s \<in> set (streams (graph t)). queue s = [] \<and> \<not> last_reported_stream_full s \<and> \<not> ism_IsFull s \<and>
        distinct (upstream_nodes cfg (ism_name s)) \<and>
        (\<forall>n \<in> set (upstream_nodes cfg (ism_name s)). n < length (full_input_streams (graph t)))) \<and>
     (\<forall>f \<in> set (full_input_streams (graph t)). f = {}) \<and> pending t = [] \<and> calls_made t = []"

end
