(* ===== verification/ThrottlingExact.thy ===== *)
theory ThrottlingExact
  imports GraphThrottling "HOL-Library.Multiset"
begin

section \<open>Throttling is exact\<close>

text \<open>
  Whatever the order of the callbacks: once they have all run, a source is throttled exactly by
  the full streams below it; on the way no \<open>DCHECK\<close> fails, and the scheduler's count of
  throttled graph input streams is right at every moment.
\<close>

subsection \<open>One callback\<close>

definition throttled_inputs :: "throttling_config \<Rightarrow> nat set list \<Rightarrow> nat set" where
  "throttled_inputs cfg full = {n. num_calculators cfg \<le> n \<and> n < length full \<and> full ! n \<noteq> {}}"

definition net_throttled :: "throttling_call list \<Rightarrow> int" where
  "net_throttled calls = int (count_list calls ThrottledInput) - int (count_list calls UnthrottledInput)"

lemma net_throttled_append [simp]: "net_throttled (xs @ ys) = net_throttled xs + net_throttled ys"
  by (simp add: net_throttled_def)

lemma finite_throttled_inputs [simp]: "finite (throttled_inputs cfg full)"
  by (rule finite_subset [of _ "{..<length full}"]) (auto simp: throttled_inputs_def)

lemma throttled_inputs_update:
  assumes "n < length full"
  shows "throttled_inputs cfg (full[n := x]) =
    (if num_calculators cfg \<le> n \<and> x \<noteq> {} then insert n (throttled_inputs cfg full) else throttled_inputs cfg full - {n})"
proof (rule set_eqI)
  fix m
  show "m \<in> throttled_inputs cfg (full[n := x]) \<longleftrightarrow> m \<in> (if num_calculators cfg \<le> n \<and> x \<noteq> {}
      then insert n (throttled_inputs cfg full) else throttled_inputs cfg full - {n})"
    using assms by (cases "m = n") (auto simp: throttled_inputs_def)
qed

lemma update_node_correct:
  assumes "n < length full" "stream \<in> full ! n \<longleftrightarrow> \<not> is_full"
  shows "\<exists>calls. update_node cfg stream is_full n full =
      Some (full[n := (if is_full then insert stream (full ! n) else full ! n - {stream})], calls) \<and>
    int (card (throttled_inputs cfg (full[n := (if is_full then insert stream (full ! n) else full ! n - {stream})]))) =
      int (card (throttled_inputs cfg full)) + net_throttled calls"
proof -
  let ?x = "if is_full then insert stream (full ! n) else full ! n - {stream}"
  let ?calls = "if num_calculators cfg \<le> n
     then (if ?x = {} then [UnthrottledInput] else if full ! n = {} then [ThrottledInput] else [])
     else (if ?x = {} \<and> node_is_running cfg n then [ScheduleUnthrottledNode n] else [])"
  have upd: "update_node cfg stream is_full n full = Some (full[n := ?x], ?calls)"
    using assms by (simp add: update_node_def)
  have mem: "n \<in> throttled_inputs cfg full \<longleftrightarrow> num_calculators cfg \<le> n \<and> full ! n \<noteq> {}"
    using assms(1) by (simp add: throttled_inputs_def)
  have pos: "n \<in> throttled_inputs cfg full \<Longrightarrow> 0 < card (throttled_inputs cfg full)"
    by (auto simp: card_gt_0_iff)
  have "?x = {} \<Longrightarrow> full ! n \<noteq> {}" using assms(2) by (auto split: if_splits)
  then have "int (card (throttled_inputs cfg (full[n := ?x]))) = int (card (throttled_inputs cfg full)) + net_throttled ?calls"
    using mem pos unfolding throttled_inputs_update [OF assms(1)]
    by (cases is_full) (auto simp: net_throttled_def card_insert_if of_nat_diff)
  with upd show ?thesis by blast
qed

lemma update_nodes_correct:
  assumes "distinct ids" "\<forall>n \<in> set ids. n < length full" "\<forall>n \<in> set ids. stream \<in> full ! n \<longleftrightarrow> \<not> is_full"
  shows "\<exists>full' calls. update_nodes cfg stream is_full ids full = Some (full', calls) \<and> length full' = length full \<and>
    (\<forall>n < length full. full' ! n =
      (if n \<notin> set ids then full ! n else if is_full then insert stream (full ! n) else full ! n - {stream})) \<and>
    int (card (throttled_inputs cfg full')) = int (card (throttled_inputs cfg full)) + net_throttled calls"
  using assms
proof (induction ids arbitrary: full)
  case Nil
  then show ?case by (simp add: net_throttled_def)
next
  case (Cons n ids)
  let ?full = "full[n := (if is_full then insert stream (full ! n) else full ! n - {stream})]"
  obtain calls where 1: "update_node cfg stream is_full n full = Some (?full, calls)"
    "int (card (throttled_inputs cfg ?full)) = int (card (throttled_inputs cfg full)) + net_throttled calls"
    using update_node_correct [of n full stream is_full cfg] Cons.prems by auto
  have "\<forall>m \<in> set ids. stream \<in> ?full ! m \<longleftrightarrow> \<not> is_full" using Cons.prems by (auto simp: nth_list_update)
  then obtain full' calls' where 2: "update_nodes cfg stream is_full ids ?full = Some (full', calls')"
    "length full' = length full"
    "\<forall>m < length full. full' ! m =
      (if m \<notin> set ids then ?full ! m else if is_full then insert stream (?full ! m) else ?full ! m - {stream})"
    "int (card (throttled_inputs cfg full')) = int (card (throttled_inputs cfg ?full)) + net_throttled calls'"
    using Cons.IH [of ?full] Cons.prems by (auto split: if_splits)
  have "full' ! m =
      (if m \<notin> set (n # ids) then full ! m else if is_full then insert stream (full ! m) else full ! m - {stream})"
    if "m < length full" for m
    using 2(3) Cons.prems(1) that by (cases "m = n") simp_all
  then show ?case using 1 2 by simp
qed

subsection \<open>The invariant\<close>

definition throttling_inv :: "throttling_config \<Rightarrow> 'a throttling_system \<Rightarrow> bool" where
  "throttling_inv cfg t \<longleftrightarrow>
     (let ss = streams (graph t); full = full_input_streams (graph t)
      in (\<forall>s \<in> set ss. distinct (upstream_nodes cfg (ism_name s)) \<and>
            (\<forall>n \<in> set (upstream_nodes cfg (ism_name s)). n < length full)) \<and>
         (\<forall>n < length full. \<forall>i. i \<in> full ! n \<longleftrightarrow> i < length ss \<and> last_reported_stream_full (ss ! i) \<and>
            n \<in> set (upstream_nodes cfg (ism_name (ss ! i)))) \<and>
         (\<forall>i < length ss. last_reported_stream_full (ss ! i) \<noteq> ism_IsFull (ss ! i) \<longrightarrow> i \<in> set (pending t)) \<and>
         (\<forall>i \<in> set (pending t). i < length ss) \<and>
         int (card (throttled_inputs cfg full)) = net_throttled (calls_made t))"

lemma throttling_invD:
  assumes "throttling_inv cfg t"
  shows "\<And>s. s \<in> set (streams (graph t)) \<Longrightarrow> distinct (upstream_nodes cfg (ism_name s)) \<and>
      (\<forall>n \<in> set (upstream_nodes cfg (ism_name s)). n < length (full_input_streams (graph t)))"
    "\<And>n j. n < length (full_input_streams (graph t)) \<Longrightarrow> j \<in> full_input_streams (graph t) ! n \<longleftrightarrow>
      j < length (streams (graph t)) \<and> last_reported_stream_full (streams (graph t) ! j) \<and>
      n \<in> set (upstream_nodes cfg (ism_name (streams (graph t) ! j)))"
    "\<And>j. j < length (streams (graph t)) \<Longrightarrow>
      last_reported_stream_full (streams (graph t) ! j) \<noteq> ism_IsFull (streams (graph t) ! j) \<Longrightarrow> j \<in> set (pending t)"
    "\<And>j. j \<in> set (pending t) \<Longrightarrow> j < length (streams (graph t))"
    "int (card (throttled_inputs cfg (full_input_streams (graph t)))) = net_throttled (calls_made t)"
  using assms by (simp_all add: throttling_inv_def Let_def)

text \<open>No method of a stream changes its name or what it last reported.\<close>

lemma add_packets_loop_frame:
  "ism_name (fst (add_packets_loop s ps)) = ism_name s \<and>
   last_reported_stream_full (fst (add_packets_loop s ps)) = last_reported_stream_full s"
proof (induction ps arbitrary: s)
  case (Cons p ps)
  show ?case using Cons [of "enqueue s p"]
    by (auto simp: add_packets_loop.simps(2) Let_def split: status.splits)
qed simp

lemma stream_step_frame:
  assumes "stream_step op s = Some (s', out, r, notify, ev)"
  shows "ism_name s' = ism_name s \<and> last_reported_stream_full s' = last_reported_stream_full s"
proof (cases op)
  case (OpAddPackets ps)
  then show ?thesis using assms add_packets_loop_frame [of s ps]
    by (auto simp: AddOrMovePacketsInternal_def Let_def split: prod.splits if_splits)
next
  case (OpSetNextTimestampBound b)
  then show ?thesis using assms by (auto simp: SetNextTimestampBound_def split: if_splits)
next
  case OpClose
  then show ?thesis using assms by (auto simp: ism_Close_def split: if_splits)
next
  case (OpPopPacketAtTimestamp t)
  then show ?thesis using assms by (auto simp: PopPacketAtTimestamp_def Let_def split: prod.splits if_splits)
next
  case (OpSetMaxQueueSize m)
  then show ?thesis using assms by (auto simp: ism_SetMaxQueueSize_def Let_def)
next
  case (OpErasePacketsEarlierThan t)
  then show ?thesis using assms by (auto simp: ErasePacketsEarlierThan_def Let_def)
qed

lemma throttling_inv_stream:
  assumes inv: "throttling_inv cfg t" and i: "i < length (streams (graph t))"
    and step: "stream_step op (streams (graph t) ! i) = Some (s', out, OkStatus, notify, ev)"
  shows "throttling_inv cfg (t\<lparr>graph := (graph t)\<lparr>streams := (streams (graph t))[i := s']\<rparr>,
      pending := pending t @ map (\<lambda>_. i) ev\<rparr>)"
proof -
  let ?s = "streams (graph t) ! i"
  note frame = stream_step_frame [OF step] and v = throttling_invD [OF inv]
  have ev: "ev = full_events ?s s'" by (rule full_events_step [OF step HOL.refl])
  let ?ss = "(streams (graph t))[i := s']" and ?full = "full_input_streams (graph t)"
  have names: "ism_name (?ss ! j) = ism_name (streams (graph t) ! j)"
    "last_reported_stream_full (?ss ! j) = last_reported_stream_full (streams (graph t) ! j)" for j
    using frame i by (cases "j = i"; simp)+
  have "\<forall>s \<in> set ?ss. distinct (upstream_nodes cfg (ism_name s)) \<and>
      (\<forall>n \<in> set (upstream_nodes cfg (ism_name s)). n < length ?full)"
    using v(1) names(1) by (simp add: all_set_conv_all_nth)
  moreover have "\<forall>n < length ?full. \<forall>j. j \<in> ?full ! n \<longleftrightarrow> j < length ?ss \<and> last_reported_stream_full (?ss ! j) \<and>
      n \<in> set (upstream_nodes cfg (ism_name (?ss ! j)))"
    using v(2) names by simp
  moreover have "\<forall>j < length ?ss. last_reported_stream_full (?ss ! j) \<noteq> ism_IsFull (?ss ! j) \<longrightarrow>
      j \<in> set (pending t @ map (\<lambda>_. i) ev)"
  proof (intro allI impI)
    fix j assume j: "j < length ?ss" "last_reported_stream_full (?ss ! j) \<noteq> ism_IsFull (?ss ! j)"
    show "j \<in> set (pending t @ map (\<lambda>_. i) ev)"
    proof (cases "j = i")
      case True
      have "ism_IsFull ?s = ism_IsFull s' \<Longrightarrow> i \<in> set (pending t)" using j True frame v(3) [OF i] i by simp
      then show ?thesis using True ev by (auto simp: full_events_def)
    next
      case False
      then show ?thesis using j v(3) [of j] by simp
    qed
  qed
  moreover have "\<forall>j \<in> set (pending t @ map (\<lambda>_. i) ev). j < length ?ss" using v(4) i by auto
  ultimately show ?thesis using v(5) by (simp add: throttling_inv_def Let_def)
qed

lemma throttling_inv_callback:
  assumes inv: "throttling_inv cfg t" and pending: "pending t = xs @ i # ys"
  shows "\<exists>g calls. UpdateThrottledNodes cfg i (graph t) = Some (g, calls) \<and>
    throttling_inv cfg (t\<lparr>graph := g, pending := xs @ ys, calls_made := calls_made t @ calls\<rparr>)"
proof -
  let ?ss = "streams (graph t)" and ?full = "full_input_streams (graph t)"
  let ?s = "?ss ! i"
  let ?up = "upstream_nodes cfg (ism_name ?s)"
  note v = throttling_invD [OF inv]
  have i: "i < length ?ss" using v(4) [of i] pending by simp
  let ?is_full = "ism_IsFull ?s"
  obtain full' calls where upd:
    "(if last_reported_stream_full ?s \<noteq> ?is_full then update_nodes cfg i ?is_full ?up ?full else Some (?full, [])) =
       Some (full', calls)" "length full' = length ?full"
    "int (card (throttled_inputs cfg full')) = int (card (throttled_inputs cfg ?full)) + net_throttled calls"
    and full': "\<And>n. n < length ?full \<Longrightarrow> full' ! n = (if last_reported_stream_full ?s = ?is_full \<or> n \<notin> set ?up then ?full ! n
         else if ?is_full then insert i (?full ! n) else ?full ! n - {i})"
  proof (cases "last_reported_stream_full ?s = ?is_full")
    case True
    then show ?thesis using that [of ?full "[]"] by (simp add: net_throttled_def)
  next
    case False
    have "\<forall>n \<in> set ?up. i \<in> ?full ! n \<longleftrightarrow> \<not> ?is_full" using v(1) [OF nth_mem [OF i]] v(2) i False by auto
    then obtain full' calls where u: "update_nodes cfg i ?is_full ?up ?full = Some (full', calls)"
      "length full' = length ?full"
      "\<forall>n < length ?full. full' ! n =
        (if n \<notin> set ?up then ?full ! n else if ?is_full then insert i (?full ! n) else ?full ! n - {i})"
      "int (card (throttled_inputs cfg full')) = int (card (throttled_inputs cfg ?full)) + net_throttled calls"
      using update_nodes_correct [of ?up ?full i ?is_full cfg] v(1) [OF nth_mem [OF i]] by blast
    show ?thesis by (rule that [of full' calls]) (use u False in simp_all)
  qed
  let ?g = "(graph t)\<lparr>full_input_streams := full', streams := ?ss[i := ?s\<lparr>last_reported_stream_full := ?is_full\<rparr>]\<rparr>"
  have eq: "UpdateThrottledNodes cfg i (graph t) = Some (?g, calls)"
    using upd(1) by (simp add: UpdateThrottledNodes_def Let_def)
  have names: "ism_name (streams ?g ! j) = ism_name (?ss ! j)" "ism_IsFull (streams ?g ! j) = ism_IsFull (?ss ! j)"
    "last_reported_stream_full (streams ?g ! j) = (if j = i then ?is_full else last_reported_stream_full (?ss ! j))" for j
    using i by (cases "j = i"; simp add: ism_IsFull_def)+
  have "\<forall>s \<in> set (streams ?g). distinct (upstream_nodes cfg (ism_name s)) \<and>
      (\<forall>n \<in> set (upstream_nodes cfg (ism_name s)). n < length full')"
    using v(1) names(1) upd(2) by (auto simp: all_set_conv_all_nth)
  moreover have "\<forall>n < length full'. \<forall>j. j \<in> full' ! n \<longleftrightarrow> j < length (streams ?g) \<and>
      last_reported_stream_full (streams ?g ! j) \<and> n \<in> set (upstream_nodes cfg (ism_name (streams ?g ! j)))"
    using v(2) full' i upd(2) unfolding names by auto
  moreover have "j \<in> set (xs @ ys)"
    if "j < length (streams ?g)" "last_reported_stream_full (streams ?g ! j) \<noteq> ism_IsFull (streams ?g ! j)" for j
  proof -
    have "j \<noteq> i" using that(2) names [of j] by (cases "j = i") auto
    then show ?thesis using v(3) [of j] that names [of j] pending by simp
  qed
  moreover have "\<forall>j \<in> set (xs @ ys). j < length (streams ?g)" using v(4) pending by auto
  moreover have "int (card (throttled_inputs cfg full')) = net_throttled (calls_made t @ calls)"
    using upd(3) v(5) by simp
  ultimately show ?thesis using eq by (intro exI [of _ ?g] exI [of _ calls]) (simp add: throttling_inv_def Let_def)
qed

lemma throttling_inv_steps: "throttling_steps cfg t t' \<Longrightarrow> throttling_inv cfg t \<Longrightarrow> throttling_inv cfg t'"
proof (induction rule: throttling_steps.induct)
  case (step t t' t'')
  from step.hyps(2) step.IH [OF step.prems] show ?case
  proof cases
    case (stream i op s' out notify ev)
    then show ?thesis using throttling_inv_stream step.IH [OF step.prems] by blast
  next
    case (callback xs i ys g calls)
    then show ?thesis using throttling_inv_callback [OF step.IH [OF step.prems] callback(2)] by auto
  qed
qed

lemma throttling_inv_start: "throttling_start cfg t \<Longrightarrow> throttling_inv cfg t"
proof -
  assume start: "throttling_start cfg t"
  then have "throttled_inputs cfg (full_input_streams (graph t)) = {}"
    by (auto simp: throttling_start_def throttled_inputs_def)
  with start show ?thesis
    by (auto simp: throttling_inv_def throttling_start_def Let_def net_throttled_def)
qed

subsection \<open>Resolving a deadlock\<close>

lemma grow_stream_step:
  "stream_step (OpSetMaxQueueSize (of_nat (length (queue (streams g ! i))) + 1)) (streams g ! i) =
     Some (streams (fst (grow_stream i g)) ! i, [], OkStatus, True, snd (grow_stream i g))"
  if "i < length (streams g)"
  using that by (simp add: grow_stream_def split: prod.splits)

lemma grow_stream_frame:
  "full_input_streams (fst (grow_stream i g)) = full_input_streams g"
  "length (streams (fst (grow_stream i g))) = length (streams g)"
  "queue (streams (fst (grow_stream i g)) ! j) = queue (streams g ! j)"
  "i \<noteq> j \<Longrightarrow> streams (fst (grow_stream i g)) ! j = streams g ! j"
  "ism_name (streams (fst (grow_stream i g)) ! j) = ism_name (streams g ! j)"
proof -
  have s: "fst (grow_stream i g) = g\<lparr>streams := (streams g)[i := (streams g ! i)\<lparr>max_queue_size :=
      of_nat (length (queue (streams g ! i))) + 1\<rparr>]\<rparr>" for g :: "'a throttling"
    by (simp add: grow_stream_def ism_SetMaxQueueSize_def Let_def)
  show "full_input_streams (fst (grow_stream i g)) = full_input_streams g"
    "length (streams (fst (grow_stream i g))) = length (streams g)"
    "i \<noteq> j \<Longrightarrow> streams (fst (grow_stream i g)) ! j = streams g ! j"
    by (simp_all add: s)
  show "queue (streams (fst (grow_stream i g)) ! j) = queue (streams g ! j)"
    "ism_name (streams (fst (grow_stream i g)) ! j) = ism_name (streams g ! j)"
    by (cases "i < length (streams g)"; cases "j = i"; simp add: s list_update_beyond)+
qed

lemma size_limit_Suc:
  assumes "n < 2 ^ 31 - 1"
  shows "size_limit (of_nat n + 1) = int n + 1"
proof -
  have "(of_nat n + 1 :: int32) = word_of_int (int n + 1)" by simp
  moreover have "sint (word_of_int (int n + 1) :: int32) = int n + 1"
    unfolding sint_sbintrunc' using assms by (simp add: signed_take_bit_int_eq_self)
  ultimately show ?thesis using assms by (simp add: size_limit_def)
qed

lemma grown_not_full:
  assumes "i < length (streams g)" "length (queue (streams g ! i)) < 2 ^ 31 - 1"
  shows "\<not> ism_IsFull (streams (fst (grow_stream i g)) ! i)"
  using assms size_limit_Suc [OF assms(2)]
  by (simp add: grow_stream_def ism_SetMaxQueueSize_def Let_def ism_IsFull_def queue_full_def)

lemma grow_streams_correct:
  assumes "throttling_inv cfg t" and "\<forall>i \<in> set is. i < length (streams (graph t))"
    and "\<forall>s \<in> set (streams (graph t)). length (queue s) < 2 ^ 31 - 1"
    and "grow_streams is (graph t) = (g, evs)"
  shows "throttling_inv cfg (t\<lparr>graph := g, pending := pending t @ map fst evs\<rparr>) \<and>
    full_input_streams g = full_input_streams (graph t) \<and> map ism_name (streams g) = map ism_name (streams (graph t)) \<and>
    (\<forall>j < length (streams g). if j \<in> set is then \<not> ism_IsFull (streams g ! j) else streams g ! j = streams (graph t) ! j)"
  using assms
proof (induction "is" arbitrary: t evs)
  case (Cons i "is")
  let ?g = "fst (grow_stream i (graph t))" and ?ev = "snd (grow_stream i (graph t))"
  let ?t = "t\<lparr>graph := ?g, pending := pending t @ map (\<lambda>_. i) ?ev\<rparr>"
  obtain evs' where evs: "grow_streams is ?g = (g, evs')" "evs = map (Pair i) ?ev @ evs'"
    using Cons.prems(4) by (auto split: prod.splits)
  have i: "i < length (streams (graph t))" using Cons.prems(2) by simp
  note frame = grow_stream_frame [where g = "graph t" and i = i]
  have g: "?g = (graph t)\<lparr>streams := (streams (graph t))[i := streams ?g ! i]\<rparr>"
    using i by (simp add: grow_stream_def split: prod.splits)
  have inv: "throttling_inv cfg ?t"
    using throttling_inv_stream [OF Cons.prems(1) i grow_stream_step [OF i]] g by simp
  have lens: "\<forall>s \<in> set (streams ?g). length (queue s) < 2 ^ 31 - 1"
    using Cons.prems(3) frame(2,3) by (simp add: all_set_conv_all_nth)
  have IH: "throttling_inv cfg (?t\<lparr>graph := g, pending := pending ?t @ map fst evs'\<rparr>)"
    "full_input_streams g = full_input_streams ?g" "map ism_name (streams g) = map ism_name (streams ?g)"
    "\<forall>j < length (streams g). if j \<in> set is then \<not> ism_IsFull (streams g ! j) else streams g ! j = streams ?g ! j"
    using Cons.IH [OF inv] Cons.prems(2) frame(2) lens evs(1) by auto
  have "if j \<in> set (i # is) then \<not> ism_IsFull (streams g ! j) else streams g ! j = streams (graph t) ! j"
    if "j < length (streams g)" for j
    using IH(4) that frame(4) [of j] grown_not_full [OF i] Cons.prems(3) i by (cases "j = i") (auto split: if_splits)
  moreover have names: "map ism_name (streams ?g) = map ism_name (streams (graph t))"
    using frame(2,5) by (simp add: list_eq_iff_nth_eq)
  moreover have "map fst evs = map (\<lambda>_. i) ?ev @ map fst evs'" using evs(2) by simp
  ultimately show ?case using IH(1,2,3) frame(1) names by simp
qed (simp add: throttling_inv_def Let_def)

text \<open>The callbacks of a list, run one after the other.\<close>

fun run_callbacks ::
    "throttling_config \<Rightarrow> nat list \<Rightarrow> 'a throttling \<Rightarrow> ('a throttling \<times> throttling_call list) option" where
  "run_callbacks cfg [] g = Some (g, [])"
| "run_callbacks cfg (i # is) g = do {
     (g, calls) \<leftarrow> UpdateThrottledNodes cfg i g;
     (g, calls') \<leftarrow> run_callbacks cfg is g;
     Some (g, calls @ calls') }"

lemma update_nodes_length:
  "update_nodes cfg i is_full ids full = Some (full', calls) \<Longrightarrow> length full' = length full"
proof (induction ids arbitrary: full full' calls)
  case (Cons n ids)
  then obtain f c c' where "update_node cfg i is_full n full = Some (f, c)"
    "update_nodes cfg i is_full ids f = Some (full', c')" by (auto split: Option.bind_splits)
  then show ?case using Cons.IH by (auto simp: update_node_def Let_def split: if_splits)
qed simp

lemma UpdateThrottledNodes_frame:
  assumes "UpdateThrottledNodes cfg i g = Some (g', calls)"
  shows "map (\<lambda>s. (ism_name s, ism_IsFull s)) (streams g') = map (\<lambda>s. (ism_name s, ism_IsFull s)) (streams g) \<and>
    length (full_input_streams g') = length (full_input_streams g)"
proof -
  let ?s = "streams g ! i"
  have s: "streams g' = (streams g)[i := ?s\<lparr>last_reported_stream_full := ism_IsFull ?s\<rparr>]"
    using assms by (auto simp: UpdateThrottledNodes_def Let_def split: Option.bind_splits)
  have "map (\<lambda>s. (ism_name s, ism_IsFull s)) (streams g') = map (\<lambda>s. (ism_name s, ism_IsFull s)) (streams g)"
    unfolding s map_update by (cases "i < length (streams g)") (simp_all add: ism_IsFull_def list_update_same_conv list_update_beyond)
  moreover have "length (full_input_streams g') = length (full_input_streams g)"
    using assms by (auto simp: UpdateThrottledNodes_def Let_def split: Option.bind_splits if_splits dest: update_nodes_length)
  ultimately show ?thesis by blast
qed

lemma run_callbacks_correct:
  assumes "throttling_inv cfg t" "mset (pending t) = mset is"
  shows "\<exists>g calls. run_callbacks cfg is (graph t) = Some (g, calls) \<and>
    throttling_inv cfg (t\<lparr>graph := g, pending := [], calls_made := calls_made t @ calls\<rparr>) \<and>
    map (\<lambda>s. (ism_name s, ism_IsFull s)) (streams g) = map (\<lambda>s. (ism_name s, ism_IsFull s)) (streams (graph t)) \<and>
    length (full_input_streams g) = length (full_input_streams (graph t))"
  using assms
proof (induction "is" arbitrary: t)
  case (Cons i "is")
  have "i \<in> set (pending t)" using Cons.prems(2) by (metis list.set_intros(1) mset_eq_setD)
  then obtain xs ys where p: "pending t = xs @ i # ys" by (meson split_list)
  obtain g calls where 1: "UpdateThrottledNodes cfg i (graph t) = Some (g, calls)"
    "throttling_inv cfg (t\<lparr>graph := g, pending := xs @ ys, calls_made := calls_made t @ calls\<rparr>)"
    using throttling_inv_callback [OF Cons.prems(1) p] by blast
  have "mset (xs @ ys) = mset is" using Cons.prems(2) p by simp
  with Cons.IH [OF 1(2)] obtain g' calls' where 2: "run_callbacks cfg is g = Some (g', calls')"
    "throttling_inv cfg (t\<lparr>graph := g', pending := [], calls_made := calls_made t @ calls @ calls'\<rparr>)"
    "map (\<lambda>s. (ism_name s, ism_IsFull s)) (streams g') = map (\<lambda>s. (ism_name s, ism_IsFull s)) (streams g)"
    "length (full_input_streams g') = length (full_input_streams g)" by auto
  with 1(1) UpdateThrottledNodes_frame [OF 1(1)] show ?case by simp
next
  case Nil
  then show ?case by (simp add: throttling_inv_def Let_def net_throttled_def)
qed

subsection \<open>The properties\<close>

text \<open>
  C14: Over every interleaving of the methods of the input streams of a run with their delayed
  callbacks, in whatever order these run: no \<open>DCHECK\<close> of \<open>UpdateThrottledNodes\<close> fails, whichever
  callback runs next; the calls on the scheduler announce exactly the graph input streams that
  are throttled at that moment; and once no callback is pending, a stream throttles a node
  exactly when it is full and the node is upstream of it.
\<close>
theorem throttling_exact:
  assumes "throttling_start cfg t0" and "throttling_steps cfg t0 t"
  shows "(\<forall>i \<in> set (pending t). UpdateThrottledNodes cfg i (graph t) \<noteq> None) \<and>
    net_throttled (calls_made t) = int (card (throttled_inputs cfg (full_input_streams (graph t)))) \<and>
    (pending t = [] \<longrightarrow> (\<forall>n < length (full_input_streams (graph t)). \<forall>i. i \<in> full_input_streams (graph t) ! n \<longleftrightarrow>
       i < length (streams (graph t)) \<and> ism_IsFull (streams (graph t) ! i) \<and>
       n \<in> set (upstream_nodes cfg (ism_name (streams (graph t) ! i)))))"
proof -
  have inv: "throttling_inv cfg t" by (rule throttling_inv_steps [OF assms(2) throttling_inv_start [OF assms(1)]])
  note v = throttling_invD [OF inv]
  have "UpdateThrottledNodes cfg i (graph t) \<noteq> None" if i: "i \<in> set (pending t)" for i
  proof -
    obtain xs ys where "pending t = xs @ i # ys" using i by (meson split_list)
    then show ?thesis using throttling_inv_callback [OF inv] by (metis option.distinct(1))
  qed
  moreover have "last_reported_stream_full (streams (graph t) ! i) = ism_IsFull (streams (graph t) ! i)"
    if "pending t = []" "i < length (streams (graph t))" for i
    using v(3) [of i] that by auto
  ultimately show ?thesis using v(2,5) by auto
qed

text \<open>
  A graph of one calculator whose input stream is the graph input stream, node 1, with room for
  one packet: a packet arrives, and the callback it causes runs.
\<close>

definition demo_throttling :: throttling_config where
  "demo_throttling = \<lparr>num_calculators = 1, output_stream_to_node = \<lambda>_. 1, ancestor_sources = \<lambda>_. [],
     graph_output_streams = [], report_deadlock = False, node_is_running = \<lambda>_. True\<rparr>"

definition demo_graph :: "nat throttling_system" where
  "demo_graph = \<lparr>graph = \<lparr>streams = [demo_stream\<lparr>max_queue_size := 1\<rparr>], full_input_streams = [{}, {}]\<rparr>,
     pending = [], calls_made = []\<rparr>"

definition demo_queued :: "nat input_stream" where
  "demo_queued = fst (the (stream_step (OpAddPackets [demo_packet 1 10]) (demo_stream\<lparr>max_queue_size := 1\<rparr>)))"

definition demo_throttled :: "nat throttling_system" where
  "demo_throttled = \<lparr>graph = \<lparr>streams = [demo_queued\<lparr>last_reported_stream_full := True\<rparr>], full_input_streams = [{}, {0}]\<rparr>,
     pending = [], calls_made = [ThrottledInput]\<rparr>"

lemma demo_queued_step:
  "stream_step (OpAddPackets [demo_packet 1 10]) (demo_stream\<lparr>max_queue_size := 1\<rparr>) =
     Some (demo_queued, [], OkStatus, True, [BecameFull])"
  "length (queue demo_queued) = 1" "max_queue_size demo_queued = 1" "\<not> last_reported_stream_full demo_queued"
proof -
  let ?add = "stream_step (OpAddPackets [demo_packet 1 10]) (demo_stream\<lparr>max_queue_size := 1\<rparr>)"
  have "map_option (\<lambda>(s', r). (length (queue s'), max_queue_size s', last_reported_stream_full s', r)) ?add =
      Some (1, 1, False, [], OkStatus, True, [BecameFull])" by code_simp
  then obtain s' where add: "?add = Some (s', [], OkStatus, True, [BecameFull])" "length (queue s') = 1"
    "max_queue_size s' = 1" "\<not> last_reported_stream_full s'" by (auto simp del: stream_step.simps)
  moreover have "demo_queued = s'" by (simp only: demo_queued_def add(1) option.sel fst_conv)
  ultimately show "?add = Some (demo_queued, [], OkStatus, True, [BecameFull])" "length (queue demo_queued) = 1"
    "max_queue_size demo_queued = 1" "\<not> last_reported_stream_full demo_queued" by simp_all
qed

lemma demo_queued_full: "ism_IsFull (demo_queued\<lparr>last_reported_stream_full := b\<rparr>)" "ism_IsFull demo_queued"
  by (simp_all add: ism_IsFull_def demo_queued_step queue_full_def size_limit_def)

lemma demo_throttling_start: "throttling_start demo_throttling demo_graph"
  by (simp add: throttling_start_def demo_graph_def demo_throttling_def upstream_nodes_def Let_def demo_stream_def
      new_input_stream_def ism_PrepareForRun_def ism_IsFull_def queue_full_def size_limit_def)

lemma demo_throttling_steps: "throttling_steps demo_throttling demo_graph demo_throttled"
proof -
  let ?t = "demo_graph\<lparr>graph := (graph demo_graph)\<lparr>streams := (streams (graph demo_graph))[0 := demo_queued]\<rparr>,
      pending := pending demo_graph @ map (\<lambda>_. 0) [BecameFull]\<rparr>"
  have 1: "throttling_step demo_throttling demo_graph ?t"
    by (rule throttling_step.stream [where op = "OpAddPackets [demo_packet 1 10]" and out = "[]" and notify = True])
      (simp_all add: demo_graph_def demo_queued_step(1) [unfolded One_nat_def] del: stream_step.simps)
  have u: "UpdateThrottledNodes demo_throttling 0 (graph ?t) = Some (graph demo_throttled, [ThrottledInput])"
    by (simp add: UpdateThrottledNodes_def demo_graph_def demo_throttled_def demo_throttling_def demo_queued_step(4)
        demo_queued_full update_node_def upstream_nodes_def)
  have "throttling_step demo_throttling ?t (?t\<lparr>graph := graph demo_throttled, pending := [] @ [],
      calls_made := calls_made ?t @ [ThrottledInput]\<rparr>)"
    by (rule throttling_step.callback [OF _ u]) (simp add: demo_graph_def)
  then have 2: "throttling_step demo_throttling ?t demo_throttled" by (simp add: demo_graph_def demo_throttled_def)
  show ?thesis by (rule throttling_steps.step [OF throttling_steps.step [OF throttling_steps.refl 1] 2])
qed

theorem throttling_exact_witness:
  "net_throttled (calls_made demo_throttled) = 1 \<and> ism_IsFull (streams (graph demo_throttled) ! 0)"
proof -
  have "0 \<in> full_input_streams (graph demo_throttled) ! 1" by (simp add: demo_throttled_def)
  with throttling_exact [OF demo_throttling_start demo_throttling_steps] show ?thesis
    by (simp add: demo_throttled_def net_throttled_def demo_queued_full)
qed

text \<open>
  C15: When every callback has run and the graph does not report deadlocks, \<open>UnthrottleSources\<close>
  answers whether some full stream other than a graph output stream throttles a node; and after
  the callbacks it causes, in any order, only graph output streams throttle anything: every
  deadlock of the sources is resolved, however many streams are full and in whatever order the
  set is visited. The queues hold fewer packets than an \<open>int\<close> counts.
\<close>
theorem unthrottle_resolves_deadlock:
  assumes "throttling_start cfg t0" and "throttling_steps cfg t0 t" and "pending t = []"
    and "\<not> report_deadlock cfg" and "set order = streams_to_grow cfg (graph t)"
    and "\<forall>s \<in> set (streams (graph t)). length (queue s) < 2 ^ 31 - 1"
    and "UnthrottleSources cfg order (graph t) = (g, evs, errors, again)"
  shows "errors = [] \<and>
    (again \<longleftrightarrow> (\<exists>n < length (full_input_streams (graph t)).
       \<not> full_input_streams (graph t) ! n \<subseteq> set (graph_output_streams cfg))) \<and>
    (\<forall>callbacks. mset callbacks = mset (map fst evs) \<longrightarrow>
       (\<exists>g' calls. run_callbacks cfg callbacks g = Some (g', calls) \<and>
          (\<forall>f \<in> set (full_input_streams g'). f \<subseteq> set (graph_output_streams cfg))))"
proof -
  have inv: "throttling_inv cfg t" by (rule throttling_inv_steps [OF assms(2) throttling_inv_start [OF assms(1)]])
  note v = throttling_invD [OF inv]
  have g: "grow_streams order (graph t) = (g, evs)" "errors = []" "again = (order \<noteq> [])"
    using assms(4,7) by (auto simp: UnthrottleSources_def split: prod.splits)
  have mem: "i \<in> set order \<longleftrightarrow> i \<notin> set (graph_output_streams cfg) \<and>
      (\<exists>n < length (full_input_streams (graph t)). i \<in> full_input_streams (graph t) ! n)" for i
    unfolding assms(5) streams_to_grow_def by (auto simp: Bex_def in_set_conv_nth [of _ "full_input_streams (graph t)"])
  have order: "\<forall>i \<in> set order. i < length (streams (graph t))" using mem v(2) by blast
  note grown = grow_streams_correct [OF inv order assms(6) g(1)]
  let ?t = "t\<lparr>graph := g, pending := pending t @ map fst evs\<rparr>"
  have "\<exists>g' calls. run_callbacks cfg callbacks g = Some (g', calls) \<and>
      (\<forall>f \<in> set (full_input_streams g'). f \<subseteq> set (graph_output_streams cfg))"
    if cb: "mset callbacks = mset (map fst evs)" for callbacks
  proof -
    obtain g' calls where r: "run_callbacks cfg callbacks g = Some (g', calls)"
      "throttling_inv cfg (?t\<lparr>graph := g', pending := [], calls_made := calls_made ?t @ calls\<rparr>)"
      "map (\<lambda>s. (ism_name s, ism_IsFull s)) (streams g') = map (\<lambda>s. (ism_name s, ism_IsFull s)) (streams g)"
      "length (full_input_streams g') = length (full_input_streams g)"
      using run_callbacks_correct [of cfg ?t callbacks] grown assms(3) cb by auto
    note w = throttling_invD [OF r(2), simplified]
    have len: "length (streams g') = length (streams g)" using r(3) by (metis length_map)
    have len': "length (streams g) = length (streams (graph t))" using grown by (metis length_map)
    have full: "ism_IsFull (streams g' ! i) = ism_IsFull (streams g ! i)" "ism_name (streams g' ! i) = ism_name (streams (graph t) ! i)"
      if "i < length (streams g)" for i
    proof -
      have "(ism_name (streams g' ! i), ism_IsFull (streams g' ! i)) = (ism_name (streams g ! i), ism_IsFull (streams g ! i))"
        using arg_cong [where f = "\<lambda>xs. xs ! i", OF r(3)] that len by simp
      moreover have "ism_name (streams g ! i) = ism_name (streams (graph t) ! i)"
        using grown that len' by (metis nth_map)
      ultimately show "ism_IsFull (streams g' ! i) = ism_IsFull (streams g ! i)"
        "ism_name (streams g' ! i) = ism_name (streams (graph t) ! i)" by simp_all
    qed
    have "i \<in> set (graph_output_streams cfg)"
      if n: "n < length (full_input_streams g')" "i \<in> full_input_streams g' ! n" for n i
    proof -
      have i: "i < length (streams g)" "ism_IsFull (streams g ! i)" "n \<in> set (upstream_nodes cfg (ism_name (streams (graph t) ! i)))"
        using w(2) [OF n(1)] w(3) [of i] n(2) full [of i] len by auto
      with grown have "i \<notin> set order" "streams g ! i = streams (graph t) ! i" by (auto split: if_splits)
      moreover have "i \<in> full_input_streams (graph t) ! n"
        using v(2) [of n i] v(3) [of i] n(1) r(4) grown i len' assms(3) \<open>streams g ! i = _\<close> by auto
      ultimately show ?thesis using mem n(1) r(4) grown by auto
    qed
    then show ?thesis using r(1) by (auto simp: in_set_conv_nth)
  qed
  moreover have "again \<longleftrightarrow> (\<exists>n < length (full_input_streams (graph t)).
      \<not> full_input_streams (graph t) ! n \<subseteq> set (graph_output_streams cfg))"
  proof -
    have "again \<longleftrightarrow> (\<exists>i. i \<in> set order)" using g(3) by (cases order) auto
    then show ?thesis unfolding mem by blast
  qed
  ultimately show ?thesis using g(2) by blast
qed

theorem unthrottle_resolves_deadlock_witness:
  "(let (g, evs, errors, again) = UnthrottleSources demo_throttling [0] (graph demo_throttled)
    in again \<and> errors = [] \<and>
      (\<exists>g' calls. run_callbacks demo_throttling [0] g = Some (g', calls) \<and> (\<forall>f \<in> set (full_input_streams g'). f = {})))"
proof -
  have grow: "streams_to_grow demo_throttling (graph demo_throttled) = set [0]"
    by (simp add: streams_to_grow_def demo_throttled_def demo_throttling_def)
  obtain g evs errors again where u: "UnthrottleSources demo_throttling [0] (graph demo_throttled) = (g, evs, errors, again)"
    by (metis prod_cases4)
  have evs: "map fst evs = [0]"
    using u demo_queued_full demo_queued_step
    by (auto simp: UnthrottleSources_def grow_stream_def ism_SetMaxQueueSize_def Let_def demo_throttled_def demo_throttling_def
        ism_IsFull_def queue_full_def size_limit_def)
  have "length (queue s) < 2 ^ 31 - 1" if "s \<in> set (streams (graph demo_throttled))" for s
    using that demo_queued_step(2) by (simp add: demo_throttled_def)
  with unthrottle_resolves_deadlock [OF demo_throttling_start demo_throttling_steps _ _ _ _ u] grow
  have all: "errors = [] \<and>
      (again \<longleftrightarrow> (\<exists>n < length (full_input_streams (graph demo_throttled)).
         \<not> full_input_streams (graph demo_throttled) ! n \<subseteq> set (graph_output_streams demo_throttling))) \<and>
      (\<forall>callbacks. mset callbacks = mset (map fst evs) \<longrightarrow>
         (\<exists>g' calls. run_callbacks demo_throttling callbacks g = Some (g', calls) \<and>
            (\<forall>f \<in> set (full_input_streams g'). f \<subseteq> set (graph_output_streams demo_throttling))))"
    by (simp add: demo_throttled_def demo_throttling_def)
  moreover have "again"
    using all by (simp add: demo_throttled_def demo_throttling_def exI [of _ "1::nat"])
  moreover obtain g' calls where "run_callbacks demo_throttling [0] g = Some (g', calls)"
    "\<forall>f \<in> set (full_input_streams g'). f \<subseteq> set (graph_output_streams demo_throttling)"
    using all evs by metis
  moreover have "graph_output_streams demo_throttling = []" by (simp add: demo_throttling_def)
  ultimately show ?thesis using all unfolding u by (auto simp del: run_callbacks.simps)
qed

end
