(* ===== verification/GraphConfig.thy ===== *)
theory GraphConfig
  imports TagMap Packet
begin

section \<open>The configuration of a graph\<close>

text \<open>
  The fields of \<open>CalculatorGraphConfig\<close> the validation reads, with repeated fields as lists;
  \<open>options\<close> stands for the options of a node, which only its calculator interprets. Then
  \<open>tool/status_util.cc\<close> and \<open>tool/name_util.cc\<close>, the names the framework makes up, and the
  contract of a node (\<open>calculator_contract.cc\<close>).

  \<open>'a result option\<close> is the type of code that may abort (\<open>None\<close>), fail or return.
\<close>

record input_stream_info =
  tag_index :: string
  info_back_edge :: bool

record node_config =
  calculator :: string
  node_name :: string
  input_stream :: "string list"
  output_stream :: "string list"
  input_side_packet :: "string list"
  output_side_packet :: "string list"
  input_stream_infos :: "input_stream_info list"
  node_executor :: string
  node_handler :: "string option"
  node_output_handler :: "string option"
  node_source_layer :: int32
  node_buffer_size_hint :: int32
  node_option_urls :: "string list"
  options :: string

record generator_config =
  packet_generator :: string
  gen_input_side_packet :: "string list"
  gen_output_side_packet :: "string list"
  gen_options :: string

record handler_config =
  status_handler :: string
  handler_input_side_packet :: "string list"
  handler_options :: string

datatype processor_performance = NORMAL | LOW | HIGH

record pool_options =
  opt_num_threads :: "int32 option"
  opt_stack_size :: "int32 option"
  opt_nice_priority_level :: "int32 option"
  opt_performance :: processor_performance
  opt_thread_name_prefix :: "string option"

definition no_pool_options :: pool_options where
  "no_pool_options = \<lparr>opt_num_threads = None, opt_stack_size = None, opt_nice_priority_level = None,
     opt_performance = NORMAL, opt_thread_name_prefix = None\<rparr>"

record executor_config =
  executor_name :: string
  executor_type :: string
  executor_options :: pool_options

record graph_config =
  config_nodes :: "node_config list"
  config_generators :: "generator_config list"
  config_handlers :: "handler_config list"
  graph_input_stream :: "string list"
  graph_output_stream :: "string list"
  graph_input_side_packet :: "string list"
  graph_output_side_packet :: "string list"
  config_executors :: "executor_config list"
  num_threads :: int32
  graph_handler :: "string option"
  packet_factories :: nat
  config_package :: string

subsection \<open>Outcomes\<close>

definition outcome_bind :: "'a result option \<Rightarrow> ('a \<Rightarrow> 'b result option) \<Rightarrow> 'b result option" where
  "outcome_bind m f = (case m of None \<Rightarrow> None | Some (Inl c) \<Rightarrow> Some (Inl c) | Some (Inr x) \<Rightarrow> f x)"

lemma outcome_bind_simps [simp]:
  "outcome_bind None f = None"
  "outcome_bind (Some (Inl c)) f = Some (Inl c)"
  "outcome_bind (Some (Inr x)) f = f x"
  by (simp_all add: outcome_bind_def)

lemma outcome_bind_eq_None: "outcome_bind m f = None \<longleftrightarrow> m = None \<or> (\<exists>x. m = Some (Inr x) \<and> f x = None)"
  by (auto simp: outcome_bind_def split: option.splits sum.splits)

lemma outcome_bind_eq_Inr: "outcome_bind m f = Some (Inr y) \<longleftrightarrow> (\<exists>x. m = Some (Inr x) \<and> f x = Some (Inr y))"
  by (auto simp: outcome_bind_def split: option.splits sum.splits)

text \<open>The code does not abort, and what it returns, if it does not fail, satisfies \<open>Q\<close>.\<close>

definition outcome_sat :: "('a \<Rightarrow> bool) \<Rightarrow> 'a result option \<Rightarrow> bool" where
  "outcome_sat Q m \<longleftrightarrow> (\<exists>r. m = Some r \<and> (\<forall>x. r = Inr x \<longrightarrow> Q x))"

lemma outcome_satI: "(\<And>x. r = Inr x \<Longrightarrow> Q x) \<Longrightarrow> outcome_sat Q (Some r)"
  by (simp add: outcome_sat_def)

lemma outcome_sat_Inr [simp]: "outcome_sat Q (Some (Inr x)) \<longleftrightarrow> Q x"
  by (simp add: outcome_sat_def)

lemma outcome_sat_bind:
  "outcome_sat P m \<Longrightarrow> (\<And>x. P x \<Longrightarrow> outcome_sat Q (f x)) \<Longrightarrow> outcome_sat Q (outcome_bind m f)"
  by (auto simp: outcome_sat_def outcome_bind_def split: sum.splits)

lemma outcome_sat_mono: "outcome_sat P m \<Longrightarrow> (\<And>x. P x \<Longrightarrow> Q x) \<Longrightarrow> outcome_sat Q m"
  by (auto simp: outcome_sat_def)

text \<open>\<open>CombinedStatus\<close>: the code that all the errors share, or \<open>Unknown\<close>.\<close>

fun combined_code :: "status \<Rightarrow> status list \<Rightarrow> status" where
  "combined_code code [] = code"
| "combined_code code (s # ss) =
     combined_code (if s = OkStatus then code else if code = OkStatus then s
       else if code \<noteq> s then ErrorStatus Unknown else code) ss"

definition CombinedStatus :: "status list \<Rightarrow> status" where
  "CombinedStatus statuses = combined_code OkStatus statuses"

lemma combined_code_ok: "combined_code code ss = OkStatus \<longleftrightarrow> code = OkStatus \<and> set ss \<subseteq> {OkStatus}"
  by (induction ss arbitrary: code) auto

lemma CombinedStatus_ok: "CombinedStatus ss = OkStatus \<longleftrightarrow> set ss \<subseteq> {OkStatus}"
  by (simp add: CombinedStatus_def combined_code_ok)

subsection \<open>Names\<close>

text \<open>\<open>StrFormat "%02d"\<close> pads with a zero to two characters.\<close>

definition format_02d :: "strings \<Rightarrow> int \<Rightarrow> string" where
  "format_02d A n = (if 0 \<le> n \<and> n < 10 then CHR ''0'' # StrCat_int A n else StrCat_int A n)"

partial_function (option) unused_name :: "strings \<Rightarrow> string set \<Rightarrow> string \<Rightarrow> int \<Rightarrow> string \<Rightarrow> string option" where
  "unused_name A used base n candidate =
     (if candidate \<in> used then unused_name A used base (n + 1) (base @ ''_'' @ format_02d A n) else Some candidate)"

definition GetUnusedNodeName :: "strings \<Rightarrow> graph_config \<Rightarrow> string \<Rightarrow> string option" where
  "GetUnusedNodeName A cfg base =
     unused_name A {node_name n |n. n \<in> set (config_nodes cfg) \<and> node_name n \<noteq> []} base 2 base"

text \<open>A name that does not parse is a failed \<open>CHECK\<close>.\<close>

definition ParseNameFromStream :: "strings \<Rightarrow> string \<Rightarrow> string option" where
  "ParseNameFromStream A stream = (case ParseTagIndexName A stream of Inl _ \<Rightarrow> None | Inr (tag, index, name) \<Rightarrow> Some name)"

definition ParseTagIndexFromStream :: "strings \<Rightarrow> string \<Rightarrow> (string \<times> int) option" where
  "ParseTagIndexFromStream A stream =
     (case ParseTagIndexName A stream of Inl _ \<Rightarrow> None | Inr (tag, index, name) \<Rightarrow> Some (tag, index))"

fun parsed_names :: "strings \<Rightarrow> string list \<Rightarrow> string list option" where
  "parsed_names A [] = Some []"
| "parsed_names A (s # ss) = do { n \<leftarrow> ParseNameFromStream A s; ns \<leftarrow> parsed_names A ss; Some (n # ns) }"

definition GetUnusedSidePacketName :: "strings \<Rightarrow> graph_config \<Rightarrow> string \<Rightarrow> string option" where
  "GetUnusedSidePacketName A cfg base = do {
     used \<leftarrow> parsed_names A (concat (map input_side_packet (config_nodes cfg)));
     unused_name A (set used) base 2 base }"

definition config_node_name :: "node_config \<Rightarrow> string" where
  "config_node_name n = (if node_name n = [] then calculator n else node_name n)"

definition CanonicalNodeName :: "strings \<Rightarrow> graph_config \<Rightarrow> nat \<Rightarrow> string" where
  "CanonicalNodeName A cfg node_id =
     (let nodes = config_nodes cfg;
          name = config_node_name (nodes ! node_id);
          same = filter (\<lambda>i. config_node_name (nodes ! i) = name) [0..<length nodes];
          sequence = length (filter (\<lambda>i. i < node_id) same)
      in if length same \<le> 1 then name else name @ ''_'' @ StrCat_int A (int sequence + 1))"

definition CatTag :: "strings \<Rightarrow> string \<Rightarrow> int \<Rightarrow> string" where
  "CatTag A tag index = tag @ (if index \<le> 0 \<or> tag = [] then [] else '':'' @ StrCat_int A index)"

definition CatStream :: "strings \<Rightarrow> string \<times> int \<Rightarrow> string \<Rightarrow> string" where
  "CatStream A ti name =
     (let tag = CatTag A (fst ti) (snd ti) in (if tag = [] then tag else tag @ '':'') @ name)"

subsection \<open>Contracts\<close>

text \<open>
  A \<open>PacketTypeSet\<close>: its tag map, the address of its first packet type, whose others follow, and
  the accesses to missing entries that its error handler has deferred, optional ones aside.
\<close>

record packet_type_set =
  set_tag_map :: tag_map
  set_base :: addr
  missing_entries :: "string list"

definition type_at :: "packet_type_set \<Rightarrow> nat \<Rightarrow> addr" where
  "type_at ts i = set_base ts + i"

definition set_NumEntries :: "packet_type_set \<Rightarrow> nat" where
  "set_NumEntries ts = nat (num_entries (set_tag_map ts))"

definition empty_tag_map :: tag_map where
  "empty_tag_map = \<lparr>num_entries = 0, mapping = [], names = []\<rparr>"

definition ValidatePacketTypeSet :: "type_store \<Rightarrow> packet_type_set \<Rightarrow> status" where
  "ValidatePacketTypeSet st ts =
     (if missing_entries ts \<noteq> [] \<or> list_ex (\<lambda>i. \<not> IsInitialized st (type_at ts i)) [0..<set_NumEntries ts]
      then ErrorStatus InvalidArgument else OkStatus)"

record contract =
  contract_inputs :: packet_type_set
  contract_outputs :: packet_type_set
  contract_input_side_packets :: packet_type_set
  contract_output_side_packets :: packet_type_set

text \<open>\<open>CalculatorContract::Initialize\<close> for each kind of node. The packet types of a set are consecutive.\<close>

definition new_contract :: "tag_map \<Rightarrow> tag_map \<Rightarrow> tag_map \<Rightarrow> tag_map \<Rightarrow> addr \<Rightarrow> contract \<times> addr" where
  "new_contract ins outs sides out_sides a =
     (let a1 = a + nat (num_entries ins); a2 = a1 + nat (num_entries outs); a3 = a2 + nat (num_entries sides)
      in (\<lparr>contract_inputs = \<lparr>set_tag_map = ins, set_base = a, missing_entries = []\<rparr>,
           contract_outputs = \<lparr>set_tag_map = outs, set_base = a1, missing_entries = []\<rparr>,
           contract_input_side_packets = \<lparr>set_tag_map = sides, set_base = a2, missing_entries = []\<rparr>,
           contract_output_side_packets = \<lparr>set_tag_map = out_sides, set_base = a3, missing_entries = []\<rparr>\<rparr>,
          a3 + nat (num_entries out_sides)))"

definition Contract_Initialize :: "strings \<Rightarrow> node_config \<Rightarrow> addr \<Rightarrow> (contract \<times> addr) result" where
  "Contract_Initialize A n a =
     (case (Create A (input_stream n), Create A (output_stream n),
            Create A (input_side_packet n), Create A (output_side_packet n)) of
        (Inr ins, Inr outs, Inr sides, Inr out_sides) \<Rightarrow> Inr (new_contract ins outs sides out_sides a)
      | _ \<Rightarrow> Inl Unknown)"

definition Contract_Initialize_generator :: "strings \<Rightarrow> generator_config \<Rightarrow> addr \<Rightarrow> (contract \<times> addr) result" where
  "Contract_Initialize_generator A n a =
     (case (Create A (gen_input_side_packet n), Create A (gen_output_side_packet n)) of
        (Inr sides, Inr out_sides) \<Rightarrow> Inr (new_contract empty_tag_map empty_tag_map sides out_sides a)
      | _ \<Rightarrow> Inl Unknown)"

definition Contract_Initialize_handler :: "strings \<Rightarrow> handler_config \<Rightarrow> addr \<Rightarrow> (contract \<times> addr) result" where
  "Contract_Initialize_handler A n a =
     (case Create A (handler_input_side_packet n) of
        Inr sides \<Rightarrow> Inr (new_contract empty_tag_map empty_tag_map sides empty_tag_map a)
      | _ \<Rightarrow> Inl Unknown)"

end
