(* ===== verification/ValidatedGraph.thy ===== *)
theory ValidatedGraph
  imports GraphConfig TopologicalSorter
begin

section \<open>The validated graph\<close>

text \<open>
  \<open>validated_graph_config.h/.cc\<close>: the nodes of a graph with their contracts, the edges between
  them, the sorting of the nodes, the inference and the validation of the packet types, the
  sources above each node. A flat array of the source is a list, an index that may be -1 an
  option. Pointers to packet types are addresses of one store.

  What is registered by name, the contracts of calculators, packet generators and status
  handlers, is a parameter: a function of the node's configuration and its contract that may
  set packet types in the store and returns the accesses to missing entries of its input, output and
  side packet sets, and a status. The expansion of subgraphs is a parameter as well.
\<close>

datatype node_type = UnknownNode | CalculatorType | PacketGeneratorType | GraphInputStreamType | StatusHandlerType

record node_ref =
  ref_type :: node_type
  ref_index :: nat

record node_type_info =
  node :: node_ref
  node_contract :: contract
  input_side_packet_base_index :: nat
  output_side_packet_base_index :: nat
  input_stream_base_index :: nat
  output_stream_base_index :: nat
  AncestorSources :: "nat list"

record edge_info =
  upstream :: "nat option"
  parent_node :: node_ref
  edge_name :: string
  edge_type :: addr
  is_back_edge :: bool

record validated_graph =
  config :: graph_config
  calculators :: "node_type_info list"
  generators :: "node_type_info list"
  status_handlers :: "node_type_info list"
  sorted_nodes :: "node_ref list"
  stream_to_producer :: "string \<Rightarrow> nat option"
  side_packet_to_producer :: "string \<Rightarrow> nat option"
  required_side_packets :: "(string \<times> nat list) list"
  input_streams :: "edge_info list"
  output_streams :: "edge_info list"
  input_side_packets :: "edge_info list"
  output_side_packets :: "edge_info list"
  packet_types :: type_store
  next_type :: addr

type_synonym expectations = "contract \<Rightarrow> type_store \<Rightarrow> type_store \<times> (string list \<times> string list \<times> string list \<times> string list) \<times> status"

record registry =
  calculator_contract :: "string \<Rightarrow> node_config \<Rightarrow> expectations result"
  generator_expectations :: "string \<Rightarrow> generator_config \<Rightarrow> expectations result"
  handler_expectations :: "string \<Rightarrow> handler_config \<Rightarrow> expectations result"

subsection \<open>Nodes\<close>

definition new_node_type_info :: "node_type \<Rightarrow> nat \<Rightarrow> contract \<Rightarrow> node_type_info" where
  "new_node_type_info t index c = \<lparr>node = \<lparr>ref_type = t, ref_index = index\<rparr>, node_contract = c,
     input_side_packet_base_index = 0, output_side_packet_base_index = 0,
     input_stream_base_index = 0, output_stream_base_index = 0, AncestorSources = []\<rparr>"

text \<open>Running the registered code on a contract: the entries it missed are recorded in the sets.\<close>

definition fill_contract :: "expectations \<Rightarrow> contract \<Rightarrow> type_store \<Rightarrow> (type_store \<times> contract) \<times> status" where
  "fill_contract f c st =
     (let (st, (ins, outs, sides, out_sides), r) = f c st
      in ((st, c\<lparr>contract_inputs := (contract_inputs c)\<lparr>missing_entries := ins\<rparr>,
                 contract_outputs := (contract_outputs c)\<lparr>missing_entries := outs\<rparr>,
                 contract_input_side_packets := (contract_input_side_packets c)\<lparr>missing_entries := sides\<rparr>,
                 contract_output_side_packets := (contract_output_side_packets c)\<lparr>missing_entries := out_sides\<rparr>\<rparr>), r))"

text \<open>The check of the \<open>input_stream_info\<close> fields: \<open>used\<close> are the ids seen so far.\<close>

fun check_input_stream_infos :: "strings \<Rightarrow> tag_map \<Rightarrow> input_stream_info list \<Rightarrow> int list \<Rightarrow> unit result" where
  "check_input_stream_infos A tm [] used = Inr ()"
| "check_input_stream_infos A tm (info # infos) used =
     result_bind (ParseTagIndex A (tag_index info)) (\<lambda>(tag, index).
       let i = GetId tm tag index
       in if i < 0 then Inl InvalidArgument
          else if i \<in> set used then Inl InvalidArgument
          else check_input_stream_infos A tm infos (i # used))"

text \<open>
  \<open>NodeTypeInfo::Initialize\<close>. The packet types change in the store even if the node fails
  later. The sets are validated together, and the status of a failure combines theirs.
\<close>

definition Initialize_calculator ::
    "strings \<Rightarrow> registry \<Rightarrow> string \<Rightarrow> node_config \<Rightarrow> nat \<Rightarrow> type_store \<Rightarrow> addr \<Rightarrow>
     type_store \<times> addr \<times> node_type_info result" where
  "Initialize_calculator A R package n index st a =
     (case Contract_Initialize A n a of
        Inl e \<Rightarrow> (st, a, Inl e)
      | Inr (c, a) \<Rightarrow>
        (case result_bind (check_input_stream_infos A (set_tag_map (contract_inputs c)) (input_stream_infos n) [])
           (\<lambda>_. result_bind (ret_check (distinct (node_option_urls n))) (\<lambda>_. calculator_contract R package n)) of
           Inl e \<Rightarrow> (st, a, Inl e)
         | Inr f \<Rightarrow>
           (let ((st, c), r) = fill_contract f c st;
                invalid = CombinedStatus [ValidatePacketTypeSet st (contract_inputs c),
                  ValidatePacketTypeSet st (contract_outputs c), ValidatePacketTypeSet st (contract_input_side_packets c)]
            in (st, a, result_bind (status_result r) (\<lambda>_. result_bind (status_result invalid) (\<lambda>_.
                 Inr (new_node_type_info CalculatorType index c)))))))"

definition Initialize_generator ::
    "strings \<Rightarrow> registry \<Rightarrow> string \<Rightarrow> generator_config \<Rightarrow> nat \<Rightarrow> type_store \<Rightarrow> addr \<Rightarrow>
     type_store \<times> addr \<times> node_type_info result" where
  "Initialize_generator A R package n index st a =
     (case Contract_Initialize_generator A n a of
        Inl e \<Rightarrow> (st, a, Inl e)
      | Inr (c, a) \<Rightarrow>
        (case generator_expectations R package n of
           Inl e \<Rightarrow> (st, a, Inl e)
         | Inr f \<Rightarrow>
           (let ((st, c), r) = fill_contract f c st;
                invalid = CombinedStatus [ValidatePacketTypeSet st (contract_input_side_packets c),
                  ValidatePacketTypeSet st (contract_output_side_packets c)]
            in (st, a, result_bind (status_result r) (\<lambda>_. result_bind (status_result invalid) (\<lambda>_.
                 Inr (new_node_type_info PacketGeneratorType index c)))))))"

definition Initialize_handler ::
    "strings \<Rightarrow> registry \<Rightarrow> string \<Rightarrow> handler_config \<Rightarrow> nat \<Rightarrow> type_store \<Rightarrow> addr \<Rightarrow>
     type_store \<times> addr \<times> node_type_info result" where
  "Initialize_handler A R package n index st a =
     (case Contract_Initialize_handler A n a of
        Inl e \<Rightarrow> (st, a, Inl e)
      | Inr (c, a) \<Rightarrow>
        (case handler_expectations R package n of
           Inl e \<Rightarrow> (st, a, Inl e)
         | Inr f \<Rightarrow>
           (let ((st, c), r) = fill_contract f c st
            in (st, a, result_bind (status_result r) (\<lambda>_.
                 result_bind (status_result (ValidatePacketTypeSet st (contract_input_side_packets c))) (\<lambda>_.
                   Inr (new_node_type_info StatusHandlerType index c)))))))"

text \<open>
  The loop over the nodes of one kind: all are initialised, and the errors of those that fail
  are combined.
\<close>

fun initialize_infos ::
    "('n \<Rightarrow> nat \<Rightarrow> type_store \<Rightarrow> addr \<Rightarrow> type_store \<times> addr \<times> node_type_info result) \<Rightarrow> 'n list \<Rightarrow> nat \<Rightarrow>
     type_store \<Rightarrow> addr \<Rightarrow> type_store \<times> addr \<times> node_type_info list \<times> status list" where
  "initialize_infos init [] index st a = (st, a, [], [])"
| "initialize_infos init (n # ns) index st a =
     (let (st, a, r) = init n index st a;
          (st, a, infos, statuses) = initialize_infos init ns (Suc index) st a
      in (st, a, (case r of Inl c \<Rightarrow> (infos, ErrorStatus c # statuses) | Inr i \<Rightarrow> (i # infos, statuses))))"

definition InitializeCalculatorInfo :: "strings \<Rightarrow> registry \<Rightarrow> validated_graph \<Rightarrow> validated_graph result" where
  "InitializeCalculatorInfo A R g =
     (let (st, a, infos, statuses) = initialize_infos (Initialize_calculator A R (config_package (config g)))
            (config_nodes (config g)) 0 (packet_types g) (next_type g)
      in result_bind (status_result (CombinedStatus statuses)) (\<lambda>_.
           Inr (g\<lparr>calculators := infos, packet_types := st, next_type := a\<rparr>)))"

definition InitializeGeneratorInfo :: "strings \<Rightarrow> registry \<Rightarrow> validated_graph \<Rightarrow> validated_graph result" where
  "InitializeGeneratorInfo A R g =
     (let (st, a, infos, statuses) = initialize_infos (Initialize_generator A R (config_package (config g)))
            (config_generators (config g)) 0 (packet_types g) (next_type g)
      in result_bind (status_result (CombinedStatus statuses)) (\<lambda>_.
           Inr (g\<lparr>generators := infos, packet_types := st, next_type := a\<rparr>)))"

definition InitializeStatusHandlerInfo :: "strings \<Rightarrow> registry \<Rightarrow> validated_graph \<Rightarrow> validated_graph result" where
  "InitializeStatusHandlerInfo A R g =
     (let (st, a, infos, statuses) = initialize_infos (Initialize_handler A R (config_package (config g)))
            (config_handlers (config g)) 0 (packet_types g) (next_type g)
      in result_bind (status_result (CombinedStatus statuses)) (\<lambda>_.
           Inr (g\<lparr>status_handlers := infos, packet_types := st, next_type := a\<rparr>)))"

subsection \<open>Side packets\<close>

text \<open>\<open>need\<close> is the flag behind \<open>need_sorting_ptr\<close>, or \<open>None\<close> for the null pointer.\<close>

fun add_input_side_packet_edges :: "node_ref \<Rightarrow> packet_type_set \<Rightarrow> nat list \<Rightarrow> validated_graph \<Rightarrow> validated_graph" where
  "add_input_side_packet_edges ref ts [] g = g"
| "add_input_side_packet_edges ref ts (i # is) g =
     (let name = names (set_tag_map ts) ! i;
          producer = side_packet_to_producer g name;
          edge = \<lparr>upstream = producer, parent_node = ref, edge_name = name, edge_type = type_at ts i, is_back_edge = False\<rparr>;
          g = g\<lparr>input_side_packets := input_side_packets g @ [edge]\<rparr>;
          g = (if producer = None
               then g\<lparr>required_side_packets := update_key name
                 (lookup_key [] (required_side_packets g) name @ [length (input_side_packets g) - 1]) (required_side_packets g)\<rparr>
               else g)
      in add_input_side_packet_edges ref ts is g)"

fun add_output_side_packet_edges ::
    "node_ref \<Rightarrow> packet_type_set \<Rightarrow> nat list \<Rightarrow> bool option \<Rightarrow> validated_graph \<Rightarrow> (bool option \<times> validated_graph) result" where
  "add_output_side_packet_edges ref ts [] need g = Inr (need, g)"
| "add_output_side_packet_edges ref ts (i # is) need g =
     (let name = names (set_tag_map ts) ! i;
          edge = \<lparr>upstream = None, parent_node = ref, edge_name = name, edge_type = type_at ts i, is_back_edge = False\<rparr>;
          g = g\<lparr>output_side_packets := output_side_packets g @ [edge]\<rparr>
      in if side_packet_to_producer g name \<noteq> None then Inl Unknown
         else let g = g\<lparr>side_packet_to_producer := (side_packet_to_producer g)(name \<mapsto> length (output_side_packets g) - 1)\<rparr>
           in if map_of (required_side_packets g) name \<noteq> None
              then (if need = None then Inl Unknown else add_output_side_packet_edges ref ts is (Some True) g)
              else add_output_side_packet_edges ref ts is need g)"

text \<open>The node behind a reference, for the three kinds that have side packets.\<close>

definition get_info :: "node_ref \<Rightarrow> validated_graph \<Rightarrow> node_type_info" where
  "get_info ref g =
     (case ref_type ref of
        CalculatorType \<Rightarrow> calculators g ! ref_index ref
      | PacketGeneratorType \<Rightarrow> generators g ! ref_index ref
      | _ \<Rightarrow> status_handlers g ! ref_index ref)"

definition set_info :: "node_ref \<Rightarrow> node_type_info \<Rightarrow> validated_graph \<Rightarrow> validated_graph" where
  "set_info ref info g =
     (case ref_type ref of
        CalculatorType \<Rightarrow> g\<lparr>calculators := (calculators g)[ref_index ref := info]\<rparr>
      | PacketGeneratorType \<Rightarrow> g\<lparr>generators := (generators g)[ref_index ref := info]\<rparr>
      | _ \<Rightarrow> g\<lparr>status_handlers := (status_handlers g)[ref_index ref := info]\<rparr>)"

definition AddInputSidePacketsForNode :: "node_ref \<Rightarrow> validated_graph \<Rightarrow> validated_graph" where
  "AddInputSidePacketsForNode ref g =
     (let info = get_info ref g; ts = contract_input_side_packets (node_contract info);
          g = set_info ref (info\<lparr>input_side_packet_base_index := length (input_side_packets g)\<rparr>) g
      in add_input_side_packet_edges (node info) ts [0..<set_NumEntries ts] g)"

definition AddOutputSidePacketsForNode ::
    "node_ref \<Rightarrow> bool option \<Rightarrow> validated_graph \<Rightarrow> (bool option \<times> validated_graph) result" where
  "AddOutputSidePacketsForNode ref need g =
     (let info = get_info ref g; ts = contract_output_side_packets (node_contract info);
          g = set_info ref (info\<lparr>output_side_packet_base_index := length (output_side_packets g)\<rparr>) g
      in add_output_side_packet_edges (node info) ts [0..<set_NumEntries ts] need g)"

fun add_side_packets :: "node_ref list \<Rightarrow> bool option \<Rightarrow> validated_graph \<Rightarrow> (bool option \<times> validated_graph) result" where
  "add_side_packets [] need g = Inr (need, g)"
| "add_side_packets (ref # refs) need g =
     result_bind (AddOutputSidePacketsForNode ref need (AddInputSidePacketsForNode ref g)) (\<lambda>(need, g).
       add_side_packets refs need g)"

definition InitializeSidePacketInfo :: "bool option \<Rightarrow> validated_graph \<Rightarrow> (bool option \<times> validated_graph) result" where
  "InitializeSidePacketInfo need g =
     result_bind (add_side_packets (sorted_nodes g) need g) (\<lambda>(need, g).
       if need = Some True then Inr (need, g)
       else Inr (need, fold (\<lambda>i. AddInputSidePacketsForNode \<lparr>ref_type = StatusHandlerType, ref_index = i\<rparr>)
         [0..<length (config_handlers (config g))] g))"

subsection \<open>Streams\<close>

definition AddOutputStream :: "node_ref \<Rightarrow> string \<Rightarrow> addr \<Rightarrow> validated_graph \<Rightarrow> validated_graph result" where
  "AddOutputStream ref name ty g =
     (let edge = \<lparr>upstream = None, parent_node = ref, edge_name = name, edge_type = ty, is_back_edge = False\<rparr>;
          g = g\<lparr>output_streams := output_streams g @ [edge]\<rparr>
      in if stream_to_producer g name \<noteq> None then Inl Unknown
         else Inr (g\<lparr>stream_to_producer := (stream_to_producer g)(name \<mapsto> length (output_streams g) - 1)\<rparr>))"

fun add_output_stream_edges :: "node_ref \<Rightarrow> packet_type_set \<Rightarrow> nat list \<Rightarrow> validated_graph \<Rightarrow> validated_graph result" where
  "add_output_stream_edges ref ts [] g = Inr g"
| "add_output_stream_edges ref ts (i # is) g =
     result_bind (AddOutputStream ref (names (set_tag_map ts) ! i) (type_at ts i) g) (add_output_stream_edges ref ts is)"

definition AddOutputStreamsForNode :: "nat \<Rightarrow> validated_graph \<Rightarrow> validated_graph result" where
  "AddOutputStreamsForNode k g =
     (let info = calculators g ! k; ts = contract_outputs (node_contract info);
          g = g\<lparr>calculators := (calculators g)[k := info\<lparr>output_stream_base_index := length (output_streams g)\<rparr>]\<rparr>
      in add_output_stream_edges (node info) ts [0..<set_NumEntries ts] g)"

text \<open>The ids of the inputs marked as back edges.\<close>

fun back_edge_ids :: "strings \<Rightarrow> tag_map \<Rightarrow> input_stream_info list \<Rightarrow> int list result" where
  "back_edge_ids A tm [] = Inr []"
| "back_edge_ids A tm (info # infos) =
     (if info_back_edge info
      then result_bind (ParseTagIndex A (tag_index info)) (\<lambda>(tag, index).
        let i = GetId tm tag index
        in result_bind (ret_check (0 \<le> i)) (\<lambda>_. result_bind (back_edge_ids A tm infos) (\<lambda>is. Inr (i # is))))
      else back_edge_ids A tm infos)"

fun add_input_stream_edges ::
    "node_ref \<Rightarrow> packet_type_set \<Rightarrow> int list \<Rightarrow> nat list \<Rightarrow> bool option \<Rightarrow> validated_graph \<Rightarrow>
     (bool option \<times> validated_graph) result" where
  "add_input_stream_edges ref ts back [] need g = Inr (need, g)"
| "add_input_stream_edges ref ts back (i # is) need g =
     (let name = names (set_tag_map ts) ! i;
          back_edge = (int i \<in> set back);
          producer = stream_to_producer g name;
          edge = \<lparr>upstream = (if back_edge then None else producer), parent_node = ref, edge_name = name,
                  edge_type = type_at ts i, is_back_edge = back_edge\<rparr>
      in if producer = None \<and> \<not> back_edge \<and> need = None then Inl Unknown
         else add_input_stream_edges ref ts back is (if producer = None \<and> \<not> back_edge then Some True else need)
           (g\<lparr>input_streams := input_streams g @ [edge]\<rparr>))"

definition AddInputStreamsForNode ::
    "strings \<Rightarrow> nat \<Rightarrow> bool option \<Rightarrow> validated_graph \<Rightarrow> (bool option \<times> validated_graph) result" where
  "AddInputStreamsForNode A k need g =
     (let info = calculators g ! k; ts = contract_inputs (node_contract info);
          g = g\<lparr>calculators := (calculators g)[k := info\<lparr>input_stream_base_index := length (input_streams g)\<rparr>]\<rparr>
      in result_bind (back_edge_ids A (set_tag_map ts) (input_stream_infos (config_nodes (config g) ! ref_index (node info))))
        (\<lambda>back. add_input_stream_edges (node info) ts back [0..<set_NumEntries ts] need g))"

text \<open>Each graph input stream is an output of a virtual node and may carry any type.\<close>

fun add_graph_input_streams :: "string list \<Rightarrow> nat \<Rightarrow> validated_graph \<Rightarrow> validated_graph result" where
  "add_graph_input_streams [] index g = Inr g"
| "add_graph_input_streams (name # ns) index g =
     (let ty = next_type g;
          g = g\<lparr>packet_types := SetAny (packet_types g) ty, next_type := Suc ty\<rparr>
      in result_bind (AddOutputStream \<lparr>ref_type = GraphInputStreamType, ref_index = index + length (config_nodes (config g))\<rparr>
           name ty g) (add_graph_input_streams ns (Suc index)))"

fun add_streams :: "strings \<Rightarrow> nat list \<Rightarrow> bool option \<Rightarrow> validated_graph \<Rightarrow> (bool option \<times> validated_graph) result" where
  "add_streams A [] need g = Inr (need, g)"
| "add_streams A (k # ks) need g =
     result_bind (AddInputStreamsForNode A k need g) (\<lambda>(need, g).
       result_bind (AddOutputStreamsForNode k g) (add_streams A ks need))"

definition InitializeStreamInfo ::
    "strings \<Rightarrow> bool option \<Rightarrow> validated_graph \<Rightarrow> (bool option \<times> validated_graph) result" where
  "InitializeStreamInfo A need g =
     result_bind (Create A (graph_input_stream (config g))) (\<lambda>tm.
     result_bind (add_graph_input_streams (names tm) 0 g) (\<lambda>g.
     result_bind (add_streams A [0..<length (calculators g)] need g) (\<lambda>(need, g).
     result_bind (Create A (graph_output_stream (config g))) (\<lambda>_. Inr (need, g)))))"

subsection \<open>Sorting\<close>

definition SorterIndexForNode :: "validated_graph \<Rightarrow> node_ref \<Rightarrow> int option" where
  "SorterIndexForNode g ref =
     (case ref_type ref of
        PacketGeneratorType \<Rightarrow> Some (int (ref_index ref))
      | CalculatorType \<Rightarrow> Some (int (length (generators g) + ref_index ref))
      | _ \<Rightarrow> None)"

definition NodeForSorterIndex :: "validated_graph \<Rightarrow> nat \<Rightarrow> node_ref" where
  "NodeForSorterIndex g index =
     (if index < length (generators g) then \<lparr>ref_type = PacketGeneratorType, ref_index = index\<rparr>
      else \<lparr>ref_type = CalculatorType, ref_index = index - length (generators g)\<rparr>)"

definition sorter_edge :: "validated_graph \<Rightarrow> node_ref \<Rightarrow> node_ref \<Rightarrow> topological_sorter \<Rightarrow> topological_sorter option" where
  "sorter_edge g from to s = do { u \<leftarrow> SorterIndexForNode g from; v \<leftarrow> SorterIndexForNode g to; AddEdge u v s }"

fun sorter_stream_edges :: "validated_graph \<Rightarrow> edge_info list \<Rightarrow> topological_sorter \<Rightarrow> topological_sorter option" where
  "sorter_stream_edges g [] s = Some s"
| "sorter_stream_edges g (e # es) s =
     (case stream_to_producer g (edge_name e) of
        None \<Rightarrow> sorter_stream_edges g es s
      | Some u \<Rightarrow>
        if ref_type (parent_node (output_streams g ! u)) \<noteq> GraphInputStreamType \<and> \<not> is_back_edge e
        then do { s \<leftarrow> sorter_edge g (parent_node (output_streams g ! u)) (parent_node e) s; sorter_stream_edges g es s }
        else sorter_stream_edges g es s)"

fun sorter_side_packet_edges :: "validated_graph \<Rightarrow> edge_info list \<Rightarrow> topological_sorter \<Rightarrow> topological_sorter option" where
  "sorter_side_packet_edges g [] s = Some s"
| "sorter_side_packet_edges g (e # es) s =
     (if ref_type (parent_node e) \<noteq> PacketGeneratorType \<and> ref_type (parent_node e) \<noteq> CalculatorType
      then sorter_side_packet_edges g es s
      else case side_packet_to_producer g (edge_name e) of
        None \<Rightarrow> sorter_side_packet_edges g es s
      | Some u \<Rightarrow> do {
          s \<leftarrow> sorter_edge g (parent_node (output_side_packets g ! u)) (parent_node e) s;
          sorter_side_packet_edges g es s })"

text \<open>
  The loop of \<open>GetNext\<close> calls: the nodes taken so far, with their new indexes, and their
  configurations. Each moved node keeps its contract.
\<close>

definition take_node :: "validated_graph \<Rightarrow> validated_graph \<Rightarrow> nat \<Rightarrow> validated_graph" where
  "take_node old g index =
     (let ref = NodeForSorterIndex old index; info = get_info ref old
      in if ref_type ref = PacketGeneratorType
         then g\<lparr>generators := generators g @ [info\<lparr>node := (node info)\<lparr>ref_index := length (generators g)\<rparr>\<rparr>],
                config := (config g)\<lparr>config_generators := config_generators (config g) @ [config_generators (config old) ! ref_index ref]\<rparr>,
                sorted_nodes := sorted_nodes g @ [ref\<lparr>ref_index := length (generators g)\<rparr>]\<rparr>
         else g\<lparr>calculators := calculators g @ [info\<lparr>node := (node info)\<lparr>ref_index := length (calculators g)\<rparr>\<rparr>],
                config := (config g)\<lparr>config_nodes := config_nodes (config g) @ [config_nodes (config old) ! ref_index ref]\<rparr>,
                sorted_nodes := sorted_nodes g @ [ref\<lparr>ref_index := length (calculators g)\<rparr>]\<rparr>)"

definition TopologicalSortNodes :: "validated_graph \<Rightarrow> validated_graph result option" where
  "TopologicalSortNodes g =
     (let n = length (generators g) + length (calculators g)
      in do {
        sorter \<leftarrow> new_topological_sorter (int n);
        sorter \<leftarrow> sorter_stream_edges g (input_streams g) sorter;
        sorter \<leftarrow> sorter_side_packet_edges g (input_side_packets g) sorter;
        (order, end) \<leftarrow> traverse (Suc n) sorter;
        case end of
          Cyclic c \<Rightarrow> Some (Inl Unknown)
        | _ \<Rightarrow> Some (Inr (fold (\<lambda>index g'. take_node g g' index) order
            (g\<lparr>generators := [], calculators := [], sorted_nodes := [],
               config := (config g)\<lparr>config_generators := [], config_nodes := []\<rparr>\<rparr>))) })"

end
