(* ===== verification/GraphInitialize.thy ===== *)
theory GraphInitialize
  imports ValidatedGraph
begin

section \<open>Initialising a validated graph\<close>

text \<open>
  \<open>validated_graph_config.cc\<close>, continued: back edges, packet types, sources, executors, and
  \<open>ValidatedGraphConfig::Initialize\<close>, which composes all of it; then the checks of the side
  packets given to a run, and the queries.
\<close>

fun fill_back_edges :: "validated_graph \<Rightarrow> edge_info list \<Rightarrow> edge_info list result" where
  "fill_back_edges g [] = Inr []"
| "fill_back_edges g (e # es) =
     result_bind
       (if is_back_edge e
        then result_bind (ret_check (upstream e = None)) (\<lambda>_.
          case stream_to_producer g (edge_name e) of
            None \<Rightarrow> Inl Internal
          | Some u \<Rightarrow> Inr (e\<lparr>upstream := Some u\<rparr>))
        else Inr e)
       (\<lambda>e. result_bind (fill_back_edges g es) (\<lambda>es. Inr (e # es)))"

definition FillUpstreamFieldForBackEdges :: "validated_graph \<Rightarrow> validated_graph result" where
  "FillUpstreamFieldForBackEdges g =
     result_bind (fill_back_edges g (input_streams g)) (\<lambda>es. Inr (g\<lparr>input_streams := es\<rparr>))"

subsection \<open>Packet types\<close>

definition resolve_any :: "addr \<Rightarrow> addr \<Rightarrow> type_store \<Rightarrow> type_store option" where
  "resolve_any input output st = do {
     input_root \<leftarrow> GetSameAs st input;
     output_root \<leftarrow> GetSameAs st output;
     if IsAny st input_root then SetSameAs st input_root output
     else if IsAny st output_root then SetSameAs st output_root input
     else Some st }"

definition IsOneOf :: "type_store \<Rightarrow> addr \<Rightarrow> bool" where
  "IsOneOf st p \<longleftrightarrow> (case type_spec_field (st p) of MultiType ts \<Rightarrow> True | _ \<Rightarrow> False)"

definition IsExactType :: "type_store \<Rightarrow> addr \<Rightarrow> bool" where
  "IsExactType st p \<longleftrightarrow> (case type_spec_field (st p) of ExactType t \<Rightarrow> True | _ \<Rightarrow> False)"

definition resolve_one_of :: "addr \<Rightarrow> addr \<Rightarrow> type_store \<Rightarrow> type_store option" where
  "resolve_one_of input output st = do {
     input_root \<leftarrow> GetSameAs st input;
     output_root \<leftarrow> GetSameAs st output;
     consistent \<leftarrow> IsConsistentWith st input_root output_root;
     if \<not> consistent then Some st
     else if IsOneOf st input_root \<and> IsExactType st output_root then SetSameAs st input_root output
     else if IsOneOf st output_root \<and> IsExactType st input_root then SetSameAs st output_root input
     else Some st }"

text \<open>Both loops visit the input edges that are connected, with the type at the other end.\<close>

fun resolve_types ::
    "(addr \<Rightarrow> addr \<Rightarrow> type_store \<Rightarrow> type_store option) \<Rightarrow> edge_info list \<Rightarrow> edge_info list \<Rightarrow> type_store \<Rightarrow> type_store option" where
  "resolve_types f [] outs st = Some st"
| "resolve_types f (e # es) outs st =
     (case upstream e of
        None \<Rightarrow> resolve_types f es outs st
      | Some u \<Rightarrow> do { st \<leftarrow> f (edge_type e) (edge_type (outs ! u)) st; resolve_types f es outs st })"

definition ResolveAnyTypes :: "edge_info list \<Rightarrow> edge_info list \<Rightarrow> type_store \<Rightarrow> type_store option" where
  "ResolveAnyTypes = resolve_types resolve_any"

definition ResolveOneOfTypes :: "edge_info list \<Rightarrow> edge_info list \<Rightarrow> type_store \<Rightarrow> type_store option" where
  "ResolveOneOfTypes = resolve_types resolve_one_of"

fun validate_side_packet_types :: "edge_info list \<Rightarrow> edge_info list \<Rightarrow> type_store \<Rightarrow> unit result option" where
  "validate_side_packet_types [] outs st = Some (Inr ())"
| "validate_side_packet_types (e # es) outs st =
     (case upstream e of
        None \<Rightarrow> validate_side_packet_types es outs st
      | Some u \<Rightarrow> do {
          consistent \<leftarrow> IsConsistentWith st (edge_type e) (edge_type (outs ! u));
          if \<not> consistent then Some (Inl Unknown) else validate_side_packet_types es outs st })"

fun validate_stream_types :: "edge_info list \<Rightarrow> edge_info list \<Rightarrow> type_store \<Rightarrow> unit result option" where
  "validate_stream_types [] outs st = Some (Inr ())"
| "validate_stream_types (e # es) outs st =
     (case upstream e of
        None \<Rightarrow> Some (Inl Internal)
      | Some u \<Rightarrow> do {
          consistent \<leftarrow> IsConsistentWith st (edge_type e) (edge_type (outs ! u));
          if \<not> consistent then Some (Inl Unknown) else validate_stream_types es outs st })"

definition ValidateSidePacketTypes :: "validated_graph \<Rightarrow> unit result option" where
  "ValidateSidePacketTypes g = validate_side_packet_types (input_side_packets g) (output_side_packets g) (packet_types g)"

definition ValidateStreamTypes :: "validated_graph \<Rightarrow> unit result option" where
  "ValidateStreamTypes g = validate_stream_types (input_streams g) (output_streams g) (packet_types g)"

subsection \<open>Sources\<close>

text \<open>The sources that the input streams of a node bring it; the sets of a node are lists without duplicates.\<close>

fun add_sources :: "validated_graph \<Rightarrow> node_type_info list \<Rightarrow> nat list \<Rightarrow> nat list \<Rightarrow> nat list result" where
  "add_sources g infos [] sources = Inr sources"
| "add_sources g infos (i # is) sources =
     result_bind (ret_check (i < length (input_streams g))) (\<lambda>_.
       case upstream (input_streams g ! i) of
         None \<Rightarrow> Inl Internal
       | Some u \<Rightarrow>
         let parent = parent_node (output_streams g ! u)
         in result_bind (ret_check (ref_index parent \<le> length infos + length (graph_input_stream (config g)))) (\<lambda>_.
              add_sources g infos is
                (if ref_type parent = GraphInputStreamType then List.insert (ref_index parent) sources
                 else fold List.insert (AncestorSources (infos ! ref_index parent)) sources)))"

definition node_sources :: "validated_graph \<Rightarrow> node_type_info list \<Rightarrow> nat \<Rightarrow> nat list result" where
  "node_sources g infos k =
     (let info = infos ! k; n = set_NumEntries (contract_inputs (node_contract info))
      in if n = 0 then Inr (List.insert k (AncestorSources info))
         else add_sources g infos [input_stream_base_index info..<input_stream_base_index info + n] (AncestorSources info))"

fun compute_sources :: "validated_graph \<Rightarrow> nat list \<Rightarrow> node_type_info list \<Rightarrow> node_type_info list result" where
  "compute_sources g [] infos = Inr infos"
| "compute_sources g (k # ks) infos =
     result_bind (node_sources g infos k) (\<lambda>sources.
       compute_sources g ks (infos[k := (infos ! k)\<lparr>AncestorSources := sources\<rparr>]))"

definition ComputeSourceDependence :: "validated_graph \<Rightarrow> validated_graph result" where
  "ComputeSourceDependence g =
     result_bind (compute_sources g [0..<length (calculators g)] (calculators g)) (\<lambda>infos. Inr (g\<lparr>calculators := infos\<rparr>))"

subsection \<open>Executors\<close>

definition IsReservedExecutorName :: "string \<Rightarrow> bool" where
  "IsReservedExecutorName name \<longleftrightarrow> name = ''default'' \<or> name = ''gpu'' \<or> take 2 name = ''__''"

fun declare_executors :: "executor_config list \<Rightarrow> string list \<Rightarrow> string list result" where
  "declare_executors [] declared = Inr declared"
| "declare_executors (e # es) declared =
     (if IsReservedExecutorName (executor_name e) then Inl InvalidArgument
      else if executor_name e \<in> set declared then Inl InvalidArgument
      else declare_executors es (executor_name e # declared))"

fun check_node_executors :: "node_config list \<Rightarrow> string list \<Rightarrow> unit result" where
  "check_node_executors [] declared = Inr ()"
| "check_node_executors (n # ns) declared =
     (if node_executor n = [] then check_node_executors ns declared
      else if IsReservedExecutorName (node_executor n) then Inl InvalidArgument
      else if node_executor n \<notin> set declared then Inl InvalidArgument
      else check_node_executors ns declared)"

definition ValidateExecutors :: "graph_config \<Rightarrow> unit result" where
  "ValidateExecutors cfg = result_bind (declare_executors (config_executors cfg) []) (check_node_executors (config_nodes cfg))"

text \<open>The first executor without a name decides; otherwise a default one is added.\<close>

definition AddPredefinedExecutorConfigs :: "graph_config \<Rightarrow> graph_config result" where
  "AddPredefinedExecutorConfigs cfg =
     (if list_ex (\<lambda>e. executor_name e = []) (config_executors cfg)
      then (if num_threads cfg \<noteq> 0 then Inl InvalidArgument else Inr cfg)
      else Inr (cfg\<lparr>config_executors := config_executors cfg @ [\<lparr>executor_name = [], executor_type = [],
                      executor_options = no_pool_options\<lparr>opt_num_threads := if num_threads cfg \<noteq> 0 then Some (num_threads cfg) else None\<rparr>\<rparr>],
                    num_threads := 0\<rparr>))"

subsection \<open>Initialize\<close>

definition PerformBasicTransforms :: "(graph_config \<Rightarrow> graph_config result) \<Rightarrow> graph_config \<Rightarrow> graph_config result" where
  "PerformBasicTransforms ExpandSubgraphs cfg =
     result_bind (ExpandSubgraphs cfg) (\<lambda>cfg. result_bind (AddPredefinedExecutorConfigs cfg) (\<lambda>cfg.
       Inr (case graph_handler cfg of
         None \<Rightarrow> cfg
       | Some h \<Rightarrow> cfg\<lparr>config_nodes := map (\<lambda>n. if node_handler n = None then n\<lparr>node_handler := Some h\<rparr> else n)
           (config_nodes cfg)\<rparr>)))"

definition new_validated_graph :: "graph_config \<Rightarrow> validated_graph" where
  "new_validated_graph cfg = \<lparr>config = cfg, calculators = [], generators = [], status_handlers = [], sorted_nodes = [],
     stream_to_producer = Map.empty, side_packet_to_producer = Map.empty, required_side_packets = [],
     input_streams = [], output_streams = [], input_side_packets = [], output_side_packets = [],
     packet_types = initial_types, next_type = 0\<rparr>"

definition clear_analysis :: "validated_graph \<Rightarrow> validated_graph" where
  "clear_analysis g = g\<lparr>side_packet_to_producer := Map.empty, required_side_packets := [], input_side_packets := [],
     output_side_packets := [], stream_to_producer := Map.empty, input_streams := [], output_streams := []\<rparr>"

text \<open>The three phases: the nodes; the edges, sorted if they have to be; the types, sources and executors.\<close>

definition initialize_nodes :: "strings \<Rightarrow> registry \<Rightarrow> validated_graph \<Rightarrow> validated_graph result" where
  "initialize_nodes A R g =
     result_bind (InitializeGeneratorInfo A R g) (\<lambda>g.
     result_bind (InitializeCalculatorInfo A R g) (\<lambda>g.
     result_bind (InitializeStatusHandlerInfo A R g) (\<lambda>g.
       Inr (g\<lparr>sorted_nodes := map (\<lambda>i. \<lparr>ref_type = PacketGeneratorType, ref_index = i\<rparr>) [0..<length (generators g)] @
                               map (\<lambda>i. \<lparr>ref_type = CalculatorType, ref_index = i\<rparr>) [0..<length (calculators g)]\<rparr>))))"

definition initialize_edges :: "strings \<Rightarrow> bool option \<Rightarrow> validated_graph \<Rightarrow> (bool option \<times> validated_graph) result" where
  "initialize_edges A need g = result_bind (InitializeSidePacketInfo need g) (\<lambda>(need, g). InitializeStreamInfo A need g)"

definition initialize_sorted :: "strings \<Rightarrow> validated_graph \<Rightarrow> validated_graph result option" where
  "initialize_sorted A g =
     outcome_bind (Some (initialize_edges A (Some False) g)) (\<lambda>(need, g).
       if need = Some True
       then outcome_bind (TopologicalSortNodes g) (\<lambda>g.
         outcome_bind (Some (initialize_edges A None (clear_analysis g))) (\<lambda>(_, g). Some (Inr g)))
       else Some (Inr g))"

definition resolve_and_validate :: "validated_graph \<Rightarrow> validated_graph result option" where
  "resolve_and_validate g = do {
     st \<leftarrow> ResolveAnyTypes (input_streams g) (output_streams g) (packet_types g);
     st \<leftarrow> ResolveOneOfTypes (input_streams g) (output_streams g) st;
     st \<leftarrow> ResolveAnyTypes (input_side_packets g) (output_side_packets g) st;
     st \<leftarrow> ResolveOneOfTypes (input_side_packets g) (output_side_packets g) st;
     let g = g\<lparr>packet_types := st\<rparr> in
     outcome_bind (ValidateSidePacketTypes g) (\<lambda>_. outcome_bind (ValidateStreamTypes g) (\<lambda>_. Some (Inr g))) }"

definition ValidatedGraph_Initialize ::
    "strings \<Rightarrow> registry \<Rightarrow> (graph_config \<Rightarrow> graph_config result) \<Rightarrow> graph_config \<Rightarrow> validated_graph result option" where
  "ValidatedGraph_Initialize A R ExpandSubgraphs input_config =
     outcome_bind (Some (PerformBasicTransforms ExpandSubgraphs input_config)) (\<lambda>cfg.
     outcome_bind (Some (initialize_nodes A R (new_validated_graph cfg))) (\<lambda>g.
     outcome_bind (initialize_sorted A g) (\<lambda>g.
     outcome_bind (Some (FillUpstreamFieldForBackEdges g)) (\<lambda>g.
     outcome_bind (resolve_and_validate g) (\<lambda>g.
     outcome_bind (Some (ComputeSourceDependence g)) (\<lambda>g.
     outcome_bind (Some (ValidateExecutors (config g))) (\<lambda>_. Some (Inr g))))))))"

subsection \<open>The side packets of a run\<close>

definition CanAcceptSidePackets :: "validated_graph \<Rightarrow> (string \<Rightarrow> 'v option) \<Rightarrow> unit result" where
  "CanAcceptSidePackets g side_packets =
     (if list_ex (\<lambda>e. side_packets (edge_name e) \<noteq> None) (output_side_packets g) then Inl Unknown else Inr ())"

text \<open>The types of the edges that require a side packet, and the statuses of their validation.\<close>

definition required_types :: "validated_graph \<Rightarrow> nat list \<Rightarrow> addr list" where
  "required_types g indices = map (\<lambda>i. edge_type (input_side_packets g ! i)) indices"

fun validate_all :: "type_store \<Rightarrow> addr list \<Rightarrow> 'a packet \<Rightarrow> status list option" where
  "validate_all st [] p = Some []"
| "validate_all st (a # as) p = do { s \<leftarrow> Validate st a p; ss \<leftarrow> validate_all st as p; Some (s # ss) }"

fun required_statuses :: "validated_graph \<Rightarrow> (string \<Rightarrow> 'a packet option) \<Rightarrow> (string \<times> nat list) list \<Rightarrow> status list option" where
  "required_statuses g side_packets [] = Some []"
| "required_statuses g side_packets ((name, indices) # items) = do {
     ss \<leftarrow> (case side_packets name of
       None \<Rightarrow>
         if list_all (\<lambda>a. optional_field (packet_types g a)) (required_types g indices) then Some []
         else Some [ErrorStatus InvalidArgument]
     | Some p \<Rightarrow> validate_all (packet_types g) (required_types g indices) p);
     ss' \<leftarrow> required_statuses g side_packets items;
     Some (ss @ ss') }"

definition ValidateRequiredSidePackets :: "validated_graph \<Rightarrow> (string \<Rightarrow> 'a packet option) \<Rightarrow> status option" where
  "ValidateRequiredSidePackets g side_packets = do {
     statuses \<leftarrow> required_statuses g side_packets (required_side_packets g);
     Some (CombinedStatus statuses) }"

fun all_consistent :: "type_store \<Rightarrow> addr list \<Rightarrow> addr \<Rightarrow> bool option" where
  "all_consistent st [] ty = Some True"
| "all_consistent st (a # as) ty = do {
     consistent \<leftarrow> IsConsistentWith st a ty;
     if consistent then all_consistent st as ty else Some False }"

fun required_type_statuses ::
    "validated_graph \<Rightarrow> (string \<Rightarrow> addr option) \<Rightarrow> (string \<times> nat list) list \<Rightarrow> status list \<Rightarrow> status option" where
  "required_type_statuses g side_packet_types [] statuses = Some (CombinedStatus statuses)"
| "required_type_statuses g side_packet_types ((name, indices) # items) statuses =
     (case side_packet_types name of
        None \<Rightarrow> required_type_statuses g side_packet_types items
          (if list_all (\<lambda>a. optional_field (packet_types g a)) (required_types g indices) then statuses
           else statuses @ [ErrorStatus InvalidArgument])
      | Some ty \<Rightarrow> do {
          consistent \<leftarrow> all_consistent (packet_types g) (required_types g indices) ty;
          if consistent then required_type_statuses g side_packet_types items statuses
          else Some (ErrorStatus Unknown) })"

definition ValidateRequiredSidePacketTypes :: "validated_graph \<Rightarrow> (string \<Rightarrow> addr option) \<Rightarrow> status option" where
  "ValidateRequiredSidePacketTypes g side_packet_types =
     required_type_statuses g side_packet_types (required_side_packets g) []"

subsection \<open>Queries\<close>

definition OutputStreamIndex :: "validated_graph \<Rightarrow> string \<Rightarrow> int" where
  "OutputStreamIndex g name = (case stream_to_producer g name of None \<Rightarrow> -1 | Some i \<Rightarrow> int i)"

definition OutputSidePacketIndex :: "validated_graph \<Rightarrow> string \<Rightarrow> int" where
  "OutputSidePacketIndex g name = (case side_packet_to_producer g name of None \<Rightarrow> -1 | Some i \<Rightarrow> int i)"

definition OutputStreamToNode :: "validated_graph \<Rightarrow> string \<Rightarrow> int" where
  "OutputStreamToNode g name =
     (case stream_to_producer g name of None \<Rightarrow> -1 | Some i \<Rightarrow> int (ref_index (parent_node (output_streams g ! i))))"

definition IsExternalSidePacket :: "validated_graph \<Rightarrow> string \<Rightarrow> bool" where
  "IsExternalSidePacket g name \<longleftrightarrow> map_of (required_side_packets g) name \<noteq> None"

text \<open>
  The registered name of a type: \<open>type_name\<close> is the registry of types. A type with several
  alternatives always has one.
\<close>

definition RegisteredTypeName ::
    "(type_id \<Rightarrow> string option) \<Rightarrow> (type_id list \<Rightarrow> string) \<Rightarrow> type_store \<Rightarrow> addr \<Rightarrow> string option option" where
  "RegisteredTypeName type_name one_of_name st a = do {
     r \<leftarrow> GetSameAs st a;
     Some (case type_spec_field (st r) of
       ExactType t \<Rightarrow> type_name t
     | MultiType ts \<Rightarrow> Some (one_of_name ts)
     | _ \<Rightarrow> None) }"

fun first_type_name ::
    "(type_id \<Rightarrow> string option) \<Rightarrow> (type_id list \<Rightarrow> string) \<Rightarrow> type_store \<Rightarrow> edge_info list \<Rightarrow> string option option" where
  "first_type_name type_name one_of_name st [] = Some None"
| "first_type_name type_name one_of_name st (e # es) = do {
     n \<leftarrow> RegisteredTypeName type_name one_of_name st (edge_type e);
     case n of Some s \<Rightarrow> Some (Some s) | None \<Rightarrow> first_type_name type_name one_of_name st es }"

definition RegisteredSidePacketTypeName ::
    "(type_id \<Rightarrow> string option) \<Rightarrow> (type_id list \<Rightarrow> string) \<Rightarrow> validated_graph \<Rightarrow> string \<Rightarrow> string result option" where
  "RegisteredSidePacketTypeName type_name one_of_name g name =
     (let producers = (case side_packet_to_producer g name of None \<Rightarrow> [] | Some i \<Rightarrow> [output_side_packets g ! i]);
          consumers = filter (\<lambda>e. edge_name e = name) (input_side_packets g)
      in do {
        n \<leftarrow> first_type_name type_name one_of_name (packet_types g) (producers @ consumers);
        Some (case n of
          Some s \<Rightarrow> Inr s
        | None \<Rightarrow> if producers @ consumers = [] then Inl InvalidArgument else Inl Unknown) })"

definition RegisteredStreamTypeName ::
    "(type_id \<Rightarrow> string option) \<Rightarrow> (type_id list \<Rightarrow> string) \<Rightarrow> validated_graph \<Rightarrow> string \<Rightarrow> string result option" where
  "RegisteredStreamTypeName type_name one_of_name g name =
     (case stream_to_producer g name of
        None \<Rightarrow> Some (Inl InvalidArgument)
      | Some i \<Rightarrow> do {
          n \<leftarrow> first_type_name type_name one_of_name (packet_types g)
            (output_streams g ! i # filter (\<lambda>e. upstream e = Some i) (input_streams g));
          Some (case n of Some s \<Rightarrow> Inr s | None \<Rightarrow> Inl Unknown) })"

end
