(* ===== verification/GraphEdges.thy ===== *)
theory GraphEdges
  imports GraphInitialize TagMapLookup
begin

section \<open>The streams of a validated graph\<close>

text \<open>
  What a pass over the nodes leaves in the arrays of the streams: the map of producers is exact,
  the input streams of a node are one block, and a stream that is connected on the way comes
  from a graph input stream or an earlier node.
\<close>

definition is_producer_map :: "(string \<Rightarrow> nat option) \<Rightarrow> edge_info list \<Rightarrow> bool" where
  "is_producer_map m es \<longleftrightarrow> (\<forall>name i. m name = Some i \<longleftrightarrow> i < length es \<and> edge_name (es ! i) = name)"

lemma is_producer_map_snoc:
  assumes "is_producer_map m es" "m (edge_name e) = None"
  shows "is_producer_map (m(edge_name e \<mapsto> length es)) (es @ [e])"
proof -
  have "i < length es \<Longrightarrow> edge_name (es ! i) \<noteq> edge_name e" for i
    using assms by (metis is_producer_map_def option.distinct(1))
  then show ?thesis using assms(1) by (auto simp: is_producer_map_def nth_append less_Suc_eq)
qed

lemma is_producer_map_distinct: "is_producer_map m es \<Longrightarrow> distinct (map edge_name es)"
  unfolding is_producer_map_def distinct_conv_nth by (metis length_map nth_map option.inject)

lemma is_producer_map_Nil [simp]: "is_producer_map Map.empty []"
  by (simp add: is_producer_map_def)

subsection \<open>Adding the edges of one node\<close>

definition output_edge :: "node_ref \<Rightarrow> packet_type_set \<Rightarrow> nat \<Rightarrow> edge_info" where
  "output_edge ref ts i = \<lparr>upstream = None, parent_node = ref, edge_name = names (set_tag_map ts) ! i,
     edge_type = type_at ts i, is_back_edge = False\<rparr>"

definition input_edge :: "(string \<Rightarrow> nat option) \<Rightarrow> node_ref \<Rightarrow> packet_type_set \<Rightarrow> int list \<Rightarrow> nat \<Rightarrow> edge_info" where
  "input_edge m ref ts back i = \<lparr>upstream = (if int i \<in> set back then None else m (names (set_tag_map ts) ! i)),
     parent_node = ref, edge_name = names (set_tag_map ts) ! i, edge_type = type_at ts i, is_back_edge = (int i \<in> set back)\<rparr>"

lemma AddOutputStream_Inr:
  assumes "AddOutputStream ref name ty g = Inr g'" "is_producer_map (stream_to_producer g) (output_streams g)"
  shows "g' = g\<lparr>output_streams := output_streams g', stream_to_producer := stream_to_producer g'\<rparr>"
    and "output_streams g' = output_streams g @ [\<lparr>upstream = None, parent_node = ref, edge_name = name,
        edge_type = ty, is_back_edge = False\<rparr>]"
    and "is_producer_map (stream_to_producer g') (output_streams g')"
    and "stream_to_producer g \<subseteq>\<^sub>m stream_to_producer g'"
  using assms is_producer_map_snoc [OF assms(2), of "\<lparr>upstream = None, parent_node = ref, edge_name = name,
      edge_type = ty, is_back_edge = False\<rparr>"]
  by (auto simp: AddOutputStream_def Let_def map_le_def split: if_splits)

lemma add_output_stream_edges_Inr:
  assumes "add_output_stream_edges ref ts is g = Inr g'" "is_producer_map (stream_to_producer g) (output_streams g)"
  shows "g' = g\<lparr>output_streams := output_streams g', stream_to_producer := stream_to_producer g'\<rparr> \<and>
    output_streams g' = output_streams g @ map (output_edge ref ts) is \<and>
    is_producer_map (stream_to_producer g') (output_streams g') \<and> stream_to_producer g \<subseteq>\<^sub>m stream_to_producer g'"
  using assms
proof (induction "is" arbitrary: g)
  case (Cons i "is")
  from Cons.prems(1) obtain g1 where 1: "AddOutputStream ref (names (set_tag_map ts) ! i) (type_at ts i) g = Inr g1"
    "add_output_stream_edges ref ts is g1 = Inr g'" by (auto simp: result_bind_Inr)
  note a = AddOutputStream_Inr [OF 1(1) Cons.prems(2)]
  have IH: "g' = g1\<lparr>output_streams := output_streams g', stream_to_producer := stream_to_producer g'\<rparr>"
    "output_streams g' = output_streams g1 @ map (output_edge ref ts) is"
    "is_producer_map (stream_to_producer g') (output_streams g')" "stream_to_producer g1 \<subseteq>\<^sub>m stream_to_producer g'"
    using Cons.IH [OF 1(2) a(3)] by blast+
  have "g' = g\<lparr>output_streams := output_streams g', stream_to_producer := stream_to_producer g'\<rparr>"
    by (subst IH(1), subst a(1)) simp
  with IH a show ?case by (auto simp: output_edge_def intro: map_le_trans)
qed simp

lemma add_input_stream_edges_Inr:
  assumes "add_input_stream_edges ref ts back is need g = Inr (need', g')"
  shows "g' = g\<lparr>input_streams := input_streams g @ map (input_edge (stream_to_producer g) ref ts back) is\<rparr> \<and>
    (need = Some True \<longrightarrow> need' = Some True) \<and> (need = None \<longleftrightarrow> need' = None) \<and>
    (\<forall>i \<in> set is. int i \<notin> set back \<longrightarrow> stream_to_producer g (names (set_tag_map ts) ! i) = None \<longrightarrow> need' = Some True)"
  using assms
proof (induction "is" arbitrary: need g)
  case (Cons i "is")
  let ?m = "stream_to_producer g"
  let ?b = "?m (names (set_tag_map ts) ! i) = None \<and> int i \<notin> set back"
  let ?need = "if ?b then Some True else need"
  have "add_input_stream_edges ref ts back is ?need
      (g\<lparr>input_streams := input_streams g @ [input_edge ?m ref ts back i]\<rparr>) = Inr (need', g')" "?b \<longrightarrow> need \<noteq> None"
    using Cons.prems by (auto simp: Let_def input_edge_def split: if_splits)
  then show ?case using Cons.IH [of ?need "g\<lparr>input_streams := input_streams g @ [input_edge ?m ref ts back i]\<rparr>"]
    by (auto split: if_splits)
qed simp

subsection \<open>Nodes in place\<close>

definition node_refs_ok :: "validated_graph \<Rightarrow> bool" where
  "node_refs_ok g \<longleftrightarrow>
     (\<forall>k < length (calculators g). node (calculators g ! k) = \<lparr>ref_type = CalculatorType, ref_index = k\<rparr>) \<and>
     (\<forall>k < length (generators g). node (generators g ! k) = \<lparr>ref_type = PacketGeneratorType, ref_index = k\<rparr>) \<and>
     (\<forall>k < length (status_handlers g). node (status_handlers g ! k) = \<lparr>ref_type = StatusHandlerType, ref_index = k\<rparr>) \<and>
     length (config_nodes (config g)) = length (calculators g) \<and>
     length (config_handlers (config g)) = length (status_handlers g) \<and>
     length (config_generators (config g)) = length (generators g)"

text \<open>The same nodes with the same contracts and the same configuration; the base indexes may differ.\<close>

definition same_infos :: "node_type_info list \<Rightarrow> node_type_info list \<Rightarrow> bool" where
  "same_infos xs ys \<longleftrightarrow> map node xs = map node ys \<and> map node_contract xs = map node_contract ys \<and>
     map AncestorSources xs = map AncestorSources ys"

definition same_nodes :: "validated_graph \<Rightarrow> validated_graph \<Rightarrow> bool" where
  "same_nodes g g' \<longleftrightarrow> same_infos (calculators g) (calculators g') \<and> same_infos (generators g) (generators g') \<and>
     same_infos (status_handlers g) (status_handlers g') \<and> config g = config g' \<and> sorted_nodes g = sorted_nodes g'"

lemma same_infos_refl [simp]: "same_infos xs xs"
  by (simp add: same_infos_def)

lemma same_nodes_refl [simp]: "same_nodes g g"
  by (simp add: same_nodes_def)

lemma same_infos_trans: "same_infos xs ys \<Longrightarrow> same_infos ys zs \<Longrightarrow> same_infos xs zs"
  by (simp add: same_infos_def)

lemma same_nodes_trans: "same_nodes g g' \<Longrightarrow> same_nodes g' g'' \<Longrightarrow> same_nodes g g''"
  by (auto simp: same_nodes_def intro: same_infos_trans)

lemma same_infos_length: "same_infos xs ys \<Longrightarrow> length xs = length ys"
  unfolding same_infos_def by (metis length_map)

lemma same_infos_nth:
  assumes "same_infos xs ys" "k < length xs"
  shows "node (ys ! k) = node (xs ! k)" "node_contract (ys ! k) = node_contract (xs ! k)"
    "AncestorSources (ys ! k) = AncestorSources (xs ! k)"
  using assms same_infos_length [OF assms(1)] unfolding same_infos_def by (metis nth_map)+

lemma same_infos_update:
  "node x = node (xs ! k) \<Longrightarrow> node_contract x = node_contract (xs ! k) \<Longrightarrow> AncestorSources x = AncestorSources (xs ! k) \<Longrightarrow>
   same_infos xs (xs[k := x])"
proof (cases "k < length xs")
  case True
  assume same: "node x = node (xs ! k)" "node_contract x = node_contract (xs ! k)" "AncestorSources x = AncestorSources (xs ! k)"
  have "map node (xs[k := x]) = map node xs" "map node_contract (xs[k := x]) = map node_contract xs"
    "map AncestorSources (xs[k := x]) = map AncestorSources xs"
    using same by (metis list_update_id map_update)+
  then show ?thesis by (simp add: same_infos_def)
qed (simp add: list_update_beyond)

lemma node_refs_ok_same: "same_nodes g g' \<Longrightarrow> node_refs_ok g \<Longrightarrow> node_refs_ok g'"
proof -
  assume same: "same_nodes g g'" and ok: "node_refs_ok g"
  have c: "length (calculators g') = length (calculators g)" "k < length (calculators g) \<Longrightarrow> node (calculators g' ! k) = node (calculators g ! k)"
    and "length (generators g') = length (generators g)" "k < length (generators g) \<Longrightarrow> node (generators g' ! k) = node (generators g ! k)"
    and "length (status_handlers g') = length (status_handlers g)"
      "k < length (status_handlers g) \<Longrightarrow> node (status_handlers g' ! k) = node (status_handlers g ! k)" for k
    using same by (simp_all add: same_nodes_def same_infos_nth same_infos_length [symmetric])
  with same ok show ?thesis by (simp add: node_refs_ok_def same_nodes_def)
qed

subsection \<open>The invariant of the pass\<close>

definition before :: "validated_graph \<Rightarrow> nat \<Rightarrow> node_ref \<Rightarrow> bool" where
  "before g k ref \<longleftrightarrow>
     ref_type ref = GraphInputStreamType \<and> length (config_nodes (config g)) \<le> ref_index ref \<and>
       ref_index ref < length (config_nodes (config g)) + length (graph_input_stream (config g)) \<or>
     ref_type ref = CalculatorType \<and> ref_index ref < k"

definition num_inputs :: "validated_graph \<Rightarrow> nat \<Rightarrow> nat" where
  "num_inputs g j = set_NumEntries (contract_inputs (node_contract (calculators g ! j)))"

text \<open>
  After the nodes below \<open>k\<close>: \<open>need\<close> is set if an input that is no back edge is not connected.
\<close>

definition input_ok :: "bool option \<Rightarrow> validated_graph \<Rightarrow> edge_info \<Rightarrow> bool" where
  "input_ok need g e \<longleftrightarrow> ref_type (parent_node e) = CalculatorType \<and>
     (is_back_edge e \<longrightarrow> upstream e = None) \<and>
     (\<forall>u. upstream e = Some u \<longrightarrow> stream_to_producer g (edge_name e) = Some u \<and>
       before g (ref_index (parent_node e)) (parent_node (output_streams g ! u))) \<and>
     (\<not> is_back_edge e \<and> upstream e = None \<longrightarrow> need = Some True)"

definition input_blocks :: "nat \<Rightarrow> validated_graph \<Rightarrow> bool" where
  "input_blocks k g \<longleftrightarrow>
     (\<forall>j < k. input_stream_base_index (calculators g ! j) + num_inputs g j \<le> length (input_streams g)) \<and>
     (\<forall>i < length (input_streams g). ref_index (parent_node (input_streams g ! i)) < k) \<and>
     (\<forall>j < k. \<forall>i < length (input_streams g). ref_index (parent_node (input_streams g ! i)) = j \<longleftrightarrow>
       input_stream_base_index (calculators g ! j) \<le> i \<and> i < input_stream_base_index (calculators g ! j) + num_inputs g j)"

definition stream_inv :: "bool option \<Rightarrow> nat \<Rightarrow> validated_graph \<Rightarrow> bool" where
  "stream_inv need k g \<longleftrightarrow> is_producer_map (stream_to_producer g) (output_streams g) \<and>
     (\<forall>e \<in> set (output_streams g). before g k (parent_node e)) \<and>
     (\<forall>e \<in> set (input_streams g). input_ok need g e) \<and> input_blocks k g"

lemma before_mono: "before g k ref \<Longrightarrow> k \<le> k' \<Longrightarrow> before g k' ref"
  by (auto simp: before_def)

lemma AddInputStreamsForNode_inv:
  assumes "AddInputStreamsForNode A k need g = Inr (need', g')" "stream_inv need k g" "node_refs_ok g" "k < length (calculators g)"
  shows "same_nodes g g' \<and> (need = Some True \<longrightarrow> need' = Some True) \<and> (need = None \<longleftrightarrow> need' = None) \<and>
    is_producer_map (stream_to_producer g') (output_streams g') \<and> (\<forall>e \<in> set (output_streams g'). before g' k (parent_node e)) \<and>
    (\<forall>e \<in> set (input_streams g'). input_ok need' g' e) \<and> input_blocks (Suc k) g' \<and> packet_types g' = packet_types g"
proof -
  let ?info = "calculators g ! k"
  let ?ts = "contract_inputs (node_contract ?info)"
  let ?g = "g\<lparr>calculators := (calculators g)[k := ?info\<lparr>input_stream_base_index := length (input_streams g)\<rparr>]\<rparr>"
  have ref: "node ?info = \<lparr>ref_type = CalculatorType, ref_index = k\<rparr>" using assms(3,4) by (simp add: node_refs_ok_def)
  from assms(1) obtain bs where edges: "add_input_stream_edges (node ?info) ?ts bs [0..<set_NumEntries ?ts] need ?g = Inr (need', g')"
    by (auto simp: AddInputStreamsForNode_def Let_def result_bind_Inr)
  let ?new = "map (input_edge (stream_to_producer g) (node ?info) ?ts bs) [0..<set_NumEntries ?ts]"
  from add_input_stream_edges_Inr [OF edges]
  have g': "g' = ?g\<lparr>input_streams := input_streams g @ ?new\<rparr>"
    and need: "need = Some True \<longrightarrow> need' = Some True" "need = None \<longleftrightarrow> need' = None"
    and missing: "\<And>i. i < set_NumEntries ?ts \<Longrightarrow> int i \<notin> set bs \<Longrightarrow>
      stream_to_producer g (names (set_tag_map ?ts) ! i) = None \<Longrightarrow> need' = Some True"
    by auto
  have prod: "is_producer_map (stream_to_producer g) (output_streams g)"
    and outs: "\<And>e. e \<in> set (output_streams g) \<Longrightarrow> before g k (parent_node e)"
    and ins: "\<And>e. e \<in> set (input_streams g) \<Longrightarrow> input_ok need g e" and blocks: "input_blocks k g"
    using assms(2) by (auto simp: stream_inv_def)
  have b: "before g' = before g" using g' by (simp add: before_def fun_eq_iff)
  have new: "input_ok need' g' e" if e: "e \<in> set ?new" for e
  proof -
    obtain i where i: "i < set_NumEntries ?ts" "e = input_edge (stream_to_producer g) (node ?info) ?ts bs i" using e by auto
    have "before g k (parent_node (output_streams g ! u))" if "stream_to_producer g n = Some u" for n u
      using prod outs that by (simp add: is_producer_map_def)
    then show ?thesis using i missing ref g' b by (auto simp: input_ok_def input_edge_def)
  qed
  have old: "input_ok need' g' e" if "e \<in> set (input_streams g)" for e
    using ins [OF that] need g' b by (auto simp: input_ok_def)
  have blocks': "input_blocks (Suc k) g'"
  proof -
    have n: "num_inputs g' j = num_inputs g j" for j using g' assms(4) by (cases "j = k") (simp_all add: num_inputs_def)
    have base: "input_stream_base_index (calculators g' ! j) = (if j = k then length (input_streams g) else input_stream_base_index (calculators g ! j))" for j
      using g' assms(4) by simp
    have len: "length (input_streams g') = length (input_streams g) + num_inputs g k" using g' by (simp add: num_inputs_def)
    have par: "ref_index (parent_node (input_streams g' ! i)) =
        (if i < length (input_streams g) then ref_index (parent_node (input_streams g ! i)) else k)"
      if "i < length (input_streams g')" for i
      using that g' ref by (auto simp: nth_append num_inputs_def input_edge_def)
    show ?thesis using blocks unfolding input_blocks_def n base len
      by (auto simp: par len less_Suc_eq)
  qed
  have "same_nodes g g'" using g' by (simp add: same_nodes_def same_infos_update)
  then show ?thesis using need prod outs new old blocks' g' b by auto
qed

lemma AddOutputStreamsForNode_inv:
  assumes "AddOutputStreamsForNode k g = Inr g'" "node_refs_ok g" "k < length (calculators g)"
    and "is_producer_map (stream_to_producer g) (output_streams g)" "\<forall>e \<in> set (output_streams g). before g k (parent_node e)"
    and "\<forall>e \<in> set (input_streams g). input_ok need g e" "input_blocks (Suc k) g"
  shows "same_nodes g g' \<and> stream_inv need (Suc k) g' \<and> packet_types g' = packet_types g"
proof -
  let ?info = "calculators g ! k"
  let ?ts = "contract_outputs (node_contract ?info)"
  let ?g = "g\<lparr>calculators := (calculators g)[k := ?info\<lparr>output_stream_base_index := length (output_streams g)\<rparr>]\<rparr>"
  have ref: "node ?info = \<lparr>ref_type = CalculatorType, ref_index = k\<rparr>" using assms(2,3) by (simp add: node_refs_ok_def)
  have added: "add_output_stream_edges (node ?info) ?ts [0..<set_NumEntries ?ts] ?g = Inr g'"
    using assms(1) by (simp add: AddOutputStreamsForNode_def Let_def)
  have "is_producer_map (stream_to_producer ?g) (output_streams ?g)" using assms(4) by simp
  note a = add_output_stream_edges_Inr [OF added this]
  have g': "g' = ?g\<lparr>output_streams := output_streams g', stream_to_producer := stream_to_producer g'\<rparr>" using a by blast
  have outs: "output_streams g' = output_streams g @ map (output_edge (node ?info) ?ts) [0..<set_NumEntries ?ts]"
    using a by simp
  have prod: "is_producer_map (stream_to_producer g') (output_streams g')" "stream_to_producer g \<subseteq>\<^sub>m stream_to_producer g'"
    using a by (blast, simp)
  have same: "same_nodes g g'" by (subst g') (simp add: same_nodes_def same_infos_update)
  have b: "before g' = before g" by (subst g') (simp add: before_def fun_eq_iff)
  have ins: "input_streams g' = input_streams g" by (subst g') simp
  have "\<forall>e \<in> set (output_streams g'). before g' (Suc k) (parent_node e)"
    using assms(5) ref unfolding b outs by (auto simp: output_edge_def before_def)
  moreover have "input_ok need g' e" if e: "e \<in> set (input_streams g)" for e
  proof -
    have "stream_to_producer g' n = Some u \<and> output_streams g' ! u = output_streams g ! u"
      if "stream_to_producer g n = Some u" for n u
    proof -
      have "stream_to_producer g' n = Some u" using that prod(2) by (metis domI map_le_def)
      moreover have "u < length (output_streams g)" using that assms(4) by (simp add: is_producer_map_def)
      ultimately show ?thesis by (simp add: outs nth_append)
    qed
    then show ?thesis using assms(6) e unfolding input_ok_def b by metis
  qed
  moreover have "input_blocks (Suc k) g'"
  proof -
    have "num_inputs g' j = num_inputs g j \<and> input_stream_base_index (calculators g' ! j) = input_stream_base_index (calculators g ! j)" for j
      by (cases "j = k"; subst g'; subst (3) g') (use assms(3) in \<open>simp_all add: num_inputs_def\<close>)
    then show ?thesis using assms(7) by (simp add: input_blocks_def ins)
  qed
  moreover have "packet_types g' = packet_types g" by (subst g') simp
  ultimately show ?thesis using same prod(1) by (simp add: stream_inv_def ins)
qed

lemma add_streams_inv:
  assumes "add_streams A [k..<length (calculators g)] need g = Inr (need', g')" "stream_inv need k g" "node_refs_ok g"
    and "k \<le> length (calculators g)"
  shows "same_nodes g g' \<and> stream_inv need' (length (calculators g)) g' \<and> (need = None \<longleftrightarrow> need' = None) \<and>
    (need = Some True \<longrightarrow> need' = Some True) \<and> packet_types g' = packet_types g"
  using assms
proof (induction "length (calculators g) - k" arbitrary: k need g)
  case 0
  then show ?case by simp
next
  case (Suc m)
  then have k: "k < length (calculators g)" by simp
  then have "[k..<length (calculators g)] = k # [Suc k..<length (calculators g)]" by (rule upt_conv_Cons)
  with Suc.prems(1) obtain need1 g1 g2 where steps: "AddInputStreamsForNode A k need g = Inr (need1, g1)"
    "AddOutputStreamsForNode k g1 = Inr g2" "add_streams A [Suc k..<length (calculators g)] need1 g2 = Inr (need', g')"
    by (auto simp: result_bind_Inr)
  note 1 = AddInputStreamsForNode_inv [OF steps(1) Suc.prems(2,3) k]
  then have refs1: "node_refs_ok g1" and len1: "length (calculators g1) = length (calculators g)"
    using node_refs_ok_same [OF _ Suc.prems(3)] by (auto simp: same_nodes_def dest: same_infos_length)
  have 2: "same_nodes g1 g2 \<and> stream_inv need1 (Suc k) g2 \<and> packet_types g2 = packet_types g1"
    using AddOutputStreamsForNode_inv [OF steps(2) refs1, of need1] 1 len1 k by simp
  then have refs2: "node_refs_ok g2" and len2: "length (calculators g2) = length (calculators g)"
    using node_refs_ok_same [OF _ refs1] len1 by (auto simp: same_nodes_def dest: same_infos_length)
  have "same_nodes g2 g' \<and> stream_inv need' (length (calculators g2)) g' \<and> (need1 = None \<longleftrightarrow> need' = None) \<and>
      (need1 = Some True \<longrightarrow> need' = Some True) \<and> packet_types g' = packet_types g2"
    using Suc.hyps(1) [of g2 "Suc k" need1] Suc.hyps(2) steps(3) 2 refs2 len2 k by simp
  then show ?case using 1 2 len2 by (auto intro: same_nodes_trans)
qed

lemma add_graph_input_streams_inv:
  assumes "add_graph_input_streams ns index g = Inr g'" "is_producer_map (stream_to_producer g) (output_streams g)"
    and "index + length ns \<le> length (graph_input_stream (config g))" "\<forall>e \<in> set (output_streams g). before g 0 (parent_node e)"
    and "all_resolve (packet_types g)"
  shows "same_nodes g g' \<and> is_producer_map (stream_to_producer g') (output_streams g') \<and>
    (\<forall>e \<in> set (output_streams g'). before g' 0 (parent_node e)) \<and> input_streams g' = input_streams g \<and>
    all_resolve (packet_types g')"
  using assms
proof (induction ns arbitrary: index g)
  case (Cons n ns)
  let ?ref = "\<lparr>ref_type = GraphInputStreamType, ref_index = index + length (config_nodes (config g))\<rparr>"
  let ?g = "g\<lparr>packet_types := SetAny (packet_types g) (next_type g), next_type := Suc (next_type g)\<rparr>"
  from Cons.prems(1) obtain g1 where step: "AddOutputStream ?ref n (next_type g) ?g = Inr g1"
    and rest: "add_graph_input_streams ns (Suc index) g1 = Inr g'" by (auto simp: Let_def result_bind_Inr)
  have prod: "is_producer_map (stream_to_producer ?g) (output_streams ?g)" using Cons.prems(2) by simp
  note a = AddOutputStream_Inr [OF step prod]
  have cfg: "config g1 = config g" "input_streams g1 = input_streams g" "packet_types g1 = SetAny (packet_types g) (next_type g)"
    by (subst a(1), simp)+
  have same: "same_nodes g g1" by (subst a(1)) (simp add: same_nodes_def)
  have "\<forall>e \<in> set (output_streams g1). before g1 0 (parent_node e)"
    using Cons.prems(3,4) a(2) by (auto simp: before_def cfg)
  moreover have "all_resolve (packet_types g1)" using Cons.prems(5) cfg(3) by (simp add: SetAny_def all_resolve_set_root)
  ultimately show ?case using Cons.IH [OF rest a(3)] Cons.prems(3) same cfg by (auto intro: same_nodes_trans)
qed simp

lemma InitializeStreamInfo_inv:
  assumes "strings_ok A" "InitializeStreamInfo A need g = Inr (need', g')" "node_refs_ok g" "all_resolve (packet_types g)"
    and "input_streams g = []" "output_streams g = []" "stream_to_producer g = Map.empty"
  shows "same_nodes g g' \<and> stream_inv need' (length (calculators g)) g' \<and> all_resolve (packet_types g') \<and>
    (need = None \<longleftrightarrow> need' = None) \<and> (need = Some True \<longrightarrow> need' = Some True)"
proof -
  from assms(2) obtain tm g1 where steps: "Create A (graph_input_stream (config g)) = Inr tm"
    "add_graph_input_streams (names tm) 0 g = Inr g1" "add_streams A [0..<length (calculators g1)] need g1 = Inr (need', g')"
    by (auto simp: InitializeStreamInfo_def result_bind_Inr)
  have "length (names tm) \<le> length (graph_input_stream (config g))"
    using Create_parts(4) [OF assms(1) steps(1)] by simp
  then have 1: "same_nodes g g1 \<and> is_producer_map (stream_to_producer g1) (output_streams g1) \<and>
    (\<forall>e \<in> set (output_streams g1). before g1 0 (parent_node e)) \<and> input_streams g1 = input_streams g \<and> all_resolve (packet_types g1)"
    using add_graph_input_streams_inv [OF steps(2)] assms(4-7) by simp
  then have refs: "node_refs_ok g1" and len: "length (calculators g1) = length (calculators g)"
    using node_refs_ok_same [OF _ assms(3)] by (auto simp: same_nodes_def dest: same_infos_length)
  have "stream_inv need 0 g1" using 1 assms(5) by (simp add: stream_inv_def input_blocks_def)
  then show ?thesis using add_streams_inv [OF steps(3) _ refs] 1 len by (auto intro: same_nodes_trans)
qed

end
