(* ===== verification/GraphSidePackets.thy ===== *)
theory GraphSidePackets
  imports GraphEdges
begin

section \<open>The side packets of a validated graph\<close>

definition valid_ref :: "validated_graph \<Rightarrow> node_ref \<Rightarrow> bool" where
  "valid_ref g ref \<longleftrightarrow> ref_type ref = CalculatorType \<and> ref_index ref < length (calculators g) \<or>
     ref_type ref = PacketGeneratorType \<and> ref_index ref < length (generators g)"

text \<open>
  The parts of the graph that the side packets do not touch, and the invariant: a side packet is
  linked to its producer or waits for it, and unless the nodes have to be sorted it waits for a
  packet that no node has produced.
\<close>

definition same_rest :: "validated_graph \<Rightarrow> validated_graph \<Rightarrow> bool" where
  "same_rest g g' \<longleftrightarrow> same_nodes g g' \<and> stream_to_producer g' = stream_to_producer g \<and>
     input_streams g' = input_streams g \<and> output_streams g' = output_streams g \<and> packet_types g' = packet_types g"

definition side_inv :: "bool option \<Rightarrow> validated_graph \<Rightarrow> bool" where
  "side_inv need g \<longleftrightarrow> is_producer_map (side_packet_to_producer g) (output_side_packets g) \<and>
     (\<forall>e \<in> set (output_side_packets g). valid_ref g (parent_node e)) \<and>
     (\<forall>e \<in> set (input_side_packets g). (valid_ref g (parent_node e) \<or> ref_type (parent_node e) = StatusHandlerType) \<and>
       (\<forall>u. upstream e = Some u \<longrightarrow> side_packet_to_producer g (edge_name e) = Some u) \<and>
       (upstream e = None \<longrightarrow> map_of (required_side_packets g) (edge_name e) \<noteq> None)) \<and>
     sorted_keys (required_side_packets g) \<and>
     (need \<noteq> Some True \<longrightarrow> (\<forall>name. map_of (required_side_packets g) name \<noteq> None \<longrightarrow> side_packet_to_producer g name = None))"

lemma same_rest_refl [simp]: "same_rest g g"
  by (simp add: same_rest_def)

lemma same_rest_trans: "same_rest g g' \<Longrightarrow> same_rest g' g'' \<Longrightarrow> same_rest g g''"
  by (auto simp: same_rest_def intro: same_nodes_trans)

lemma same_rest_nodes: "same_rest g g' \<Longrightarrow> same_nodes g g'"
  by (simp add: same_rest_def)

lemma same_nodes_lengths:
  assumes "same_nodes g g'"
  shows "length (calculators g') = length (calculators g)" "length (generators g') = length (generators g)"
    "length (status_handlers g') = length (status_handlers g)" "config g' = config g" "sorted_nodes g' = sorted_nodes g"
  using assms by (auto simp: same_nodes_def dest: same_infos_length)

lemma valid_ref_same: "same_nodes g g' \<Longrightarrow> valid_ref g' = valid_ref g"
  by (rule ext) (simp add: valid_ref_def same_nodes_lengths)

lemma set_info_same:
  assumes "node x = node (get_info ref g)" "node_contract x = node_contract (get_info ref g)"
    "AncestorSources x = AncestorSources (get_info ref g)"
  shows "same_rest g (set_info ref x g)"
  using assms by (auto simp: same_rest_def same_nodes_def set_info_def get_info_def same_infos_update split: node_type.splits)

lemma set_info_side [simp]:
  "side_packet_to_producer (set_info ref x g) = side_packet_to_producer g"
  "input_side_packets (set_info ref x g) = input_side_packets g"
  "output_side_packets (set_info ref x g) = output_side_packets g"
  "required_side_packets (set_info ref x g) = required_side_packets g"
  by (simp_all add: set_info_def split: node_type.split)

lemma side_inv_set_info:
  assumes "same_rest g (set_info ref x g)"
  shows "side_inv need (set_info ref x g) \<longleftrightarrow> side_inv need g"
  using valid_ref_same [OF same_rest_nodes [OF assms]] by (simp add: side_inv_def)

lemma add_input_side_packet_edges_inv:
  assumes "side_inv need g" "valid_ref g ref \<or> ref_type ref = StatusHandlerType"
  shows "side_inv need (add_input_side_packet_edges ref ts is g) \<and> same_rest g (add_input_side_packet_edges ref ts is g)"
  using assms
proof (induction "is" arbitrary: g)
  case (Cons i "is")
  let ?name = "names (set_tag_map ts) ! i"
  let ?edge = "\<lparr>upstream = side_packet_to_producer g ?name, parent_node = ref, edge_name = ?name, edge_type = type_at ts i, is_back_edge = False\<rparr>"
  let ?g = "g\<lparr>input_side_packets := input_side_packets g @ [?edge]\<rparr>"
  let ?g' = "if side_packet_to_producer g ?name = None
     then ?g\<lparr>required_side_packets := update_key ?name
       (lookup_key [] (required_side_packets g) ?name @ [length (input_side_packets g)]) (required_side_packets g)\<rparr> else ?g"
  have eq: "add_input_side_packet_edges ref ts (i # is) g = add_input_side_packet_edges ref ts is ?g'"
    by (simp add: Let_def)
  have same: "same_rest g ?g'" by (simp add: same_rest_def same_nodes_def)
  have valid: "valid_ref ?g' = valid_ref g" by (rule valid_ref_same [OF same_rest_nodes [OF same]])
  have keys: "sorted_keys (required_side_packets g)" using Cons.prems(1) by (simp add: side_inv_def)
  have "side_inv need ?g'"
    using Cons.prems unfolding side_inv_def valid
    by (auto simp: map_of_update_key [OF keys] sorted_update_key)
  then have "side_inv need (add_input_side_packet_edges ref ts is ?g') \<and> same_rest ?g' (add_input_side_packet_edges ref ts is ?g')"
    using Cons.IH Cons.prems(2) valid by metis
  then show ?case unfolding eq using same_rest_trans [OF same] by blast
qed simp

lemma add_output_side_packet_edges_inv:
  assumes "add_output_side_packet_edges ref ts is need g = Inr (need', g')" "side_inv need g" "valid_ref g ref"
  shows "side_inv need' g' \<and> same_rest g g' \<and> (need = None \<longleftrightarrow> need' = None)"
  using assms
proof (induction "is" arbitrary: g need)
  case (Cons i "is")
  let ?name = "names (set_tag_map ts) ! i"
  let ?edge = "\<lparr>upstream = None, parent_node = ref, edge_name = ?name, edge_type = type_at ts i, is_back_edge = False\<rparr>"
  let ?g = "g\<lparr>output_side_packets := output_side_packets g @ [?edge],
      side_packet_to_producer := (side_packet_to_producer g)(?name \<mapsto> length (output_side_packets g))\<rparr>"
  let ?need = "if map_of (required_side_packets g) ?name \<noteq> None then Some True else need"
  have step: "side_packet_to_producer g ?name = None" "add_output_side_packet_edges ref ts is ?need ?g = Inr (need', g')"
    "need = None \<longrightarrow> ?need = None"
    using Cons.prems(1) by (auto simp: Let_def split: if_splits)
  have same: "same_rest g ?g" by (simp add: same_rest_def same_nodes_def)
  have valid: "valid_ref ?g = valid_ref g" by (rule valid_ref_same [OF same_rest_nodes [OF same]])
  have "is_producer_map (side_packet_to_producer ?g) (output_side_packets ?g)"
    using is_producer_map_snoc [of "side_packet_to_producer g" "output_side_packets g" ?edge] Cons.prems(2) step(1)
    by (simp add: side_inv_def)
  then have "side_inv ?need ?g"
    using Cons.prems(2,3) step(1) unfolding side_inv_def valid by auto
  then have "side_inv need' g' \<and> same_rest ?g g' \<and> (?need = None \<longleftrightarrow> need' = None)"
    using Cons.IH [OF step(2)] Cons.prems(3) valid by simp
  then show ?case using same_rest_trans [OF same] step(3) by (auto split: if_splits)
qed simp

lemma node_of_valid_ref: "node_refs_ok g \<Longrightarrow> valid_ref g ref \<Longrightarrow> node (get_info ref g) = ref"
  by (cases ref) (auto simp: node_refs_ok_def valid_ref_def get_info_def)

lemma AddInputSidePacketsForNode_inv:
  assumes "side_inv need g" "node_refs_ok g"
    and "valid_ref g ref \<or> ref_type ref = StatusHandlerType \<and> ref_index ref < length (status_handlers g)"
  shows "side_inv need (AddInputSidePacketsForNode ref g) \<and> same_rest g (AddInputSidePacketsForNode ref g)"
proof -
  let ?info = "get_info ref g"
  let ?g = "set_info ref (?info\<lparr>input_side_packet_base_index := length (input_side_packets g)\<rparr>) g"
  have same: "same_rest g ?g" by (rule set_info_same) simp_all
  have valid: "valid_ref ?g = valid_ref g" by (rule valid_ref_same [OF same_rest_nodes [OF same]])
  have "valid_ref g (node ?info) \<or> ref_type (node ?info) = StatusHandlerType"
    using assms(2,3) node_of_valid_ref [OF assms(2)] by (auto simp: get_info_def node_refs_ok_def)
  then show ?thesis
    using add_input_side_packet_edges_inv [of need ?g "node ?info"] assms(1) side_inv_set_info [OF same] valid same_rest_trans [OF same]
    by (simp add: AddInputSidePacketsForNode_def Let_def)
qed

lemma AddOutputSidePacketsForNode_inv:
  assumes "AddOutputSidePacketsForNode ref need g = Inr (need', g')" "side_inv need g" "node_refs_ok g" "valid_ref g ref"
  shows "side_inv need' g' \<and> same_rest g g' \<and> (need = None \<longleftrightarrow> need' = None)"
proof -
  let ?info = "get_info ref g"
  let ?g = "set_info ref (?info\<lparr>output_side_packet_base_index := length (output_side_packets g)\<rparr>) g"
  have same: "same_rest g ?g" by (rule set_info_same) simp_all
  have valid: "valid_ref ?g = valid_ref g" by (rule valid_ref_same [OF same_rest_nodes [OF same]])
  have "valid_ref ?g (node ?info)" unfolding valid node_of_valid_ref [OF assms(3,4)] by (rule assms(4))
  then show ?thesis
    using add_output_side_packet_edges_inv [of "node ?info" _ _ need ?g need' g'] assms(1,2) side_inv_set_info [OF same]
      same_rest_trans [OF same]
    by (auto simp: AddOutputSidePacketsForNode_def Let_def)
qed

lemma add_side_packets_inv:
  assumes "add_side_packets refs need g = Inr (need', g')" "side_inv need g" "node_refs_ok g" "\<forall>ref \<in> set refs. valid_ref g ref"
  shows "side_inv need' g' \<and> same_rest g g' \<and> (need = None \<longleftrightarrow> need' = None)"
  using assms
proof (induction refs arbitrary: g need)
  case (Cons ref refs)
  let ?g = "AddInputSidePacketsForNode ref g"
  from Cons.prems(1) obtain need1 g1 where step: "AddOutputSidePacketsForNode ref need ?g = Inr (need1, g1)"
    "add_side_packets refs need1 g1 = Inr (need', g')" by (auto simp: result_bind_Inr)
  have 1: "side_inv need ?g \<and> same_rest g ?g" using AddInputSidePacketsForNode_inv [OF Cons.prems(2,3)] Cons.prems(4) by simp
  then have r1: "node_refs_ok ?g" "valid_ref ?g = valid_ref g"
    using node_refs_ok_same Cons.prems(3) valid_ref_same same_rest_nodes by metis+
  have 2: "side_inv need1 g1 \<and> same_rest ?g g1 \<and> (need = None \<longleftrightarrow> need1 = None)"
    using AddOutputSidePacketsForNode_inv [OF step(1)] 1 r1 Cons.prems(4) by simp
  then have r2: "node_refs_ok g1" "valid_ref g1 = valid_ref g"
    using node_refs_ok_same r1 valid_ref_same same_rest_nodes by metis+
  show ?case using Cons.IH [OF step(2)] 1 2 r2 Cons.prems(4) by (auto intro: same_rest_trans)
qed simp

lemma add_handler_side_packets_inv:
  assumes "side_inv need g" "node_refs_ok g" "set ks \<subseteq> {..<length (status_handlers g)}"
  shows "side_inv need (fold (\<lambda>i. AddInputSidePacketsForNode \<lparr>ref_type = StatusHandlerType, ref_index = i\<rparr>) ks g) \<and>
    same_rest g (fold (\<lambda>i. AddInputSidePacketsForNode \<lparr>ref_type = StatusHandlerType, ref_index = i\<rparr>) ks g)"
  using assms
proof (induction ks arbitrary: g)
  case (Cons k ks)
  let ?g = "AddInputSidePacketsForNode \<lparr>ref_type = StatusHandlerType, ref_index = k\<rparr> g"
  have 1: "side_inv need ?g \<and> same_rest g ?g" using AddInputSidePacketsForNode_inv [OF Cons.prems(1,2)] Cons.prems(3) by simp
  then have same: "same_nodes g ?g" by (simp add: same_rest_nodes)
  have "node_refs_ok ?g" "set ks \<subseteq> {..<length (status_handlers ?g)}"
    using node_refs_ok_same [OF same Cons.prems(2)] Cons.prems(3) by (simp_all add: same_nodes_lengths(3) [OF same])
  then show ?case using Cons.IH [of ?g] 1 by (auto intro: same_rest_trans)
qed simp

lemma InitializeSidePacketInfo_inv:
  assumes "InitializeSidePacketInfo need g = Inr (need', g')" "side_inv need g" "node_refs_ok g"
    and "\<forall>ref \<in> set (sorted_nodes g). valid_ref g ref"
  shows "side_inv need' g' \<and> same_rest g g' \<and> (need = None \<longleftrightarrow> need' = None)"
proof -
  from assms(1) obtain need1 g1 where step: "add_side_packets (sorted_nodes g) need g = Inr (need1, g1)"
    and rest: "(need1 = Some True \<and> need' = need1 \<and> g' = g1) \<or> (need' = need1 \<and>
      g' = fold (\<lambda>i. AddInputSidePacketsForNode \<lparr>ref_type = StatusHandlerType, ref_index = i\<rparr>) [0..<length (config_handlers (config g1))] g1)"
    by (auto simp: InitializeSidePacketInfo_def result_bind_Inr split: if_splits)
  note 1 = add_side_packets_inv [OF step assms(2-4)]
  then have r: "node_refs_ok g1" using node_refs_ok_same assms(3) same_rest_nodes by metis
  then have "set [0..<length (config_handlers (config g1))] \<subseteq> {..<length (status_handlers g1)}"
    by (auto simp: node_refs_ok_def)
  then show ?thesis
    using rest 1 add_handler_side_packets_inv [OF _ r, of need1 "[0..<length (config_handlers (config g1))]"]
    by (auto intro: same_rest_trans)
qed

end
