(* ===== verification/GraphSorting.thy ===== *)
theory GraphSorting
  imports GraphSidePackets TopologicalTraversal "HOL-Library.Multiset"
begin

section \<open>Sorting the nodes of a graph\<close>

text \<open>
  The sorter gets valid edges and never aborts; a sorted graph has the same nodes, with their
  contracts and configurations, at their new indexes.
\<close>

subsection \<open>The edges of the sorter\<close>

definition sorter_index :: "validated_graph \<Rightarrow> node_ref \<Rightarrow> int" where
  "sorter_index g ref =
     (if ref_type ref = PacketGeneratorType then int (ref_index ref) else int (length (generators g) + ref_index ref))"

definition num_sorted :: "validated_graph \<Rightarrow> nat" where
  "num_sorted g = length (generators g) + length (calculators g)"

lemma sorter_index_valid:
  assumes "valid_ref g ref"
  shows "SorterIndexForNode g ref = Some (sorter_index g ref)" "0 \<le> sorter_index g ref" "sorter_index g ref < int (num_sorted g)"
  using assms by (auto simp: valid_ref_def SorterIndexForNode_def sorter_index_def num_sorted_def)

definition stream_pair :: "validated_graph \<Rightarrow> edge_info \<Rightarrow> (int \<times> int) list" where
  "stream_pair g e =
     (case stream_to_producer g (edge_name e) of
        None \<Rightarrow> []
      | Some u \<Rightarrow>
        if ref_type (parent_node (output_streams g ! u)) \<noteq> GraphInputStreamType \<and> \<not> is_back_edge e
        then [(sorter_index g (parent_node (output_streams g ! u)), sorter_index g (parent_node e))] else [])"

definition side_packet_pair :: "validated_graph \<Rightarrow> edge_info \<Rightarrow> (int \<times> int) list" where
  "side_packet_pair g e =
     (if ref_type (parent_node e) \<noteq> PacketGeneratorType \<and> ref_type (parent_node e) \<noteq> CalculatorType then []
      else case side_packet_to_producer g (edge_name e) of
        None \<Rightarrow> []
      | Some u \<Rightarrow> [(sorter_index g (parent_node (output_side_packets g ! u)), sorter_index g (parent_node e))])"

definition stream_refs_ok :: "validated_graph \<Rightarrow> bool" where
  "stream_refs_ok g \<longleftrightarrow> is_producer_map (stream_to_producer g) (output_streams g) \<and>
     (\<forall>e \<in> set (output_streams g). before g (length (calculators g)) (parent_node e)) \<and>
     (\<forall>e \<in> set (input_streams g). valid_ref g (parent_node e))"

lemma stream_inv_refs:
  assumes "stream_inv need (length (calculators g)) g" shows "stream_refs_ok g"
proof -
  have "valid_ref g (parent_node e)" if e: "e \<in> set (input_streams g)" for e
  proof -
    obtain i where i: "i < length (input_streams g)" "input_streams g ! i = e" using e by (metis in_set_conv_nth)
    have "ref_type (parent_node e) = CalculatorType" using assms e by (simp add: stream_inv_def input_ok_def)
    moreover have "ref_index (parent_node e) < length (calculators g)"
      using assms i by (auto simp: stream_inv_def input_blocks_def)
    ultimately show ?thesis by (simp add: valid_ref_def)
  qed
  with assms show ?thesis by (simp add: stream_inv_def stream_refs_ok_def)
qed

lemma valid_producer:
  assumes "stream_refs_ok g" "stream_to_producer g n = Some u" "ref_type (parent_node (output_streams g ! u)) \<noteq> GraphInputStreamType"
  shows "valid_ref g (parent_node (output_streams g ! u))"
  using assms by (auto simp: stream_refs_ok_def is_producer_map_def before_def valid_ref_def)

lemma add_edges_append: "add_edges (xs @ ys) s = do { s \<leftarrow> add_edges xs s; add_edges ys s }"
  by (induction xs s rule: add_edges.induct) (auto split: Option.bind_splits)

lemma sorter_stream_edges_eq:
  assumes "stream_refs_ok g" "set es \<subseteq> set (input_streams g)"
  shows "sorter_stream_edges g es s = add_edges (concat (map (stream_pair g) es)) s"
  using assms(2)
proof (induction es arbitrary: s)
  case (Cons e es)
  have "valid_ref g (parent_node e)" using assms(1) Cons.prems by (auto simp: stream_refs_ok_def)
  then have "sorter_edge g (parent_node (output_streams g ! u)) (parent_node e) s =
      AddEdge (sorter_index g (parent_node (output_streams g ! u))) (sorter_index g (parent_node e)) s"
    if "stream_to_producer g (edge_name e) = Some u" "ref_type (parent_node (output_streams g ! u)) \<noteq> GraphInputStreamType" for u s
    using sorter_index_valid(1) valid_producer [OF assms(1) that] by (simp add: sorter_edge_def)
  moreover have "sorter_stream_edges g es = add_edges (concat (map (stream_pair g) es))"
    by (rule ext) (use Cons in simp)
  ultimately show ?case by (auto simp: stream_pair_def [of g e] split: option.split)
qed simp

lemma stream_pairs_ok:
  assumes "stream_refs_ok g" "set es \<subseteq> set (input_streams g)"
  shows "edges_ok (num_sorted g) (concat (map (stream_pair g) es))"
proof -
  have "edges_ok (num_sorted g) (stream_pair g e)" if "e \<in> set (input_streams g)" for e
    using that assms(1) sorter_index_valid [of g] valid_producer [OF assms(1)]
    by (auto simp: edges_ok_def stream_pair_def stream_refs_ok_def split: option.split)
  then show ?thesis using assms(2) by (fastforce simp: edges_ok_def)
qed

lemma side_refs:
  assumes "side_inv need g" "e \<in> set (input_side_packets g)" "side_packet_to_producer g n = Some u"
    and "ref_type (parent_node e) = PacketGeneratorType \<or> ref_type (parent_node e) = CalculatorType"
  shows "valid_ref g (parent_node e)" "valid_ref g (parent_node (output_side_packets g ! u))"
  using assms by (auto simp: side_inv_def is_producer_map_def)

lemma sorter_side_packet_edges_eq:
  assumes "side_inv need g" "set es \<subseteq> set (input_side_packets g)"
  shows "sorter_side_packet_edges g es s = add_edges (concat (map (side_packet_pair g) es)) s"
  using assms(2)
proof (induction es arbitrary: s)
  case (Cons e es)
  have "sorter_edge g (parent_node (output_side_packets g ! u)) (parent_node e) s =
      AddEdge (sorter_index g (parent_node (output_side_packets g ! u))) (sorter_index g (parent_node e)) s"
    if "side_packet_to_producer g (edge_name e) = Some u"
      "ref_type (parent_node e) = PacketGeneratorType \<or> ref_type (parent_node e) = CalculatorType" for u s
    using sorter_index_valid(1) side_refs [OF assms(1) _ that] Cons.prems by (simp add: sorter_edge_def)
  moreover have "sorter_side_packet_edges g es = add_edges (concat (map (side_packet_pair g) es))"
    by (rule ext) (use Cons in simp)
  ultimately show ?case by (auto simp: side_packet_pair_def [of g e] split: option.split)
qed simp

lemma side_packet_pairs_ok:
  assumes "side_inv need g" "set es \<subseteq> set (input_side_packets g)"
  shows "edges_ok (num_sorted g) (concat (map (side_packet_pair g) es))"
proof -
  have "edges_ok (num_sorted g) (side_packet_pair g e)" if "e \<in> set (input_side_packets g)" for e
  proof (cases "side_packet_to_producer g (edge_name e)")
    case (Some u)
    then show ?thesis using sorter_index_valid(2,3) [of g] side_refs [OF assms(1) that Some]
      by (auto simp: edges_ok_def side_packet_pair_def)
  qed (simp add: edges_ok_def side_packet_pair_def)
  then show ?thesis using assms(2) by (fastforce simp: edges_ok_def)
qed

subsection \<open>Taking the nodes in their order\<close>

text \<open>What has been taken after the sorter has returned the nodes \<open>vs\<close>.\<close>

definition taken :: "validated_graph \<Rightarrow> nat list \<Rightarrow> validated_graph \<Rightarrow> bool" where
  "taken old vs g \<longleftrightarrow>
     (let G = length (generators old); cs = map (\<lambda>i. i - G) (filter (\<lambda>i. G \<le> i) vs); gs = filter (\<lambda>i. i < G) vs
      in map node_contract (calculators g) = map (\<lambda>i. node_contract (calculators old ! i)) cs \<and>
         map AncestorSources (calculators g) = map (\<lambda>i. AncestorSources (calculators old ! i)) cs \<and>
         config_nodes (config g) = map ((!) (config_nodes (config old))) cs \<and>
         map node_contract (generators g) = map (\<lambda>i. node_contract (generators old ! i)) gs \<and>
         config_generators (config g) = map ((!) (config_generators (config old))) gs \<and>
         (\<forall>k < length (calculators g). node (calculators g ! k) = \<lparr>ref_type = CalculatorType, ref_index = k\<rparr>) \<and>
         (\<forall>k < length (generators g). node (generators g ! k) = \<lparr>ref_type = PacketGeneratorType, ref_index = k\<rparr>) \<and>
         (\<forall>ref \<in> set (sorted_nodes g). valid_ref g ref) \<and>
         status_handlers g = status_handlers old \<and> config_handlers (config g) = config_handlers (config old) \<and>
         graph_input_stream (config g) = graph_input_stream (config old) \<and> packet_types g = packet_types old \<and>
         config_executors (config g) = config_executors (config old))"

lemma taken_snoc:
  assumes "taken old vs g" "node_refs_ok old" "v < num_sorted old"
  shows "taken old (vs @ [v]) (take_node old g v)"
proof -
  have mono: "valid_ref (take_node old g v) ref" if "valid_ref g ref" for ref
    using that by (auto simp: valid_ref_def take_node_def Let_def)
  show ?thesis
  proof (cases "v < length (generators old)")
    case True
    then have "node (generators old ! v) = \<lparr>ref_type = PacketGeneratorType, ref_index = v\<rparr>"
      using assms(2) by (simp add: node_refs_ok_def)
    then show ?thesis using assms(1) mono True
      by (auto simp: taken_def Let_def take_node_def NodeForSorterIndex_def get_info_def nth_append less_Suc_eq valid_ref_def)
  next
    case False
    then have "node (calculators old ! (v - length (generators old))) = \<lparr>ref_type = CalculatorType, ref_index = v - length (generators old)\<rparr>"
      using assms(2,3) by (simp add: node_refs_ok_def num_sorted_def)
    then show ?thesis using assms(1) mono False
      by (auto simp: taken_def Let_def take_node_def NodeForSorterIndex_def get_info_def nth_append less_Suc_eq valid_ref_def)
  qed
qed

lemma taken_fold:
  "taken old vs g \<Longrightarrow> node_refs_ok old \<Longrightarrow> \<forall>v \<in> set us. v < num_sorted old \<Longrightarrow>
   taken old (vs @ us) (fold (\<lambda>index g'. take_node old g' index) us g)"
proof (induction us arbitrary: vs g)
  case (Cons v us)
  then show ?case using taken_snoc [of old vs g v] Cons.IH [of "vs @ [v]" "take_node old g v"] by simp
qed simp

lemma mset_map_nth_perm:
  assumes "distinct xs" "set xs = {..<length ys}"
  shows "mset (map ((!) ys) xs) = mset ys"
proof -
  have "mset xs = mset [0..<length ys]"
    using mset_set_set [OF assms(1)] mset_set_set [of "[0..<length ys]"] assms(2) by (simp add: atLeast0LessThan)
  then have "mset (map ((!) ys) xs) = mset (map ((!) ys) [0..<length ys])" by (simp add: mset_map)
  then show ?thesis by (simp add: map_nth)
qed

lemma zip_map_nth:
  "\<forall>i \<in> set cs. i < length xs \<and> i < length ys \<Longrightarrow>
   zip (map ((!) xs) cs) (zip (map (\<lambda>i. f (ys ! i)) cs) (map (\<lambda>i. h (ys ! i)) cs)) =
     map ((!) (zip xs (zip (map f ys) (map h ys)))) cs"
  by (induction cs) simp_all

lemma TopologicalSortNodes_correct:
  assumes "stream_refs_ok g" "side_inv need g" "node_refs_ok g"
  shows "\<exists>r. TopologicalSortNodes g = Some r \<and> (\<forall>g'. r = Inr g' \<longrightarrow> node_refs_ok g' \<and>
    (\<forall>ref \<in> set (sorted_nodes g'). valid_ref g' ref) \<and>
    mset (zip (config_nodes (config g')) (zip (map node_contract (calculators g')) (map AncestorSources (calculators g')))) =
      mset (zip (config_nodes (config g)) (zip (map node_contract (calculators g)) (map AncestorSources (calculators g)))) \<and>
    graph_input_stream (config g') = graph_input_stream (config g) \<and> packet_types g' = packet_types g)"
proof -
  let ?es = "concat (map (stream_pair g) (input_streams g)) @ concat (map (side_packet_pair g) (input_side_packets g))"
  have "edges_ok (num_sorted g) ?es"
    using stream_pairs_ok [OF assms(1) order_refl] side_packet_pairs_ok [OF assms(2) order_refl]
    unfolding edges_ok_def set_append ball_Un by blast
  from topological_sorter_correct [OF this] obtain s0 s vs e where r:
    "new_topological_sorter (int (num_sorted g)) = Some s0" "add_edges ?es s0 = Some s"
    "traverse (Suc (num_sorted g)) s = Some (vs, e)" "distinct vs" "set vs \<subseteq> {..<num_sorted g}"
    "e = TraversalDone \<and> set vs = {..<num_sorted g} \<or> (\<exists>c. e = Cyclic c)" by blast
  let ?g0 = "g\<lparr>generators := [], calculators := [], sorted_nodes := [],
      config := (config g)\<lparr>config_generators := [], config_nodes := []\<rparr>\<rparr>"
  let ?g' = "fold (\<lambda>index g'. take_node g g' index) vs ?g0"
  have sort: "TopologicalSortNodes g = Some (case e of Cyclic c \<Rightarrow> Inl Unknown | _ \<Rightarrow> Inr ?g')"
    using r(1-3) assms(1,2)
    by (auto simp: TopologicalSortNodes_def num_sorted_def [symmetric] add_edges_append sorter_stream_edges_eq
        sorter_side_packet_edges_eq Let_def split: Option.bind_splits next_node.split)
  show ?thesis
  proof (cases "\<exists>c. e = Cyclic c")
    case True
    then show ?thesis using sort by auto
  next
    case False
    then have all: "e = TraversalDone" "set vs = {..<num_sorted g}" using r(6) by auto
    let ?G = "length (generators g)"
    let ?cs = "map (\<lambda>i. i - ?G) (filter (\<lambda>i. ?G \<le> i) vs)"
    have "taken g [] ?g0" by (simp add: taken_def)
    then have taken: "taken g vs ?g'" using taken_fold [of g "[]" ?g0 vs] assms(3) r(5) by auto
    have "distinct ?cs" using r(4) by (auto simp: distinct_map inj_on_def)
    moreover have "set ?cs = {..<length (calculators g)}"
    proof -
      have "i \<in> set ?cs" if "i < length (calculators g)" for i
      proof -
        have "i + ?G \<in> set (filter (\<lambda>i. ?G \<le> i) vs)" using that all(2) by (simp add: num_sorted_def)
        then have "(i + ?G) - ?G \<in> set ?cs" unfolding set_map by (rule imageI)
        then show ?thesis by simp
      qed
      then show ?thesis using all(2) by (auto simp: num_sorted_def)
    qed
    ultimately have perm: "mset (map ((!) ys) ?cs) = mset ys" if "length ys = length (calculators g)" for ys :: "(node_config \<times> contract \<times> nat list) list"
      using mset_map_nth_perm that by metis
    have len: "length (config_nodes (config g)) = length (calculators g)" using assms(3) by (simp add: node_refs_ok_def)
    let ?z = "zip (config_nodes (config g)) (zip (map node_contract (calculators g)) (map AncestorSources (calculators g)))"
    have t: "map node_contract (calculators ?g') = map (\<lambda>i. node_contract (calculators g ! i)) ?cs"
      "map AncestorSources (calculators ?g') = map (\<lambda>i. AncestorSources (calculators g ! i)) ?cs"
      "config_nodes (config ?g') = map ((!) (config_nodes (config g))) ?cs"
      using taken unfolding taken_def Let_def by blast+
    have "zip (config_nodes (config ?g')) (zip (map node_contract (calculators ?g')) (map AncestorSources (calculators ?g'))) =
        map ((!) ?z) ?cs"
      unfolding t by (rule zip_map_nth) (use \<open>set ?cs = _\<close> len in \<open>simp add: set_eq_iff\<close>)
    then have "mset (zip (config_nodes (config ?g')) (zip (map node_contract (calculators ?g')) (map AncestorSources (calculators ?g')))) = mset ?z"
      using perm [of ?z] len by simp
    moreover have "node_refs_ok ?g'"
    proof -
      have "length (config_nodes (config ?g')) = length (calculators ?g')" by (metis t(1,3) length_map)
      moreover have "length (config_generators (config ?g')) = length (generators ?g')"
        using taken unfolding taken_def Let_def by (metis length_map)
      ultimately show ?thesis using taken assms(3) unfolding taken_def Let_def node_refs_ok_def by simp
    qed
    ultimately show ?thesis using sort all(1) taken by (simp add: taken_def Let_def)
  qed
qed

end
