(* ===== verification/GraphConnected.thy ===== *)
theory GraphConnected
  imports GraphSorting
begin

section \<open>The edges of an initialised graph\<close>

subsection \<open>Initialising the nodes\<close>

text \<open>
  What the development relies on of the code that is registered by name: it changes packet types
  through the setters of the class only.
\<close>

definition registry_ok :: "registry \<Rightarrow> bool" where
  "registry_ok R \<longleftrightarrow>
     (\<forall>p n f c st. calculator_contract R p n = Inr f \<longrightarrow> built_types st \<longrightarrow> built_types (fst (f c st))) \<and>
     (\<forall>p n f c st. generator_expectations R p n = Inr f \<longrightarrow> built_types st \<longrightarrow> built_types (fst (f c st))) \<and>
     (\<forall>p n f c st. handler_expectations R p n = Inr f \<longrightarrow> built_types st \<longrightarrow> built_types (fst (f c st)))"

text \<open>An initialisation of a node of one kind: the store stays built, and the node gets its reference.\<close>

definition init_ok :: "node_type \<Rightarrow> ('n \<Rightarrow> nat \<Rightarrow> type_store \<Rightarrow> addr \<Rightarrow> type_store \<times> addr \<times> node_type_info result) \<Rightarrow> bool" where
  "init_ok t init \<longleftrightarrow> (\<forall>n index st a st' a' r. init n index st a = (st', a', r) \<longrightarrow> built_types st \<longrightarrow> built_types st' \<and>
     (\<forall>info. r = Inr info \<longrightarrow> node info = \<lparr>ref_type = t, ref_index = index\<rparr> \<and> AncestorSources info = []))"

lemma fill_contract_built:
  assumes "fill_contract f c st = ((st', c'), r)" shows "st' = fst (f c st)"
  using assms by (auto simp: fill_contract_def split: prod.splits)

lemma init_ok_calculator: "registry_ok R \<Longrightarrow> init_ok CalculatorType (Initialize_calculator A R package)"
  unfolding init_ok_def
proof (intro allI impI)
  fix n index st a st' a' r
  assume R: "registry_ok R" and init: "Initialize_calculator A R package n index st a = (st', a', r)" and st: "built_types st"
  have "built_types (fst (f c st))" if "calculator_contract R package n = Inr f" for f c
    using R st that by (auto simp: registry_ok_def)
  then show "built_types st' \<and> (\<forall>info. r = Inr info \<longrightarrow> node info = \<lparr>ref_type = CalculatorType, ref_index = index\<rparr> \<and> AncestorSources info = [])"
    using init st
    by (auto simp: Initialize_calculator_def new_node_type_info_def Let_def result_bind_Inr split: sum.splits prod.splits
        dest!: fill_contract_built)
qed

lemma init_ok_generator: "registry_ok R \<Longrightarrow> init_ok PacketGeneratorType (Initialize_generator A R package)"
  unfolding init_ok_def registry_ok_def
  by (auto simp: Initialize_generator_def new_node_type_info_def Let_def result_bind_Inr split: sum.splits prod.splits
      dest!: fill_contract_built)

lemma init_ok_handler: "registry_ok R \<Longrightarrow> init_ok StatusHandlerType (Initialize_handler A R package)"
  unfolding init_ok_def registry_ok_def
  by (auto simp: Initialize_handler_def new_node_type_info_def Let_def result_bind_Inr split: sum.splits prod.splits
      dest!: fill_contract_built)

lemma initialize_infos_ok:
  assumes "init_ok t init" "initialize_infos init ns index st a = (st', a', infos, statuses)" "built_types st"
  shows "built_types st' \<and> OkStatus \<notin> set statuses \<and> (statuses = [] \<longrightarrow> length infos = length ns \<and>
    (\<forall>k < length ns. node (infos ! k) = \<lparr>ref_type = t, ref_index = index + k\<rparr> \<and> AncestorSources (infos ! k) = []))"
  using assms(2,3)
proof (induction ns arbitrary: index st a st' a' infos statuses)
  case (Cons n ns)
  obtain st1 a1 r where 1: "init n index st a = (st1, a1, r)" by (metis prod_cases3)
  obtain st2 a2 infos' statuses' where 2: "initialize_infos init ns (Suc index) st1 a1 = (st2, a2, infos', statuses')"
    by (metis prod_cases4)
  have b: "built_types st1 \<and> (\<forall>info. r = Inr info \<longrightarrow> node info = \<lparr>ref_type = t, ref_index = index\<rparr> \<and> AncestorSources info = [])"
    using assms(1) 1 Cons.prems(2) unfolding init_ok_def by blast
  note IH = Cons.IH [OF 2 conjunct1 [OF b]]
  show ?case
  proof (cases r)
    case (Inl c)
    then show ?thesis using Cons.prems(1) 1 2 IH by auto
  next
    case (Inr info)
    have "infos = info # infos'" "statuses = statuses'" "st' = st2" using Cons.prems(1) 1 2 Inr by auto
    moreover have "node ((info # infos') ! k) = \<lparr>ref_type = t, ref_index = index + k\<rparr> \<and> AncestorSources ((info # infos') ! k) = []"
      if "statuses' = []" "k < length (n # ns)" for k
    proof (cases k)
      case 0
      then show ?thesis using b Inr by simp
    next
      case (Suc j)
      then show ?thesis using IH that by simp
    qed
    ultimately show ?thesis using IH by simp
  qed
qed simp

definition nodes_ready :: "validated_graph \<Rightarrow> bool" where
  "nodes_ready g \<longleftrightarrow> node_refs_ok g \<and> (\<forall>ref \<in> set (sorted_nodes g). valid_ref g ref) \<and>
     (\<forall>i \<in> set (calculators g). AncestorSources i = []) \<and> all_resolve (packet_types g)"

definition no_edges :: "validated_graph \<Rightarrow> bool" where
  "no_edges g \<longleftrightarrow> input_streams g = [] \<and> output_streams g = [] \<and> stream_to_producer g = Map.empty \<and>
     input_side_packets g = [] \<and> output_side_packets g = [] \<and> side_packet_to_producer g = Map.empty \<and> required_side_packets g = []"

lemma initialize_nodes_ready:
  assumes "registry_ok R" "initialize_nodes A R (new_validated_graph cfg) = Inr g"
  shows "nodes_ready g \<and> no_edges g \<and> config g = cfg"
proof -
  let ?g0 = "new_validated_graph cfg" and ?p = "config_package cfg"
  obtain st1 a1 gens s1 where 1: "initialize_infos (Initialize_generator A R ?p) (config_generators cfg) 0 initial_types 0 = (st1, a1, gens, s1)"
    by (metis prod_cases4)
  obtain st2 a2 calcs s2 where 2: "initialize_infos (Initialize_calculator A R ?p) (config_nodes cfg) 0 st1 a1 = (st2, a2, calcs, s2)"
    by (metis prod_cases4)
  obtain st3 a3 hs s3 where 3: "initialize_infos (Initialize_handler A R ?p) (config_handlers cfg) 0 st2 a2 = (st3, a3, hs, s3)"
    by (metis prod_cases4)
  note i1 = initialize_infos_ok [OF init_ok_generator [OF assms(1)] 1 built_types.init]
  note i2 = initialize_infos_ok [OF init_ok_calculator [OF assms(1)] 2 conjunct1 [OF i1]]
  note i3 = initialize_infos_ok [OF init_ok_handler [OF assms(1)] 3 conjunct1 [OF i2]]
  let ?refs = "map (\<lambda>i. \<lparr>ref_type = PacketGeneratorType, ref_index = i\<rparr>) [0..<length gens] @
      map (\<lambda>i. \<lparr>ref_type = CalculatorType, ref_index = i\<rparr>) [0..<length calcs]"
  have ok: "set s \<subseteq> {OkStatus} \<and> OkStatus \<notin> set s \<Longrightarrow> s = []" for s :: "status list" by (cases s) auto
  have g: "g = ?g0\<lparr>generators := gens, calculators := calcs, status_handlers := hs, packet_types := st3, next_type := a3,
      sorted_nodes := ?refs\<rparr>" and s: "s1 = []" "s2 = []" "s3 = []"
    using assms(2) 1 2 3 i1 i2 i3 ok
    by (auto simp: initialize_nodes_def InitializeGeneratorInfo_def InitializeCalculatorInfo_def InitializeStatusHandlerInfo_def
        new_validated_graph_def result_bind_Inr CombinedStatus_ok)
  have "node_refs_ok g" using i1 i2 i3 by (simp add: g s node_refs_ok_def new_validated_graph_def)
  moreover have "\<forall>ref \<in> set (sorted_nodes g). valid_ref g ref" by (auto simp: g valid_ref_def)
  moreover have "\<forall>i \<in> set (calculators g). AncestorSources i = []" using i2 s(2) by (auto simp: g in_set_conv_nth)
  moreover have "all_resolve (packet_types g)" using i3 built_types_resolve by (simp add: g)
  ultimately show ?thesis by (simp add: nodes_ready_def no_edges_def g new_validated_graph_def)
qed

subsection \<open>Edges, sorted if need be\<close>

definition edges_inv :: "bool option \<Rightarrow> validated_graph \<Rightarrow> bool" where
  "edges_inv need g \<longleftrightarrow> nodes_ready g \<and> side_inv need g \<and> stream_inv need (length (calculators g)) g"

lemma nodes_ready_same:
  assumes "nodes_ready g" "same_nodes g g'" "all_resolve (packet_types g')"
  shows "nodes_ready g'"
proof -
  have "map AncestorSources (calculators g') = map AncestorSources (calculators g)"
    using assms(2) by (simp add: same_nodes_def same_infos_def)
  then have "AncestorSources ` set (calculators g') = AncestorSources ` set (calculators g)" by (metis list.set_map)
  then have "\<forall>i \<in> set (calculators g'). AncestorSources i = []" using assms(1) by (force simp: nodes_ready_def)
  then show ?thesis
    using assms node_refs_ok_same [OF assms(2)] valid_ref_same [OF assms(2)] same_nodes_lengths(5) [OF assms(2)]
    by (simp add: nodes_ready_def)
qed

text \<open>The pass over the streams leaves the side packets alone.\<close>

definition same_side :: "validated_graph \<Rightarrow> validated_graph \<Rightarrow> bool" where
  "same_side g g' \<longleftrightarrow> input_side_packets g' = input_side_packets g \<and> output_side_packets g' = output_side_packets g \<and>
     side_packet_to_producer g' = side_packet_to_producer g \<and> required_side_packets g' = required_side_packets g"

lemma same_side_refl [simp]: "same_side g g"
  by (simp add: same_side_def)

lemma same_side_trans: "same_side g g' \<Longrightarrow> same_side g' g'' \<Longrightarrow> same_side g g''"
  by (simp add: same_side_def)

lemma AddOutputStream_side: "AddOutputStream ref name ty g = Inr g' \<Longrightarrow> same_side g g'"
  by (auto simp: AddOutputStream_def Let_def same_side_def split: if_splits)

lemma add_output_stream_edges_side: "add_output_stream_edges ref ts is g = Inr g' \<Longrightarrow> same_side g g'"
proof (induction "is" arbitrary: g)
  case (Cons i "is")
  then show ?case by (auto simp: result_bind_Inr intro: same_side_trans [OF AddOutputStream_side])
qed simp

lemma add_streams_side: "add_streams A ks need g = Inr (need', g') \<Longrightarrow> same_side g g'"
proof (induction ks arbitrary: need g)
  case (Cons k ks)
  then obtain need1 g1 g2 where steps: "AddInputStreamsForNode A k need g = Inr (need1, g1)"
    "AddOutputStreamsForNode k g1 = Inr g2" "add_streams A ks need1 g2 = Inr (need', g')" by (auto simp: result_bind_Inr)
  have "same_side g g1"
    using steps(1) by (auto simp: AddInputStreamsForNode_def Let_def result_bind_Inr same_side_def dest!: add_input_stream_edges_Inr)
  moreover have "same_side g1 g2"
    using steps(2) by (auto simp: AddOutputStreamsForNode_def Let_def same_side_def dest!: add_output_stream_edges_side)
  ultimately show ?case using Cons.IH [OF steps(3)] by (blast intro: same_side_trans)
qed simp

lemma add_graph_input_streams_side: "add_graph_input_streams ns index g = Inr g' \<Longrightarrow> same_side g g'"
proof (induction ns arbitrary: index g)
  case (Cons n ns)
  then obtain g1 where g1: "same_side (g\<lparr>packet_types := SetAny (packet_types g) (next_type g), next_type := Suc (next_type g)\<rparr>) g1"
    "add_graph_input_streams ns (Suc index) g1 = Inr g'" by (auto simp: Let_def result_bind_Inr dest: AddOutputStream_side)
  then show ?case using Cons.IH [OF g1(2)] by (simp add: same_side_def)
qed simp

lemma InitializeStreamInfo_side: "InitializeStreamInfo A need g = Inr (need', g') \<Longrightarrow> same_side g g'"
  by (auto simp: InitializeStreamInfo_def result_bind_Inr
      intro: same_side_trans [OF add_graph_input_streams_side add_streams_side])

lemma side_inv_kept:
  assumes "side_inv need g" "same_side g g'" "same_nodes g g'" "need = Some True \<longrightarrow> need' = Some True"
  shows "side_inv need' g'"
  using assms(1,2,4) valid_ref_same [OF assms(3)] by (auto simp: side_inv_def same_side_def)

lemma initialize_edges_inv:
  assumes "strings_ok A" "initialize_edges A need g = Inr (need', g')" "nodes_ready g" "no_edges g" "need \<noteq> Some True"
  shows "edges_inv need' g' \<and> same_nodes g g' \<and> (need = None \<longleftrightarrow> need' = None)"
proof -
  from assms(2) obtain need1 g1 where steps: "InitializeSidePacketInfo need g = Inr (need1, g1)"
    "InitializeStreamInfo A need1 g1 = Inr (need', g')" by (auto simp: initialize_edges_def result_bind_Inr)
  have "side_inv need g" using assms(4) by (simp add: side_inv_def no_edges_def)
  then have 1: "side_inv need1 g1 \<and> same_rest g g1 \<and> (need = None \<longleftrightarrow> need1 = None)"
    using InitializeSidePacketInfo_inv [OF steps(1)] assms(3) by (simp add: nodes_ready_def)
  then have rest: "same_nodes g g1" "packet_types g1 = packet_types g" "input_streams g1 = []" "output_streams g1 = []"
    "stream_to_producer g1 = Map.empty"
    using assms(4) by (auto simp: same_rest_def no_edges_def)
  have ready: "nodes_ready g1" using nodes_ready_same [OF assms(3) rest(1)] rest(2) assms(3) by (simp add: nodes_ready_def)
  then have 2: "same_nodes g1 g' \<and> stream_inv need' (length (calculators g1)) g' \<and> all_resolve (packet_types g') \<and>
      (need1 = None \<longleftrightarrow> need' = None) \<and> (need1 = Some True \<longrightarrow> need' = Some True)"
    using InitializeStreamInfo_inv [OF assms(1) steps(2)] rest by (simp add: nodes_ready_def)
  have "side_inv need' g'" using side_inv_kept [OF _ InitializeStreamInfo_side [OF steps(2)]] 1 2 by blast
  moreover have "nodes_ready g'" using nodes_ready_same [OF ready] 2 by blast
  ultimately show ?thesis
    using 1 2 rest(1) same_nodes_lengths(1) [of g1 g'] by (auto simp: edges_inv_def intro: same_nodes_trans)
qed

text \<open>The sources of a calculator and its contract, which sorting permutes.\<close>

definition node_list :: "validated_graph \<Rightarrow> (node_config \<times> contract \<times> nat list) list" where
  "node_list g = zip (config_nodes (config g)) (zip (map node_contract (calculators g)) (map AncestorSources (calculators g)))"

lemma node_list_same: "same_nodes g g' \<Longrightarrow> node_list g' = node_list g"
  by (simp add: node_list_def same_nodes_def same_infos_def)

lemma initialize_sorted_inv:
  assumes "strings_ok A" "nodes_ready g" "no_edges g"
  shows "\<exists>r. initialize_sorted A g = Some r \<and> (\<forall>g'. r = Inr g' \<longrightarrow>
    (\<exists>need. need \<noteq> Some True \<and> edges_inv need g') \<and> mset (node_list g') = mset (node_list g) \<and>
    graph_input_stream (config g') = graph_input_stream (config g))"
proof (cases "initialize_edges A (Some False) g")
  case (Inl c)
  then show ?thesis by (simp add: initialize_sorted_def)
next
  case (Inr p)
  then obtain need g1 where p: "initialize_edges A (Some False) g = Inr (need, g1)" by (cases p) simp
  have 1: "edges_inv need g1 \<and> same_nodes g g1" using initialize_edges_inv [OF assms(1) p assms(2,3)] by simp
  show ?thesis
  proof (cases "need = Some True")
    case False
    then have "initialize_sorted A g = Some (Inr g1)" using p by (simp add: initialize_sorted_def)
    then show ?thesis using False 1 node_list_same [of g g1] same_nodes_lengths(4) [of g g1] by auto
  next
    case True
    have refs: "stream_refs_ok g1" "side_inv need g1" "node_refs_ok g1"
      using 1 stream_inv_refs by (auto simp: edges_inv_def nodes_ready_def)
    obtain r where sort: "TopologicalSortNodes g1 = Some r" and sorted: "\<And>g'. r = Inr g' \<Longrightarrow> node_refs_ok g' \<and>
        (\<forall>ref \<in> set (sorted_nodes g'). valid_ref g' ref) \<and> mset (node_list g') = mset (node_list g1) \<and>
        graph_input_stream (config g') = graph_input_stream (config g1) \<and> packet_types g' = packet_types g1"
      using TopologicalSortNodes_correct [OF refs] unfolding node_list_def by blast
    show ?thesis
    proof (cases r)
      case (Inl c)
      then show ?thesis using p True sort by (simp add: initialize_sorted_def)
    next
      case (Inr g2)
      note s = sorted [OF Inr]
      have ready: "nodes_ready (clear_analysis g2)"
      proof -
        have "length (config_nodes (config g2)) = length (calculators g2)" "length (config_nodes (config g1)) = length (calculators g1)"
          using s refs(3) by (simp_all add: node_refs_ok_def)
        then have "AncestorSources ` set (calculators g2) = (snd \<circ> snd) ` set (node_list g2)"
          "AncestorSources ` set (calculators g1) = (snd \<circ> snd) ` set (node_list g1)"
          unfolding node_list_def set_map [symmetric] by (simp_all flip: map_map)
        moreover have "set (node_list g2) = set (node_list g1)" using s by (metis mset_eq_setD)
        ultimately have "AncestorSources ` set (calculators g2) = AncestorSources ` set (calculators g1)" by simp
        moreover have "\<forall>i \<in> set (calculators g1). AncestorSources i = []" using 1 by (simp add: edges_inv_def nodes_ready_def)
        ultimately have "\<forall>i \<in> set (calculators g2). AncestorSources i = []" by force
        then show ?thesis
          using s 1 by (simp add: nodes_ready_def clear_analysis_def node_refs_ok_def valid_ref_def edges_inv_def)
      qed
      have cleared: "no_edges (clear_analysis g2)" by (simp add: no_edges_def clear_analysis_def)
      have same_list: "node_list (clear_analysis g2) = node_list g2" "config (clear_analysis g2) = config g2"
        by (simp_all add: node_list_def clear_analysis_def)
      show ?thesis
      proof (cases "initialize_edges A None (clear_analysis g2)")
        case (Inl c)
        then show ?thesis using p True sort Inr by (simp add: initialize_sorted_def)
      next
        case last: (Inr q)
        then obtain need3 g3 where q: "initialize_edges A None (clear_analysis g2) = Inr (need3, g3)" by (cases q) simp
        note 3 = initialize_edges_inv [OF assms(1) q ready cleared]
        have "initialize_sorted A g = Some (Inr g3)" using p True sort Inr q by (simp add: initialize_sorted_def)
        moreover have "mset (node_list g3) = mset (node_list g)" "graph_input_stream (config g3) = graph_input_stream (config g)"
          using node_list_same [OF conjunct2 [OF 1]] same_nodes_lengths(4) [OF conjunct2 [OF 1]]
            node_list_same [of "clear_analysis g2" g3] same_nodes_lengths(4) [of "clear_analysis g2" g3] 3 s same_list by simp_all
        moreover have "need3 \<noteq> Some True \<and> edges_inv need3 g3" using 3 by auto
        ultimately show ?thesis by auto
      qed
    qed
  qed
qed

end
