(* ===== verification/GraphTypes.thy ===== *)
theory GraphTypes
  imports GraphConnected
begin

section \<open>The packet types of a validated graph\<close>

text \<open>
  The inference of types ends and keeps the links of the store acyclic. Once it has visited an
  edge, the two ends share their root or neither end is an \<open>Any\<close> type, whatever it does
  later; so the consistency that is validated is enough for the packets that cross the edge.
\<close>

definition root_spec :: "type_store \<Rightarrow> addr \<Rightarrow> type_spec" where
  "root_spec st a = type_spec_field (st (the (GetSameAs st a)))"

lemma resolve_total:
  assumes "all_resolve st" shows "\<exists>r. GetSameAs st a = Some r \<and> SameAsPtr st r = None"
  using assms by (auto simp: all_resolve_def GetSameAs_iff dest: links_to_root)

lemma GetSameAs_root: "SameAsPtr st r = None \<Longrightarrow> GetSameAs st r = Some r"
  by (simp add: GetSameAs.simps)

text \<open>Linking one root to another.\<close>

lemma GetSameAs_set_link:
  assumes "SameAsPtr st r = None" "SameAsPtr st q = None" "q \<noteq> r" "GetSameAs st a = Some b"
  shows "GetSameAs (set_spec st r (SameAs q)) a = Some (if b = r then q else b)"
proof -
  let ?st = "set_spec st r (SameAs q)"
  have q: "GetSameAs ?st q = Some q" using assms(2,3) by (intro GetSameAs_root) (simp add: SameAsPtr_set_spec)
  have "links_to st a b" using assms(4) by (simp add: GetSameAs_iff)
  then show ?thesis
  proof (induction rule: links_to.induct)
    case (root p)
    show ?case
    proof (cases "p = r")
      case True
      have "SameAsPtr ?st r = Some q" by (simp add: SameAsPtr_set_spec)
      then show ?thesis using True q by (simp add: GetSameAs.simps [of ?st r])
    next
      case False
      then show ?thesis using root by (simp add: GetSameAs_root SameAsPtr_set_spec)
    qed
  next
    case (link p p' b)
    then have "p \<noteq> r" using assms(1) by auto
    then have "SameAsPtr ?st p = Some p'" using link.hyps(1) by (simp add: SameAsPtr_set_spec)
    then show ?case using link.IH by (simp add: GetSameAs.simps [of ?st p])
  qed
qed

text \<open>
  A link step: nothing, or one root is linked to another, and it was \<open>Any\<close>, or the new root is
  an exact type.
\<close>

definition link_step :: "type_store \<Rightarrow> type_store \<Rightarrow> bool" where
  "link_step st st' \<longleftrightarrow> all_resolve st' \<and>
     (\<forall>p. optional_field (st' p) = optional_field (st p)) \<and>
     (st' = st \<or> (\<exists>r q. SameAsPtr st r = None \<and> SameAsPtr st q = None \<and> q \<noteq> r \<and> st' = set_spec st r (SameAs q) \<and>
       (type_spec_field (st r) = SpecialAny \<or> (\<exists>t. type_spec_field (st q) = ExactType t))))"

definition linked :: "type_store \<Rightarrow> addr \<Rightarrow> addr \<Rightarrow> bool" where
  "linked st a b \<longleftrightarrow> GetSameAs st a = GetSameAs st b \<or> root_spec st a \<noteq> SpecialAny \<and> root_spec st b \<noteq> SpecialAny"

lemma linked_step:
  assumes "link_step st st'" "all_resolve st" "linked st a b"
  shows "linked st' a b"
proof (cases "st' = st")
  case False
  then obtain r q where l: "SameAsPtr st r = None" "SameAsPtr st q = None" "q \<noteq> r" "st' = set_spec st r (SameAs q)"
    "type_spec_field (st r) = SpecialAny \<or> (\<exists>t. type_spec_field (st q) = ExactType t)"
    using assms(1) unfolding link_step_def by blast
  obtain x y where xy: "GetSameAs st a = Some x" "GetSameAs st b = Some y" using resolve_total [OF assms(2)] by metis
  have roots: "GetSameAs st' a = Some (if x = r then q else x)" "GetSameAs st' b = Some (if y = r then q else y)"
    unfolding l(4) by (rule GetSameAs_set_link [OF l(1-3)], rule xy)+
  have spec: "type_spec_field (st' z) = type_spec_field (st z)" if "z \<noteq> r" for z using that l(4) by (simp add: set_spec_def)
  show ?thesis using assms(3) l(3,5) xy roots spec by (auto simp: linked_def root_spec_def)
qed (use assms(3) in simp)

lemma SetSameAs_link_step:
  assumes "all_resolve st" "SameAsPtr st r = None" "GetSameAs st b = Some q"
    and "type_spec_field (st r) = SpecialAny \<or> r \<noteq> q \<and> (\<exists>t. type_spec_field (st q) = ExactType t)"
  shows "\<exists>st'. SetSameAs st r b = Some st' \<and> link_step st st' \<and> (r \<noteq> q \<longrightarrow> GetSameAs st' r = Some q \<and> GetSameAs st' b = Some q)"
proof -
  have q: "SameAsPtr st q = None" using assms(3) by (auto simp: GetSameAs_iff dest: links_to_root)
  obtain st' where st': "SetSameAs st r b = Some st'" "all_resolve st'" using all_resolve_SetSameAs [OF assms(1)] by blast
  show ?thesis
  proof (cases "q = r")
    case True
    then have "st' = st" using st'(1) assms(3,4) by (auto simp: SetSameAs_def SetAny_def set_spec_def)
    then show ?thesis using st' True by (simp add: link_step_def)
  next
    case False
    then have eq: "st' = set_spec st r (SameAs q)" using st'(1) assms(3) by (simp add: SetSameAs_def)
    have "link_step st st'"
      unfolding link_step_def using st'(2) assms(2,4) q False eq by (intro conjI) (auto simp: set_spec_def)
    moreover have "GetSameAs st' r = Some q" "GetSameAs st' b = Some q"
      unfolding eq using GetSameAs_set_link [OF assms(2) q False GetSameAs_root [OF assms(2)]]
        GetSameAs_set_link [OF assms(2) q False assms(3)] by simp_all
    ultimately show ?thesis using st'(1) by blast
  qed
qed

lemma resolve_any_step:
  assumes "all_resolve st"
  shows "\<exists>st'. resolve_any a b st = Some st' \<and> link_step st st' \<and> linked st' a b"
proof -
  obtain x y where xy: "GetSameAs st a = Some x" "GetSameAs st b = Some y" "SameAsPtr st x = None" "SameAsPtr st y = None"
    using resolve_total [OF assms] by metis
  have same: "linked st' a b" if "link_step st st'" "GetSameAs st' x = Some z" "GetSameAs st' y = Some z" for st' z
  proof -
    have "GetSameAs st' a = GetSameAs st' x" "GetSameAs st' b = GetSameAs st' y"
    proof -
      have "GetSameAs st' c = GetSameAs st' w" if c: "GetSameAs st c = Some w" "SameAsPtr st w = None" for c w
      proof (cases "st' = st")
        case True
        then show ?thesis using c GetSameAs_root by simp
      next
        case False
        then obtain r q where l: "SameAsPtr st r = None" "SameAsPtr st q = None" "q \<noteq> r" "st' = set_spec st r (SameAs q)"
          using \<open>link_step st st'\<close> unfolding link_step_def by blast
        show ?thesis unfolding l(4) using GetSameAs_set_link [OF l(1-3) c(1)] GetSameAs_set_link [OF l(1-3) GetSameAs_root [OF c(2)]] by simp
      qed
      then show "GetSameAs st' a = GetSameAs st' x" "GetSameAs st' b = GetSameAs st' y" using xy by blast+
    qed
    then show ?thesis using that by (simp add: linked_def)
  qed
  show ?thesis
  proof (cases "x = y")
    case True
    have "\<exists>st'. resolve_any a b st = Some st' \<and> link_step st st'"
    proof (cases "IsAny st x")
      case True
      then show ?thesis using SetSameAs_link_step [OF assms xy(3,2)] xy \<open>x = y\<close> by (auto simp: resolve_any_def IsAny_def)
    next
      case False
      then show ?thesis using xy True assms by (auto simp: resolve_any_def link_step_def)
    qed
    then obtain st' where st': "resolve_any a b st = Some st'" "link_step st st'" by blast
    have "linked st a b" using xy True by (simp add: linked_def)
    then show ?thesis using st' linked_step [OF st'(2) assms] by blast
  next
    case False
    consider "IsAny st x" | "\<not> IsAny st x" "IsAny st y" | "\<not> IsAny st x" "\<not> IsAny st y" by blast
    then show ?thesis
    proof cases
      case 1
      then obtain st' where st': "SetSameAs st x b = Some st'" "link_step st st'" "GetSameAs st' x = Some y" "GetSameAs st' b = Some y"
        using SetSameAs_link_step [OF assms xy(3,2)] False by (auto simp: IsAny_def)
      have "GetSameAs st' y = Some y"
        using SetSameAs_link_step [OF assms xy(3) GetSameAs_root [OF xy(4)]] st'(1) False 1 xy(2)
        by (auto simp: SetSameAs_def IsAny_def GetSameAs_root [OF xy(4)])
      then show ?thesis using st' same [OF st'(2,3)] xy 1 by (auto simp: resolve_any_def)
    next
      case 2
      then obtain st' where st': "SetSameAs st y a = Some st'" "link_step st st'" "GetSameAs st' y = Some x" "GetSameAs st' a = Some x"
        using SetSameAs_link_step [OF assms xy(4,1)] False by (auto simp: IsAny_def)
      have "GetSameAs st' x = Some x"
        using SetSameAs_link_step [OF assms xy(4) GetSameAs_root [OF xy(3)]] st'(1) False 2 xy(1)
        by (auto simp: SetSameAs_def IsAny_def GetSameAs_root [OF xy(3)])
      then show ?thesis using st' same [OF st'(2) _ st'(3)] xy 2 by (auto simp: resolve_any_def)
    next
      case 3
      then have "resolve_any a b st = Some st" "linked st a b"
        using xy by (simp_all add: resolve_any_def linked_def root_spec_def IsAny_def)
      then show ?thesis using assms by (auto simp: link_step_def)
    qed
  qed
qed

lemma IsConsistentWith_total: "all_resolve st \<Longrightarrow> \<exists>c. IsConsistentWith st a b = Some c"
  using resolve_total [of st a] resolve_total [of st b] by (auto simp: IsConsistentWith_def Let_def split: option.splits)

lemma resolve_one_of_step:
  assumes "all_resolve st"
  shows "\<exists>st'. resolve_one_of a b st = Some st' \<and> link_step st st'"
proof -
  obtain x y where xy: "GetSameAs st a = Some x" "GetSameAs st b = Some y" "SameAsPtr st x = None" "SameAsPtr st y = None"
    using resolve_total [OF assms] by metis
  obtain c where c: "IsConsistentWith st x y = Some c"
    using IsConsistentWith_total [OF assms] by blast
  consider "c" "IsOneOf st x" "IsExactType st y" | "c" "\<not> (IsOneOf st x \<and> IsExactType st y)" "IsOneOf st y" "IsExactType st x"
    | "resolve_one_of a b st = Some st"
    using xy c
    by (cases c; cases "IsOneOf st x"; cases "IsExactType st y"; cases "IsOneOf st y"; cases "IsExactType st x")
      (simp_all add: resolve_one_of_def)
  then show ?thesis
  proof cases
    case 1
    then have "x \<noteq> y \<and> (\<exists>t. type_spec_field (st y) = ExactType t)"
      by (auto simp: IsOneOf_def IsExactType_def split: type_spec.splits)
    then show ?thesis using SetSameAs_link_step [OF assms xy(3,2)] 1 xy c by (auto simp: resolve_one_of_def)
  next
    case 2
    then have "y \<noteq> x \<and> (\<exists>t. type_spec_field (st x) = ExactType t)"
      by (auto simp: IsOneOf_def IsExactType_def split: type_spec.splits)
    then show ?thesis using SetSameAs_link_step [OF assms xy(4,1)] 2 xy c by (auto simp: resolve_one_of_def)
  next
    case 3
    then show ?thesis using assms by (auto simp: link_step_def)
  qed
qed

subsection \<open>The loops\<close>

definition edges_linked :: "type_store \<Rightarrow> edge_info list \<Rightarrow> edge_info list \<Rightarrow> bool" where
  "edges_linked st es outs \<longleftrightarrow> (\<forall>e \<in> set es. \<forall>u. upstream e = Some u \<longrightarrow> linked st (edge_type e) (edge_type (outs ! u)))"

inductive link_steps :: "type_store \<Rightarrow> type_store \<Rightarrow> bool" where
  refl: "link_steps st st"
| step: "link_steps st st' \<Longrightarrow> link_step st' st'' \<Longrightarrow> link_steps st st''"

lemma link_steps_keep:
  "link_steps st st' \<Longrightarrow> all_resolve st \<Longrightarrow> all_resolve st' \<and> (\<forall>a b. linked st a b \<longrightarrow> linked st' a b) \<and>
     (\<forall>p. optional_field (st' p) = optional_field (st p))"
proof (induction rule: link_steps.induct)
  case (step st st' st'')
  then show ?case using linked_step [OF step.hyps(2)] by (simp add: link_step_def)
qed simp

lemma link_steps_trans: "link_steps st' st'' \<Longrightarrow> link_steps st st' \<Longrightarrow> link_steps st st''"
  by (induction rule: link_steps.induct) (auto intro: link_steps.step)

lemma resolve_types_steps:
  assumes "\<And>a b st. all_resolve st \<Longrightarrow> \<exists>st'. f a b st = Some st' \<and> link_step st st'" "all_resolve st"
  shows "\<exists>st'. resolve_types f es outs st = Some st' \<and> link_steps st st'"
  using assms(2)
proof (induction es arbitrary: st)
  case Nil
  then show ?case by (auto intro: link_steps.refl)
next
  case (Cons e es)
  show ?case
  proof (cases "upstream e")
    case (Some u)
    obtain st1 where 1: "f (edge_type e) (edge_type (outs ! u)) st = Some st1" "link_step st st1" using assms(1) [OF Cons.prems] by blast
    then have "all_resolve st1" by (simp add: link_step_def)
    then obtain st2 where "resolve_types f es outs st1 = Some st2" "link_steps st1 st2" using Cons.IH by blast
    then show ?thesis using 1 Some by (auto intro: link_steps_trans [OF _ link_steps.step [OF link_steps.refl]])
  qed (use Cons in simp)
qed

lemma ResolveAnyTypes_linked:
  assumes "all_resolve st"
  shows "\<exists>st'. ResolveAnyTypes es outs st = Some st' \<and> link_steps st st' \<and> edges_linked st' es outs"
  unfolding ResolveAnyTypes_def using assms
proof (induction es arbitrary: st)
  case Nil
  then show ?case by (auto intro: link_steps.refl simp: edges_linked_def)
next
  case (Cons e es)
  show ?case
  proof (cases "upstream e")
    case (Some u)
    obtain st1 where 1: "resolve_any (edge_type e) (edge_type (outs ! u)) st = Some st1" "link_step st st1"
      "linked st1 (edge_type e) (edge_type (outs ! u))" using resolve_any_step [OF Cons.prems] by blast
    then have ok: "all_resolve st1" by (simp add: link_step_def)
    then obtain st2 where 2: "resolve_types resolve_any es outs st1 = Some st2" "link_steps st1 st2" "edges_linked st2 es outs"
      using Cons.IH by blast
    then show ?thesis using 1 Some link_steps_keep [OF 2(2) ok]
      by (auto simp: edges_linked_def intro: link_steps_trans [OF _ link_steps.step [OF link_steps.refl]])
  qed (use Cons in \<open>auto simp: edges_linked_def\<close>)
qed

lemma validate_side_packet_types_ok:
  assumes "all_resolve st"
  shows "\<exists>r. validate_side_packet_types es outs st = Some r \<and> (r = Inr () \<longrightarrow>
    (\<forall>e \<in> set es. \<forall>u. upstream e = Some u \<longrightarrow> IsConsistentWith st (edge_type e) (edge_type (outs ! u)) = Some True))"
proof (induction es)
  case (Cons e es)
  show ?case
  proof (cases "upstream e")
    case (Some u)
    obtain c where "IsConsistentWith st (edge_type e) (edge_type (outs ! u)) = Some c" using IsConsistentWith_total [OF assms] by blast
    then show ?thesis using Cons Some by (cases c) auto
  qed (use Cons in auto)
qed simp

lemma validate_stream_types_ok:
  assumes "all_resolve st"
  shows "\<exists>r. validate_stream_types es outs st = Some r \<and> (r = Inr () \<longrightarrow>
    (\<forall>e \<in> set es. \<exists>u. upstream e = Some u \<and> IsConsistentWith st (edge_type e) (edge_type (outs ! u)) = Some True))"
proof (induction es)
  case (Cons e es)
  show ?case
  proof (cases "upstream e")
    case (Some u)
    obtain c where "IsConsistentWith st (edge_type e) (edge_type (outs ! u)) = Some c" using IsConsistentWith_total [OF assms] by blast
    then show ?thesis using Cons Some by (cases c) auto
  qed simp
qed simp

text \<open>What holds of the types of an edge once the graph has been validated.\<close>

definition edge_typed :: "type_store \<Rightarrow> addr \<Rightarrow> addr \<Rightarrow> bool" where
  "edge_typed st a b \<longleftrightarrow> linked st a b \<and> IsConsistentWith st a b = Some True"

definition typed_graph :: "validated_graph \<Rightarrow> bool" where
  "typed_graph g \<longleftrightarrow> all_resolve (packet_types g) \<and>
     (\<forall>e \<in> set (input_streams g). \<exists>u. upstream e = Some u \<and> edge_typed (packet_types g) (edge_type e) (edge_type (output_streams g ! u))) \<and>
     (\<forall>e \<in> set (input_side_packets g). \<forall>u. upstream e = Some u \<longrightarrow>
       edge_typed (packet_types g) (edge_type e) (edge_type (output_side_packets g ! u)))"

lemma resolve_and_validate_typed:
  assumes "all_resolve (packet_types g)"
  shows "\<exists>r. resolve_and_validate g = Some r \<and> (\<forall>g'. r = Inr g' \<longrightarrow> typed_graph g' \<and> g' = g\<lparr>packet_types := packet_types g'\<rparr>)"
proof -
  have one_of: "\<exists>st'. ResolveOneOfTypes es outs st = Some st' \<and> link_steps st st'" if "all_resolve st" for es outs st
    unfolding ResolveOneOfTypes_def by (rule resolve_types_steps [OF resolve_one_of_step that])
  let ?i = "input_streams g" and ?o = "output_streams g" and ?si = "input_side_packets g" and ?so = "output_side_packets g"
  obtain s1 where 1: "ResolveAnyTypes ?i ?o (packet_types g) = Some s1" "link_steps (packet_types g) s1" "edges_linked s1 ?i ?o"
    using ResolveAnyTypes_linked [OF assms] by blast
  note k1 = link_steps_keep [OF 1(2) assms]
  obtain s2 where 2: "ResolveOneOfTypes ?i ?o s1 = Some s2" "link_steps s1 s2" using one_of k1 by blast
  note k2 = link_steps_keep [OF 2(2) conjunct1 [OF k1]]
  obtain s3 where 3: "ResolveAnyTypes ?si ?so s2 = Some s3" "link_steps s2 s3" "edges_linked s3 ?si ?so"
    using ResolveAnyTypes_linked [OF conjunct1 [OF k2]] by blast
  note k3 = link_steps_keep [OF 3(2) conjunct1 [OF k2]]
  obtain s4 where 4: "ResolveOneOfTypes ?si ?so s3 = Some s4" "link_steps s3 s4" using one_of k3 by blast
  note k4 = link_steps_keep [OF 4(2) conjunct1 [OF k3]]
  let ?g = "g\<lparr>packet_types := s4\<rparr>"
  have linked: "edges_linked s4 ?i ?o" "edges_linked s4 ?si ?so"
    using 1(3) 3(3) k2 k3 k4 by (auto simp: edges_linked_def)
  obtain r1 where r1: "validate_side_packet_types ?si ?so s4 = Some r1" "r1 = Inr () \<Longrightarrow>
      \<forall>e \<in> set ?si. \<forall>u. upstream e = Some u \<longrightarrow> IsConsistentWith s4 (edge_type e) (edge_type (?so ! u)) = Some True"
    using validate_side_packet_types_ok [of s4 ?si ?so] k4 by blast
  obtain r2 where r2: "validate_stream_types ?i ?o s4 = Some r2" "r2 = Inr () \<Longrightarrow>
      \<forall>e \<in> set ?i. \<exists>u. upstream e = Some u \<and> IsConsistentWith s4 (edge_type e) (edge_type (?o ! u)) = Some True"
    using validate_stream_types_ok [of s4 ?i ?o] k4 by blast
  have res: "resolve_and_validate g = outcome_bind (Some r1) (\<lambda>_. outcome_bind (Some r2) (\<lambda>_. Some (Inr ?g)))"
    using 1(1) 2(1) 3(1) 4(1) r1(1) r2(1) by (simp add: resolve_and_validate_def ValidateSidePacketTypes_def ValidateStreamTypes_def)
  show ?thesis
  proof (cases "r1 = Inr () \<and> r2 = Inr ()")
    case True
    then have "typed_graph ?g" using r1(2) r2(2) linked k4 by (fastforce simp: typed_graph_def edges_linked_def edge_typed_def)
    then show ?thesis using res True by simp
  next
    case False
    then show ?thesis using res by (cases r1; cases r2) auto
  qed
qed

subsection \<open>Packets that cross an edge\<close>

lemma edge_typed_sound:
  assumes "all_resolve st" "edge_typed st a b" "Validate st b p = Some OkStatus" "\<And>ts. root_spec st b \<noteq> MultiType ts"
  shows "Validate st a p = Some OkStatus"
proof -
  obtain x y where xy: "GetSameAs st a = Some x" "GetSameAs st b = Some y" "SameAsPtr st x = None" "SameAsPtr st y = None"
    using resolve_total [OF assms(1)] by metis
  let ?s = "type_spec_field (st x)" and ?t = "type_spec_field (st y)"
  have ok: "Validate_root ?t p = OkStatus" using assms(3) xy(2) by (simp add: Validate_def split: if_splits)
  have roots: "\<And>q. ?s \<noteq> SameAs q" "\<And>q. ?t \<noteq> SameAs q" "\<And>ts. ?t \<noteq> MultiType ts"
    using xy(2-4) assms(4) by (auto simp: SameAsPtr_def root_spec_def split: type_spec.splits)
  have init: "IsInitialized st a" if "?s \<noteq> Monostate"
    using that xy(1,3) by (cases "SameAsPtr st a") (auto simp: IsInitialized_def SameAsPtr_def GetSameAs.simps [of st a] split: type_spec.splits)
  have "Validate_root ?s p = OkStatus"
  proof (cases "x = y")
    case True
    then show ?thesis using ok by simp
  next
    case False
    then have "?s \<noteq> SpecialAny" "?t \<noteq> SpecialAny" using assms(2) xy(1,2) by (auto simp: edge_typed_def linked_def root_spec_def)
    moreover have "IsConsistentWith st a b = Some True" using assms(2) by (simp add: edge_typed_def)
    ultimately show ?thesis using ok roots xy(1,2)
      by (cases ?t; cases ?s)
        (auto simp: IsConsistentWith_def Validate_root_def ValidateAsType_def Let_def HaveCommonType_iff split: option.splits if_splits)
  qed
  moreover have "?s \<noteq> Monostate" using calculation by (auto simp: Validate_root_def)
  ultimately show ?thesis using xy(1) init by (simp add: Validate_def)
qed

end
