(* ===== verification/GraphValidated.thy ===== *)
theory GraphValidated
  imports GraphTypes
begin

section \<open>What the validation of a graph guarantees\<close>

subsection \<open>Streams\<close>

definition connected_streams :: "validated_graph \<Rightarrow> bool" where
  "connected_streams g \<longleftrightarrow> is_producer_map (stream_to_producer g) (output_streams g) \<and>
     (\<forall>e \<in> set (output_streams g). before g (length (calculators g)) (parent_node e)) \<and>
     (\<forall>e \<in> set (input_streams g). ref_type (parent_node e) = CalculatorType \<and>
       (\<exists>u. upstream e = Some u \<and> stream_to_producer g (edge_name e) = Some u \<and>
         (\<not> is_back_edge e \<longrightarrow> before g (ref_index (parent_node e)) (parent_node (output_streams g ! u))))) \<and>
     input_blocks (length (calculators g)) g"

definition filled :: "validated_graph \<Rightarrow> edge_info \<Rightarrow> edge_info \<Rightarrow> bool" where
  "filled g e e' \<longleftrightarrow> (if is_back_edge e then \<exists>u. stream_to_producer g (edge_name e) = Some u \<and> e' = e\<lparr>upstream := Some u\<rparr> else e' = e)"

lemma fill_back_edges_filled: "fill_back_edges g es = Inr es' \<Longrightarrow> list_all2 (filled g) es es'"
proof (induction es arbitrary: es')
  case (Cons e es)
  from Cons.prems obtain e1 es1 where 1: "filled g e e1" "fill_back_edges g es = Inr es1" "es' = e1 # es1"
    by (auto simp: result_bind_Inr filled_def split: if_splits option.splits)
  then show ?case using Cons.IH by simp
qed simp

lemma filled_simps: "filled g e e' \<Longrightarrow> parent_node e' = parent_node e \<and> edge_name e' = edge_name e \<and> is_back_edge e' = is_back_edge e"
  by (auto simp: filled_def split: if_splits)

lemma FillUpstream_connected:
  assumes "FillUpstreamFieldForBackEdges g = Inr g'" "edges_inv need g" "need \<noteq> Some True"
  shows "connected_streams g' \<and> g' = g\<lparr>input_streams := input_streams g'\<rparr>"
proof -
  from assms(1) obtain es where es: "fill_back_edges g (input_streams g) = Inr es" "g' = g\<lparr>input_streams := es\<rparr>"
    by (auto simp: FillUpstreamFieldForBackEdges_def result_bind_Inr)
  note all2 = fill_back_edges_filled [OF es(1)]
  then have len: "length es = length (input_streams g)" and nth: "\<And>i. i < length es \<Longrightarrow> filled g (input_streams g ! i) (es ! i)"
    by (auto simp: list_all2_conv_all_nth)
  have inv: "stream_inv need (length (calculators g)) g" using assms(2) by (simp add: edges_inv_def)
  have b: "before g' = before g" by (simp add: es(2) before_def fun_eq_iff)
  have "ref_type (parent_node e) = CalculatorType \<and> (\<exists>u. upstream e = Some u \<and> stream_to_producer g (edge_name e) = Some u \<and>
      (\<not> is_back_edge e \<longrightarrow> before g (ref_index (parent_node e)) (parent_node (output_streams g ! u))))" if e: "e \<in> set es" for e
  proof -
    obtain i where i: "i < length es" "e = es ! i" using e by (metis in_set_conv_nth)
    let ?e = "input_streams g ! i"
    have ok: "input_ok need g ?e" using inv i len by (simp add: stream_inv_def)
    have f: "filled g ?e e" using nth i by simp
    show ?thesis
    proof (cases "is_back_edge ?e")
      case True
      then have "\<exists>u. stream_to_producer g (edge_name ?e) = Some u \<and> e = ?e\<lparr>upstream := Some u\<rparr>" using f by (simp add: filled_def)
      then obtain u where "stream_to_producer g (edge_name ?e) = Some u" "e = ?e\<lparr>upstream := Some u\<rparr>" by (elim exE conjE)
      then show ?thesis using ok True by (simp add: input_ok_def)
    next
      case False
      then have "e = ?e" using f by (simp add: filled_def)
      moreover obtain u where "upstream ?e = Some u" using ok False assms(3) by (cases "upstream ?e") (auto simp: input_ok_def)
      ultimately show ?thesis using ok False by (simp add: input_ok_def)
    qed
  qed
  moreover have "input_blocks (length (calculators g)) g'"
  proof -
    have "parent_node (es ! i) = parent_node (input_streams g ! i)" if "i < length es" for i
      using filled_simps [OF nth [OF that]] by simp
    then show ?thesis using inv by (simp add: stream_inv_def input_blocks_def es(2) num_inputs_def len)
  qed
  ultimately show ?thesis using inv by (simp add: connected_streams_def es(2) b [unfolded es(2)] stream_inv_def)
qed

subsection \<open>Sources\<close>

text \<open>
  The sources above a node: itself if it has no input stream, and what reaches it from a graph
  input stream or over an earlier node. An edge from the node itself or a later one, which
  has to be a back edge, brings nothing.
\<close>

inductive source_of :: "validated_graph \<Rightarrow> nat \<Rightarrow> nat \<Rightarrow> bool" for g where
  own: "k < length (calculators g) \<Longrightarrow> num_inputs g k = 0 \<Longrightarrow> source_of g k k"
| input: "e \<in> set (input_streams g) \<Longrightarrow> ref_index (parent_node e) = k \<Longrightarrow> upstream e = Some u \<Longrightarrow>
    ref_type (parent_node (output_streams g ! u)) = GraphInputStreamType \<Longrightarrow>
    source_of g (ref_index (parent_node (output_streams g ! u))) k"
| via: "e \<in> set (input_streams g) \<Longrightarrow> ref_index (parent_node e) = k \<Longrightarrow> upstream e = Some u \<Longrightarrow>
    ref_type (parent_node (output_streams g ! u)) = CalculatorType \<Longrightarrow>
    ref_index (parent_node (output_streams g ! u)) < k \<Longrightarrow>
    source_of g s (ref_index (parent_node (output_streams g ! u))) \<Longrightarrow> source_of g s k"

lemma source_of_range:
  assumes "connected_streams g" "node_refs_ok g" "source_of g s k" "k < length (calculators g)"
  shows "s < length (calculators g) + length (graph_input_stream (config g)) \<and>
    (s < length (calculators g) \<longrightarrow> num_inputs g s = 0 \<and> s \<le> k)"
  using assms(3,4)
proof (induction rule: source_of.induct)
  case (input e k u)
  then have "u < length (output_streams g)"
    using assms(1) by (fastforce simp: connected_streams_def is_producer_map_def)
  then have "before g (length (calculators g)) (parent_node (output_streams g ! u))" using assms(1) by (simp add: connected_streams_def)
  then show ?case using input assms(2) by (auto simp: before_def node_refs_ok_def)
qed auto

text \<open>What one input stream brings, given the sources of the earlier nodes.\<close>

definition brought :: "validated_graph \<Rightarrow> node_type_info list \<Rightarrow> edge_info \<Rightarrow> nat set" where
  "brought g infos e =
     (case upstream e of
        None \<Rightarrow> {}
      | Some u \<Rightarrow>
        let parent = parent_node (output_streams g ! u)
        in if ref_type parent = GraphInputStreamType then {ref_index parent} else set (AncestorSources (infos ! ref_index parent)))"

lemma set_fold_insert: "set (fold List.insert xs ys) = set xs \<union> set ys"
  by (induction xs arbitrary: ys) auto

lemma distinct_fold_insert: "distinct ys \<Longrightarrow> distinct (fold List.insert xs ys)"
  by (induction xs arbitrary: ys) auto

lemma add_sources_correct:
  assumes "connected_streams g" "node_refs_ok g" "length infos = length (calculators g)"
    and "set is \<subseteq> {..<length (input_streams g)}" "distinct sources"
  shows "\<exists>r. add_sources g infos is sources = Inr r \<and> distinct r \<and>
    set r = set sources \<union> (\<Union>i \<in> set is. brought g infos (input_streams g ! i))"
  using assms(4,5)
proof (induction "is" arbitrary: sources)
  case (Cons i "is")
  let ?e = "input_streams g ! i"
  obtain u where u: "upstream ?e = Some u" "stream_to_producer g (edge_name ?e) = Some u"
    using assms(1) Cons.prems(1) by (fastforce simp: connected_streams_def)
  then have "u < length (output_streams g)" using assms(1) by (simp add: connected_streams_def is_producer_map_def)
  then have "before g (length (calculators g)) (parent_node (output_streams g ! u))" using assms(1) by (simp add: connected_streams_def)
  then have "ref_index (parent_node (output_streams g ! u)) \<le> length infos + length (graph_input_stream (config g))"
    using assms(2,3) by (auto simp: before_def node_refs_ok_def)
  then show ?case
    using Cons.IH [of "if ref_type (parent_node (output_streams g ! u)) = GraphInputStreamType
        then List.insert (ref_index (parent_node (output_streams g ! u))) sources
        else fold List.insert (AncestorSources (infos ! ref_index (parent_node (output_streams g ! u)))) sources"] Cons.prems u(1)
    by (auto simp: Let_def brought_def set_fold_insert distinct_fold_insert)
qed simp

definition sources_inv :: "validated_graph \<Rightarrow> nat \<Rightarrow> node_type_info list \<Rightarrow> bool" where
  "sources_inv g k infos \<longleftrightarrow> length infos = length (calculators g) \<and>
     (\<forall>j < length infos. infos ! j = (calculators g ! j)\<lparr>AncestorSources := AncestorSources (infos ! j)\<rparr> \<and>
       distinct (AncestorSources (infos ! j)) \<and>
       set (AncestorSources (infos ! j)) = (if j < k then {s. source_of g s j} else {}))"

lemma source_of_iff:
  assumes "connected_streams g" "k < length (calculators g)"
    and "\<forall>j < length (calculators g). set (AncestorSources (infos ! j)) = (if j < k then {s. source_of g s j} else {})"
  shows "source_of g s k \<longleftrightarrow> num_inputs g k = 0 \<and> s = k \<or>
    (\<exists>e \<in> set (input_streams g). ref_index (parent_node e) = k \<and> s \<in> brought g infos e)"
proof
  assume "source_of g s k"
  then show "num_inputs g k = 0 \<and> s = k \<or> (\<exists>e \<in> set (input_streams g). ref_index (parent_node e) = k \<and> s \<in> brought g infos e)"
  proof cases
    case (via e u)
    then have "s \<in> brought g infos e" using assms(2,3) by (simp add: brought_def)
    then show ?thesis using via by blast
  qed (auto simp: brought_def intro!: bexI)
next
  assume R: "num_inputs g k = 0 \<and> s = k \<or> (\<exists>e \<in> set (input_streams g). ref_index (parent_node e) = k \<and> s \<in> brought g infos e)"
  show "source_of g s k"
  proof (cases "num_inputs g k = 0 \<and> s = k")
    case True
    then show ?thesis using assms(2) by (auto intro: source_of.own)
  next
    case False
    then obtain e where e: "e \<in> set (input_streams g)" "ref_index (parent_node e) = k" "s \<in> brought g infos e" using R by blast
    obtain u where u: "upstream e = Some u" "stream_to_producer g (edge_name e) = Some u"
      using assms(1) e(1) by (auto simp: connected_streams_def)
    let ?p = "parent_node (output_streams g ! u)"
    have "u < length (output_streams g)" using assms(1) u(2) by (simp add: connected_streams_def is_producer_map_def)
    then have p: "before g (length (calculators g)) ?p" using assms(1) by (simp add: connected_streams_def)
    show ?thesis
    proof (cases "ref_type ?p = GraphInputStreamType")
      case True
      then show ?thesis using e u source_of.input [OF e(1,2) u(1) True] by (simp add: brought_def)
    next
      case False
      then have c: "ref_type ?p = CalculatorType" "ref_index ?p < length (calculators g)" using p by (auto simp: before_def)
      then have "ref_index ?p < k" "source_of g s (ref_index ?p)"
        using e(3) u(1) False assms(3) by (auto simp: brought_def Let_def split: if_splits)
      then show ?thesis using source_of.via [OF e(1,2) u(1) c(1)] by blast
    qed
  qed
qed

lemma node_sources_correct:
  assumes "connected_streams g" "node_refs_ok g" "sources_inv g k infos" "k < length (calculators g)"
  shows "\<exists>r. node_sources g infos k = Inr r \<and> distinct r \<and> set r = {s. source_of g s k}"
proof -
  let ?base = "input_stream_base_index (calculators g ! k)"
  have k: "infos ! k = (calculators g ! k)\<lparr>AncestorSources := []\<rparr>" and len: "length infos = length (calculators g)"
    and before_k: "\<forall>j < length (calculators g). set (AncestorSources (infos ! j)) = (if j < k then {s. source_of g s j} else {})"
    using assms(3,4) by (auto simp: sources_inv_def)
  note iff = source_of_iff [OF assms(1,4) before_k]
  have blocks: "input_blocks (length (calculators g)) g" using assms(1) by (simp add: connected_streams_def)
  then have block: "?base + num_inputs g k \<le> length (input_streams g)"
    "\<And>i. i < length (input_streams g) \<Longrightarrow> ref_index (parent_node (input_streams g ! i)) = k \<longleftrightarrow> ?base \<le> i \<and> i < ?base + num_inputs g k"
    using assms(4) by (auto simp: input_blocks_def)
  have edges: "(\<exists>e \<in> set (input_streams g). ref_index (parent_node e) = k \<and> s \<in> brought g infos e) \<longleftrightarrow>
      (\<exists>i \<in> {?base..<?base + num_inputs g k}. s \<in> brought g infos (input_streams g ! i))" for s
  proof -
    have "(\<exists>e \<in> set (input_streams g). ref_index (parent_node e) = k \<and> s \<in> brought g infos e) \<longleftrightarrow>
        (\<exists>i < length (input_streams g). ref_index (parent_node (input_streams g ! i)) = k \<and> s \<in> brought g infos (input_streams g ! i))"
      by (metis in_set_conv_nth)
    moreover have "i < length (input_streams g) \<and> ref_index (parent_node (input_streams g ! i)) = k \<longleftrightarrow>
        i \<in> {?base..<?base + num_inputs g k}" for i
      using block(1) block(2) [of i] by auto
    ultimately show ?thesis by blast
  qed
  show ?thesis
  proof (cases "num_inputs g k = 0")
    case True
    have "{s. source_of g s k} = {k}" using True edges iff by auto
    then show ?thesis using True k by (simp add: node_sources_def num_inputs_def Let_def)
  next
    case False
    obtain r where r: "add_sources g infos [?base..<?base + num_inputs g k] [] = Inr r" "distinct r"
      "set r = (\<Union>i \<in> {?base..<?base + num_inputs g k}. brought g infos (input_streams g ! i))"
    proof -
      have "set [?base..<?base + num_inputs g k] \<subseteq> {..<length (input_streams g)}" using block(1) by auto
      from add_sources_correct [OF assms(1,2) len this, of "[]"] show ?thesis using that by auto
    qed
    have "node_sources g infos k = Inr r" using r(1) False k by (simp add: node_sources_def num_inputs_def Let_def)
    moreover have "set r = {s. source_of g s k}" unfolding r(3) using False edges iff by auto
    ultimately show ?thesis using r(2) by blast
  qed
qed

lemma compute_sources_correct:
  assumes "connected_streams g" "node_refs_ok g" "sources_inv g k infos" "k \<le> length (calculators g)"
  shows "\<exists>infos'. compute_sources g [k..<length (calculators g)] infos = Inr infos' \<and> sources_inv g (length (calculators g)) infos'"
  using assms(3,4)
proof (induction "length (calculators g) - k" arbitrary: k infos)
  case (Suc m)
  then have k: "k < length (calculators g)" by simp
  obtain r where r: "node_sources g infos k = Inr r" "distinct r" "set r = {s. source_of g s k}"
    using node_sources_correct [OF assms(1,2) Suc.prems(1) k] by blast
  let ?infos = "infos[k := (infos ! k)\<lparr>AncestorSources := r\<rparr>]"
  have "sources_inv g (Suc k) ?infos"
    using Suc.prems(1) r(2,3) k unfolding sources_inv_def
    by (auto simp: nth_list_update less_Suc_eq)
  then show ?case
    using Suc.hyps(1) [of "Suc k" ?infos] Suc.hyps(2) k r(1) by (simp add: upt_conv_Cons)
qed simp

subsection \<open>The whole validation\<close>

definition sources_exact :: "validated_graph \<Rightarrow> bool" where
  "sources_exact g \<longleftrightarrow> (\<forall>k < length (calculators g). distinct (AncestorSources (calculators g ! k)) \<and>
     set (AncestorSources (calculators g ! k)) = {s. source_of g s k})"

lemma source_of_infos:
  assumes "length infos = length (calculators g)"
    and "\<forall>j < length infos. node_contract (infos ! j) = node_contract (calculators g ! j)"
  shows "source_of (g\<lparr>calculators := infos\<rparr>) s k \<longleftrightarrow> source_of g s k"
proof
  have n: "num_inputs (g\<lparr>calculators := infos\<rparr>) j = num_inputs g j" if "j < length infos" for j
    using assms(2) that by (simp add: num_inputs_def)
  show "source_of (g\<lparr>calculators := infos\<rparr>) s k \<Longrightarrow> source_of g s k"
  proof (induction rule: source_of.induct)
    case (own k)
    then show ?case using n [of k] assms(1) by (auto intro: source_of.own)
  qed (auto intro: source_of.intros)
  show "source_of g s k \<Longrightarrow> source_of (g\<lparr>calculators := infos\<rparr>) s k"
  proof (induction rule: source_of.induct)
    case (own k)
    then show ?case using n [of k] assms(1) by (auto intro: source_of.own)
  next
    case (input e k u)
    then show ?case using source_of.input [of e "g\<lparr>calculators := infos\<rparr>" k u] by simp
  next
    case (via e k u s)
    then show ?case using source_of.via [of e "g\<lparr>calculators := infos\<rparr>" k u s] by simp
  qed
qed

lemma ComputeSourceDependence_exact:
  assumes "connected_streams g" "node_refs_ok g" "\<forall>i \<in> set (calculators g). AncestorSources i = []"
  shows "\<exists>infos. ComputeSourceDependence g = Inr (g\<lparr>calculators := infos\<rparr>) \<and> sources_exact (g\<lparr>calculators := infos\<rparr>) \<and>
    length infos = length (calculators g) \<and>
    (\<forall>j < length infos. infos ! j = (calculators g ! j)\<lparr>AncestorSources := AncestorSources (infos ! j)\<rparr>)"
proof -
  have "sources_inv g 0 (calculators g)" using assms(3) by (simp add: sources_inv_def)
  from compute_sources_correct [OF assms(1,2) this] obtain infos where infos:
    "compute_sources g [0..<length (calculators g)] (calculators g) = Inr infos" "sources_inv g (length (calculators g)) infos" by auto
  have len: "length infos = length (calculators g)"
    and keep: "\<forall>j < length infos. infos ! j = (calculators g ! j)\<lparr>AncestorSources := AncestorSources (infos ! j)\<rparr>"
    and src: "\<forall>j < length infos. distinct (AncestorSources (infos ! j)) \<and> set (AncestorSources (infos ! j)) = {s. source_of g s j}"
    using infos(2) by (simp_all add: sources_inv_def)
  have "node_contract (infos ! j) = node_contract (calculators g ! j)" if "j < length infos" for j
    by (subst keep [rule_format, OF that]) simp
  then have "sources_exact (g\<lparr>calculators := infos\<rparr>)" using src source_of_infos [OF len] by (simp add: sources_exact_def)
  then show ?thesis using infos(1) len keep by (auto simp: ComputeSourceDependence_def)
qed

text \<open>Streams, types and side packets do not depend on the sources.\<close>

lemma connected_streams_infos:
  assumes "length infos = length (calculators g)"
    and "\<forall>j < length infos. infos ! j = (calculators g ! j)\<lparr>AncestorSources := AncestorSources (infos ! j)\<rparr>"
  shows "connected_streams (g\<lparr>calculators := infos\<rparr>) \<longleftrightarrow> connected_streams g"
proof -
  have "num_inputs (g\<lparr>calculators := infos\<rparr>) j = num_inputs g j"
    "input_stream_base_index (infos ! j) = input_stream_base_index (calculators g ! j)" if "j < length infos" for j
    unfolding num_inputs_def by (simp, subst assms(2) [rule_format, OF that], simp) (subst assms(2) [rule_format, OF that], simp)
  moreover have "before (g\<lparr>calculators := infos\<rparr>) = before g" by (simp add: before_def fun_eq_iff)
  ultimately show ?thesis using assms(1) by (simp add: connected_streams_def input_blocks_def)
qed

definition side_packets_linked :: "validated_graph \<Rightarrow> bool" where
  "side_packets_linked g \<longleftrightarrow> is_producer_map (side_packet_to_producer g) (output_side_packets g) \<and>
     (\<forall>e \<in> set (input_side_packets g). upstream e = side_packet_to_producer g (edge_name e))"

lemma side_inv_linked: "side_inv need g \<Longrightarrow> need \<noteq> Some True \<Longrightarrow> side_packets_linked g"
proof -
  assume inv: "side_inv need g" and need: "need \<noteq> Some True"
  have "upstream e = side_packet_to_producer g (edge_name e)" if "e \<in> set (input_side_packets g)" for e
    using inv need that by (cases "upstream e") (auto simp: side_inv_def)
  with inv show ?thesis by (simp add: side_inv_def side_packets_linked_def)
qed

text \<open>What holds after each stage of \<open>Initialize\<close>, where \<open>cfg\<close> is the transformed configuration.\<close>

definition same_config :: "graph_config \<Rightarrow> validated_graph \<Rightarrow> bool" where
  "same_config cfg g \<longleftrightarrow> mset (config_nodes (config g)) = mset (config_nodes cfg) \<and>
     graph_input_stream (config g) = graph_input_stream cfg"

definition after_edges :: "graph_config \<Rightarrow> validated_graph \<Rightarrow> bool" where
  "after_edges cfg g \<longleftrightarrow> (\<exists>need. need \<noteq> Some True \<and> edges_inv need g) \<and> same_config cfg g"

definition after_back_edges :: "graph_config \<Rightarrow> validated_graph \<Rightarrow> bool" where
  "after_back_edges cfg g \<longleftrightarrow> connected_streams g \<and> side_packets_linked g \<and> node_refs_ok g \<and>
     (\<forall>i \<in> set (calculators g). AncestorSources i = []) \<and> all_resolve (packet_types g) \<and> same_config cfg g"

definition validated :: "graph_config \<Rightarrow> validated_graph \<Rightarrow> bool" where
  "validated cfg g \<longleftrightarrow> connected_streams g \<and> side_packets_linked g \<and> typed_graph g \<and> sources_exact g \<and>
     node_refs_ok g \<and> same_config cfg g"

lemma initialize_sorted_stage:
  assumes "strings_ok A" "nodes_ready g" "no_edges g"
  shows "outcome_sat (after_edges (config g)) (initialize_sorted A g)"
proof -
  have configs: "map fst (node_list g) = config_nodes (config g)" if "node_refs_ok g" for g
    using that by (simp add: node_list_def node_refs_ok_def)
  obtain r where r: "initialize_sorted A g = Some r" and sorted: "\<And>g'. r = Inr g' \<Longrightarrow>
      (\<exists>need. need \<noteq> Some True \<and> edges_inv need g') \<and> mset (node_list g') = mset (node_list g) \<and>
      graph_input_stream (config g') = graph_input_stream (config g)"
    using initialize_sorted_inv [OF assms] by blast
  have "after_edges (config g) g'" if g': "r = Inr g'" for g'
  proof -
    have "node_refs_ok g'" "node_refs_ok g" using sorted [OF g'] assms(2) by (auto simp: edges_inv_def nodes_ready_def)
    then have "mset (config_nodes (config g')) = mset (config_nodes (config g))"
      using sorted [OF g'] configs by (metis mset_map)
    then show ?thesis using sorted [OF g'] by (simp add: after_edges_def same_config_def)
  qed
  then show ?thesis by (simp add: r outcome_sat_def)
qed

lemma fill_upstream_stage:
  assumes "after_edges cfg g"
  shows "outcome_sat (after_back_edges cfg) (Some (FillUpstreamFieldForBackEdges g))"
proof (rule outcome_satI)
  fix g' assume g': "FillUpstreamFieldForBackEdges g = Inr g'"
  obtain need where need: "need \<noteq> Some True" "edges_inv need g" using assms by (auto simp: after_edges_def)
  have conn: "connected_streams g'" and eq: "g' = g\<lparr>input_streams := input_streams g'\<rparr>"
    using FillUpstream_connected [OF g' need(2,1)] by blast+
  have "side_packets_linked g" using side_inv_linked need by (auto simp: edges_inv_def)
  then have "side_packets_linked g'" by (subst eq) (simp add: side_packets_linked_def)
  moreover have "node_refs_ok g'" "\<forall>i \<in> set (calculators g'). AncestorSources i = []" "all_resolve (packet_types g')" "same_config cfg g'"
    using need(2) assms by (subst eq, simp add: edges_inv_def nodes_ready_def node_refs_ok_def after_edges_def same_config_def)+
  ultimately show "after_back_edges cfg g'" using conn by (simp add: after_back_edges_def)
qed

lemma resolve_stage:
  assumes "after_back_edges cfg g"
  shows "outcome_sat (\<lambda>g. after_back_edges cfg g \<and> typed_graph g) (resolve_and_validate g)"
proof -
  have "all_resolve (packet_types g)" using assms by (simp add: after_back_edges_def)
  then have "outcome_sat (\<lambda>g'. typed_graph g' \<and> g' = g\<lparr>packet_types := packet_types g'\<rparr>) (resolve_and_validate g)"
    using resolve_and_validate_typed by (simp add: outcome_sat_def)
  then show ?thesis
  proof (rule outcome_sat_mono)
    fix g' assume g': "typed_graph g' \<and> g' = g\<lparr>packet_types := packet_types g'\<rparr>"
    then have eq: "g' = g\<lparr>packet_types := packet_types g'\<rparr>" by blast
    have "before g' = before g" by (subst eq) (simp add: before_def fun_eq_iff)
    then have "connected_streams g'" using assms
      by (subst eq) (simp add: after_back_edges_def connected_streams_def input_blocks_def num_inputs_def before_def [abs_def])
    moreover have "side_packets_linked g'" "node_refs_ok g'" "\<forall>i \<in> set (calculators g'). AncestorSources i = []" "same_config cfg g'"
      using assms by (subst eq, simp add: after_back_edges_def side_packets_linked_def node_refs_ok_def same_config_def)+
    moreover have "all_resolve (packet_types g')" using g' by (simp add: typed_graph_def)
    ultimately show "after_back_edges cfg g' \<and> typed_graph g'" using g' by (simp add: after_back_edges_def)
  qed
qed

lemma sources_stage:
  assumes "after_back_edges cfg g" "typed_graph g"
  shows "outcome_sat (validated cfg) (Some (ComputeSourceDependence g))"
proof -
  have g: "connected_streams g" "node_refs_ok g" "\<forall>i \<in> set (calculators g). AncestorSources i = []"
    using assms(1) by (simp_all add: after_back_edges_def)
  obtain infos where infos: "ComputeSourceDependence g = Inr (g\<lparr>calculators := infos\<rparr>)" "sources_exact (g\<lparr>calculators := infos\<rparr>)"
    "length infos = length (calculators g)"
    "\<forall>j < length infos. infos ! j = (calculators g ! j)\<lparr>AncestorSources := AncestorSources (infos ! j)\<rparr>"
    using ComputeSourceDependence_exact [OF g] by blast
  let ?g = "g\<lparr>calculators := infos\<rparr>"
  have "node (infos ! j) = node (calculators g ! j)" if "j < length infos" for j
    by (subst infos(4) [rule_format, OF that]) simp
  then have "node_refs_ok ?g" using g(2) infos(3) by (simp add: node_refs_ok_def)
  moreover have "connected_streams ?g" using g(1) connected_streams_infos [OF infos(3,4)] by simp
  moreover have "side_packets_linked ?g" "typed_graph ?g" "same_config cfg ?g"
    using assms by (simp_all add: after_back_edges_def side_packets_linked_def typed_graph_def same_config_def)
  ultimately show ?thesis using infos(1,2) by (simp add: validated_def)
qed

lemma validated_graph_correct:
  assumes "strings_ok A" "registry_ok R"
  shows "outcome_sat (\<lambda>g. \<exists>cfg'. PerformBasicTransforms ExpandSubgraphs cfg = Inr cfg' \<and> validated cfg' g)
    (ValidatedGraph_Initialize A R ExpandSubgraphs cfg)"
  unfolding ValidatedGraph_Initialize_def
proof (rule outcome_sat_bind)
  show "outcome_sat (\<lambda>cfg'. PerformBasicTransforms ExpandSubgraphs cfg = Inr cfg') (Some (PerformBasicTransforms ExpandSubgraphs cfg))"
    by (rule outcome_satI)
  fix cfg' assume cfg': "PerformBasicTransforms ExpandSubgraphs cfg = Inr cfg'"
  have nodes: "outcome_sat (\<lambda>g. nodes_ready g \<and> no_edges g \<and> config g = cfg') (Some (initialize_nodes A R (new_validated_graph cfg')))"
    using initialize_nodes_ready [OF assms(2)] by (blast intro: outcome_satI)
  have sorted: "outcome_sat (after_edges cfg') (initialize_sorted A g)" if "nodes_ready g \<and> no_edges g \<and> config g = cfg'" for g
    using initialize_sorted_stage [OF assms(1)] that by blast
  have executors: "outcome_sat (\<lambda>g. \<exists>cfg'. PerformBasicTransforms ExpandSubgraphs cfg = Inr cfg' \<and> validated cfg' g)
      (outcome_bind (Some (ValidateExecutors (config g))) (\<lambda>_. Some (Inr g)))" if "validated cfg' g" for g
    by (rule outcome_sat_bind [where P = "\<lambda>_. True"]) (use that cfg' in \<open>auto intro: outcome_satI\<close>)
  show "outcome_sat (\<lambda>g. \<exists>cfg'. PerformBasicTransforms ExpandSubgraphs cfg = Inr cfg' \<and> validated cfg' g)
      (outcome_bind (Some (initialize_nodes A R (new_validated_graph cfg'))) (\<lambda>g.
       outcome_bind (initialize_sorted A g) (\<lambda>g. outcome_bind (Some (FillUpstreamFieldForBackEdges g)) (\<lambda>g.
       outcome_bind (resolve_and_validate g) (\<lambda>g. outcome_bind (Some (ComputeSourceDependence g)) (\<lambda>g.
       outcome_bind (Some (ValidateExecutors (config g))) (\<lambda>_. Some (Inr g))))))))"
    by (intro outcome_sat_bind [OF nodes] outcome_sat_bind [OF sorted] outcome_sat_bind [OF fill_upstream_stage]
        outcome_sat_bind [OF resolve_stage] outcome_sat_bind [OF sources_stage] executors) auto
qed

end
