(* ===== verification/GraphProperties.thy ===== *)
theory GraphProperties
  imports GraphValidated
begin

section \<open>Properties of the validation of a graph\<close>

text \<open>
  A graph to try them on: the node that consumes the stream \<open>x\<close> is listed before the one that
  produces it from the graph input stream \<open>in\<close>.
\<close>

definition demo_node :: "string \<Rightarrow> string \<Rightarrow> string \<Rightarrow> node_config" where
  "demo_node calc inp outp = \<lparr>calculator = calc, node_name = [], input_stream = [inp], output_stream = [outp],
     input_side_packet = [], output_side_packet = [], input_stream_infos = [], node_executor = [],
     node_handler = None, node_output_handler = None, node_source_layer = 0, node_buffer_size_hint = 0, node_option_urls = [], options = []\<rparr>"

definition demo_config :: graph_config where
  "demo_config = \<lparr>config_nodes = [demo_node ''Consumer'' ''x'' ''y'', demo_node ''Producer'' ''in'' ''x''],
     config_generators = [], config_handlers = [], graph_input_stream = [''in''], graph_output_stream = [], graph_input_side_packet = [], graph_output_side_packet = [],
     config_executors = [], num_threads = 0, graph_handler = None, packet_factories = 0, config_package = []\<rparr>"

definition demo_expectations :: "node_config \<Rightarrow> expectations" where
  "demo_expectations n c st =
     ((if calculator n = ''Producer''
       then SetExact (SetAny st (type_at (contract_inputs c) 0)) (type_at (contract_outputs c) 0) 1
       else SetAny (SetExact st (type_at (contract_inputs c) 0) 1) (type_at (contract_outputs c) 0)),
      ([], [], [], []), OkStatus)"

definition demo_registry :: registry where
  "demo_registry = \<lparr>calculator_contract = (\<lambda>_ n. Inr (demo_expectations n)),
     generator_expectations = (\<lambda>_ _. Inl NotFound), handler_expectations = (\<lambda>_ _. Inl NotFound)\<rparr>"

lemma demo_registry_ok: "registry_ok demo_registry"
  by (auto simp: registry_ok_def demo_registry_def demo_expectations_def intro: built_types.intros)

text \<open>A packet of the type the producer declares.\<close>

definition typed_packet :: "nat packet" where
  "typed_packet = \<lparr>holder = Some (Holder 1 7), packet_timestamp = Timestamp_of 0\<rparr>"

definition graph_summary ::
    "validated_graph \<Rightarrow> (string list \<times> nat option list \<times> nat list list) \<times> status option \<times> type_spec option" where
  "graph_summary g =
     ((map calculator (config_nodes (config g)), map upstream (input_streams g), map AncestorSources (calculators g)),
      Validate (packet_types g) (edge_type (output_streams g ! 1)) typed_packet,
      map_option (\<lambda>r. type_spec_field (packet_types g r)) (GetSameAs (packet_types g) (edge_type (output_streams g ! 1))))"

lemma demo_initialized:
  "\<exists>g. ValidatedGraph_Initialize reference_strings demo_registry Inr demo_config = Some (Inr g) \<and>
     graph_summary g = (([''Producer'', ''Consumer''], [Some 0, Some 1], [[2], [2]]), Some OkStatus, Some (ExactType 1))"
proof -
  have "map_option (\<lambda>r. case r of Inl c \<Rightarrow> None | Inr g \<Rightarrow> Some (graph_summary g))
      (ValidatedGraph_Initialize reference_strings demo_registry Inr demo_config) =
    Some (Some (([''Producer'', ''Consumer''], [Some 0, Some 1], [[2], [2]]), Some OkStatus, Some (ExactType 1)))"
    by code_simp
  then obtain r where "ValidatedGraph_Initialize reference_strings demo_registry Inr demo_config = Some r"
    "(case r of Inl c \<Rightarrow> None | Inr g \<Rightarrow> Some (graph_summary g)) =
      Some (([''Producer'', ''Consumer''], [Some 0, Some 1], [[2], [2]]), Some OkStatus, Some (ExactType 1))"
    by (auto simp del: One_nat_def)
  then show ?thesis by (cases r) auto
qed

lemma validated_graph:
  assumes "strings_ok A" "registry_ok R" "ValidatedGraph_Initialize A R ExpandSubgraphs cfg = Some (Inr g)"
  shows "\<exists>cfg'. PerformBasicTransforms ExpandSubgraphs cfg = Inr cfg' \<and> validated cfg' g"
  using validated_graph_correct [OF assms(1,2), of ExpandSubgraphs cfg] assms(3) by (simp add: outcome_sat_def)



text \<open>
  C25: In a validated graph the packet types of the two ends of a connection fit: every packet that the
  type of an output stream accepts is accepted by the type of each input stream connected to
  it, and likewise for side packets. The one exception is an output whose type has, after the
  inference, still several alternatives, of which the input may accept only some. \<open>Any\<close> types
  are resolved so that the two ends are the same, in whatever order the edges are visited.
\<close>
theorem validated_types_fit:
  assumes "strings_ok A" and "registry_ok R" and "ValidatedGraph_Initialize A R ExpandSubgraphs cfg = Some (Inr g)"
    and "e \<in> set (input_streams g) \<and> outs = output_streams g \<or> e \<in> set (input_side_packets g) \<and> outs = output_side_packets g"
    and "upstream e = Some u"
    and "Validate (packet_types g) (edge_type (outs ! u)) p = Some OkStatus"
  shows "Validate (packet_types g) (edge_type e) p = Some OkStatus \<or>
    (\<exists>r ts. GetSameAs (packet_types g) (edge_type (outs ! u)) = Some r \<and> type_spec_field (packet_types g r) = MultiType ts)"
proof -
  obtain cfg' where "validated cfg' g" using validated_graph [OF assms(1-3)] by blast
  then have typed: "typed_graph g" by (simp add: validated_def)
  then have res: "all_resolve (packet_types g)" by (simp add: typed_graph_def)
  have edge: "edge_typed (packet_types g) (edge_type e) (edge_type (outs ! u))"
    using typed assms(4,5) by (fastforce simp: typed_graph_def)
  obtain r where "GetSameAs (packet_types g) (edge_type (outs ! u)) = Some r" using resolve_total [OF res] by blast
  then show ?thesis using edge_typed_sound [OF res edge assms(6)] by (auto simp: root_spec_def)
qed

theorem validated_types_fit_witness:
  "\<exists>g. ValidatedGraph_Initialize reference_strings demo_registry Inr demo_config = Some (Inr g) \<and>
     Validate (packet_types g) (edge_type (input_streams g ! 1)) typed_packet = Some OkStatus"
proof -
  obtain g where g: "ValidatedGraph_Initialize reference_strings demo_registry Inr demo_config = Some (Inr g)"
    "map upstream (input_streams g) = [Some 0, Some 1]"
    "Validate (packet_types g) (edge_type (output_streams g ! 1)) typed_packet = Some OkStatus"
    "map_option (\<lambda>r. type_spec_field (packet_types g r)) (GetSameAs (packet_types g) (edge_type (output_streams g ! 1))) = Some (ExactType 1)"
    using demo_initialized by (auto simp: graph_summary_def)
  have len: "length (input_streams g) = 2" using arg_cong [where f = length, OF g(2)] by simp
  have up: "upstream (input_streams g ! 1) = Some 1" using arg_cong [where f = "\<lambda>xs. xs ! 1", OF g(2)] len by simp
  have "input_streams g ! 1 \<in> set (input_streams g)" using len by simp
  then show ?thesis
    using validated_types_fit [OF reference_strings_ok demo_registry_ok g(1) _ up g(3)] g by auto
qed



end
