(* ===== verification/GraphOutputStream.thy ===== *)
theory GraphOutputStream
  imports InputStreamManager_Inv
begin

section \<open>Graph output streams\<close>

text \<open>
  \<open>graph_output_stream.h\<close> and \<open>graph_output_stream.cc\<close>: what an application sees of a stream. An
  observer calls a callback with each packet, on whatever thread has added it; a poller keeps the
  packets until the application asks for them. Both have an input stream of their own, a mirror of the
  observed output stream.

  \<open>OutputStreamObserver::Notify\<close> can run on several threads at once. It is a program counter and
  one atomic step per locked section or callback, so that every interleaving of the threads and of
  the producer is a sequence of steps. The callback is a parameter: the status it returns for a packet.
\<close>

record 'a graph_output_stream =
  observe_timestamp_bounds :: bool
  notifying :: bool
  last_processed_ts :: timestamp
  gos_stream :: "'a input_stream"

definition GraphOutputStream_Initialize ::
    "string \<Rightarrow> ('a packet \<Rightarrow> status) \<Rightarrow> bool \<Rightarrow> 'a graph_output_stream" where
  "GraphOutputStream_Initialize name ptype bounds =
     \<lparr>observe_timestamp_bounds = bounds, notifying = False, last_processed_ts = Timestamp_Unstarted,
      gos_stream = new_input_stream name ptype False\<rparr>"

definition GraphOutputStream_PrepareForRun :: "'a graph_output_stream \<Rightarrow> 'a graph_output_stream" where
  "GraphOutputStream_PrepareForRun g = g\<lparr>gos_stream := ism_PrepareForRun (gos_stream g)\<rparr>"

subsection \<open>Observers\<close>

datatype 'a notify_pc =
    NotifyCalled
  | ReadStream
  | SeenEmpty timestamp
  | Recheck timestamp
  | SeenPacket timestamp
  | Popped timestamp "'a packet"
  | Returned status

text \<open>A call of the callback, with a packet of the stream or with an empty packet for a settled timestamp.\<close>

datatype 'a observer_call = PacketCall "'a packet" | BoundCall timestamp

fun call_packet :: "'a observer_call \<Rightarrow> 'a packet" where
  "call_packet (PacketCall p) = p"
| "call_packet (BoundCall t) = packet_At Packet_empty t"

definition settled_at :: "timestamp \<Rightarrow> timestamp" where
  "settled_at t = (if t = Timestamp_PostStream then Timestamp_PostStream else PreviousAllowedInStream t)"

fun Notify_step ::
    "('a packet \<Rightarrow> status) \<Rightarrow> 'a notify_pc \<Rightarrow> 'a graph_output_stream \<Rightarrow>
     ('a notify_pc \<times> 'a graph_output_stream \<times> 'a observer_call list) option" where
  "Notify_step cb NotifyCalled g =
     Some (if notifying g then (Returned OkStatus, g, []) else (ReadStream, g\<lparr>notifying := True\<rparr>, []))"
| "Notify_step cb ReadStream g =
     (let t = MinTimestampOrBound (gos_stream g)
      in Some (if ism_IsEmpty (gos_stream g) then SeenEmpty t else SeenPacket t, g, []))"
| "Notify_step cb (SeenEmpty t) g =
     Some (if observe_timestamp_bounds g \<and> t < Timestamp_Done \<and> last_processed_ts g < settled_at t
       then let call = BoundCall (settled_at t)
            in if ok (cb (call_packet call)) then (Recheck t, g\<lparr>last_processed_ts := settled_at t\<rparr>, [call])
               else (Returned (cb (call_packet call)), g, [call])
       else (Recheck t, g, []))"
| "Notify_step cb (Recheck t) g =
     Some (if MinTimestampOrBound (gos_stream g) = t then (Returned OkStatus, g\<lparr>notifying := False\<rparr>, [])
       else (ReadStream, g, []))"
| "Notify_step cb (SeenPacket t) g = do {
     (s, p, n, done, ev) \<leftarrow> PopPacketAtTimestamp (gos_stream g) t;
     Some (if n \<noteq> 0 then Returned (ErrorStatus Internal) else Popped t p, g\<lparr>gos_stream := s\<rparr>, []) }"
| "Notify_step cb (Popped t p) g =
     Some (if ok (cb p) then (ReadStream, g\<lparr>last_processed_ts := t\<rparr>, [PacketCall p])
       else (Returned (cb p), g, [PacketCall p]))"
| "Notify_step cb (Returned r) g = Some (Returned r, g, [])"

subsection \<open>Pollers\<close>

record 'a poller =
  graph_has_error :: bool
  output_timestamp :: timestamp
  process_bounds :: bool
  poller_stream :: "'a input_stream"

definition Poller_Initialize :: "string \<Rightarrow> ('a packet \<Rightarrow> status) \<Rightarrow> bool \<Rightarrow> 'a poller" where
  "Poller_Initialize name ptype bounds =
     \<lparr>graph_has_error = False, output_timestamp = Timestamp_Min, process_bounds = bounds,
      poller_stream = new_input_stream name ptype False\<rparr>"

definition Poller_PrepareForRun :: "'a poller \<Rightarrow> 'a poller" where
  "Poller_PrepareForRun p = p\<lparr>graph_has_error := False, poller_stream := ism_PrepareForRun (poller_stream p)\<rparr>"

definition Poller_Reset :: "'a poller \<Rightarrow> 'a poller" where
  "Poller_Reset p = p\<lparr>graph_has_error := False, poller_stream := ism_PrepareForRun (poller_stream p)\<rparr>"

definition Poller_SetMaxQueueSize :: "'a poller \<Rightarrow> int32 \<Rightarrow> ('a poller \<times> queue_event list) option" where
  "Poller_SetMaxQueueSize p m =
     (if sint m < -1 then None
      else let (s, ev) = ism_SetMaxQueueSize (poller_stream p) m in Some (p\<lparr>poller_stream := s\<rparr>, ev))"

definition Poller_QueueSize :: "'a poller \<Rightarrow> nat" where
  "Poller_QueueSize p = length (queue (poller_stream p))"

definition Poller_NotifyError :: "'a poller \<Rightarrow> 'a poller" where
  "Poller_NotifyError p = p\<lparr>graph_has_error := True\<rparr>"

text \<open>
  \<open>Next\<close>: the iteration of its loop that begins in this state. \<open>Waits\<close> is the wait for
  \<open>handler_condvar_\<close>, after which the loop begins again; \<open>Returns None\<close> is \<open>false\<close>.
\<close>

datatype 'a next_result = Waits | Returns "'a packet option"

definition Poller_Next :: "'a poller \<Rightarrow> ('a poller \<times> 'a next_result \<times> queue_event list) option" where
  "Poller_Next p =
     (let s = poller_stream p;
          min_timestamp = MinTimestampOrBound s;
          empty_queue = ism_IsEmpty s;
          settled = PreviousAllowedInStream min_timestamp;
          bound_changed = (empty_queue \<and> process_bounds p \<and> output_timestamp p < settled)
      in if \<not> (graph_has_error p \<or> \<not> empty_queue \<or> bound_changed \<or> min_timestamp = Timestamp_Done)
         then Some (p, Waits, [])
         else if graph_has_error p \<and> empty_queue then Some (p, Returns None, [])
         else let p' = p\<lparr>output_timestamp := (if empty_queue then settled else min_timestamp)\<rparr>
              in if min_timestamp = Timestamp_Done then Some (p', Returns None, [])
                 else if empty_queue then Some (p', Returns (Some (packet_At Packet_empty settled)), [])
                 else do {
                   (s', packet, dropped, done, ev) \<leftarrow> PopPacketAtTimestamp s min_timestamp;
                   check (dropped = 0);
                   Some (p'\<lparr>poller_stream := s'\<rparr>, Returns (Some packet), ev) })"

subsection \<open>Interleavings of an observer\<close>

text \<open>
  An observer, the calls of \<open>Notify\<close> that have begun, the calls of the callback so far and the
  packets the stream has accepted. \<open>raced\<close> records that packets were refused, or that the first
  packet added to the empty queue had exactly the timestamp that the notifying thread had read as
  the bound of the empty stream. The producer's step is the handler's: it adds the packets, or
  raises the bound, and then calls \<open>Notify\<close> if the stream asks for it.
\<close>

record 'a observer_system =
  obs :: "'a graph_output_stream"
  calls_in_progress :: "'a notify_pc list"
  observed :: "'a observer_call list"
  accepted :: "'a packet list"
  raced :: bool

datatype 'a observer_action = Producer_Add "'a packet list" | Producer_Bound timestamp | Advance nat

definition reads_bound :: "timestamp \<Rightarrow> 'a notify_pc list \<Rightarrow> bool" where
  "reads_bound t pcs \<longleftrightarrow> SeenEmpty t \<in> set pcs \<or> Recheck t \<in> set pcs"

definition new_calls :: "bool \<Rightarrow> 'a notify_pc list" where
  "new_calls notify = (if notify then [NotifyCalled] else [])"

fun observer_act ::
    "('a observer_call list \<Rightarrow> 'a packet \<Rightarrow> status) \<Rightarrow> 'a observer_action \<Rightarrow> 'a observer_system \<Rightarrow>
     'a observer_system option" where
  "observer_act cb (Producer_Add ps) y =
     (let s = gos_stream (obs y); (s', r, notify, ev) = AddOrMovePacketsInternal s ps
      in Some (y\<lparr>obs := (obs y)\<lparr>gos_stream := s'\<rparr>,
           calls_in_progress := calls_in_progress y @ new_calls notify,
           accepted := accepted y @ drop (length (queue s)) (queue s'),
           raced := raced y \<or> \<not> ok r \<or>
             (queue s = [] \<and> ps \<noteq> [] \<and> reads_bound (packet_timestamp (hd ps)) (calls_in_progress y))\<rparr>))"
| "observer_act cb (Producer_Bound t) y =
     (let (s', r, notify) = SetNextTimestampBound (gos_stream (obs y)) t
      in Some (y\<lparr>obs := (obs y)\<lparr>gos_stream := s'\<rparr>,
           calls_in_progress := calls_in_progress y @ new_calls notify\<rparr>))"
| "observer_act cb (Advance i) y =
     (if i < length (calls_in_progress y) then do {
        (pc, g, cs) \<leftarrow> Notify_step (cb (observed y)) (calls_in_progress y ! i) (obs y);
        Some (y\<lparr>obs := g, calls_in_progress := (calls_in_progress y)[i := pc], observed := observed y @ cs\<rparr>) }
      else Some y)"

fun observer_run ::
    "('a observer_call list \<Rightarrow> 'a packet \<Rightarrow> status) \<Rightarrow> 'a observer_action list \<Rightarrow> 'a observer_system \<Rightarrow>
     'a observer_system option" where
  "observer_run cb [] y = Some y"
| "observer_run cb (a # as) y = do { y \<leftarrow> observer_act cb a y; observer_run cb as y }"

definition observer_start :: "'a graph_output_stream \<Rightarrow> 'a observer_system" where
  "observer_start g = \<lparr>obs = g, calls_in_progress = [], observed = [], accepted = [], raced = False\<rparr>"

end
