(* ===== verification/ObserverInterleavings.thy ===== *)
theory ObserverInterleavings
  imports GraphOutputStream
begin

section \<open>What an observer is told\<close>

text \<open>
  The invariant of every interleaving of producers and notifying threads: at most one thread is past the
  lock of \<open>Notify\<close>, what the stream accepted is what the callback was given followed by what is
  still queued, and a thread that is about to leave has seen everything, unless the first packet
  arrived at the very timestamp that it had read as the bound.
\<close>

fun in_section :: "'a notify_pc \<Rightarrow> bool" where
  "in_section NotifyCalled = False"
| "in_section (Returned r) = False"
| "in_section pc = True"

definition notifiers :: "'a observer_system \<Rightarrow> 'a notify_pc list" where
  "notifiers y = filter in_section (calls_in_progress y)"

fun packets_of_call :: "'a observer_call \<Rightarrow> 'a packet list" where
  "packets_of_call (PacketCall p) = [p]"
| "packets_of_call (BoundCall t) = []"

abbreviation observed_packets :: "'a observer_call list \<Rightarrow> 'a packet list" where
  "observed_packets cs \<equiv> concat (map packets_of_call cs)"

fun in_flight :: "'a notify_pc \<Rightarrow> 'a packet list" where
  "in_flight (Popped t p) = [p]"
| "in_flight pc = []"

definition call_ts :: "'a observer_call \<Rightarrow> timestamp" where
  "call_ts c = packet_timestamp (call_packet c)"

lemma call_ts_simps [simp]: "call_ts (PacketCall p) = packet_timestamp p" "call_ts (BoundCall t) = t"
  by (simp_all add: call_ts_def)

text \<open>Calls come at increasing timestamps; the only repetition is \<open>PostStream\<close>.\<close>

definition call_before :: "timestamp \<Rightarrow> timestamp \<Rightarrow> bool" where
  "call_before t u \<longleftrightarrow> t < u \<or> t = Timestamp_PostStream \<and> u = Timestamp_PostStream"

definition reported :: "'a graph_output_stream \<Rightarrow> timestamp \<Rightarrow> bool" where
  "reported g t \<longleftrightarrow> (observe_timestamp_bounds g \<and> t < Timestamp_Done \<longrightarrow> settled_at t \<le> last_processed_ts g)"

fun pc_ok :: "bool \<Rightarrow> 'a graph_output_stream \<Rightarrow> 'a notify_pc \<Rightarrow> bool" where
  "pc_ok race g (SeenEmpty t) \<longleftrightarrow> Timestamp_PreStream \<le> t \<and> t \<le> MinTimestampOrBound (gos_stream g) \<and>
     (\<not> race \<and> MinTimestampOrBound (gos_stream g) = t \<longrightarrow> queue (gos_stream g) = [])"
| "pc_ok race g (Recheck t) \<longleftrightarrow> t \<le> MinTimestampOrBound (gos_stream g) \<and> reported g t \<and>
     (\<not> race \<and> MinTimestampOrBound (gos_stream g) = t \<longrightarrow> queue (gos_stream g) = [])"
| "pc_ok race g (SeenPacket t) \<longleftrightarrow> queue (gos_stream g) \<noteq> [] \<and> packet_timestamp (hd (queue (gos_stream g))) = t"
| "pc_ok race g (Popped t p) \<longleftrightarrow> packet_timestamp p = t \<and> t < MinTimestampOrBound (gos_stream g) \<and>
     call_before (last_processed_ts g) t"
| "pc_ok race g ReadStream \<longleftrightarrow> True"
| "pc_ok race g NotifyCalled \<longleftrightarrow> True"
| "pc_ok race g (Returned r) \<longleftrightarrow> True"

definition all_seen :: "'a graph_output_stream \<Rightarrow> bool" where
  "all_seen g \<longleftrightarrow> queue (gos_stream g) = [] \<and> reported g (next_timestamp_bound (gos_stream g))"

definition failed_call :: "'a observer_system \<Rightarrow> bool" where
  "failed_call y \<longleftrightarrow> (\<exists>c. Returned (ErrorStatus c) \<in> set (calls_in_progress y))"

text \<open>The three situations: no thread in the section, one there, or one that has left it with an error.\<close>

definition section_ok :: "'a observer_system \<Rightarrow> bool" where
  "section_ok y \<longleftrightarrow>
     (case notifiers y of
        [] \<Rightarrow> (if notifying (obs y) then failed_call y
              else raced y \<or> NotifyCalled \<in> set (calls_in_progress y) \<or> all_seen (obs y))
      | [pc] \<Rightarrow> notifying (obs y) \<and> pc_ok (raced y) (obs y) pc
      | _ \<Rightarrow> False)"

definition order_ok :: "'a observer_system \<Rightarrow> bool" where
  "order_ok y \<longleftrightarrow>
     sorted_wrt call_before (map call_ts (observed y)) \<and>
     call_before (last_processed_ts (obs y)) (MinTimestampOrBound (gos_stream (obs y))) \<and>
     (notifying (obs y) \<and> notifiers y = [] \<or> (\<forall>c \<in> set (observed y). call_ts c \<le> last_processed_ts (obs y)))"

definition observer_inv :: "'a observer_system \<Rightarrow> bool" where
  "observer_inv y \<longleftrightarrow>
     timed_inv (gos_stream (obs y)) \<and> \<not> closed (gos_stream (obs y)) \<and>
     accepted y = observed_packets (observed y) @ concat (map in_flight (notifiers y)) @ queue (gos_stream (obs y)) \<and>
     section_ok y \<and> order_ok y"

lemma call_before_le: "call_before t u \<Longrightarrow> u \<le> v \<Longrightarrow> t < v \<or> v = Timestamp_PostStream \<and> t = v"
  by (auto simp: call_before_def)

lemma call_before_mono: "call_before t u \<Longrightarrow> u \<le> v \<Longrightarrow> call_before t v"
  by (auto simp: call_before_def)

lemma le_call_before: "t \<le> u \<Longrightarrow> call_before u v \<Longrightarrow> call_before t v"
  by (auto simp: call_before_def)

lemma call_before_settled:
  assumes "Timestamp_PreStream \<le> t" "t \<le> m"
  shows "call_before (settled_at t) m"
proof (cases "t = Timestamp_PostStream")
  case True
  then show ?thesis using assms by (auto simp: settled_at_def call_before_def)
next
  case False
  then show ?thesis using assms Previous_less [of t]
    by (auto simp: settled_at_def call_before_def ts_iff)
qed

subsection \<open>The producer's steps\<close>

lemma notifiers_new_calls [simp]: "filter in_section (new_calls notify) = []"
  by (simp add: new_calls_def)

text \<open>A change of the stream after which the minimum is not smaller keeps what a notifying thread knows.\<close>

lemma pc_ok_mono:
  assumes "pc_ok race g pc" and "g' = g\<lparr>gos_stream := s'\<rparr>"
    and "MinTimestampOrBound (gos_stream g) \<le> MinTimestampOrBound s'"
    and "\<And>p. queue (gos_stream g) \<noteq> [] \<Longrightarrow> queue s' \<noteq> [] \<and> hd (queue s') = hd (queue (gos_stream g))"
    and "race \<Longrightarrow> race'"
    and "\<And>t. pc = SeenEmpty t \<or> pc = Recheck t \<Longrightarrow> MinTimestampOrBound s' = t \<Longrightarrow>
           MinTimestampOrBound (gos_stream g) = t \<Longrightarrow> queue (gos_stream g) = [] \<Longrightarrow> \<not> race' \<Longrightarrow> queue s' = []"
  shows "pc_ok race' g' pc"
proof -
  let ?m = "MinTimestampOrBound (gos_stream g)" and ?m' = "MinTimestampOrBound s'"
  have keep: "t \<le> ?m' \<and> (\<not> race' \<and> ?m' = t \<longrightarrow> queue s' = [])"
    if "pc = SeenEmpty t \<or> pc = Recheck t" "t \<le> ?m" "\<not> race \<and> ?m = t \<longrightarrow> queue (gos_stream g) = []" for t
  proof -
    have "queue s' = []" if r: "\<not> race'" and e: "?m' = t"
    proof -
      have "?m = t" using \<open>t \<le> ?m\<close> e assms(3) by (simp add: order_antisym)
      moreover have "\<not> race" using r assms(5) by blast
      ultimately show ?thesis
        using \<open>pc = SeenEmpty t \<or> pc = Recheck t\<close> \<open>\<not> race \<and> ?m = t \<longrightarrow> queue (gos_stream g) = []\<close>
          assms(6) e r by blast
    qed
    then show ?thesis using that(2) assms(3) by (blast intro: order_trans)
  qed
  show ?thesis unfolding assms(2)
  proof (cases pc)
    case (SeenEmpty t)
    then show "pc_ok race' (g\<lparr>gos_stream := s'\<rparr>) pc" using assms(1) keep [of t] by simp
  next
    case (Recheck t)
    then show "pc_ok race' (g\<lparr>gos_stream := s'\<rparr>) pc" using assms(1) keep [of t] by (simp add: reported_def)
  next
    case (SeenPacket t)
    then show "pc_ok race' (g\<lparr>gos_stream := s'\<rparr>) pc" using assms(1,4) by auto
  next
    case (Popped t p)
    then show "pc_ok race' (g\<lparr>gos_stream := s'\<rparr>) pc" using assms(1,3) by (auto intro: order_less_le_trans)
  qed simp_all
qed

lemma observer_inv_stream:
  assumes inv: "observer_inv y"
    and y': "y' = y\<lparr>obs := (obs y)\<lparr>gos_stream := s'\<rparr>, calls_in_progress := calls_in_progress y @ new_calls notify,
        accepted := accepted y @ new, raced := r'\<rparr>"
    and s': "timed_inv s'" "\<not> closed s'" "MinTimestampOrBound (gos_stream (obs y)) \<le> MinTimestampOrBound s'"
    and q: "queue s' = queue (gos_stream (obs y)) @ new"
    and r: "raced y \<Longrightarrow> r'"
    and seen: "\<not> r' \<Longrightarrow> \<not> notify \<Longrightarrow> queue (gos_stream (obs y)) = [] \<Longrightarrow> s' = gos_stream (obs y)"
    and race: "\<And>t. \<not> r' \<Longrightarrow> reads_bound t (calls_in_progress y) \<Longrightarrow> MinTimestampOrBound s' = t \<Longrightarrow>
        queue (gos_stream (obs y)) = [] \<Longrightarrow> next_timestamp_bound (gos_stream (obs y)) = t \<Longrightarrow> queue s' = []"
  shows "observer_inv y'"
proof -
  have n: "notifiers y' = notifiers y" by (simp add: notifiers_def y')
  have fail: "failed_call y \<Longrightarrow> failed_call y'" by (auto simp: failed_call_def y')
  have hd: "queue (gos_stream (obs y)) \<noteq> [] \<Longrightarrow> queue s' \<noteq> [] \<and> hd (queue s') = hd (queue (gos_stream (obs y)))"
    using q by simp
  have "section_ok y'"
  proof (cases "notifiers y")
    case Nil
    have "raced y \<or> NotifyCalled \<in> set (calls_in_progress y) \<or> all_seen (obs y)" if "\<not> notifying (obs y)"
      using inv Nil that by (simp add: observer_inv_def section_ok_def)
    then have "r' \<or> NotifyCalled \<in> set (calls_in_progress y') \<or> all_seen (obs y')" if "\<not> notifying (obs y)"
      using that seen r by (cases notify) (auto simp: y' new_calls_def all_seen_def reported_def)
    then show ?thesis using inv Nil n fail
      by (simp add: observer_inv_def section_ok_def) (simp add: y')
  next
    case (Cons pc pcs)
    then have pcs: "pcs = []" and ok: "notifying (obs y)" "pc_ok (raced y) (obs y) pc"
      using inv by (auto simp: observer_inv_def section_ok_def split: list.splits)
    have "pc \<in> set (calls_in_progress y)"
      using Cons by (metis notifiers_def filter_is_subset list.set_intros(1) subsetD)
    then have rb: "reads_bound t (calls_in_progress y)" if "pc = SeenEmpty t \<or> pc = Recheck t" for t
      using that by (auto simp: reads_bound_def)
    have "obs y' = (obs y)\<lparr>gos_stream := s'\<rparr>" by (simp add: y')
    then have "pc_ok r' (obs y') pc"
    proof (rule pc_ok_mono [OF ok(2) _ s'(3)])
      fix t
      assume "pc = SeenEmpty t \<or> pc = Recheck t" "MinTimestampOrBound s' = t" "\<not> r'"
        "MinTimestampOrBound (gos_stream (obs y)) = t" "queue (gos_stream (obs y)) = []"
      then show "queue s' = []" using race [OF _ rb] by simp
    qed (use hd r in blast)+
    then show ?thesis using Cons pcs ok n by (simp add: section_ok_def) (simp add: y')
  qed
  moreover have "order_ok y'"
  proof -
    have "order_ok y" using inv by (simp add: observer_inv_def)
    then show ?thesis using s'(3) by (auto simp: order_ok_def n) (auto simp: y' intro: call_before_mono)
  qed
  ultimately show ?thesis using inv s' q n by (simp add: observer_inv_def) (simp add: y')
qed

lemma observer_inv_Add:
  assumes inv: "observer_inv y" and act: "observer_act cb (Producer_Add ps) y = Some y'"
  shows "observer_inv y'"
proof -
  let ?s = "gos_stream (obs y)"
  obtain s' r notify ev where add: "AddOrMovePacketsInternal ?s ps = (s', r, notify, ev)" by (metis prod_cases4)
  have ti: "timed_inv ?s" and op: "\<not> closed ?s" using inv by (simp_all add: observer_inv_def)
  note loop = AddOrMovePacketsInternal_loop [OF add op]
  obtain k where k: "k \<le> length ps" "queue s' = queue ?s @ take k ps" "r = OkStatus \<longleftrightarrow> k = length ps"
    using add_packets_loop_prefix [OF loop ti op] by blast
  have s': "timed_inv s'" "\<not> closed s'" "MinTimestampOrBound ?s \<le> MinTimestampOrBound s'"
    using add_packets_loop_prefix [OF loop ti op] by blast+
  have notify: "\<not> notify \<Longrightarrow> r = OkStatus \<Longrightarrow> queue ?s = [] \<Longrightarrow> ps = []"
    using add op by (auto simp: AddOrMovePacketsInternal_def Let_def split: prod.splits if_splits)
  let ?r' = "raced y \<or> \<not> ok r \<or> (queue ?s = [] \<and> ps \<noteq> [] \<and> reads_bound (packet_timestamp (hd ps)) (calls_in_progress y))"
  have y': "y' = y\<lparr>obs := (obs y)\<lparr>gos_stream := s'\<rparr>, calls_in_progress := calls_in_progress y @ new_calls notify,
      accepted := accepted y @ take k ps, raced := ?r'\<rparr>"
    using act add k by (simp add: Let_def)
  show ?thesis
  proof (rule observer_inv_stream [OF inv y' s' k(2)])
    assume "\<not> ?r'" "\<not> notify" "queue ?s = []"
    then have "ps = []" using notify by simp
    then show "s' = ?s" using loop by simp
  next
    fix t assume a: "\<not> ?r'" "reads_bound t (calls_in_progress y)" "MinTimestampOrBound s' = t" "queue ?s = []"
    show "queue s' = []"
    proof (cases "ps = []")
      case True
      then show ?thesis using a(4) k by simp
    next
      case False
      then have "queue s' = ps" using a(1,4) k by simp
      then have "packet_timestamp (hd ps) = t" using a(3) False by (cases ps) (simp_all add: MinTimestampOrBound_def)
      then show ?thesis using a False by simp
    qed
  qed simp
qed

lemma observer_inv_Bound:
  assumes inv: "observer_inv y" and act: "observer_act cb (Producer_Bound b) y = Some y'"
  shows "observer_inv y'"
proof -
  let ?s = "gos_stream (obs y)"
  obtain s' r notify where bnd: "SetNextTimestampBound ?s b = (s', r, notify)" by (metis prod_cases3)
  have ti: "timed_inv ?s" and op: "\<not> closed ?s" using inv by (simp_all add: observer_inv_def)
  have s': "timed_inv s'" "\<not> closed s'" "MinTimestampOrBound ?s \<le> MinTimestampOrBound s'"
    using timed_inv_SetNextTimestampBound [OF ti bnd] op by simp_all
  have q: "queue s' = queue ?s @ []"
    using bnd by (auto simp: SetNextTimestampBound_def split: if_splits)
  have y': "y' = y\<lparr>obs := (obs y)\<lparr>gos_stream := s'\<rparr>, calls_in_progress := calls_in_progress y @ new_calls notify,
      accepted := accepted y @ [], raced := raced y\<rparr>"
    using act bnd by (cases y) auto
  show ?thesis
    by (rule observer_inv_stream [OF inv y' s' q])
      (use bnd q in \<open>auto simp: SetNextTimestampBound_def split: if_splits\<close>)
qed

subsection \<open>The steps of the notifying threads\<close>

lemma observer_inv_act_Advance:
  assumes inv: "observer_inv y" and i: "i < length (calls_in_progress y)"
  obtains xs pc ys where "calls_in_progress y = xs @ pc # ys" "length xs = i" "calls_in_progress y ! i = pc"
    "\<And>pc'. (calls_in_progress y)[i := pc'] = xs @ pc' # ys"
    "in_section pc \<Longrightarrow> filter in_section xs = [] \<and> filter in_section ys = [] \<and> notifying (obs y) \<and> pc_ok (raced y) (obs y) pc"
proof -
  let ?pcs = "calls_in_progress y"
  have split: "?pcs = take i ?pcs @ ?pcs ! i # drop (Suc i) ?pcs" by (rule id_take_nth_drop [OF i])
  have upd: "?pcs[i := pc'] = take i ?pcs @ pc' # drop (Suc i) ?pcs" for pc' by (rule upd_conv_take_nth_drop [OF i])
  have "filter in_section (take i ?pcs) = [] \<and> filter in_section (drop (Suc i) ?pcs) = [] \<and>
      notifying (obs y) \<and> pc_ok (raced y) (obs y) (?pcs ! i)" if "in_section (?pcs ! i)"
  proof -
    have "notifiers y = filter in_section (take i ?pcs) @ ?pcs ! i # filter in_section (drop (Suc i) ?pcs)"
      using that arg_cong [OF split, where f = "filter in_section"] by (simp add: notifiers_def)
    then show ?thesis using inv
      by (auto simp: observer_inv_def section_ok_def Cons_eq_append_conv append_eq_Cons_conv split: list.splits)
  qed
  then show thesis using that [of "take i ?pcs" "?pcs ! i" "drop (Suc i) ?pcs"] split upd i by simp
qed


text \<open>What a step of the thread in the section has to establish.\<close>

definition step_ok ::
    "bool \<Rightarrow> 'a graph_output_stream \<Rightarrow> 'a notify_pc \<Rightarrow> 'a notify_pc \<times> 'a graph_output_stream \<times> 'a observer_call list \<Rightarrow> bool"
  where
  "step_ok race g pc = (\<lambda>(pc', g', cs).
     timed_inv (gos_stream g') \<and> \<not> closed (gos_stream g') \<and>
     in_flight pc @ queue (gos_stream g) = observed_packets cs @ in_flight pc' @ queue (gos_stream g') \<and>
     (if in_section pc' then notifying g' \<and> pc_ok race g' pc'
      else if notifying g' then \<exists>c. pc' = Returned (ErrorStatus c) else race \<or> all_seen g') \<and>
     length cs \<le> 1 \<and> (\<forall>c \<in> set cs. call_before (last_processed_ts g) (call_ts c)) \<and>
     call_before (last_processed_ts g') (MinTimestampOrBound (gos_stream g')) \<and>
     (notifying g' \<and> \<not> in_section pc' \<or>
      last_processed_ts g \<le> last_processed_ts g' \<and> (\<forall>c \<in> set cs. call_ts c \<le> last_processed_ts g')))"

lemma observer_inv_section_step:
  assumes inv: "observer_inv y" and split: "calls_in_progress y = xs @ pc # ys"
    and pc: "in_section pc" "filter in_section xs = []" "filter in_section ys = []"
    and step: "step_ok (raced y) (obs y) pc (pc', g', cs)"
  shows "observer_inv (y\<lparr>obs := g', calls_in_progress := xs @ pc' # ys, observed := observed y @ cs\<rparr>)"
    (is "observer_inv ?y")
proof -
  have n: "notifiers y = [pc]" and n': "notifiers ?y = (if in_section pc' then [pc'] else [])"
    using pc by (simp_all add: notifiers_def split)
  have fl: "\<not> in_section pc' \<Longrightarrow> in_flight pc' = []" by (cases pc') auto
  have acc: "accepted y = observed_packets (observed y) @ in_flight pc @ queue (gos_stream (obs y))"
    using inv n by (simp add: observer_inv_def)
  have "accepted ?y = observed_packets (observed ?y) @ concat (map in_flight (notifiers ?y)) @ queue (gos_stream g')"
    using step acc fl n' by (simp add: step_ok_def)
  moreover have "section_ok ?y"
    using step n' by (auto simp: section_ok_def step_ok_def failed_call_def)
  moreover have "order_ok ?y"
  proof -
    have o: "order_ok y" using inv by (simp add: observer_inv_def)
    then have le: "\<forall>c \<in> set (observed y). call_ts c \<le> last_processed_ts (obs y)" by (simp add: order_ok_def n)
    have "call_before (call_ts c) (call_ts d)" if "c \<in> set (observed y)" "d \<in> set cs" for c d
      using that le step le_call_before by (fastforce simp: step_ok_def)
    moreover have "sorted_wrt call_before (map call_ts cs)"
      using step by (cases cs) (auto simp: step_ok_def)
    ultimately have "sorted_wrt call_before (map call_ts (observed ?y))"
      using o by (auto simp: order_ok_def sorted_wrt_append)
    moreover have "notifying g' \<and> \<not> in_section pc' \<or> (\<forall>c \<in> set (observed ?y). call_ts c \<le> last_processed_ts g')"
      using step le by (auto simp: step_ok_def intro: order_trans)
    ultimately show ?thesis using step n' by (auto simp: order_ok_def step_ok_def)
  qed
  ultimately show ?thesis using step by (simp add: observer_inv_def step_ok_def)
qed

lemma settled_mono_step:
  assumes "timed_inv (gos_stream g)" "\<not> closed (gos_stream g)" "notifying g"
    and "call_before (last_processed_ts g) (MinTimestampOrBound (gos_stream g))" "pc_ok race g (SeenEmpty t)"
  shows "\<exists>r. Notify_step cb (SeenEmpty t) g = Some r \<and> step_ok race g (SeenEmpty t) r"
proof (cases "observe_timestamp_bounds g \<and> t < Timestamp_Done \<and> last_processed_ts g < settled_at t")
  case False
  then have "reported g t" by (auto simp: reported_def)
  then show ?thesis using False assms by (auto simp: step_ok_def)
next
  case True
  have "call_before (settled_at t) (MinTimestampOrBound (gos_stream g))"
    using assms(5) by (intro call_before_settled) auto
  moreover have "call_before (last_processed_ts g) (settled_at t)" using True by (simp add: call_before_def)
  ultimately show ?thesis using True assms
    by (cases "cb (packet_At Packet_empty (settled_at t))") (auto simp: step_ok_def reported_def less_imp_le)
qed

lemma recheck_step:
  assumes "timed_inv (gos_stream g)" "\<not> closed (gos_stream g)" "notifying g"
    and "call_before (last_processed_ts g) (MinTimestampOrBound (gos_stream g))" "pc_ok race g (Recheck t)"
  shows "\<exists>r. Notify_step cb (Recheck t) g = Some r \<and> step_ok race g (Recheck t) r"
proof (cases "MinTimestampOrBound (gos_stream g) = t")
  case True
  then have "race \<or> all_seen (g\<lparr>notifying := False\<rparr>)"
    using assms(5) by (auto simp: all_seen_def reported_def)
  then show ?thesis using True assms by (auto simp: step_ok_def)
next
  case False
  then show ?thesis using assms by (auto simp: step_ok_def)
qed

lemma read_step:
  assumes "timed_inv (gos_stream g)" "\<not> closed (gos_stream g)" "notifying g"
    and "call_before (last_processed_ts g) (MinTimestampOrBound (gos_stream g))"
  shows "\<exists>r. Notify_step cb ReadStream g = Some r \<and> step_ok race g ReadStream r"
proof (cases "queue (gos_stream g)")
  case Nil
  have "Timestamp_PreStream \<le> next_timestamp_bound (gos_stream g)" using assms(1) by (simp add: timed_inv_def)
  then show ?thesis using Nil assms by (simp add: step_ok_def ism_IsEmpty_def Let_def)
next
  case (Cons p ps)
  then show ?thesis using assms by (simp add: step_ok_def ism_IsEmpty_def MinTimestampOrBound_def Let_def)
qed

text \<open>Popping at the timestamp of the first packet removes that packet.\<close>

lemma PopPacketAtTimestamp_head:
  "timed_inv s \<Longrightarrow> queue s = p # ps \<Longrightarrow> \<not> closed s \<Longrightarrow>
   \<exists>ev. PopPacketAtTimestamp s (packet_timestamp p) = Some (popped s (packet_timestamp p), p, 0, ism_IsDone (popped s (packet_timestamp p)), ev) \<and>
     queue (popped s (packet_timestamp p)) = ps \<and> timed_inv (popped s (packet_timestamp p)) \<and>
     packet_timestamp p < MinTimestampOrBound (popped s (packet_timestamp p))"
proof -
  assume ti: "timed_inv s" and q: "queue s = p # ps" and op: "\<not> closed s"
  let ?t = "packet_timestamp p"
  have allowed: "IsAllowedInStream ?t" using timed_invD(4) [OF ti, of p] q by simp
  have later: "\<forall>x \<in> set ps. ?t < packet_timestamp x" using timed_invD(2) [OF ti] q by simp
  have "last_select_timestamp s \<le> ?t" using timed_invD(7) [OF ti op] q by (simp add: MinTimestampOrBound_def)
  moreover have "packet_at s ?t = Some p" by (simp add: packet_at_def q)
  moreover have "filter (\<lambda>x. packet_timestamp x < ?t) (queue s) = []"
    using later by (auto simp: q filter_empty_conv dest: less_imp_not_less)
  moreover have "filter (\<lambda>x. ?t < packet_timestamp x) (queue s) = ps" using later by (simp add: q filter_id_conv)
  ultimately show ?thesis
    using PopPacketAtTimestamp_eq [OF ti _ allowed] timed_inv_popped [OF ti allowed] popped_after [OF allowed, of s]
    by simp
qed

lemma pop_step:
  assumes ti: "timed_inv (gos_stream g)" and op: "\<not> closed (gos_stream g)" and "notifying g"
    and lp: "call_before (last_processed_ts g) (MinTimestampOrBound (gos_stream g))" and ok: "pc_ok race g (SeenPacket t)"
  shows "\<exists>r. Notify_step cb (SeenPacket t) g = Some r \<and> step_ok race g (SeenPacket t) r"
proof -
  let ?s = "gos_stream g"
  obtain p ps where q: "queue ?s = p # ps" and t: "packet_timestamp p = t"
    using ok by (cases "queue ?s") auto
  obtain ev where pop: "PopPacketAtTimestamp ?s t = Some (popped ?s t, p, 0, ism_IsDone (popped ?s t), ev)"
    and rest: "queue (popped ?s t) = ps" and ti': "timed_inv (popped ?s t)"
    and after: "t < MinTimestampOrBound (popped ?s t)"
    using PopPacketAtTimestamp_head [OF ti q op] t by blast
  have min: "MinTimestampOrBound ?s = t" using q t by (simp add: MinTimestampOrBound_def)
  let ?g = "g\<lparr>gos_stream := popped ?s t\<rparr>"
  have "call_before (last_processed_ts g) (MinTimestampOrBound (popped ?s t))"
    using lp after min by (auto simp: call_before_def)
  moreover have "filter (\<lambda>x. t < packet_timestamp x) ps = ps" using rest q t by simp
  ultimately have "step_ok race g (SeenPacket t) (Popped t p, ?g, [])"
    using ti' op assms(3) lp after min t unfolding step_ok_def by (simp add: q)
  moreover have "Notify_step cb (SeenPacket t) g = Some (Popped t p, ?g, [])"
    by (simp add: pop)
  ultimately show ?thesis by blast
qed

lemma callback_step:
  assumes "timed_inv (gos_stream g)" "\<not> closed (gos_stream g)" "notifying g"
    and "call_before (last_processed_ts g) (MinTimestampOrBound (gos_stream g))" "pc_ok race g (Popped t p)"
  shows "\<exists>r. Notify_step cb (Popped t p) g = Some r \<and> step_ok race g (Popped t p) r"
proof (cases "cb p")
  case OkStatus
  then show ?thesis using assms by (auto simp: step_ok_def call_before_def)
next
  case (ErrorStatus c)
  then show ?thesis using assms by (auto simp: step_ok_def)
qed

lemma section_step:
  assumes "timed_inv (gos_stream g)" "\<not> closed (gos_stream g)" "notifying g"
    and "call_before (last_processed_ts g) (MinTimestampOrBound (gos_stream g))" "pc_ok race g pc" "in_section pc"
  shows "\<exists>r. Notify_step cb pc g = Some r \<and> step_ok race g pc r"
proof (cases pc)
  case (SeenEmpty t)
  show ?thesis unfolding SeenEmpty by (rule settled_mono_step [OF assms(1-4) assms(5) [unfolded SeenEmpty]])
next
  case (Recheck t)
  show ?thesis unfolding Recheck by (rule recheck_step [OF assms(1-4) assms(5) [unfolded Recheck]])
next
  case ReadStream
  show ?thesis unfolding ReadStream by (rule read_step [OF assms(1-4)])
next
  case (SeenPacket t)
  show ?thesis unfolding SeenPacket by (rule pop_step [OF assms(1-4) assms(5) [unfolded SeenPacket]])
next
  case (Popped t p)
  show ?thesis unfolding Popped by (rule callback_step [OF assms(1-4) assms(5) [unfolded Popped]])
qed (use assms(6) in simp_all)

lemma observer_inv_Advance:
  assumes inv: "observer_inv y"
  shows "\<exists>y'. observer_act cb (Advance i) y = Some y' \<and> observer_inv y'"
proof (cases "i < length (calls_in_progress y)")
  case False
  then show ?thesis using inv by simp
next
  case True
  from observer_inv_act_Advance [OF inv True]
  obtain xs pc ys where pc: "calls_in_progress y = xs @ pc # ys" "calls_in_progress y ! i = pc"
    and upd: "\<And>pc'. (calls_in_progress y)[i := pc'] = xs @ pc' # ys"
    and sec: "in_section pc \<Longrightarrow> filter in_section xs = [] \<and> filter in_section ys = [] \<and> notifying (obs y) \<and> pc_ok (raced y) (obs y) pc"
    by metis
  have base: "timed_inv (gos_stream (obs y))" "\<not> closed (gos_stream (obs y))"
    "call_before (last_processed_ts (obs y)) (MinTimestampOrBound (gos_stream (obs y)))"
    using inv by (simp_all add: observer_inv_def order_ok_def)
  show ?thesis
  proof (cases "in_section pc")
    case True
    obtain pc' g' cs where step: "Notify_step (cb (observed y)) pc (obs y) = Some (pc', g', cs)"
      "step_ok (raced y) (obs y) pc (pc', g', cs)"
      using section_step [OF base(1,2) _ base(3) _ True] sec [OF True] by (metis prod_cases3)
    then show ?thesis using observer_inv_section_step [OF inv pc(1) True _ _ step(2)] sec [OF True] \<open>i < _\<close>
      by (simp add: pc(2) upd)
  next
    case out: False
    show ?thesis
    proof (cases "pc = NotifyCalled \<and> \<not> notifying (obs y)")
      case False
      then have "Notify_step (cb (observed y)) pc (obs y) = Some (if pc = NotifyCalled then Returned OkStatus else pc, obs y, [])"
        using out by (cases pc) auto
      moreover have "observer_inv (y\<lparr>calls_in_progress := xs @ (if pc = NotifyCalled then Returned OkStatus else pc) # ys\<rparr>)"
        using inv out False pc(1)
        by (auto simp: observer_inv_def section_ok_def order_ok_def notifiers_def failed_call_def split: list.splits if_splits)
      ultimately show ?thesis using \<open>i < _\<close> by (auto simp: pc(2) upd)
    next
      case True
      then have nil: "notifiers y = []"
        using inv by (auto simp: observer_inv_def section_ok_def split: list.splits)
      let ?y = "y\<lparr>obs := (obs y)\<lparr>notifying := True\<rparr>, calls_in_progress := xs @ ReadStream # ys\<rparr>"
      have "notifiers ?y = [ReadStream]" using nil out by (simp add: notifiers_def pc)
      then have "observer_inv ?y" using inv nil True
        by (auto simp: observer_inv_def section_ok_def order_ok_def)
      then show ?thesis using True \<open>i < _\<close> by (simp add: pc(2) upd)
    qed
  qed
qed

lemma observer_inv_run:
  "observer_inv y \<Longrightarrow> \<exists>y'. observer_run cb as y = Some y' \<and> observer_inv y'"
proof (induction as arbitrary: y)
  case (Cons a as)
  have "\<exists>y'. observer_act cb a y = Some y' \<and> observer_inv y'"
  proof (cases a)
    case (Producer_Add ps)
    then obtain y' where "observer_act cb a y = Some y'"
      by (cases "AddOrMovePacketsInternal (gos_stream (obs y)) ps") (simp add: Let_def)
    then show ?thesis using observer_inv_Add [OF Cons.prems] Producer_Add by blast
  next
    case (Producer_Bound t)
    then obtain y' where "observer_act cb a y = Some y'"
      by (cases "SetNextTimestampBound (gos_stream (obs y)) t") simp
    then show ?thesis using observer_inv_Bound [OF Cons.prems] Producer_Bound by blast
  next
    case (Advance i)
    then show ?thesis using observer_inv_Advance [OF Cons.prems] by blast
  qed
  then show ?case using Cons.IH by fastforce
qed simp

end
