(* ===== verification/GraphOutputProperties.thy ===== *)
theory GraphOutputProperties
  imports ObserverInterleavings "HOL-Library.Sublist"
begin

section \<open>Properties of graph output streams\<close>

subsection \<open>Observers\<close>

lemma observer_inv_start: "observer_inv (observer_start (GraphOutputStream_Initialize name ptype bounds))"
proof -
  have "timed_inv (new_input_stream name ptype False)"
    by (simp add: new_input_stream_def timed_inv_PrepareForRun)
  then show ?thesis
    by (simp add: observer_inv_def observer_start_def GraphOutputStream_Initialize_def notifiers_def
        section_ok_def order_ok_def all_seen_def reported_def new_input_stream_def ism_PrepareForRun_def
        settled_at_def call_before_def ts_iff ts_step_iff)
qed

definition at_rest :: "'a observer_system \<Rightarrow> bool" where
  "at_rest y \<longleftrightarrow> list_all (\<lambda>pc. \<exists>r. pc = Returned r) (calls_in_progress y)"

text \<open>
  C23: However the producer and any number of threads in \<open>Notify\<close> interleave, no \<open>CHECK\<close> fails, at
  most one thread is past the lock, and the callback is given the packets of the stream in order,
  each once, with the settled timestamps in between, at increasing timestamps. When all the calls
  have returned without an error, everything has been delivered, and the bound reported if it is
  observed, provided no packet was refused and none arrived at an empty queue with
  exactly the timestamp that the notifying thread had just read as the bound.
\<close>
theorem observer_sees_all:
  "\<exists>y. observer_run cb acts (observer_start (GraphOutputStream_Initialize name ptype bounds)) = Some y \<and>
     length (notifiers y) \<le> 1 \<and>
     prefix (observed_packets (observed y)) (accepted y) \<and>
     sorted_wrt call_before (map call_ts (observed y)) \<and>
     (at_rest y \<and> \<not> failed_call y \<and> \<not> raced y \<longrightarrow>
        observed_packets (observed y) = accepted y \<and> all_seen (obs y))"
proof -
  obtain y where y: "observer_run cb acts (observer_start (GraphOutputStream_Initialize name ptype bounds)) = Some y"
    and inv: "observer_inv y" using observer_inv_run [OF observer_inv_start] by blast
  have "length (notifiers y) \<le> 1"
    using inv by (auto simp: observer_inv_def section_ok_def split: list.splits)
  moreover have "prefix (observed_packets (observed y)) (accepted y)" using inv by (simp add: observer_inv_def)
  moreover have "sorted_wrt call_before (map call_ts (observed y))"
    using inv by (simp add: observer_inv_def order_ok_def)
  moreover have "observed_packets (observed y) = accepted y \<and> all_seen (obs y)"
    if "at_rest y" "\<not> failed_call y" "\<not> raced y"
  proof -
    have "notifiers y = []" "NotifyCalled \<notin> set (calls_in_progress y)"
      using that(1) by (auto simp: at_rest_def notifiers_def filter_empty_conv list_all_iff)
    then have "all_seen (obs y)" using inv that(2,3)
      by (auto simp: observer_inv_def section_ok_def split: if_splits)
    then show ?thesis using inv \<open>notifiers y = []\<close> by (simp add: observer_inv_def all_seen_def)
  qed
  ultimately show ?thesis using y by blast
qed


definition demo_observer :: "nat graph_output_stream" where
  "demo_observer = GraphOutputStream_Initialize ''out'' (\<lambda>p. if packet_IsEmpty p then ErrorStatus InvalidArgument else OkStatus) True"

text \<open>A producer adds two packets; two threads run \<open>Notify\<close>, the first of which does the work.\<close>

definition demo_schedule :: "nat observer_action list" where
  "demo_schedule = [Producer_Add [demo_packet 1 10], Advance 0, Advance 0, Advance 0, Producer_Add [demo_packet 2 20],
     Advance 1, Advance 0, Advance 0, Advance 0, Advance 0, Advance 0, Advance 0, Advance 0]"

definition observer_summary :: "'a observer_system \<Rightarrow> 'a observer_call list \<times> 'a notify_pc list \<times> 'a packet list \<times> bool \<times> bool" where
  "observer_summary y = (observed y, calls_in_progress y, queue (gos_stream (obs y)), notifying (obs y), raced y)"

lemma demo_observed:
  "map_option observer_summary (observer_run (\<lambda>_ _. OkStatus) demo_schedule (observer_start demo_observer)) =
     Some ([PacketCall (demo_packet 1 10), PacketCall (demo_packet 2 20)], [Returned OkStatus, Returned OkStatus], [], False, False)"
  by code_simp

theorem observer_sees_all_witness:
  "\<exists>y. observer_run (\<lambda>_ _. OkStatus) demo_schedule (observer_start demo_observer) = Some y \<and>
     accepted y = [demo_packet 1 10, demo_packet 2 20] \<and> all_seen (obs y)"
proof -
  obtain y where y: "observer_run (\<lambda>_ _. OkStatus) demo_schedule (observer_start demo_observer) = Some y"
    "observed y = [PacketCall (demo_packet 1 10), PacketCall (demo_packet 2 20)]"
    "calls_in_progress y = [Returned OkStatus, Returned OkStatus]" "\<not> raced y"
    using demo_observed by (auto simp: observer_summary_def)
  have "at_rest y" "\<not> failed_call y" using y(3) by (simp_all add: at_rest_def failed_call_def)
  then show ?thesis
    using observer_sees_all [of "\<lambda>_ _. OkStatus" demo_schedule "''out''"
        "\<lambda>p. if packet_IsEmpty p then ErrorStatus InvalidArgument else OkStatus" True, folded demo_observer_def] y
    by simp
qed

text \<open>
  The exception is real. With all threads back and a packet in the queue no step of the producer
  asks for a notification any more, so nothing is ever delivered again.
\<close>

definition abandoned :: "'a observer_system \<Rightarrow> bool" where
  "abandoned y \<longleftrightarrow> timed_inv (gos_stream (obs y)) \<and> \<not> closed (gos_stream (obs y)) \<and>
     queue (gos_stream (obs y)) \<noteq> [] \<and> at_rest y"

lemma at_rest_nth: "at_rest y \<Longrightarrow> i < length (calls_in_progress y) \<Longrightarrow> \<exists>r. calls_in_progress y ! i = Returned r"
  by (auto simp: at_rest_def list_all_length)

lemma abandoned_act:
  assumes "abandoned y"
  shows "\<exists>y'. observer_act cb a y = Some y' \<and> abandoned y' \<and> observed y' = observed y \<and> prefix (accepted y) (accepted y')"
proof (cases a)
  case (Producer_Add ps)
  let ?s = "gos_stream (obs y)"
  have ti: "timed_inv ?s" "\<not> closed ?s" and q: "queue ?s \<noteq> []" using assms by (simp_all add: abandoned_def)
  obtain s' r notify ev where add: "AddOrMovePacketsInternal ?s ps = (s', r, notify, ev)" by (metis prod_cases4)
  have "\<not> notify" using add q ti(2) by (auto simp: AddOrMovePacketsInternal_def Let_def split: prod.splits if_splits)
  moreover obtain k where "queue s' = queue ?s @ take k ps"
    using add_packets_loop_prefix [OF AddOrMovePacketsInternal_loop [OF add ti(2)] ti] by blast
  moreover have "timed_inv s'" "\<not> closed s'" using timed_inv_AddOrMove [OF ti(1) add] ti(2) by simp_all
  ultimately show ?thesis using assms add
    by (auto simp: Producer_Add abandoned_def new_calls_def at_rest_def)
next
  case (Producer_Bound t)
  let ?s = "gos_stream (obs y)"
  have ti: "timed_inv ?s" "\<not> closed ?s" and q: "queue ?s \<noteq> []" using assms by (simp_all add: abandoned_def)
  obtain s' r notify where bnd: "SetNextTimestampBound ?s t = (s', r, notify)" by (metis prod_cases3)
  have "\<not> notify" "queue s' = queue ?s" using bnd q by (auto simp: SetNextTimestampBound_def split: if_splits)
  moreover have "timed_inv s'" "\<not> closed s'" using timed_inv_SetNextTimestampBound [OF ti(1) bnd] ti(2) by simp_all
  ultimately show ?thesis using assms bnd
    by (auto simp: Producer_Bound abandoned_def new_calls_def at_rest_def)
next
  case (Advance i)
  show ?thesis
  proof (cases "i < length (calls_in_progress y)")
    case True
    then obtain r where r: "calls_in_progress y ! i = Returned r"
      using at_rest_nth [OF _ True] assms by (auto simp: abandoned_def)
    then have "(calls_in_progress y)[i := Returned r] = calls_in_progress y" using True by (metis list_update_id)
    then show ?thesis using assms True r by (simp add: Advance)
  qed (use assms Advance in simp)
qed

lemma abandoned_run:
  "abandoned y \<Longrightarrow> \<exists>y'. observer_run cb acts y = Some y' \<and> observed y' = observed y \<and> prefix (accepted y) (accepted y')"
proof (induction acts arbitrary: y)
  case (Cons a acts)
  obtain y1 where y1: "observer_act cb a y = Some y1" "abandoned y1" "observed y1 = observed y" "prefix (accepted y) (accepted y1)"
    using abandoned_act [OF Cons.prems] by blast
  obtain y2 where "observer_run cb acts y1 = Some y2" "observed y2 = observed y1" "prefix (accepted y1) (accepted y2)"
    using Cons.IH [OF y1(2)] by blast
  then show ?case using y1 prefix_order.trans by fastforce
qed simp

lemma observer_run_append:
  "observer_run cb (as @ bs) y = do { y \<leftarrow> observer_run cb as y; observer_run cb bs y }"
  by (induction as arbitrary: y) (auto split: bind_split)

definition lost_schedule :: "nat observer_action list" where
  "lost_schedule = [Producer_Add [demo_packet 1 10], Advance 0, Advance 0, Advance 0, Advance 0, Advance 0,
     Producer_Add [demo_packet 2 11], Advance 1, Advance 0, Advance 0]"

lemma lost_schedule_run:
  "map_option observer_summary (observer_run (\<lambda>_ _. OkStatus) lost_schedule (observer_start demo_observer)) =
     Some ([PacketCall (demo_packet 1 10)], [Returned OkStatus, Returned OkStatus], [demo_packet 2 11], False, True)"
  by code_simp

text \<open>
  C40: A notification can be lost for good. The notifying thread reads the bound 11 of the empty stream;
  the packet with timestamp 11 arrives and its own call of \<open>Notify\<close> leaves, because a thread is
  at work; that thread compares the minimum, which is 11 as before, and leaves too. From then on, whatever
  the producer adds, the callback is not called again.
\<close>
theorem observer_wakeup_lost:
  "\<exists>y. observer_run (\<lambda>_ _. OkStatus) (lost_schedule @ acts) (observer_start demo_observer) = Some y \<and>
     observed y = [PacketCall (demo_packet 1 10)] \<and> prefix [demo_packet 1 10, demo_packet 2 11] (accepted y)"
proof -
  obtain y where y: "observer_run (\<lambda>_ _. OkStatus) lost_schedule (observer_start demo_observer) = Some y"
    "observed y = [PacketCall (demo_packet 1 10)]" "calls_in_progress y = [Returned OkStatus, Returned OkStatus]"
    "queue (gos_stream (obs y)) = [demo_packet 2 11]"
    using lost_schedule_run by (auto simp: observer_summary_def)
  have "observer_inv (observer_start demo_observer)" unfolding demo_observer_def by (rule observer_inv_start)
  from observer_inv_run [OF this, of "\<lambda>_ _. OkStatus" lost_schedule] have "observer_inv y" using y(1) by auto
  then have "abandoned y" "accepted y = [demo_packet 1 10, demo_packet 2 11]"
    using y by (simp_all add: abandoned_def observer_inv_def at_rest_def notifiers_def)
  then show ?thesis using abandoned_run [of y "\<lambda>_ _. OkStatus" acts] y by (auto simp: observer_run_append)
qed

text \<open>
  After an error of the callback \<open>notifying_\<close> stays set, also over \<open>PrepareForRun\<close>: in the next run each call
  of \<open>Notify\<close> leaves at once.
\<close>
lemma callback_error_sticks:
  assumes "cb p = ErrorStatus c" and "notifying g"
  shows "Notify_step cb (Popped t p) g = Some (Returned (ErrorStatus c), g, [PacketCall p]) \<and>
     Notify_step cb NotifyCalled (GraphOutputStream_PrepareForRun g) =
       Some (Returned OkStatus, GraphOutputStream_PrepareForRun g, [])"
  using assms by (simp add: GraphOutputStream_PrepareForRun_def)

subsection \<open>Pollers\<close>

text \<open>
  A poller between its producer and one application thread: what \<open>Next\<close> has returned, a packet of the
  stream or an empty packet for a settled timestamp.
\<close>

record 'a poller_system =
  the_poller :: "'a poller"
  returned :: "'a observer_call list"
  poller_accepted :: "'a packet list"

datatype 'a poller_action = Poll_Add "'a packet list" | Poll_Bound timestamp | Poll_Error | Poll_Next

fun poller_act :: "'a poller_action \<Rightarrow> 'a poller_system \<Rightarrow> 'a poller_system option" where
  "poller_act (Poll_Add ps) y =
     (let s = poller_stream (the_poller y); (s', r) = AddOrMovePacketsInternal s ps
      in Some (y\<lparr>the_poller := (the_poller y)\<lparr>poller_stream := s'\<rparr>,
           poller_accepted := poller_accepted y @ drop (length (queue s)) (queue s')\<rparr>))"
| "poller_act (Poll_Bound t) y =
     (let (s', r) = SetNextTimestampBound (poller_stream (the_poller y)) t
      in Some (y\<lparr>the_poller := (the_poller y)\<lparr>poller_stream := s'\<rparr>\<rparr>))"
| "poller_act Poll_Error y = Some (y\<lparr>the_poller := Poller_NotifyError (the_poller y)\<rparr>)"
| "poller_act Poll_Next y = do {
     (p, r, ev) \<leftarrow> Poller_Next (the_poller y);
     Some (y\<lparr>the_poller := p, returned := returned y @
       (case r of Returns (Some packet) \<Rightarrow>
          [if ism_IsEmpty (poller_stream (the_poller y)) then BoundCall (packet_timestamp packet) else PacketCall packet]
        | _ \<Rightarrow> [])\<rparr>) }"

fun poller_run :: "'a poller_action list \<Rightarrow> 'a poller_system \<Rightarrow> 'a poller_system option" where
  "poller_run [] y = Some y"
| "poller_run (a # as) y = do { y \<leftarrow> poller_act a y; poller_run as y }"

definition poller_start :: "'a poller \<Rightarrow> 'a poller_system" where
  "poller_start p = \<lparr>the_poller = p, returned = [], poller_accepted = []\<rparr>"

definition poller_inv :: "'a poller_system \<Rightarrow> bool" where
  "poller_inv y \<longleftrightarrow> (let p = the_poller y; s = poller_stream p in
     timed_inv s \<and> \<not> closed s \<and>
     poller_accepted y = observed_packets (returned y) @ queue s \<and>
     sorted_wrt (<) (map call_ts (returned y)) \<and>
     (returned y = [] \<and> output_timestamp p = Timestamp_Min \<or> MinTimestampOrBound s = Timestamp_Done \<or>
      output_timestamp p < MinTimestampOrBound s \<and> (\<forall>c \<in> set (returned y). call_ts c \<le> output_timestamp p)))"

lemma poller_inv_stream:
  assumes "poller_inv y" and "timed_inv s'" "\<not> closed s'"
    and "MinTimestampOrBound (poller_stream (the_poller y)) \<le> MinTimestampOrBound s'"
    and "queue s' = queue (poller_stream (the_poller y)) @ new"
  shows "poller_inv (y\<lparr>the_poller := (the_poller y)\<lparr>poller_stream := s'\<rparr>, poller_accepted := poller_accepted y @ new\<rparr>)"
proof -
  have "MinTimestampOrBound s' = Timestamp_Done" if "MinTimestampOrBound (poller_stream (the_poller y)) = Timestamp_Done"
    using assms(4) that by simp
  then show ?thesis using assms by (auto simp: poller_inv_def Let_def intro: order_less_le_trans)
qed

lemma poller_inv_Next:
  assumes inv: "poller_inv y"
  shows "\<exists>y'. poller_act Poll_Next y = Some y' \<and> poller_inv y'"
proof -
  let ?p = "the_poller y"
  let ?s = "poller_stream ?p"
  have ti: "timed_inv ?s" "\<not> closed ?s" using inv by (simp_all add: poller_inv_def Let_def)
  show ?thesis
  proof (cases "queue ?s")
    case Nil
    have min: "Timestamp_PreStream \<le> next_timestamp_bound ?s" using ti(1) by (simp add: timed_inv_def)
    then have "PreviousAllowedInStream (next_timestamp_bound ?s) < next_timestamp_bound ?s"
      by (intro Previous_less) (auto simp: ts_iff)
    moreover have "Timestamp_Min < next_timestamp_bound ?s \<or> next_timestamp_bound ?s \<noteq> Timestamp_Done"
      by (auto simp: ts_iff)
    ultimately show ?thesis using Nil inv
      by (auto simp: Poller_Next_def Let_def ism_IsEmpty_def poller_inv_def sorted_wrt_append
          intro: order_le_less_trans less_imp_le)
  next
    case (Cons p ps)
    let ?t = "packet_timestamp p"
    obtain ev where pop: "PopPacketAtTimestamp ?s ?t = Some (popped ?s ?t, p, 0, ism_IsDone (popped ?s ?t), ev)"
      and rest: "queue (popped ?s ?t) = ps" and ti': "timed_inv (popped ?s ?t)"
      and after: "?t < MinTimestampOrBound (popped ?s ?t)"
      using PopPacketAtTimestamp_head [OF ti(1) Cons ti(2)] by blast
    have "?t \<noteq> Timestamp_Done" using timed_invD(4) [OF ti(1), of p] Cons by (auto simp: ts_iff)
    then have act: "poller_act Poll_Next y = Some (y\<lparr>the_poller := ?p\<lparr>output_timestamp := ?t, poller_stream := popped ?s ?t\<rparr>,
        returned := returned y @ [PacketCall p]\<rparr>)"
      by (simp add: Poller_Next_def Let_def ism_IsEmpty_def Cons MinTimestampOrBound_def pop)
    have "\<forall>c \<in> set (returned y). call_ts c < ?t"
      using inv \<open>?t \<noteq> Timestamp_Done\<close>
      by (auto simp: poller_inv_def Let_def MinTimestampOrBound_def Cons intro: order_le_less_trans)
    then show ?thesis using inv ti' ti(2) rest after unfolding act
      by (auto simp: poller_inv_def Let_def sorted_wrt_append Cons less_imp_le)
  qed
qed

lemma poller_inv_act:
  assumes inv: "poller_inv y"
  shows "\<exists>y'. poller_act a y = Some y' \<and> poller_inv y'"
proof (cases a)
  case (Poll_Add ps)
  let ?s = "poller_stream (the_poller y)"
  have ti: "timed_inv ?s" "\<not> closed ?s" using inv by (simp_all add: poller_inv_def Let_def)
  obtain s' r notify ev where add: "AddOrMovePacketsInternal ?s ps = (s', r, notify, ev)" by (metis prod_cases4)
  obtain k where q: "queue s' = queue ?s @ take k ps"
    using add_packets_loop_prefix [OF AddOrMovePacketsInternal_loop [OF add ti(2)] ti] by blast
  note s' = timed_inv_AddOrMove [OF ti(1) add]
  have "poller_inv (y\<lparr>the_poller := (the_poller y)\<lparr>poller_stream := s'\<rparr>, poller_accepted := poller_accepted y @ take k ps\<rparr>)"
    by (rule poller_inv_stream [OF inv]) (use s' ti(2) q in simp_all)
  then show ?thesis using add q by (simp add: Poll_Add)
next
  case (Poll_Bound t)
  let ?s = "poller_stream (the_poller y)"
  have ti: "timed_inv ?s" "\<not> closed ?s" using inv by (simp_all add: poller_inv_def Let_def)
  obtain s' r notify where bnd: "SetNextTimestampBound ?s t = (s', r, notify)" by (metis prod_cases3)
  have q: "queue s' = queue ?s @ []" using bnd by (auto simp: SetNextTimestampBound_def split: if_splits)
  have "poller_inv (y\<lparr>the_poller := (the_poller y)\<lparr>poller_stream := s'\<rparr>, poller_accepted := poller_accepted y @ []\<rparr>)"
    by (rule poller_inv_stream [OF inv _ _ _ q]) (use timed_inv_SetNextTimestampBound [OF ti(1) bnd] ti(2) in simp_all)
  then show ?thesis using bnd by (cases y) (simp add: Poll_Bound)
next
  case Poll_Error
  then show ?thesis using inv by (simp add: poller_inv_def Let_def Poller_NotifyError_def)
next
  case Poll_Next
  then show ?thesis using poller_inv_Next [OF inv] by blast
qed

lemma poller_inv_run: "poller_inv y \<Longrightarrow> \<exists>y'. poller_run acts y = Some y' \<and> poller_inv y'"
proof (induction acts arbitrary: y)
  case (Cons a acts)
  then show ?case using poller_inv_act [OF Cons.prems, of a] by fastforce
qed simp

lemma poller_inv_start: "poller_inv (poller_start (Poller_Initialize name ptype bounds))"
proof -
  have "timed_inv (new_input_stream name ptype False)"
    by (simp add: new_input_stream_def timed_inv_PrepareForRun)
  then show ?thesis
    by (simp add: poller_inv_def poller_start_def Poller_Initialize_def Let_def new_input_stream_def ism_PrepareForRun_def)
qed



definition demo_poller :: "nat poller" where
  "demo_poller = Poller_Initialize ''out'' (\<lambda>p. if packet_IsEmpty p then ErrorStatus InvalidArgument else OkStatus) True"

definition demo_polls :: "nat poller_action list" where
  "demo_polls = [Poll_Next, Poll_Add [demo_packet 1 10], Poll_Next, Poll_Bound (Timestamp_of 15), Poll_Next,
     Poll_Add [demo_packet 2 20], Poll_Error, Poll_Next, Poll_Next]"

lemma demo_polled:
  "map_option (\<lambda>y. (returned y, queue (poller_stream (the_poller y)), map_option (\<lambda>(p, r, ev). r) (Poller_Next (the_poller y))))
     (poller_run demo_polls (poller_start demo_poller)) =
   Some ([PacketCall (demo_packet 1 10), BoundCall (Timestamp_of 14), PacketCall (demo_packet 2 20)], [], Some (Returns None))"
  by code_simp


text \<open>
  \<open>CleanupAfterRun\<close> closes the input stream of a poller. If packets are still queued, the next call of
  \<open>Next\<close> fails a \<open>CHECK\<close>: the closed stream has selected \<open>Done\<close> and a packet is earlier.
\<close>
lemma next_after_close_aborts:
  assumes "timed_inv (poller_stream p)" "\<not> closed (poller_stream p)" "queue (poller_stream p) \<noteq> []"
  shows "Poller_Next (p\<lparr>poller_stream := ism_Close (poller_stream p)\<rparr>) = None"
proof -
  obtain q qs where q: "queue (poller_stream p) = q # qs" using assms(3) by (cases "queue (poller_stream p)") auto
  then have "IsAllowedInStream (packet_timestamp q)" using timed_invD(4) [OF assms(1), of q] by simp
  then have "packet_timestamp q < Timestamp_Done" "packet_timestamp q \<noteq> Timestamp_Done" by (auto simp: ts_iff)
  then show ?thesis using assms(2) q
    by (simp add: Poller_Next_def Let_def ism_IsEmpty_def ism_Close_def MinTimestampOrBound_def
        PopPacketAtTimestamp_def not_le)
qed

text \<open>
  Neither \<open>PrepareForRun\<close> nor \<open>Reset\<close> resets \<open>output_timestamp_\<close>: a poller that has seen the end of one run
  reports no bound of the next one.
\<close>
lemma second_run_reports_no_bound:
  assumes "output_timestamp p = PreviousAllowedInStream Timestamp_Done" "queue s = []"
    and "next_timestamp_bound s < Timestamp_Done"
  shows "Poller_Next ((Poller_PrepareForRun p)\<lparr>poller_stream := s\<rparr>) =
    Some ((Poller_PrepareForRun p)\<lparr>poller_stream := s\<rparr>, Waits, [])"
proof -
  have "PreviousAllowedInStream Timestamp_Done = Timestamp_Max" by code_simp
  then have "\<not> output_timestamp p < PreviousAllowedInStream (next_timestamp_bound s)"
    using assms(1) Previous_le_Max by (simp add: not_less)
  then show ?thesis using assms(2,3)
    by (auto simp: Poller_Next_def Poller_PrepareForRun_def Let_def ism_IsEmpty_def)
qed

end
