(* ===== verification/SidePackets.thy ===== *)
theory SidePackets
  imports GraphInitialize
begin

section \<open>Side packets\<close>

text \<open>
  \<open>output_side_packet_impl.cc\<close>, \<open>input_side_packet_handler.cc\<close>, \<open>tool/fill_packet_set.cc\<close> and the part of
  \<open>calculator_node.cc\<close> that connects them: a side packet that a calculator sets is passed on to the
  handlers of the nodes that need it, and a node may open when its handler misses none.

  The handlers and the output side packets of a graph are lists, a mirror is the index of a handler and the
  id of an entry of its set. A dereferenced null pointer is \<open>None\<close>, as a failed \<open>CHECK\<close>.
\<close>

subsection \<open>The packet types of a run\<close>

text \<open>\<open>RemoveNames\<close>: the loop over the ids, from the last one to the first.\<close>

fun erase_entries :: "tag_map \<Rightarrow> string set \<Rightarrow> nat \<Rightarrow> string list \<Rightarrow> string list" where
  "erase_entries m ns 0 es = es"
| "erase_entries m ns (Suc i) es =
     erase_entries m ns i (if names m ! i \<in> ns then take i es @ drop (Suc i) es else es)"

definition RemoveNames :: "strings \<Rightarrow> tag_map \<Rightarrow> string set \<Rightarrow> tag_map option" where
  "RemoveNames A m ns =
     (case Create A (erase_entries m ns (nat (num_entries m)) (CanonicalEntries A m)) of
        Inl c \<Rightarrow> None | Inr m' \<Rightarrow> Some m')"

fun CopyCollection :: "packet_type_set \<Rightarrow> packet_type_set \<Rightarrow> nat list \<Rightarrow> type_store \<Rightarrow> type_store" where
  "CopyCollection other result [] st = st"
| "CopyCollection other result (i # is) st =
     (let (tag, index) = TagAndIndexFromId (set_tag_map result) (int i);
          other_id = GetId (set_tag_map other) tag index
      in CopyCollection other result is
           (if 0 \<le> other_id then st(type_at result i := st (type_at other (nat other_id))) else st))"

definition omitted_names :: "validated_graph \<Rightarrow> packet_type_set \<Rightarrow> (string \<Rightarrow> 'a packet option) \<Rightarrow> string set" where
  "omitted_names g ts all_side_packets =
     set (filter (\<lambda>name. IsExternalSidePacket g name \<and> all_side_packets name = None)
       (map (\<lambda>i. names (set_tag_map ts) ! i)
         (filter (\<lambda>i. optional_field (packet_types g (type_at ts i))) [0..<set_NumEntries ts])))"

text \<open>The new set has packet types of its own, at the next addresses of the graph's store.\<close>

definition RemoveOmittedPacketTypes ::
    "strings \<Rightarrow> validated_graph \<Rightarrow> packet_type_set \<Rightarrow> (string \<Rightarrow> 'a packet option) \<Rightarrow>
     (packet_type_set \<times> validated_graph) option" where
  "RemoveOmittedPacketTypes A g ts all_side_packets = do {
     m \<leftarrow> RemoveNames A (set_tag_map ts) (omitted_names g ts all_side_packets);
     let result = \<lparr>set_tag_map = m, set_base = next_type g, missing_entries = []\<rparr>
     in Some (result, g\<lparr>packet_types := CopyCollection ts result [0..<set_NumEntries result] (packet_types g),
          next_type := next_type g + set_NumEntries result\<rparr>) }"

subsection \<open>FillPacketSet\<close>

text \<open>
  The packets of a set, by id, the number of missing ones and the statuses of the errors;
  \<open>counting\<close> tells whether the caller wants the missing packets counted rather than refused.
\<close>

fun fill_packets ::
    "type_store \<Rightarrow> packet_type_set \<Rightarrow> (string \<Rightarrow> 'a packet option) \<Rightarrow> bool \<Rightarrow> nat list \<Rightarrow>
     ('a packet list \<times> nat \<times> status list) option" where
  "fill_packets st ts side_packets counting [] = Some ([], 0, [])"
| "fill_packets st ts side_packets counting (i # is) =
     (case side_packets (names (set_tag_map ts) ! i) of
        None \<Rightarrow> do {
          (ps, missing, errors) \<leftarrow> fill_packets st ts side_packets counting is;
          Some (Packet_empty # ps, (if counting then Suc missing else missing),
            if counting then errors else ErrorStatus InvalidArgument # errors) }
      | Some p \<Rightarrow> do {
          status \<leftarrow> Validate st (type_at ts i) p;
          (ps, missing, errors) \<leftarrow> fill_packets st ts side_packets counting is;
          Some (p # ps, missing, if ok status then errors else status # errors) })"

definition FillPacketSet ::
    "type_store \<Rightarrow> packet_type_set \<Rightarrow> (string \<Rightarrow> 'a packet option) \<Rightarrow> bool \<Rightarrow> ('a packet list \<times> nat) result option" where
  "FillPacketSet st ts side_packets counting = do {
     (ps, missing, errors) \<leftarrow> fill_packets st ts side_packets counting [0..<set_NumEntries ts];
     Some (case CombinedStatus errors of OkStatus \<Rightarrow> Inr (ps, missing) | ErrorStatus c \<Rightarrow> Inl c) }"

subsection \<open>InputSidePacketHandler\<close>

record 'a input_side_packet_handler =
  handler_types :: packet_type_set
  handler_packets :: "'a packet list option"
  prev_packets :: "'a packet list option"
  missing_count :: int

definition Handler_PrepareForRun ::
    "type_store \<Rightarrow> packet_type_set \<Rightarrow> (string \<Rightarrow> 'a packet option) \<Rightarrow> 'a input_side_packet_handler \<Rightarrow>
     ('a input_side_packet_handler \<times> status) option" where
  "Handler_PrepareForRun st ts all_side_packets h = do {
     r \<leftarrow> FillPacketSet st ts all_side_packets True;
     let h' = h\<lparr>prev_packets := handler_packets h, handler_packets := None\<rparr>
     in Some (case r of
          Inl c \<Rightarrow> (h', ErrorStatus c)
        | Inr (ps, missing) \<Rightarrow>
            (h'\<lparr>handler_packets := Some ps, handler_types := ts, missing_count := int missing\<rparr>, OkStatus)) }"

text \<open>\<open>SetInternal\<close>; the boolean is the call of \<open>input_side_packets_ready_callback_\<close>.\<close>

definition Handler_SetInternal ::
    "type_store \<Rightarrow> nat \<Rightarrow> 'a packet \<Rightarrow> 'a input_side_packet_handler \<Rightarrow>
     ('a input_side_packet_handler \<times> status \<times> bool) option" where
  "Handler_SetInternal st i p h =
     (if missing_count h \<le> 0 then Some (h, ErrorStatus Internal, False)
      else do {
        ps \<leftarrow> handler_packets h;
        check (i < length ps);
        if \<not> packet_IsEmpty (ps ! i) then Some (h, ErrorStatus AlreadyExists, False)
        else do {
          result \<leftarrow> Validate st (type_at (handler_types h) i) p;
          Some (if \<not> ok result then (h, result, False)
            else (h\<lparr>handler_packets := Some (ps[i := p]), missing_count := missing_count h - 1\<rparr>,
              OkStatus, missing_count h = 1)) }})"

text \<open>What \<open>Set\<close> calls: the ready callback of a handler, or the error callback.\<close>

datatype side_event = SidePacketsReady nat | SidePacketError status

definition Handler_Set ::
    "type_store \<Rightarrow> nat \<times> nat \<Rightarrow> 'a packet \<Rightarrow> 'a input_side_packet_handler list \<Rightarrow>
     ('a input_side_packet_handler list \<times> side_event list) option" where
  "Handler_Set st mirror p hs = do {
     (h, status, ready) \<leftarrow> Handler_SetInternal st (snd mirror) p (hs ! fst mirror);
     Some (hs[fst mirror := h],
       (if ready then [SidePacketsReady (fst mirror)] else []) @ (if ok status then [] else [SidePacketError status])) }"

subsection \<open>OutputSidePacketImpl\<close>

record 'a output_side_packet_impl =
  osp_name :: string
  osp_type :: addr
  osp_packet :: "'a packet"
  osp_initialized :: bool
  osp_mirrors :: "(nat \<times> nat) list"

definition new_output_side_packet :: "string \<Rightarrow> addr \<Rightarrow> 'a output_side_packet_impl" where
  "new_output_side_packet name t =
     \<lparr>osp_name = name, osp_type = t, osp_packet = Packet_empty, osp_initialized = False, osp_mirrors = []\<rparr>"

definition osp_PrepareForRun :: "'a output_side_packet_impl \<Rightarrow> 'a output_side_packet_impl" where
  "osp_PrepareForRun o' = o'\<lparr>osp_initialized := False\<rparr>"

definition osp_AddMirror :: "nat \<times> nat \<Rightarrow> 'a output_side_packet_impl \<Rightarrow> 'a output_side_packet_impl" where
  "osp_AddMirror mirror o' = o'\<lparr>osp_mirrors := osp_mirrors o' @ [mirror]\<rparr>"

record 'a side_packet_system =
  osps :: "'a output_side_packet_impl list"
  handlers :: "'a input_side_packet_handler list"

fun set_mirrors ::
    "type_store \<Rightarrow> 'a packet \<Rightarrow> (nat \<times> nat) list \<Rightarrow> 'a input_side_packet_handler list \<Rightarrow>
     ('a input_side_packet_handler list \<times> side_event list) option" where
  "set_mirrors st p [] hs = Some (hs, [])"
| "set_mirrors st p (m # ms) hs = do {
     (hs, es) \<leftarrow> Handler_Set st m p hs;
     (hs, es') \<leftarrow> set_mirrors st p ms hs;
     Some (hs, es @ es') }"

definition osp_Set ::
    "type_store \<Rightarrow> nat \<Rightarrow> 'a packet \<Rightarrow> 'a side_packet_system \<Rightarrow> ('a side_packet_system \<times> side_event list) option" where
  "osp_Set st i p y =
     (let o' = osps y ! i
      in if osp_initialized o' then Some (y, [SidePacketError (ErrorStatus AlreadyExists)])
         else if packet_IsEmpty p then Some (y, [SidePacketError (ErrorStatus InvalidArgument)])
         else if packet_timestamp p \<noteq> Timestamp_Unset then Some (y, [SidePacketError (ErrorStatus InvalidArgument)])
         else do {
           result \<leftarrow> Validate st (osp_type o') p;
           if \<not> ok result then Some (y, [SidePacketError result])
           else do {
             (hs, es) \<leftarrow> set_mirrors st p (osp_mirrors o') (handlers y);
             Some (y\<lparr>osps := (osps y)[i := o'\<lparr>osp_packet := p, osp_initialized := True\<rparr>], handlers := hs\<rparr>, es) }})"

subsection \<open>The connections of a node\<close>

text \<open>\<open>CalculatorNode::InitializeInputSidePackets\<close>: the node's handler mirrors the producers of its side packets.\<close>

fun add_mirrors ::
    "validated_graph \<Rightarrow> nat \<Rightarrow> node_type_info \<Rightarrow> nat list \<Rightarrow> 'a output_side_packet_impl list \<Rightarrow> 'a output_side_packet_impl list"
  where
  "add_mirrors g node_id info [] outs = outs"
| "add_mirrors g node_id info (i # is) outs =
     add_mirrors g node_id info is
       (case upstream (input_side_packets g ! (input_side_packet_base_index info + i)) of
          None \<Rightarrow> outs
        | Some u \<Rightarrow> outs[u := osp_AddMirror (node_id, i) (outs ! u)])"

definition InitializeInputSidePackets ::
    "validated_graph \<Rightarrow> nat \<Rightarrow> 'a output_side_packet_impl list \<Rightarrow> 'a output_side_packet_impl list" where
  "InitializeInputSidePackets g node_id outs =
     (let info = calculators g ! node_id
      in add_mirrors g node_id info [0..<set_NumEntries (contract_input_side_packets (node_contract info))] outs)"

end
