(* ===== verification/SidePacketDelivery.thy ===== *)
theory SidePacketDelivery
  imports SidePackets NameGrammar
begin

section \<open>Delivery of side packets\<close>

text \<open>
  In a graph in which each missing entry of a handler mirrors exactly one output side packet of a type that
  fits, each side packet reaches its entries and each handler calls its ready callback exactly once.
\<close>

definition handler_set :: "'a input_side_packet_handler \<Rightarrow> 'a packet list" where
  "handler_set h = (case handler_packets h of None \<Rightarrow> [] | Some ps \<Rightarrow> ps)"

definition num_empty :: "'a packet list \<Rightarrow> nat" where
  "num_empty ps = length (filter packet_IsEmpty ps)"

definition prepared :: "'a input_side_packet_handler \<Rightarrow> bool" where
  "prepared h \<longleftrightarrow> (\<exists>ps. handler_packets h = Some ps \<and> missing_count h = int (num_empty ps))"

lemma prepared_iff:
  "prepared h \<longleftrightarrow> handler_packets h = Some (handler_set h) \<and> missing_count h = int (num_empty (handler_set h))"
  by (auto simp: prepared_def handler_set_def)

text \<open>A packet that a handler has been given; the mirrors are the ids of the entries.\<close>

definition given :: "'a packet \<Rightarrow> nat set \<Rightarrow> 'a packet list \<Rightarrow> 'a packet list" where
  "given p I ps = map (\<lambda>i. if i \<in> I then p else ps ! i) [0..<length ps]"

lemma given_simps [simp]:
  "length (given p I ps) = length ps"
  "i < length ps \<Longrightarrow> given p I ps ! i = (if i \<in> I then p else ps ! i)"
  "given p {} ps = ps"
  by (auto simp: given_def intro: nth_equalityI)

lemma given_update: "i < length ps \<Longrightarrow> given p I (ps[i := p]) = given p (insert i I) ps"
  by (rule nth_equalityI) auto

lemma num_empty_update:
  "i < length ps \<Longrightarrow> packet_IsEmpty (ps ! i) \<Longrightarrow> \<not> packet_IsEmpty p \<Longrightarrow> num_empty ps = Suc (num_empty (ps[i := p]))"
proof (induction ps arbitrary: i)
  case (Cons q ps)
  then show ?case by (cases i) (auto simp: num_empty_def)
qed simp

lemma num_empty_0: "num_empty ps = 0 \<longleftrightarrow> (\<forall>i < length ps. \<not> packet_IsEmpty (ps ! i))"
  by (simp add: num_empty_def filter_empty_conv all_set_conv_all_nth)

lemma num_empty_given_le:
  "\<not> packet_IsEmpty p \<Longrightarrow> num_empty (given p I ps) \<le> num_empty ps"
proof (induction ps rule: rev_induct)
  case (snoc q ps)
  have "given p I (ps @ [q]) = given p I ps @ [if length ps \<in> I then p else q]"
    by (auto simp: given_def nth_append)
  then show ?case using snoc by (auto simp: num_empty_def)
qed (simp add: given_def)

definition give :: "'a packet \<Rightarrow> nat set \<Rightarrow> 'a input_side_packet_handler \<Rightarrow> 'a input_side_packet_handler" where
  "give p I h = h\<lparr>handler_packets := Some (given p I (handler_set h)),
     missing_count := int (num_empty (given p I (handler_set h)))\<rparr>"

lemma give_simps [simp]:
  "handler_set (give p I h) = given p I (handler_set h)"
  "handler_types (give p I h) = handler_types h"
  "missing_count (give p I h) = int (num_empty (given p I (handler_set h)))"
  "prepared (give p I h)"
  by (simp_all add: give_def handler_set_def prepared_def)

lemma give_none: "prepared h \<Longrightarrow> give p {} h = h"
  by (cases h) (auto simp: give_def prepared_def handler_set_def)

lemma give_insert:
  "i < length (handler_set h) \<Longrightarrow> give p I (give p {i} h) = give p (insert i I) h"
proof -
  assume i: "i < length (handler_set h)"
  have "given p I (given p {i} (handler_set h)) = given p (insert i I) (handler_set h)"
    by (rule nth_equalityI) auto
  then show ?thesis by (simp add: give_def handler_set_def)
qed

lemma SetInternal_gives:
  assumes h: "prepared h" and i: "i < length (handler_set h)" "packet_IsEmpty (handler_set h ! i)"
    and p: "\<not> packet_IsEmpty p" "Validate st (type_at (handler_types h) i) p = Some OkStatus"
  shows "Handler_SetInternal st i p h = Some (give p {i} h, OkStatus, num_empty (given p {i} (handler_set h)) = 0)"
proof -
  have n: "num_empty (handler_set h) = Suc (num_empty ((handler_set h)[i := p]))"
    by (rule num_empty_update [OF i p(1)])
  have g: "given p {i} (handler_set h) = (handler_set h)[i := p]"
    using i(1) by (intro nth_equalityI) (auto simp: nth_list_update)
  show ?thesis using h i p n by (auto simp: Handler_SetInternal_def prepared_iff give_def g)
qed

text \<open>The entries of handler \<open>k\<close> among some mirrors.\<close>

definition ids_of :: "nat \<Rightarrow> (nat \<times> nat) list \<Rightarrow> nat set" where
  "ids_of k ms = {i. (k, i) \<in> set ms}"

lemma ids_of_simps [simp]:
  "ids_of k [] = {}"
  "ids_of k ((k', i) # ms) = (if k' = k then insert i (ids_of k ms) else ids_of k ms)"
  by (auto simp: ids_of_def)

definition becomes_ready :: "'a input_side_packet_handler \<Rightarrow> 'a input_side_packet_handler \<Rightarrow> nat" where
  "becomes_ready h h' = (if 0 < missing_count h \<and> missing_count h' = 0 then 1 else 0)"

definition no_errors :: "side_event list \<Rightarrow> bool" where
  "no_errors es \<longleftrightarrow> (\<forall>s. SidePacketError s \<notin> set es)"

definition mirror_ok :: "type_store \<Rightarrow> 'a packet \<Rightarrow> 'a input_side_packet_handler list \<Rightarrow> nat \<times> nat \<Rightarrow> bool" where
  "mirror_ok st p hs m \<longleftrightarrow> fst m < length hs \<and> snd m < length (handler_set (hs ! fst m)) \<and>
     packet_IsEmpty (handler_set (hs ! fst m) ! snd m) \<and>
     Validate st (type_at (handler_types (hs ! fst m)) (snd m)) p = Some OkStatus"

lemma set_mirrors_gives:
  assumes "\<forall>h \<in> set hs. prepared h" and "distinct ms" and "\<forall>m \<in> set ms. mirror_ok st p hs m" and "\<not> packet_IsEmpty p"
  shows "\<exists>es. set_mirrors st p ms hs = Some (map (\<lambda>k. give p (ids_of k ms) (hs ! k)) [0..<length hs], es) \<and> no_errors es \<and>
    (\<forall>k < length hs. count_list es (SidePacketsReady k) = becomes_ready (hs ! k) (give p (ids_of k ms) (hs ! k))) \<and>
    (\<forall>k \<ge> length hs. count_list es (SidePacketsReady k) = 0)"
  using assms
proof (induction ms arbitrary: hs)
  case Nil
  have "map (\<lambda>k. give p {} (hs ! k)) [0..<length hs] = hs"
    using Nil(1) by (intro nth_equalityI) (auto simp: give_none)
  moreover have "becomes_ready h (give p {} h) = 0" if "h \<in> set hs" for h
    using Nil(1) that by (auto simp: give_none becomes_ready_def prepared_iff)
  ultimately show ?case by (simp add: no_errors_def)
next
  case (Cons m ms)
  obtain k i where m: "m = (k, i)" by (cases m)
  let ?h = "hs ! k" and ?hs = "hs[k := give p {i} (hs ! k)]"
  have ok: "k < length hs" "i < length (handler_set ?h)" "packet_IsEmpty (handler_set ?h ! i)"
    "Validate st (type_at (handler_types ?h) i) p = Some OkStatus"
    using Cons.prems(3) by (simp_all add: mirror_ok_def m)
  have prep: "prepared ?h" using Cons.prems(1) ok(1) by simp
  have step: "Handler_Set st m p hs =
      Some (?hs, if num_empty (given p {i} (handler_set ?h)) = 0 then [SidePacketsReady k] else [])"
    using SetInternal_gives [OF prep ok(2,3) Cons.prems(4) ok(4)] by (simp add: Handler_Set_def m)
  have "\<forall>h \<in> set ?hs. prepared h" using Cons.prems(1) by (auto dest!: set_update_subset_insert [THEN subsetD])
  moreover have "\<forall>m \<in> set ms. mirror_ok st p ?hs m"
    using Cons.prems(2,3) by (auto simp: mirror_ok_def m nth_list_update)
  ultimately obtain es where es: "set_mirrors st p ms ?hs = Some (map (\<lambda>k. give p (ids_of k ms) (?hs ! k)) [0..<length hs], es)"
    "no_errors es" "\<forall>k < length hs. count_list es (SidePacketsReady k) = becomes_ready (?hs ! k) (give p (ids_of k ms) (?hs ! k))"
    "\<forall>k \<ge> length hs. count_list es (SidePacketsReady k) = 0"
    using Cons.IH [of ?hs] Cons.prems(2,4) by auto
  let ?e = "if num_empty (given p {i} (handler_set ?h)) = 0 then [SidePacketsReady k] else []"
  have gives: "give p (ids_of j ms) (?hs ! j) = give p (ids_of j (m # ms)) (hs ! j)" if "j < length hs" for j
    using that ok by (auto simp: m nth_list_update give_insert)
  have pos: "0 < missing_count ?h"
    using prep ok(2,3) by (auto simp: prepared_iff num_empty_0 intro!: gr0I)
  have "count_list (?e @ es) (SidePacketsReady j) = becomes_ready (hs ! j) (give p (ids_of j (m # ms)) (hs ! j))"
    if j: "j < length hs" for j
  proof (cases "j = k")
    case True
    have "num_empty (given p (ids_of k ms) (given p {i} (handler_set ?h))) \<le> num_empty (given p {i} (handler_set ?h))"
      by (rule num_empty_given_le [OF Cons.prems(4)])
    then have "(if num_empty (given p {i} (handler_set ?h)) = 0 then 1 else 0) +
        becomes_ready (give p {i} ?h) (give p (ids_of k ms) (give p {i} ?h)) =
        becomes_ready ?h (give p (ids_of k ms) (give p {i} ?h))"
      using pos by (auto simp: becomes_ready_def)
    then show ?thesis using es(3) ok(1) gives [OF j] by (auto simp: True)
  next
    case False
    then show ?thesis using es(3) j gives [OF j] by auto
  qed
  moreover have "map (\<lambda>j. give p (ids_of j ms) (?hs ! j)) [0..<length hs] =
      map (\<lambda>j. give p (ids_of j (m # ms)) (hs ! j)) [0..<length hs]"
    using gives by auto
  moreover have "no_errors (?e @ es)" using es(2) by (auto simp: no_errors_def)
  moreover have "\<forall>j \<ge> length hs. count_list (?e @ es) (SidePacketsReady j) = 0" using es(4) ok(1) by auto
  ultimately show ?case using step es(1) by auto
qed


subsection \<open>A sequence of side packets\<close>

fun osp_sets ::
    "type_store \<Rightarrow> (nat \<times> 'a packet) list \<Rightarrow> 'a side_packet_system \<Rightarrow> ('a side_packet_system \<times> side_event list) option" where
  "osp_sets st [] y = Some (y, [])"
| "osp_sets st ((j, p) # sets) y = do {
     (y, es) \<leftarrow> osp_Set st j p y;
     (y, es') \<leftarrow> osp_sets st sets y;
     Some (y, es @ es') }"

definition acceptable :: "type_store \<Rightarrow> addr \<Rightarrow> 'a packet \<Rightarrow> bool" where
  "acceptable st t p \<longleftrightarrow> \<not> packet_IsEmpty p \<and> packet_timestamp p = Timestamp_Unset \<and> Validate st t p = Some OkStatus"

definition all_mirrors :: "'a output_side_packet_impl list \<Rightarrow> (nat \<times> nat) list" where
  "all_mirrors outs = concat (map osp_mirrors outs)"

definition wired :: "type_store \<Rightarrow> 'a side_packet_system \<Rightarrow> bool" where
  "wired st y \<longleftrightarrow>
     (\<forall>h \<in> set (handlers y). prepared h) \<and> distinct (all_mirrors (osps y)) \<and>
     (\<forall>k i. (k, i) \<in> set (all_mirrors (osps y)) \<longleftrightarrow>
        k < length (handlers y) \<and> i < length (handler_set (handlers y ! k)) \<and> packet_IsEmpty (handler_set (handlers y ! k) ! i)) \<and>
     (\<forall>o' \<in> set (osps y). \<not> osp_initialized o' \<and> (\<forall>p :: 'a packet. Validate st (osp_type o') p \<noteq> None \<and>
        (Validate st (osp_type o') p = Some OkStatus \<longrightarrow>
         (\<forall>(k, i) \<in> set (osp_mirrors o'). Validate st (type_at (handler_types (handlers y ! k)) i) p = Some OkStatus))))"

text \<open>The first acceptable packet for an output side packet.\<close>

definition first_accepted :: "type_store \<Rightarrow> 'a output_side_packet_impl \<Rightarrow> (nat \<times> 'a packet) list \<Rightarrow> nat \<Rightarrow> 'a packet option" where
  "first_accepted st o' sets j = map_option snd (find (\<lambda>(j', p). j' = j \<and> acceptable st (osp_type o') p) sets)"

definition is_error :: "side_event \<Rightarrow> bool" where
  "is_error e \<longleftrightarrow> (\<exists>s. e = SidePacketError s)"

text \<open>What has become of the system \<open>y0\<close> after some sets; \<open>P j\<close> is the packet output \<open>j\<close> has taken.\<close>

definition delivered :: "'a side_packet_system \<Rightarrow> (nat \<Rightarrow> 'a packet option) \<Rightarrow> 'a side_packet_system \<Rightarrow> bool" where
  "delivered y0 P y \<longleftrightarrow>
     length (osps y) = length (osps y0) \<and> length (handlers y) = length (handlers y0) \<and>
     (\<forall>j < length (osps y0). osps y ! j = (case P j of None \<Rightarrow> osps y0 ! j
        | Some p \<Rightarrow> (osps y0 ! j)\<lparr>osp_packet := p, osp_initialized := True\<rparr>)) \<and>
     (\<forall>k < length (handlers y0). prepared (handlers y ! k) \<and> handler_types (handlers y ! k) = handler_types (handlers y0 ! k) \<and>
        length (handler_set (handlers y ! k)) = length (handler_set (handlers y0 ! k)) \<and>
        (\<forall>i < length (handler_set (handlers y0 ! k)). \<not> packet_IsEmpty (handler_set (handlers y0 ! k) ! i) \<longrightarrow>
           handler_set (handlers y ! k) ! i = handler_set (handlers y0 ! k) ! i)) \<and>
     (\<forall>j < length (osps y0). \<forall>(k, i) \<in> set (osp_mirrors (osps y0 ! j)).
        handler_set (handlers y ! k) ! i = (case P j of None \<Rightarrow> handler_set (handlers y0 ! k) ! i | Some p \<Rightarrow> p))"

lemma wired_mirror:
  assumes "wired st y" "j < length (osps y)" "(k, i) \<in> set (osp_mirrors (osps y ! j))"
  shows "k < length (handlers y)" "i < length (handler_set (handlers y ! k))" "packet_IsEmpty (handler_set (handlers y ! k) ! i)"
proof -
  have "(k, i) \<in> set (all_mirrors (osps y))" using assms(2,3) by (auto simp: all_mirrors_def)
  then show "k < length (handlers y)" "i < length (handler_set (handlers y ! k))" "packet_IsEmpty (handler_set (handlers y ! k) ! i)"
    using assms(1) by (auto simp: wired_def)
qed

lemma wired_unique:
  assumes "wired st y" "j < length (osps y)" "j' < length (osps y)"
    and "m \<in> set (osp_mirrors (osps y ! j))" "m \<in> set (osp_mirrors (osps y ! j'))"
  shows "j = j'"
  using assms distinct_concat_disjoint [of "map osp_mirrors (osps y)" j j' m] by (simp add: wired_def all_mirrors_def)

lemma wired_distinct: "wired st y \<Longrightarrow> j < length (osps y) \<Longrightarrow> distinct (osp_mirrors (osps y ! j))"
  by (auto simp: wired_def all_mirrors_def distinct_concat_iff)

lemma delivered_start: "wired st y \<Longrightarrow> delivered y (\<lambda>_. None) y"
  by (auto simp: delivered_def wired_def)

lemma delivered_Set:
  assumes w: "wired st y0" and d: "delivered y0 P y" and j: "j < length (osps y0)" and P: "P j = None"
    and p: "acceptable st (osp_type (osps y0 ! j)) p"
  shows "\<exists>y' es. osp_Set st j p y = Some (y', es) \<and> delivered y0 (P(j \<mapsto> p)) y' \<and> no_errors es \<and>
    (\<forall>k < length (handlers y0). count_list es (SidePacketsReady k) = becomes_ready (handlers y ! k) (handlers y' ! k) \<and>
       missing_count (handlers y' ! k) \<le> missing_count (handlers y ! k))"
proof -
  let ?o = "osps y0 ! j"
  have o': "osps y ! j = ?o" "\<not> osp_initialized ?o"
    using d j P w by (auto simp: delivered_def wired_def)
  have hs: "length (handlers y) = length (handlers y0)" "length (osps y) = length (osps y0)" using d by (simp_all add: delivered_def)
  have prep: "\<forall>h \<in> set (handlers y). prepared h"
    using d by (auto simp: delivered_def in_set_conv_nth)
  have ne: "\<not> packet_IsEmpty p" using p by (simp add: acceptable_def)
  have types: "\<forall>(k, i) \<in> set (osp_mirrors ?o). Validate st (type_at (handler_types (handlers y0 ! k)) i) p = Some OkStatus"
    using w p nth_mem [OF j] unfolding wired_def acceptable_def by blast
  have ok: "mirror_ok st p (handlers y) (k, i)" if m: "(k, i) \<in> set (osp_mirrors ?o)" for k i
  proof -
    note wm = wired_mirror [OF w j m]
    have "handler_set (handlers y ! k) ! i = handler_set (handlers y0 ! k) ! i"
      using d j m P by (fastforce simp: delivered_def)
    then show ?thesis using wm d types m by (auto simp: mirror_ok_def delivered_def)
  qed
  let ?g = "\<lambda>k. give p (ids_of k (osp_mirrors ?o)) (handlers y ! k)"
  have all_ok: "\<forall>m \<in> set (osp_mirrors ?o). mirror_ok st p (handlers y) m" using ok by auto
  obtain es where es: "set_mirrors st p (osp_mirrors ?o) (handlers y) = Some (map ?g [0..<length (handlers y)], es)" "no_errors es"
    "\<forall>k < length (handlers y). count_list es (SidePacketsReady k) = becomes_ready (handlers y ! k) (?g k)"
    using set_mirrors_gives [OF prep wired_distinct [OF w j] all_ok ne] by blast
  let ?y = "y\<lparr>osps := (osps y)[j := ?o\<lparr>osp_packet := p, osp_initialized := True\<rparr>], handlers := map ?g [0..<length (handlers y)]\<rparr>"
  have set: "osp_Set st j p y = Some (?y, es)"
    using p o' es(1) by (simp add: osp_Set_def acceptable_def Let_def)
  have entry: "handler_set (?g k) ! i = (if (k, i) \<in> set (osp_mirrors ?o) then p else handler_set (handlers y ! k) ! i)"
    if "k < length (handlers y0)" "i < length (handler_set (handlers y0 ! k))" for k i
    using that d by (auto simp: delivered_def ids_of_def)
  have mirrors: "handler_set (?g k) ! i = (case (P(j \<mapsto> p)) j' of None \<Rightarrow> handler_set (handlers y0 ! k) ! i | Some p \<Rightarrow> p)"
    if j': "j' < length (osps y0)" and m: "(k, i) \<in> set (osp_mirrors (osps y0 ! j'))" for j' k i
  proof (cases "j' = j")
    case True
    then show ?thesis using entry [OF wired_mirror(1,2) [OF w j' m]] m by simp
  next
    case False
    then have "(k, i) \<notin> set (osp_mirrors ?o)" using wired_unique [OF w j' j m] by blast
    then show ?thesis using entry [OF wired_mirror(1,2) [OF w j' m]] False d j' m by (fastforce simp: delivered_def)
  qed
  have others: "handler_set (?g k) ! i = handler_set (handlers y0 ! k) ! i"
    if "k < length (handlers y0)" "i < length (handler_set (handlers y0 ! k))" "\<not> packet_IsEmpty (handler_set (handlers y0 ! k) ! i)" for k i
  proof -
    have "(k, i) \<notin> set (osp_mirrors ?o)" using wired_mirror(3) [OF w j, of k i] that(3) by blast
    then show ?thesis using entry [OF that(1,2)] d that by (simp add: delivered_def)
  qed
  have "delivered y0 (P(j \<mapsto> p)) ?y"
    using d hs mirrors others by (auto simp: delivered_def nth_list_update wired_mirror(1) [OF w])
  moreover have "missing_count (?g k) \<le> missing_count (handlers y ! k)" if "k < length (handlers y0)" for k
    using num_empty_given_le [OF ne] d that by (simp add: delivered_def prepared_iff)
  ultimately show ?thesis using set es hs by auto
qed


lemma refused_Set:
  assumes w: "wired st y0" and d: "delivered y0 P y" and j: "j < length (osps y0)"
    and no: "P j \<noteq> None \<or> \<not> acceptable st (osp_type (osps y0 ! j)) p"
  shows "\<exists>s. osp_Set st j p y = Some (y, [SidePacketError s])"
proof (cases "P j")
  case (Some q)
  then have "osp_initialized (osps y ! j)" using d j by (simp add: delivered_def)
  then show ?thesis by (simp add: osp_Set_def)
next
  case None
  then have o': "osps y ! j = osps y0 ! j" using d j by (simp add: delivered_def)
  have "Validate st (osp_type (osps y0 ! j)) p \<noteq> None"
    using w nth_mem [OF j] unfolding wired_def by blast
  then obtain r where "Validate st (osp_type (osps y0 ! j)) p = Some r" by blast
  then show ?thesis using None no o' by (auto simp: osp_Set_def acceptable_def Let_def)
qed

lemma becomes_ready_trans:
  "missing_count h2 \<le> missing_count h1 \<Longrightarrow> missing_count h1 \<le> missing_count h0 \<Longrightarrow> 0 \<le> missing_count h2 \<Longrightarrow>
   becomes_ready h0 h1 + becomes_ready h1 h2 = becomes_ready h0 h2"
  by (auto simp: becomes_ready_def)

lemma delivered_missing_nonneg:
  "delivered y0 P y \<Longrightarrow> k < length (handlers y0) \<Longrightarrow> 0 \<le> missing_count (handlers y ! k)"
  by (simp add: delivered_def prepared_iff)

text \<open>Which packets the outputs have taken after more sets.\<close>

definition taken ::
    "type_store \<Rightarrow> 'a side_packet_system \<Rightarrow> (nat \<Rightarrow> 'a packet option) \<Rightarrow> (nat \<times> 'a packet) list \<Rightarrow> nat \<Rightarrow> 'a packet option" where
  "taken st y0 P sets j = (case P j of None \<Rightarrow> first_accepted st (osps y0 ! j) sets j | Some p \<Rightarrow> Some p)"

lemma first_accepted_Cons:
  "first_accepted st o' ((j, p) # sets) j' =
     (if j = j' \<and> acceptable st (osp_type o') p then Some p else first_accepted st o' sets j')"
  by (simp add: first_accepted_def)

lemma taken_Cons:
  "taken st y0 P ((j, p) # sets) =
     taken st y0 (if P j = None \<and> acceptable st (osp_type (osps y0 ! j)) p then P(j \<mapsto> p) else P) sets"
  by (rule ext) (auto simp: taken_def first_accepted_Cons split: option.splits)

lemma delivered_sets:
  assumes w: "wired st y0" and d: "delivered y0 P y" and "\<forall>(j, p) \<in> set sets. j < length (osps y0)"
  shows "\<exists>y' es. osp_sets st sets y = Some (y', es) \<and> delivered y0 (taken st y0 P sets) y' \<and>
    (\<forall>k < length (handlers y0). count_list es (SidePacketsReady k) = becomes_ready (handlers y ! k) (handlers y' ! k) \<and>
       missing_count (handlers y' ! k) \<le> missing_count (handlers y ! k))"
  using assms(2,3)
proof (induction sets arbitrary: P y)
  case Nil
  have "taken st y0 P [] = P" by (rule ext) (simp add: taken_def first_accepted_def split: option.split)
  then show ?case using Nil by (auto simp: becomes_ready_def)
next
  case (Cons jp sets)
  obtain j p where jp: "jp = (j, p)" by (cases jp)
  have j: "j < length (osps y0)" and rest: "\<forall>(j, p) \<in> set sets. j < length (osps y0)"
    using Cons.prems(2) by (simp_all add: jp)
  show ?case
  proof (cases "P j = None \<and> acceptable st (osp_type (osps y0 ! j)) p")
    case True
    then have T: "P j = None" "acceptable st (osp_type (osps y0 ! j)) p" by simp_all
    obtain y1 es where y1: "osp_Set st j p y = Some (y1, es)" "delivered y0 (P(j \<mapsto> p)) y1"
      "\<And>k. k < length (handlers y0) \<Longrightarrow> count_list es (SidePacketsReady k) = becomes_ready (handlers y ! k) (handlers y1 ! k)"
      "\<And>k. k < length (handlers y0) \<Longrightarrow> missing_count (handlers y1 ! k) \<le> missing_count (handlers y ! k)"
      using delivered_Set [OF w Cons.prems(1) j T] by blast
    obtain y2 es2 where y2: "osp_sets st sets y1 = Some (y2, es2)" "delivered y0 (taken st y0 (P(j \<mapsto> p)) sets) y2"
      "\<And>k. k < length (handlers y0) \<Longrightarrow> count_list es2 (SidePacketsReady k) = becomes_ready (handlers y1 ! k) (handlers y2 ! k)"
      "\<And>k. k < length (handlers y0) \<Longrightarrow> missing_count (handlers y2 ! k) \<le> missing_count (handlers y1 ! k)"
      using Cons.IH [OF y1(2) rest] by blast
    have "count_list (es @ es2) (SidePacketsReady k) = becomes_ready (handlers y ! k) (handlers y2 ! k) \<and>
        missing_count (handlers y2 ! k) \<le> missing_count (handlers y ! k)" if k: "k < length (handlers y0)" for k
      using becomes_ready_trans [OF y2(4) [OF k] y1(4) [OF k] delivered_missing_nonneg [OF y2(2) k]] y1(3) [OF k] y2(3) [OF k]
        order_trans [OF y2(4) [OF k] y1(4) [OF k]] by simp
    then show ?thesis using y1(1) y2(1,2) True by (auto simp: jp taken_Cons)
  next
    case False
    obtain s where s: "osp_Set st j p y = Some (y, [SidePacketError s])"
      using refused_Set [OF w Cons.prems(1) j] False by blast
    obtain y2 es2 where "osp_sets st sets y = Some (y2, es2)" "delivered y0 (taken st y0 P sets) y2"
      "\<forall>k < length (handlers y0). count_list es2 (SidePacketsReady k) = becomes_ready (handlers y ! k) (handlers y2 ! k) \<and>
        missing_count (handlers y2 ! k) \<le> missing_count (handlers y ! k)"
      using Cons.IH [OF Cons.prems(1) rest] by blast
    then show ?thesis using s False by (auto simp: jp taken_Cons)
  qed
qed

text \<open>A handler misses nothing exactly when all the outputs it mirrors have been set.\<close>

lemma none_missing_iff:
  assumes w: "wired st y0" and d: "delivered y0 P y" and P: "\<And>j p. P j = Some p \<Longrightarrow> \<not> packet_IsEmpty p"
    and k: "k < length (handlers y0)"
  shows "missing_count (handlers y ! k) = 0 \<longleftrightarrow>
    (\<forall>j < length (osps y0). k \<in> fst ` set (osp_mirrors (osps y0 ! j)) \<longrightarrow> P j \<noteq> None)"
proof -
  let ?h = "handlers y ! k" and ?init = "handlers y0 ! k"
  have len: "length (handler_set ?h) = length (handler_set ?init)" and prep: "prepared ?h"
    using d k by (simp_all add: delivered_def)
  have mirror: "handler_set ?h ! i = (case P j of None \<Rightarrow> handler_set ?init ! i | Some p \<Rightarrow> p)"
    if "j < length (osps y0)" "(k, i) \<in> set (osp_mirrors (osps y0 ! j))" for j i
    using d that by (fastforce simp: delivered_def)
  have "missing_count ?h = 0 \<longleftrightarrow> (\<forall>i < length (handler_set ?init). \<not> packet_IsEmpty (handler_set ?h ! i))"
    using prep len by (simp add: prepared_iff num_empty_0)
  also have "\<dots> \<longleftrightarrow> (\<forall>j < length (osps y0). k \<in> fst ` set (osp_mirrors (osps y0 ! j)) \<longrightarrow> P j \<noteq> None)"
  proof (intro iffI allI impI)
    fix j assume all: "\<forall>i < length (handler_set ?init). \<not> packet_IsEmpty (handler_set ?h ! i)"
      and j: "j < length (osps y0)" "k \<in> fst ` set (osp_mirrors (osps y0 ! j))"
    then obtain i where m: "(k, i) \<in> set (osp_mirrors (osps y0 ! j))" by auto
    note wm = wired_mirror [OF w j(1) m]
    show "P j \<noteq> None" using all wm mirror [OF j(1) m] by (auto split: option.splits)
  next
    fix i assume all: "\<forall>j < length (osps y0). k \<in> fst ` set (osp_mirrors (osps y0 ! j)) \<longrightarrow> P j \<noteq> None"
      and i: "i < length (handler_set ?init)"
    show "\<not> packet_IsEmpty (handler_set ?h ! i)"
    proof (cases "packet_IsEmpty (handler_set ?init ! i)")
      case True
      then have "(k, i) \<in> set (all_mirrors (osps y0))" using w k i by (simp add: wired_def)
      then obtain o' where "o' \<in> set (osps y0)" "(k, i) \<in> set (osp_mirrors o')" by (auto simp: all_mirrors_def)
      then obtain j where j: "j < length (osps y0)" "(k, i) \<in> set (osp_mirrors (osps y0 ! j))"
        by (auto simp: in_set_conv_nth [of o'])
      then have "P j \<noteq> None" using all by force
      then show ?thesis using mirror [OF j] P by (auto split: option.splits)
    next
      case False
      then show ?thesis using d k i by (simp add: delivered_def)
    qed
  qed
  finally show ?thesis .
qed


subsection \<open>The preparation of a run\<close>

definition filled_entry ::
    "type_store \<Rightarrow> packet_type_set \<Rightarrow> (string \<Rightarrow> 'a packet option) \<Rightarrow> nat \<Rightarrow> 'a packet \<Rightarrow> bool" where
  "filled_entry st ts sp i q \<longleftrightarrow>
     (case sp (names (set_tag_map ts) ! i) of
        None \<Rightarrow> packet_IsEmpty q
      | Some p \<Rightarrow> q = p \<and> Validate st (type_at ts i) p = Some OkStatus)"

lemma Validate_not_empty: "Validate st a p = Some OkStatus \<Longrightarrow> \<not> packet_IsEmpty p"
  by (auto simp: Validate_def Validate_root_def ValidateAsType_def packet_IsEmpty_def
      split: if_splits bind_splits type_spec.splits option.splits)

lemma fill_packets_counts:
  "fill_packets st ts sp True is = Some (ps, n, errors) \<Longrightarrow> set errors \<subseteq> {OkStatus} \<Longrightarrow>
   n = num_empty ps \<and> list_all2 (filled_entry st ts sp) is ps"
proof (induction "is" arbitrary: ps n errors)
  case (Cons i "is")
  show ?case
  proof (cases "sp (names (set_tag_map ts) ! i)")
    case None
    then obtain ps' n' where "fill_packets st ts sp True is = Some (ps', n', errors)" "ps = Packet_empty # ps'" "n = Suc n'"
      using Cons.prems(1) by (auto split: bind_splits)
    then show ?thesis using Cons.IH [of ps' n' errors] Cons.prems(2) None by (auto simp: num_empty_def filled_entry_def)
  next
    case (Some p)
    obtain status where v: "Validate st (type_at ts i) p = Some status" using Cons.prems(1) Some by (auto split: bind_splits)
    then obtain ps' errors' where f: "fill_packets st ts sp True is = Some (ps', n, errors')" "ps = p # ps'"
      "errors = (if ok status then errors' else status # errors')"
      using Cons.prems(1) Some by (auto split: bind_splits)
    then have st: "status = OkStatus" "errors = errors'" using Cons.prems(2) by (auto split: if_splits)
    have "\<not> packet_IsEmpty p" using v st(1) Validate_not_empty by simp
    then show ?thesis using Cons.IH [OF f(1)] Cons.prems(2) Some st v f(2) by (auto simp: num_empty_def filled_entry_def)
  qed
qed (auto simp: num_empty_def)

lemma Handler_PrepareForRun_prepared:
  assumes "Handler_PrepareForRun st ts sp h = Some (h', OkStatus)"
  shows "prepared h' \<and> handler_types h' = ts \<and> length (handler_set h') = set_NumEntries ts \<and>
    (\<forall>i < set_NumEntries ts. packet_IsEmpty (handler_set h' ! i) \<longleftrightarrow> sp (names (set_tag_map ts) ! i) = None)"
proof -
  obtain r where r: "FillPacketSet st ts sp True = Some r" using assms by (auto simp: Handler_PrepareForRun_def split: bind_splits)
  then obtain ps n where "r = Inr (ps, n)" and h': "h' = h\<lparr>prev_packets := handler_packets h, handler_packets := Some ps,
      handler_types := ts, missing_count := int n\<rparr>"
    using assms by (cases r) (auto simp: Handler_PrepareForRun_def)
  then obtain errors where "fill_packets st ts sp True [0..<set_NumEntries ts] = Some (ps, n, errors)" "CombinedStatus errors = OkStatus"
    using r by (auto simp: FillPacketSet_def split: bind_splits status.splits)
  then have f: "n = num_empty ps" "list_all2 (filled_entry st ts sp) [0..<set_NumEntries ts] ps"
    using fill_packets_counts [of st ts sp "[0..<set_NumEntries ts]" ps n errors] by (auto simp: CombinedStatus_ok)
  then have "length ps = set_NumEntries ts" "\<forall>i < set_NumEntries ts. filled_entry st ts sp i (ps ! i)"
    by (auto simp: list_all2_conv_all_nth)
  moreover from this have "packet_IsEmpty (ps ! i) \<longleftrightarrow> sp (names (set_tag_map ts) ! i) = None" if i: "i < set_NumEntries ts" for i
  proof -
    have "filled_entry st ts sp i (ps ! i)" using calculation(2) i by blast
    then show ?thesis using Validate_not_empty [of st "type_at ts i"]
      by (cases "sp (names (set_tag_map ts) ! i)") (auto simp: filled_entry_def)
  qed
  ultimately show ?thesis using f(1) by (simp add: h' prepared_def handler_set_def)
qed

subsection \<open>Properties\<close>



text \<open>
  Two nodes: the first takes the side packets \<open>a\<close> and \<open>b\<close>, which two others produce, the second takes
  \<open>b\<close> and the packet \<open>c\<close> given to the graph. All types are \<open>Any\<close>.
\<close>

definition demo_types :: "string list \<Rightarrow> packet_type_set" where
  "demo_types ns = \<lparr>set_tag_map = (case Create reference_strings ns of Inr m \<Rightarrow> m), set_base = 0, missing_entries = []\<rparr>"

definition any_types :: type_store where
  "any_types = (\<lambda>_. \<lparr>type_spec_field = SpecialAny, optional_field = False\<rparr>)"

definition side_packet :: "nat \<Rightarrow> nat packet" where
  "side_packet v = \<lparr>holder = Some (Holder 1 v), packet_timestamp = Timestamp_Unset\<rparr>"

definition demo_handler :: "string list \<Rightarrow> nat input_side_packet_handler" where
  "demo_handler ns = (case Handler_PrepareForRun any_types (demo_types ns) [''c'' \<mapsto> side_packet 9]
     \<lparr>handler_types = demo_types [], handler_packets = None, prev_packets = None, missing_count = 0\<rparr> of Some (h, _) \<Rightarrow> h)"

definition demo_sides :: "nat side_packet_system" where
  "demo_sides = \<lparr>osps = [osp_AddMirror (0, 0) (new_output_side_packet ''a'' 0),
       osp_AddMirror (1, 0) (osp_AddMirror (0, 1) (new_output_side_packet ''b'' 0))],
     handlers = [demo_handler [''a'', ''b''], demo_handler [''b'', ''c'']]\<rparr>"

lemma demo_sides_handlers:
  "map (\<lambda>h. (handler_packets h, missing_count h)) (handlers demo_sides) =
     [(Some [Packet_empty, Packet_empty], 2), (Some [Packet_empty, side_packet 9], 1)]"
  by code_simp

lemma demo_sides_osps: "map osp_mirrors (osps demo_sides) = [[(0, 0)], [(0, 1), (1, 0)]]"
  "list_all (\<lambda>o'. \<not> osp_initialized o') (osps demo_sides)"
  by code_simp+

lemma Validate_any: "Validate any_types a p = Some (if packet_IsEmpty p then ErrorStatus InvalidArgument else OkStatus)"
proof -
  have "GetSameAs any_types a = Some a" by (subst GetSameAs.simps) (simp add: SameAsPtr_def any_types_def)
  then show ?thesis
    by (simp add: Validate_def IsInitialized_def any_types_def Validate_root_def packet_IsEmpty_def split: option.split)
qed

lemma demo_sides_wired: "wired any_types demo_sides"
proof -
  let ?hs = "handlers demo_sides"
  note len = arg_cong [where f = length, OF demo_sides_handlers]
  have "map handler_packets ?hs = [Some [Packet_empty, Packet_empty], Some [Packet_empty, side_packet 9]]"
    "map missing_count ?hs = [2, 1]"
    using arg_cong [where f = "map fst", OF demo_sides_handlers] arg_cong [where f = "map snd", OF demo_sides_handlers]
    by (simp_all add: comp_def)
  then obtain h0 h1 where hs: "?hs = [h0, h1]" "handler_packets h0 = Some [Packet_empty, Packet_empty]" "missing_count h0 = 2"
    "handler_packets h1 = Some [Packet_empty, side_packet 9]" "missing_count h1 = 1"
    by (auto simp: map_eq_Cons_conv)
  have sets: "handler_set h0 = [Packet_empty, Packet_empty]" "handler_set h1 = [Packet_empty, side_packet 9]"
    "\<not> packet_IsEmpty (side_packet 9)"
    using hs by (simp_all add: handler_set_def side_packet_def packet_IsEmpty_def)
  have "\<forall>h \<in> set ?hs. prepared h" using hs sets by (simp add: prepared_def num_empty_def)
  moreover have "all_mirrors (osps demo_sides) = [(0, 0), (0, 1), (1, 0)]" by (simp add: all_mirrors_def demo_sides_osps)
  ultimately show ?thesis
    using demo_sides_osps(2) hs(1) sets
    by (auto simp: wired_def Validate_any list_all_iff less_Suc_eq nth_Cons numeral_2_eq_2 split: if_splits nat.splits)
qed



subsection \<open>Omitted side packets\<close>

text \<open>
  \<open>RemoveOmittedPacketTypes\<close> numbers the entries anew when it removes one, but the mirrors keep the ids of
  the contract. A valid graph: the consumer has the optional side packet \<open>A:opt\<close>, which is not given, and
  \<open>B:gen\<close>, which the producer sets. The mirror has the id 1, the set of the run has one entry.
\<close>

definition omission_config :: graph_config where
  "omission_config = \<lparr>config_nodes =
       [\<lparr>calculator = ''Producer'', node_name = [], input_stream = [], output_stream = [],
         input_side_packet = [], output_side_packet = [''B:gen''], input_stream_infos = [], node_executor = [],
         node_handler = None, node_output_handler = None, node_source_layer = 0, node_buffer_size_hint = 0, node_option_urls = [], options = []\<rparr>,
        \<lparr>calculator = ''Consumer'', node_name = [], input_stream = [], output_stream = [],
         input_side_packet = [''A:opt'', ''B:gen''], output_side_packet = [], input_stream_infos = [], node_executor = [],
         node_handler = None, node_output_handler = None, node_source_layer = 0, node_buffer_size_hint = 0, node_option_urls = [], options = []\<rparr>],
     config_generators = [], config_handlers = [], graph_input_stream = [], graph_output_stream = [], graph_input_side_packet = [], graph_output_side_packet = [],
     config_executors = [], num_threads = 0, graph_handler = None, packet_factories = 0, config_package = []\<rparr>"

definition omission_registry :: registry where
  "omission_registry = \<lparr>calculator_contract = (\<lambda>_ n. Inr (\<lambda>c st.
       (if calculator n = ''Producer'' then SetExact st (type_at (contract_output_side_packets c) 0) 1
        else SetExact (SetOptional (SetExact st (type_at (contract_input_side_packets c) 0) 1)
          (type_at (contract_input_side_packets c) 0)) (type_at (contract_input_side_packets c) 1) 1,
        ([], [], [], []), OkStatus))),
     generator_expectations = (\<lambda>_ _. Inl NotFound), handler_expectations = (\<lambda>_ _. Inl NotFound)\<rparr>"

definition prepare_consumer :: "validated_graph \<Rightarrow> (nat side_packet_system \<times> type_store \<times> status) option" where
  "prepare_consumer g = do {
     let outs = InitializeInputSidePackets g 1
           (map (\<lambda>e. new_output_side_packet (edge_name e) (edge_type e)) (output_side_packets g));
     (ts, g') \<leftarrow> RemoveOmittedPacketTypes reference_strings g
       (contract_input_side_packets (node_contract (calculators g ! 1))) (\<lambda>_. None :: nat packet option);
     (h, r) \<leftarrow> Handler_PrepareForRun (packet_types g') ts (\<lambda>_. None)
       \<lparr>handler_types = ts, handler_packets = None, prev_packets = None, missing_count = 0\<rparr>;
     Some (\<lparr>osps = outs, handlers = [h, h]\<rparr>, packet_types g', r) }"

definition omission_run :: "(status \<times> nat packet list \<times> (nat \<times> nat) list \<times> bool) option" where
  "omission_run =
     (case ValidatedGraph_Initialize reference_strings omission_registry Inr omission_config of
        Some (Inr g) \<Rightarrow> do {
          (y, st, r) \<leftarrow> prepare_consumer g;
          Some (r, handler_set (handlers y ! 1), osp_mirrors (osps y ! 0), osp_Set st 0 (side_packet 7) y = None) }
      | _ \<Rightarrow> None)"

text \<open>
  The graph is valid and the consumer is prepared, waiting for one side packet; the producer sets it, and the process aborts.
\<close>
lemma omitted_side_packet_aborts: "omission_run = Some (OkStatus, [Packet_empty], [(1, 1)], True)"
  by code_simp

end
