(* ===== verification/GraphRun.thy ===== *)
theory GraphRun
  imports SidePackets GraphOutputStream OutputStream Scheduler "HOL-Library.AList"
begin

section \<open>A graph and its runs\<close>

text \<open>
  \<open>calculator_graph.h\<close> and \<open>calculator_graph.cc\<close>, without the GPU: the graph input streams, the errors of
  a run, status handlers, the calls of the application, and the beginning and the end of a run.

  \<open>'a calculator_graph\<close> is the part of \<open>CalculatorGraph\<close> they use. The maps of graph input streams are
  lists in the order in which the source iterates over them, and \<open>full_sets\<close> is
  \<open>full_input_streams_\<close>. The error callback of a stream is \<open>RecordError\<close>, and runs at once; what a stream sends
  to its mirrors is returned. A call of \<open>HandleIdle\<close> is returned as well.

  The nodes, the packet generators, the service manager, the profiler and the registered status handlers are
  arguments: what they return. An executor is a number, its identity.
\<close>

subsection \<open>Graph input streams\<close>

record 'a graph_input =
  gis_manager :: "'a output_stream_manager"
  gis_shard :: "'a output_stream_shard"

definition new_graph_input :: "'a output_stream_manager \<Rightarrow> 'a graph_input" where
  "new_graph_input m = \<lparr>gis_manager = m, gis_shard = new_output_shard\<rparr>"

definition gis_PrepareForRun :: "'a graph_input \<Rightarrow> 'a graph_input" where
  "gis_PrepareForRun s = s\<lparr>gis_manager := osm_PrepareForRun (gis_manager s) True\<rparr>"

definition gis_AddPacket :: "'a packet \<Rightarrow> 'a graph_input \<Rightarrow> ('a graph_input \<times> 'a out_msg list) option" where
  "gis_AddPacket p s = do {
     (sh, msgs) \<leftarrow> shard_AddPacket (output_stream_spec (gis_manager s)) (gis_shard s) p;
     Some (s\<lparr>gis_shard := sh\<rparr>, msgs) }"

definition gis_SetHeader :: "'a packet \<Rightarrow> 'a graph_input \<Rightarrow> ('a graph_input \<times> 'a out_msg list) option" where
  "gis_SetHeader header s = do {
     (spec, msgs) \<leftarrow> shard_SetHeader (output_stream_spec (gis_manager s)) (gis_shard s) header;
     let m = (gis_manager s)\<lparr>output_stream_spec := spec\<rparr>;
     msgs' \<leftarrow> PropagateHeader m;
     Some (s\<lparr>gis_manager := LockIntroData m\<rparr>, msgs @ msgs') }"

definition gis_SetNextTimestampBound :: "timestamp \<Rightarrow> 'a graph_input \<Rightarrow> ('a graph_input \<times> 'a out_msg list) option" where
  "gis_SetNextTimestampBound t s = do {
     (sh, msgs) \<leftarrow> shard_SetNextTimestampBound (output_stream_spec (gis_manager s)) (gis_shard s) t;
     Some (s\<lparr>gis_shard := sh\<rparr>, msgs) }"

definition gis_PropagateUpdatesToMirrors :: "'a graph_input \<Rightarrow> 'a graph_input \<times> 'a out_msg list" where
  "gis_PropagateUpdatesToMirrors s =
     (let (m, sh, msgs) = PropagateUpdatesToMirrors (gis_manager s) (shard_next_timestamp_bound (gis_shard s)) (gis_shard s)
      in (\<lparr>gis_manager = m, gis_shard = sh\<rparr>, msgs))"

definition gis_Close :: "'a graph_input \<Rightarrow> 'a graph_input \<times> 'a out_msg list" where
  "gis_Close s =
     (let (m, sh, msgs) = (if output_queue (gis_shard s) \<noteq> []
            then PropagateUpdatesToMirrors (gis_manager s) Timestamp_Done (gis_shard s)
            else (gis_manager s, gis_shard s, []));
          (m, msgs') = osm_Close m
      in (\<lparr>gis_manager = m, gis_shard = sh\<rparr>, msgs @ msgs'))"

definition gis_IsClosed :: "'a graph_input \<Rightarrow> bool" where
  "gis_IsClosed s = osm_closed (gis_manager s)"

subsection \<open>The graph\<close>

datatype 'a graph_output = Observer "'a graph_output_stream" | Poller "'a poller"

datatype add_mode = WAIT_TILL_NOT_FULL | ADD_IF_NOT_FULL

record 'a calculator_graph =
  graph_info :: validated_graph
  initialized :: bool
  graph_inputs :: "(string \<times> 'a graph_input) list"
  graph_input_node_ids :: "string \<Rightarrow> nat option"
  graph_input_max_queue_sizes :: "(string \<times> int32) list"
  graph_input_add_mode :: add_mode
  num_closed_graph_inputs :: nat
  full_sets :: "nat set list"
  graph_outputs :: "'a graph_output list"
  graph_side_packets :: "'a output_side_packet_impl list"
  base_packets :: "string \<Rightarrow> 'a packet option"
  run_side_packets :: "string \<Rightarrow> 'a packet option"
  run_errors :: "status list"
  run_has_error :: bool
  run_scheduler :: scheduler
  service_packets :: "string \<Rightarrow> 'a packet option"
  generator_nodes_added :: bool
  executors :: "string \<Rightarrow> nat option"
  use_application_thread :: bool

definition replace_input :: "string \<Rightarrow> 'a graph_input \<Rightarrow> 'a calculator_graph \<Rightarrow> 'a calculator_graph" where
  "replace_input name s g = g\<lparr>graph_inputs := AList.update name s (graph_inputs g)\<rparr>"

definition GraphInputStreamsClosed :: "'a calculator_graph \<Rightarrow> bool" where
  "GraphInputStreamsClosed g \<longleftrightarrow> num_closed_graph_inputs g = length (graph_inputs g)"

subsection \<open>Errors\<close>

definition kMaxNumAccumulatedErrors :: nat where
  "kMaxNumAccumulatedErrors = 1000"

fun NotifyError :: "'a graph_output \<Rightarrow> 'a graph_output" where
  "NotifyError (Observer ob) = Observer ob"
| "NotifyError (Poller p) = Poller (Poller_NotifyError p)"

definition RecordError :: "status \<Rightarrow> 'a calculator_graph \<Rightarrow> 'a calculator_graph option" where
  "RecordError error g =
     (let g = g\<lparr>run_errors := run_errors g @ [error], run_has_error := True,
            run_scheduler := (run_scheduler g)\<lparr>has_error := True\<rparr>, graph_outputs := map NotifyError (graph_outputs g)\<rparr>
      in do { check (length (run_errors g) \<le> kMaxNumAccumulatedErrors); Some g })"

fun record_errors :: "status list \<Rightarrow> 'a calculator_graph \<Rightarrow> 'a calculator_graph option" where
  "record_errors [] g = Some g"
| "record_errors (e # es) g = do { g \<leftarrow> RecordError e g; record_errors es g }"

text \<open>The errors among the messages of a stream, and what it sends.\<close>

fun stream_errors :: "'a out_msg list \<Rightarrow> status list" where
  "stream_errors [] = []"
| "stream_errors (MsgError e # ms) = e # stream_errors ms"
| "stream_errors (_ # ms) = stream_errors ms"

fun is_stream_error :: "'a out_msg \<Rightarrow> bool" where
  "is_stream_error (MsgError _) \<longleftrightarrow> True"
| "is_stream_error _ \<longleftrightarrow> False"

definition to_mirrors :: "'a out_msg list \<Rightarrow> 'a out_msg list" where
  "to_mirrors ms = filter (\<lambda>m. \<not> is_stream_error m) ms"

text \<open>\<open>GetCombinedErrors\<close>: the new value of \<open>*error_status\<close>, if there are errors.\<close>

definition GetCombinedErrors :: "'a calculator_graph \<Rightarrow> status option" where
  "GetCombinedErrors g = (if run_errors g \<noteq> [] then Some (CombinedStatus (run_errors g)) else None)"

definition combined_or_ok :: "'a calculator_graph \<Rightarrow> status" where
  "combined_or_ok g = (case GetCombinedErrors g of None \<Rightarrow> OkStatus | Some s \<Rightarrow> s)"

subsection \<open>Packets for the graph\<close>

text \<open>
  \<open>AddPacketToInputStreamInternal\<close> up to where it releases \<open>full_input_streams_mutex_\<close>. \<open>WaitsFor\<close> is the
  wait for the graph input streams to be unthrottled, after which the loop looks again.
\<close>

datatype add_decision = Refused status | WaitsFor wait_for | Admitted

definition AddPacket_admit :: "string \<Rightarrow> 'a calculator_graph \<Rightarrow> add_decision option" where
  "AddPacket_admit name g =
     (if map_of (graph_inputs g) name = None then Some (Refused (ErrorStatus Internal))
      else do {
        node_id \<leftarrow> graph_input_node_ids g name;
        check (length (calculators (graph_info g)) \<le> node_id);
        if full_sets g = [] then Some (Refused (ErrorStatus FailedPrecondition))
        else do {
          check (run_has_error g \<or> node_id < length (full_sets g));
          Some (if run_has_error g then Refused (combined_or_ok g)
            else if full_sets g ! node_id = {} then Admitted
            else case graph_input_add_mode g of
                ADD_IF_NOT_FULL \<Rightarrow> Refused (ErrorStatus Unavailable)
              | WAIT_TILL_NOT_FULL \<Rightarrow>
                  WaitsFor (ForGraphInputStreamUnthrottled (unthrottle_seq_num (run_scheduler g)))) } })"

text \<open>The rest of it, once the packet is admitted.\<close>

definition AddPacket_push ::
    "string \<Rightarrow> 'a packet \<Rightarrow> 'a calculator_graph \<Rightarrow>
     ('a calculator_graph \<times> 'a out_msg list \<times> idle_call \<times> status) option" where
  "AddPacket_push name p g = do {
     s \<leftarrow> map_of (graph_inputs g) name;
     (s, msgs) \<leftarrow> gis_AddPacket p s;
     g \<leftarrow> record_errors (stream_errors msgs) (replace_input name s g);
     if run_has_error g then Some (g, to_mirrors msgs, NotCalled, combined_or_ok g)
     else
       let (s, sent) = gis_PropagateUpdatesToMirrors s;
           (sch, called) = AddedPacketToGraphInputStream (run_scheduler g)
       in Some ((replace_input name s g)\<lparr>run_scheduler := sch\<rparr>, to_mirrors msgs @ sent, called, OkStatus) }"

definition SetInputStreamTimestampBound ::
    "string \<Rightarrow> timestamp \<Rightarrow> 'a calculator_graph \<Rightarrow> ('a calculator_graph \<times> 'a out_msg list \<times> status) option" where
  "SetInputStreamTimestampBound name t g =
     (case map_of (graph_inputs g) name of
        None \<Rightarrow> Some (g, [], ErrorStatus Internal)
      | Some s \<Rightarrow> do {
          (s, msgs) \<leftarrow> gis_SetNextTimestampBound t s;
          g \<leftarrow> record_errors (stream_errors msgs) g;
          let (s, sent) = gis_PropagateUpdatesToMirrors s
          in Some (replace_input name s g, to_mirrors msgs @ sent, OkStatus) })"

definition HasInputStream :: "string \<Rightarrow> 'a calculator_graph \<Rightarrow> bool" where
  "HasInputStream name g \<longleftrightarrow> map_of (graph_inputs g) name \<noteq> None"

definition SetInputStreamMaxQueueSize :: "string \<Rightarrow> int32 \<Rightarrow> 'a calculator_graph \<Rightarrow> 'a calculator_graph" where
  "SetInputStreamMaxQueueSize name n g =
     g\<lparr>graph_input_max_queue_sizes := AList.update name n (graph_input_max_queue_sizes g)\<rparr>"

subsection \<open>Closing the graph input streams\<close>

definition CloseInputStream ::
    "string \<Rightarrow> 'a calculator_graph \<Rightarrow> 'a calculator_graph \<times> 'a out_msg list \<times> idle_call \<times> status" where
  "CloseInputStream name g =
     (case map_of (graph_inputs g) name of
        None \<Rightarrow> (g, [], NotCalled, ErrorStatus Internal)
      | Some s \<Rightarrow>
          if gis_IsClosed s then (g, [], NotCalled, OkStatus)
          else
            let (s, msgs) = gis_Close s;
                g = (replace_input name s g)\<lparr>num_closed_graph_inputs := num_closed_graph_inputs g + 1\<rparr>
            in if num_closed_graph_inputs g = length (graph_inputs g)
               then let (sch, called) = ClosedAllGraphInputStreams (run_scheduler g)
                    in (g\<lparr>run_scheduler := sch\<rparr>, msgs, called, OkStatus)
               else (g, msgs, NotCalled, OkStatus))"

fun close_inputs :: "(string \<times> 'a graph_input) list \<Rightarrow> (string \<times> 'a graph_input) list \<times> 'a out_msg list" where
  "close_inputs [] = ([], [])"
| "close_inputs ((name, s) # ss) =
     (let (s, msgs) = gis_Close s; (ss, msgs') = close_inputs ss in ((name, s) # ss, msgs @ msgs'))"

definition CloseAllInputStreams ::
    "'a calculator_graph \<Rightarrow> 'a calculator_graph \<times> 'a out_msg list \<times> idle_call" where
  "CloseAllInputStreams g =
     (let (ss, msgs) = close_inputs (graph_inputs g);
          (sch, called) = ClosedAllGraphInputStreams (run_scheduler g)
      in (g\<lparr>graph_inputs := ss, num_closed_graph_inputs := length (graph_inputs g), run_scheduler := sch\<rparr>, msgs, called))"

definition CloseAllPacketSources ::
    "'a calculator_graph \<Rightarrow> 'a calculator_graph \<times> 'a out_msg list \<times> idle_call" where
  "CloseAllPacketSources g =
     (let (g, msgs, called) = CloseAllInputStreams g
      in (g\<lparr>run_scheduler := CloseAllSourceNodes (run_scheduler g)\<rparr>, msgs, called))"

end
