(* ===== verification/GraphLifecycle.thy ===== *)
theory GraphLifecycle
  imports GraphRun
begin

section \<open>The beginning and the end of a run\<close>

text \<open>
  \<open>calculator_graph.cc\<close>, continued: \<open>PrepareForRun\<close>, \<open>StartRun\<close>, the waits of the application, \<open>FinishRun\<close> and
  \<open>CleanupAfterRun\<close>, with the status handlers they call, and what an application can ask of the
  outputs of a graph.
\<close>

datatype graph_run_state = PRE_RUN | POST_RUN

text \<open>
  What the parts outside of this theory do in one run. \<open>run_graph_setup\<close> is \<open>RunGraphSetup\<close> of the packet
  node_generators: the side packets of the run, the generators that have to run as nodes, and a status.
  \<open>prepare_node\<close> is the status of each node's \<open>PrepareForRun\<close>, with the executor of the node, and
  \<open>node_cleanup\<close> the errors nodes record while they are cleaned up.
\<close>

record 'a run_environment =
  requested_services :: "(string \<times> bool) list"
  default_service :: "string \<Rightarrow> 'a packet result"
  run_graph_setup :: "(string \<Rightarrow> 'a packet option) \<Rightarrow> (string \<Rightarrow> 'a packet option) \<times> nat list \<times> status"
  initialize_generator_node :: "nat \<Rightarrow> status"
  prepare_node :: "(string \<times> status) list"
  source_nodes :: "int list"
  node_layer :: "int \<Rightarrow> int"
  nodes_ready_for_open :: "nat list"
  handler_registered :: "string \<Rightarrow> bool"
  handle_status :: "graph_run_state \<Rightarrow> string \<Rightarrow> string \<Rightarrow> 'a packet list \<Rightarrow> status \<Rightarrow> status"
  node_cleanup :: "status \<Rightarrow> status list"
  profiler_start :: status
  profiler_stop :: status

subsection \<open>Status handlers\<close>

fun call_status_handlers ::
    "'a run_environment \<Rightarrow> graph_run_state \<Rightarrow> status \<Rightarrow> nat list \<Rightarrow> 'a calculator_graph \<Rightarrow> 'a calculator_graph option"
  where
  "call_status_handlers E state status [] g = Some g"
| "call_status_handlers E state status (i # is) g =
     (let cfg = config_handlers (config (graph_info g)) ! i;
          ts = contract_input_side_packets (node_contract (status_handlers (graph_info g) ! i))
      in do {
        packets \<leftarrow> FillPacketSet (packet_types (graph_info g)) ts (run_side_packets g) False;
        g \<leftarrow> (case packets of
            Inl c \<Rightarrow> RecordError (ErrorStatus c) g
          | Inr (ps, _) \<Rightarrow> do {
              check (handler_registered E (status_handler cfg));
              let r = handle_status E state (status_handler cfg) (handler_options cfg) ps status;
              if ok r then Some g else RecordError r g });
        call_status_handlers E state status is g })"

definition CallStatusHandlers ::
    "'a run_environment \<Rightarrow> graph_run_state \<Rightarrow> status \<Rightarrow> 'a calculator_graph \<Rightarrow> 'a calculator_graph option" where
  "CallStatusHandlers E state status g =
     call_status_handlers E state status [0..<length (config_handlers (config (graph_info g)))] g"

subsection \<open>The end of a run\<close>

text \<open>The input stream of a graph output is closed.\<close>

fun close_output :: "'a graph_output \<Rightarrow> 'a graph_output" where
  "close_output (Observer ob) = Observer (ob\<lparr>gos_stream := ism_Close (gos_stream ob)\<rparr>)"
| "close_output (Poller p) = Poller (p\<lparr>poller_stream := ism_Close (poller_stream p)\<rparr>)"

definition graph_CleanupAfterRun ::
    "'a run_environment \<Rightarrow> status \<Rightarrow> 'a calculator_graph \<Rightarrow> ('a calculator_graph \<times> 'a out_msg list \<times> status) option" where
  "graph_CleanupAfterRun E status g =
     (let (ss, msgs) = close_inputs (graph_inputs g)
      in do {
        g \<leftarrow> CallStatusHandlers E POST_RUN status (g\<lparr>graph_inputs := ss\<rparr>);
        let status = (if run_has_error g then (case GetCombinedErrors g of None \<Rightarrow> status | Some s \<Rightarrow> s) else status);
        check (if run_has_error g then \<not> ok status else ok status);
        g \<leftarrow> record_errors (node_cleanup E status) g;
        sch \<leftarrow> sched_CleanupAfterRun (run_scheduler g);
        Some (g\<lparr>graph_outputs := map close_output (graph_outputs g), run_scheduler := sch,
          run_errors := [], run_has_error := False, full_sets := []\<rparr>, msgs, status) })"

definition FinishRun ::
    "'a run_environment \<Rightarrow> 'a calculator_graph \<Rightarrow> ('a calculator_graph \<times> 'a out_msg list \<times> status) option" where
  "FinishRun E g =
     (if \<not> ok (profiler_stop E) then Some (g, [], profiler_stop E)
      else graph_CleanupAfterRun E (combined_or_ok g) g)"

subsection \<open>The beginning of a run\<close>

fun PrepareServices ::
    "(string \<Rightarrow> 'a packet result) \<Rightarrow> (string \<times> bool) list \<Rightarrow> (string \<Rightarrow> 'a packet option) \<Rightarrow>
     (string \<Rightarrow> 'a packet option) \<times> status" where
  "PrepareServices create [] services = (services, OkStatus)"
| "PrepareServices create ((key, optional) # rs) services =
     (if (case services key of None \<Rightarrow> False | Some p \<Rightarrow> \<not> packet_IsEmpty p) then PrepareServices create rs services
      else case create key of
          Inr p \<Rightarrow> PrepareServices create rs (services(key \<mapsto> p))
        | Inl c \<Rightarrow> if optional then PrepareServices create rs services else (services, ErrorStatus Internal))"

definition InitializePacketGeneratorNodes ::
    "(nat \<Rightarrow> status) \<Rightarrow> nat list \<Rightarrow> 'a calculator_graph \<Rightarrow> 'a calculator_graph \<times> status" where
  "InitializePacketGeneratorNodes initialize indexes g =
     (if generator_nodes_added g then (g, OkStatus)
      else (g\<lparr>generator_nodes_added := True\<rparr>, CombinedStatus (map initialize indexes)))"

fun prepare_nodes :: "(string \<times> status) list \<Rightarrow> 'a calculator_graph \<Rightarrow> 'a calculator_graph option" where
  "prepare_nodes [] g = Some g"
| "prepare_nodes ((executor, result) # ns) g = do {
     _ \<leftarrow> AssignNodeToSchedulerQueue executor (run_scheduler g);
     g \<leftarrow> (if ok result then Some g else RecordError result g);
     prepare_nodes ns g }"

fun output_PrepareForRun :: "'a graph_output \<Rightarrow> 'a graph_output" where
  "output_PrepareForRun (Observer ob) = Observer (GraphOutputStream_PrepareForRun ob)"
| "output_PrepareForRun (Poller p) = Poller (Poller_PrepareForRun p)"

text \<open>The streams, side packets, nodes and outputs, once the side packets of the run are known.\<close>

definition PrepareForRun_components ::
    "'a run_environment \<Rightarrow> 'a calculator_graph \<Rightarrow> 'a calculator_graph option" where
  "PrepareForRun_components E g =
     (let g = g\<lparr>full_sets := replicate (length (calculators (graph_info g)) + length (graph_inputs g)) {},
            graph_inputs := map (map_prod (\<lambda>n. n) gis_PrepareForRun) (graph_inputs g),
            graph_side_packets := map osp_PrepareForRun (graph_side_packets g)\<rparr>
      in do {
        g \<leftarrow> prepare_nodes (prepare_node E) g;
        Some (g\<lparr>graph_outputs := map output_PrepareForRun (graph_outputs g)\<rparr>) })"

fun override_queue_sizes :: "(string \<times> int32) list \<Rightarrow> 'a calculator_graph \<Rightarrow> 'a out_msg list \<times> status" where
  "override_queue_sizes [] g = ([], OkStatus)"
| "override_queue_sizes ((name, n) # ns) g =
     (case map_of (graph_inputs g) name of
        None \<Rightarrow> ([], ErrorStatus Internal)
      | Some s \<Rightarrow> let (msgs, status) = override_queue_sizes ns g in (osm_SetMaxQueueSize (gis_manager s) n @ msgs, status))"

fun add_unopened_sources :: "(int \<Rightarrow> int) \<Rightarrow> int list \<Rightarrow> scheduler \<Rightarrow> scheduler option" where
  "add_unopened_sources layer [] s = Some s"
| "add_unopened_sources layer (n # ns) s = do {
     s \<leftarrow> AddUnopenedSourceNode layer n s;
     add_unopened_sources layer ns s }"

fun set_headers ::
    "(string \<Rightarrow> 'a packet option) \<Rightarrow> (string \<times> 'a graph_input) list \<Rightarrow>
     ((string \<times> 'a graph_input) list \<times> 'a out_msg list) option" where
  "set_headers headers [] = Some ([], [])"
| "set_headers headers ((name, s) # ss) = do {
     (s, msgs) \<leftarrow> gis_SetHeader (case headers name of None \<Rightarrow> Packet_empty | Some p \<Rightarrow> p) s;
     (ss, msgs') \<leftarrow> set_headers headers ss;
     Some ((name, s) # ss, msgs @ msgs') }"

text \<open>The end of \<open>PrepareForRun\<close>; the list of numbers are the nodes scheduled for \<open>OpenNode\<close>.\<close>

definition PrepareForRun_open ::
    "'a run_environment \<Rightarrow> (string \<Rightarrow> 'a packet option) \<Rightarrow> 'a calculator_graph \<Rightarrow>
     ('a calculator_graph \<times> 'a out_msg list \<times> nat list \<times> status) option" where
  "PrepareForRun_open E headers g =
     (let (msgs, status) = override_queue_sizes (graph_input_max_queue_sizes g) g
      in if \<not> ok status then Some (g, msgs, [], status)
         else do {
           sch \<leftarrow> add_unopened_sources (node_layer E) (source_nodes E) (run_scheduler g);
           (ss, msgs') \<leftarrow> set_headers headers (graph_inputs g);
           g \<leftarrow> record_errors (stream_errors msgs') (g\<lparr>graph_inputs := ss, run_scheduler := sch\<rparr>);
           Some (g, msgs @ to_mirrors msgs', nodes_ready_for_open E, OkStatus) })"

text \<open>From the reset of the scheduler on, with the generators that have to run as nodes.\<close>

definition PrepareForRun_run ::
    "'a run_environment \<Rightarrow> (string \<Rightarrow> 'a packet option) \<Rightarrow> nat list \<Rightarrow> 'a calculator_graph \<Rightarrow>
     ('a calculator_graph \<times> 'a out_msg list \<times> nat list \<times> status) option" where
  "PrepareForRun_run E headers node_generators g =
     (let g = g\<lparr>run_scheduler := sched_Reset (GraphInputStreamsClosed g) (run_scheduler g)\<rparr>;
          (g, status) = InitializePacketGeneratorNodes (initialize_generator_node E) node_generators g
      in if \<not> ok status then Some (g, [], [], status)
         else do {
           g \<leftarrow> PrepareForRun_components E g;
           case GetCombinedErrors g of
             Some status \<Rightarrow> do {
               (g, msgs, status) \<leftarrow> graph_CleanupAfterRun E status g;
               Some (g, msgs, [], status) }
           | None \<Rightarrow> PrepareForRun_open E headers g })"

definition graph_PrepareForRun ::
    "'a run_environment \<Rightarrow> (string \<Rightarrow> 'a packet option) \<Rightarrow> (string \<Rightarrow> 'a packet option) \<Rightarrow> 'a calculator_graph \<Rightarrow>
     ('a calculator_graph \<times> 'a out_msg list \<times> nat list \<times> status) option" where
  "graph_PrepareForRun E extra_side_packets headers g =
     (let g = g\<lparr>run_errors := [], run_has_error := False, num_closed_graph_inputs := 0\<rparr>;
          (services, status) = PrepareServices (default_service E) (requested_services E) (service_packets g);
          g = g\<lparr>service_packets := services\<rparr>
      in if \<not> ok status then Some (g, [], [], status)
         else
           let (side_packets, node_generators, generator_status) = run_graph_setup E extra_side_packets
           in do {
             g \<leftarrow> CallStatusHandlers E PRE_RUN generator_status (g\<lparr>run_side_packets := side_packets\<rparr>);
             if \<not> ok generator_status then Some (g, [], [], generator_status)
             else if run_has_error g then Some (g, [], [], combined_or_ok g)
             else if \<not> use_application_thread g \<and> executors g [] = None then Some (g, [], [], ErrorStatus Internal)
             else PrepareForRun_run E headers node_generators g })"

definition StartRun ::
    "'a run_environment \<Rightarrow> (string \<Rightarrow> 'a packet option) \<Rightarrow> (string \<Rightarrow> 'a packet option) \<Rightarrow> 'a calculator_graph \<Rightarrow>
     ('a calculator_graph \<times> 'a out_msg list \<times> nat list \<times> idle_call \<times> status) option" where
  "StartRun E extra_side_packets headers g =
     (if \<not> initialized g then Some (g, [], [], NotCalled, ErrorStatus Internal)
      else do {
        (g, msgs, to_open, status) \<leftarrow> graph_PrepareForRun E extra_side_packets headers g;
        if \<not> ok status then Some (g, msgs, to_open, NotCalled, status)
        else if \<not> ok (profiler_start E) then Some (g, msgs, to_open, NotCalled, profiler_start E)
        else do {
          (sch, called) \<leftarrow> Start (run_scheduler g);
          Some (g\<lparr>run_scheduler := sch\<rparr>, msgs, to_open, called, OkStatus) } })"

subsection \<open>Waiting\<close>

text \<open>
  The waits for idleness and for the end. \<open>None\<close> inside is that the application thread has to wait
  or to run a task; the call looks again after that.
\<close>

definition graph_WaitUntilIdle :: "'a calculator_graph \<Rightarrow> status option" where
  "graph_WaitUntilIdle g =
     (if sched_state (run_scheduler g) = STATE_NOT_STARTED then Some (ErrorStatus Internal)
      else if snd (ApplicationThreadAwait ForIdle (run_scheduler g)) = Returns then Some (combined_or_ok g)
      else None)"

definition graph_WaitUntilDone ::
    "'a run_environment \<Rightarrow> 'a calculator_graph \<Rightarrow> ('a calculator_graph \<times> 'a out_msg list \<times> status) option option" where
  "graph_WaitUntilDone E g =
     (if sched_state (run_scheduler g) = STATE_NOT_STARTED then Some (Some (g, [], ErrorStatus Internal))
      else if snd (ApplicationThreadAwait ForDone (run_scheduler g)) = Returns
           then map_option Some (FinishRun E g)
      else Some None)"

subsection \<open>Outputs\<close>

text \<open>The index of the stream that the new output is connected to.\<close>

definition connect_output :: "string \<Rightarrow> 'a graph_output \<Rightarrow> 'a calculator_graph \<Rightarrow> 'a calculator_graph \<times> nat result" where
  "connect_output name out g =
     (if \<not> initialized g then (g, Inl Internal)
      else let i = OutputStreamIndex (graph_info g) name
           in if i < 0 then (g, Inl NotFound)
              else (g\<lparr>graph_outputs := graph_outputs g @ [out]\<rparr>, Inr (nat i)))"

definition ObserveOutputStream :: "string \<Rightarrow> bool \<Rightarrow> 'a calculator_graph \<Rightarrow> 'a calculator_graph \<times> nat result" where
  "ObserveOutputStream name bounds g =
     connect_output name (Observer (GraphOutputStream_Initialize name (\<lambda>_. OkStatus) bounds)) g"

definition AddOutputStreamPoller :: "string \<Rightarrow> bool \<Rightarrow> 'a calculator_graph \<Rightarrow> 'a calculator_graph \<times> nat result" where
  "AddOutputStreamPoller name bounds g =
     connect_output name (Poller (Poller_Initialize name (\<lambda>_. OkStatus) bounds)) g"

definition GetOutputSidePacket :: "string \<Rightarrow> 'a calculator_graph \<Rightarrow> 'a packet result" where
  "GetOutputSidePacket name g =
     (let i = OutputSidePacketIndex (graph_info g) name
      in if i < 0 then Inl NotFound
         else let p = osp_packet (graph_side_packets g ! nat i)
              in if \<not> packet_IsEmpty p then Inr p
                 else case base_packets g name of
                     Some q \<Rightarrow> if \<not> packet_IsEmpty q then Inr q
                       else (case run_side_packets g name of
                         Some r \<Rightarrow> if \<not> packet_IsEmpty r then Inr r else Inl Unavailable
                       | None \<Rightarrow> Inl Unavailable)
                   | None \<Rightarrow> (case run_side_packets g name of
                         Some r \<Rightarrow> if \<not> packet_IsEmpty r then Inr r else Inl Unavailable
                       | None \<Rightarrow> Inl Unavailable))"

end
