(* ===== verification/GraphInputRuns.thy ===== *)
theory GraphInputRuns
  imports GraphLifecycle
begin

section \<open>The graph input streams over a run\<close>

text \<open>
  A run as a sequence of actions: the calls of the application, and what other threads do between them. A
  call of \<open>AddPacketToInputStream\<close> that has been admitted pushes its packet at some later moment, so
  \<open>Push\<close> may come at any time. Other threads record errors, throttle and unthrottle, and move the scheduler, all
  of it except that the graph input streams are closed.
\<close>

datatype 'a graph_action =
    Push string "'a packet"
  | Set_Bound string timestamp
  | Close_Input string
  | Close_All
  | Close_Sources
  | Node_Error status
  | Others "nat set list" scheduler

fun graph_act :: "'a graph_action \<Rightarrow> 'a calculator_graph \<Rightarrow> ('a calculator_graph \<times> 'a out_msg list) option" where
  "graph_act (Push name p) g =
     (if HasInputStream name g then do { (g, sent, _, _) \<leftarrow> AddPacket_push name p g; Some (g, sent) } else Some (g, []))"
| "graph_act (Set_Bound name t) g = do { (g, sent, _) \<leftarrow> SetInputStreamTimestampBound name t g; Some (g, sent) }"
| "graph_act (Close_Input name) g = (let (g, sent, _, _) = CloseInputStream name g in Some (g, sent))"
| "graph_act Close_All g = (let (g, sent, _) = CloseAllInputStreams g in Some (g, sent))"
| "graph_act Close_Sources g = (let (g, sent, _) = CloseAllPacketSources g in Some (g, sent))"
| "graph_act (Node_Error s) g = do { g \<leftarrow> (if ok s then Some g else RecordError s g); Some (g, []) }"
| "graph_act (Others fs sch) g =
     Some (if graph_input_streams_closed sch = graph_input_streams_closed (run_scheduler g)
       then g\<lparr>full_sets := fs, run_scheduler := sch\<rparr> else g, [])"

fun graph_run ::
    "'a graph_action list \<Rightarrow> 'a calculator_graph \<Rightarrow> ('a calculator_graph \<times> 'a out_msg list) option" where
  "graph_run [] g = Some (g, [])"
| "graph_run (a # as) g = do {
     (g, sent) \<leftarrow> graph_act a g;
     (g, sent') \<leftarrow> graph_run as g;
     Some (g, sent @ sent') }"

subsection \<open>What the mirrors receive\<close>

fun sent_to :: "mirror \<Rightarrow> 'a out_msg list \<Rightarrow> 'a packet list" where
  "sent_to mi [] = []"
| "sent_to mi (MsgAddPackets mi' ps # ms) = (if mi' = mi then ps @ sent_to mi ms else sent_to mi ms)"
| "sent_to mi (_ # ms) = sent_to mi ms"

definition takes_packet :: "'a output_stream_spec \<Rightarrow> 'a packet \<Rightarrow> bool" where
  "takes_packet spec p \<longleftrightarrow> \<not> packet_IsEmpty p \<and> IsAllowedInStream (packet_timestamp p) \<and> spec_packet_type spec p = OkStatus"

fun pushed :: "string \<Rightarrow> 'a graph_action list \<Rightarrow> 'a packet list" where
  "pushed name [] = []"
| "pushed name (Push n p # as) = (if n = name then p # pushed name as else pushed name as)"
| "pushed name (_ # as) = pushed name as"

lemma sent_to_append [simp]: "sent_to mi (ms @ ms') = sent_to mi ms @ sent_to mi ms'"
  by (induction ms rule: sent_to.induct) auto

lemma pushed_append [simp]: "pushed name (as @ bs) = pushed name as @ pushed name bs"
  by (induction as rule: pushed.induct) auto

lemma sent_to_errors [simp]: "sent_to mi (map MsgError es) = []"
  by (induction es) auto

lemma sent_to_bounds [simp]: "sent_to mi (map (\<lambda>m. MsgSetNextTimestampBound m t) ms) = []"
  by (induction ms) auto

lemma stream_errors_append [simp]: "stream_errors (ms @ ms') = stream_errors ms @ stream_errors ms'"
  by (induction ms rule: stream_errors.induct) auto

lemma stream_errors_map [simp]: "stream_errors (map MsgError es) = es"
  by (induction es) auto

lemma to_mirrors_simps [simp]:
  "to_mirrors [] = []"
  "to_mirrors (map MsgError es) = []"
  "to_mirrors (ms @ ms') = to_mirrors ms @ to_mirrors ms'"
  by (auto simp: to_mirrors_def)

lemma sent_to_propagate:
  assumes "PropagateUpdatesToMirrors m b sh = (m', sh', msgs)" "distinct (mirrors m)"
  shows "sent_to mi msgs = (if mi \<in> set (mirrors m) then output_queue sh else [])"
proof -
  define f where "f \<equiv> \<lambda>mi. (if output_queue sh \<noteq> [] then [MsgAddPackets mi (output_queue sh)] else []) @
      (if b \<noteq> Timestamp_Unset \<and> (output_queue sh \<noteq> [] \<longrightarrow> NextAllowedInStream (packet_timestamp (last (output_queue sh))) \<noteq> b)
       then [MsgSetNextTimestampBound mi b] else [])"
  have msgs: "msgs = concat (map f (mirrors m))"
    using assms(1) by (simp add: PropagateUpdatesToMirrors_def Let_def f_def)
  have one: "sent_to mi (f mi') = (if mi' = mi then output_queue sh else [])" for mi' by (simp add: f_def)
  have "distinct ms \<Longrightarrow> sent_to mi (concat (map f ms)) = (if mi \<in> set ms then output_queue sh else [])" for ms
    by (induction ms) (auto simp: one)
  with msgs assms(2) show ?thesis by simp
qed

lemma propagate_frame:
  assumes "PropagateUpdatesToMirrors m b sh = (m', sh', msgs)"
  shows "output_stream_spec m' = output_stream_spec m" "mirrors m' = mirrors m" "osm_closed m' = osm_closed m"
    "sh' = sh\<lparr>output_queue := []\<rparr>" "stream_errors msgs = []" "to_mirrors msgs = msgs"
proof -
  show "output_stream_spec m' = output_stream_spec m" "mirrors m' = mirrors m" "osm_closed m' = osm_closed m"
    "sh' = sh\<lparr>output_queue := []\<rparr>" using assms by (auto simp: PropagateUpdatesToMirrors_def Let_def split: if_splits)
  have "\<forall>x \<in> set msgs. \<not> is_stream_error x"
    using assms by (auto simp: PropagateUpdatesToMirrors_def Let_def split: if_splits)
  then show "to_mirrors msgs = msgs" "stream_errors msgs = []"
    by (simp_all add: to_mirrors_def) (induction msgs rule: stream_errors.induct, auto)
qed

subsection \<open>The operations of one stream\<close>

definition open_input :: "'a graph_input \<Rightarrow> bool" where
  "open_input s \<longleftrightarrow> \<not> shard_closed (gis_shard s) \<and> error_callback (output_stream_spec (gis_manager s)) \<and>
     distinct (mirrors (gis_manager s))"

abbreviation input_queue :: "'a graph_input \<Rightarrow> 'a packet list" where
  "input_queue s \<equiv> output_queue (gis_shard s)"

abbreviation input_mirrors :: "'a graph_input \<Rightarrow> mirror list" where
  "input_mirrors s \<equiv> mirrors (gis_manager s)"

abbreviation input_spec :: "'a graph_input \<Rightarrow> 'a output_stream_spec" where
  "input_spec s \<equiv> output_stream_spec (gis_manager s)"

definition same_input :: "'a graph_input \<Rightarrow> 'a graph_input \<Rightarrow> bool" where
  "same_input s s' \<longleftrightarrow> input_spec s' = input_spec s \<and> input_mirrors s' = input_mirrors s \<and>
     shard_closed (gis_shard s') = shard_closed (gis_shard s)"

lemma same_input_refl [simp]: "same_input s s"
  by (simp add: same_input_def)

lemma same_input_trans: "same_input s s' \<Longrightarrow> same_input s' s'' \<Longrightarrow> same_input s s''"
  by (simp add: same_input_def)

lemma same_input_open: "same_input s s' \<Longrightarrow> open_input s' = open_input s"
  by (simp add: same_input_def open_input_def)

lemma shard_bound_result:
  assumes "error_callback spec"
  shows "\<exists>sh' es. shard_SetNextTimestampBound spec sh t = Some (sh', map MsgError es) \<and>
    output_queue sh' = output_queue sh \<and> shard_closed sh' = shard_closed sh \<and> length es \<le> 1 \<and> OkStatus \<notin> set es"
proof (cases "\<not> IsAllowedInStream t \<and> t \<noteq> Timestamp_OneOverPostStream")
  case True
  then have "shard_SetNextTimestampBound spec sh t = Some (sh, map MsgError [ErrorStatus InvalidArgument])"
    using assms by (simp add: shard_SetNextTimestampBound_def TriggerErrorCallback_def)
  then show ?thesis by (intro exI [of _ sh] exI [of _ "[ErrorStatus InvalidArgument]"]) simp
next
  case False
  let ?sh = "sh\<lparr>shard_next_timestamp_bound := t, updated_next_timestamp_bound := t\<rparr>"
  have "shard_SetNextTimestampBound spec sh t = Some (?sh, map MsgError [])"
    using False by (auto simp: shard_SetNextTimestampBound_def)
  then show ?thesis by (intro exI [of _ ?sh] exI [of _ "[]"]) simp
qed

lemma shard_add_result:
  assumes "error_callback spec" "\<not> shard_closed sh"
  shows "\<exists>sh' es. shard_AddPacket spec sh p = Some (sh', map MsgError es) \<and>
    output_queue sh' = output_queue sh @ (if takes_packet spec p then [p] else []) \<and> \<not> shard_closed sh' \<and>
    length es \<le> 1 \<and> OkStatus \<notin> set es"
proof (cases "packet_IsEmpty p")
  case True
  obtain sh' es where "shard_SetNextTimestampBound spec sh (NextAllowedInStream (packet_timestamp p)) = Some (sh', map MsgError es)"
    "output_queue sh' = output_queue sh" "shard_closed sh' = shard_closed sh" "length es \<le> 1" "OkStatus \<notin> set es"
    using shard_bound_result [OF assms(1)] by blast
  then show ?thesis using True assms(2)
    by (intro exI [of _ sh'] exI [of _ es]) (simp add: shard_AddPacket_def AddPacketInternal_def takes_packet_def)
next
  case False
  show ?thesis
  proof (cases "takes_packet spec p")
    case True
    let ?b = "NextAllowedInStream (packet_timestamp p)"
    let ?sh = "sh\<lparr>output_queue := output_queue sh @ [p], shard_next_timestamp_bound := ?b, updated_next_timestamp_bound := ?b\<rparr>"
    have "shard_AddPacket spec sh p = Some (?sh, map MsgError [])"
      using True assms(2) by (simp add: shard_AddPacket_def AddPacketInternal_def takes_packet_def Let_def)
    then show ?thesis using True assms(2) by (intro exI [of _ ?sh] exI [of _ "[]"]) simp
  next
    case refused: False
    then have "\<exists>c. AddPacketInternal spec sh p = Some (sh, ErrorStatus c, [])"
      using False assms(2) by (cases "spec_packet_type spec p") (auto simp: AddPacketInternal_def takes_packet_def)
    then obtain c where "shard_AddPacket spec sh p = Some (sh, map MsgError [ErrorStatus c])"
      using assms(1) by (auto simp: shard_AddPacket_def TriggerErrorCallback_def)
    then show ?thesis using refused assms(2) by (intro exI [of _ sh] exI [of _ "[ErrorStatus c]"]) simp
  qed
qed

text \<open>One operation: which packets the stream takes, and what it sends of them.\<close>

definition input_effect :: "'a graph_input \<Rightarrow> 'a packet list \<Rightarrow> 'a graph_input \<Rightarrow> 'a out_msg list \<Rightarrow> bool" where
  "input_effect s new s' sent \<longleftrightarrow> same_input s s' \<and>
     (\<forall>mi \<in> set (input_mirrors s). sent_to mi sent @ input_queue s' = input_queue s @ new) \<and>
     (\<forall>mi \<in> - set (input_mirrors s). sent_to mi sent = []) \<and>
     (gis_IsClosed s \<longrightarrow> gis_IsClosed s') \<and>
     (gis_IsClosed s' \<and> \<not> gis_IsClosed s \<longrightarrow>
       (\<forall>mi \<in> set (input_mirrors s). MsgSetNextTimestampBound mi Timestamp_Done \<in> set sent))"

lemma input_effectD:
  assumes "input_effect s new s' sent"
  shows "same_input s s'" "mi \<in> set (input_mirrors s) \<Longrightarrow> sent_to mi sent @ input_queue s' = input_queue s @ new"
    "mi \<notin> set (input_mirrors s) \<Longrightarrow> sent_to mi sent = []"
  using assms by (simp_all add: input_effect_def)

lemma gis_AddPacket_result:
  assumes "open_input s"
  shows "\<exists>s' es. gis_AddPacket p s = Some (s', map MsgError es) \<and> length es \<le> 1 \<and> OkStatus \<notin> set es \<and>
    input_effect s (if takes_packet (input_spec s) p then [p] else []) s' [] \<and> gis_IsClosed s' = gis_IsClosed s"
proof -
  obtain sh es where "shard_AddPacket (input_spec s) (gis_shard s) p = Some (sh, map MsgError es)"
    "output_queue sh = input_queue s @ (if takes_packet (input_spec s) p then [p] else [])" "\<not> shard_closed sh"
    "length es \<le> 1" "OkStatus \<notin> set es"
    using shard_add_result [of "input_spec s" "gis_shard s" p] assms by (auto simp: open_input_def)
  then show ?thesis using assms
    by (intro exI [of _ "s\<lparr>gis_shard := sh\<rparr>"] exI [of _ es])
       (simp add: gis_AddPacket_def input_effect_def same_input_def open_input_def gis_IsClosed_def)
qed

lemma gis_SetNextTimestampBound_result:
  assumes "open_input s"
  shows "\<exists>s' es. gis_SetNextTimestampBound t s = Some (s', map MsgError es) \<and> length es \<le> 1 \<and> OkStatus \<notin> set es \<and>
    input_effect s [] s' [] \<and> gis_IsClosed s' = gis_IsClosed s"
proof -
  obtain sh es where "shard_SetNextTimestampBound (input_spec s) (gis_shard s) t = Some (sh, map MsgError es)"
    "output_queue sh = input_queue s" "shard_closed sh = shard_closed (gis_shard s)" "length es \<le> 1" "OkStatus \<notin> set es"
    using shard_bound_result [of "input_spec s" "gis_shard s" t] assms by (auto simp: open_input_def)
  then show ?thesis
    by (intro exI [of _ "s\<lparr>gis_shard := sh\<rparr>"] exI [of _ es])
       (simp add: gis_SetNextTimestampBound_def input_effect_def same_input_def gis_IsClosed_def)
qed

lemma gis_Propagate_result:
  assumes "open_input s" "gis_PropagateUpdatesToMirrors s = (s', msgs)"
  shows "input_effect s [] s' msgs" "input_queue s' = []" "gis_IsClosed s' = gis_IsClosed s"
proof -
  obtain m sh where p: "PropagateUpdatesToMirrors (gis_manager s) (shard_next_timestamp_bound (gis_shard s)) (gis_shard s) = (m, sh, msgs)"
    "s' = \<lparr>gis_manager = m, gis_shard = sh\<rparr>" using assms(2) by (auto simp: gis_PropagateUpdatesToMirrors_def split: prod.splits)
  have "sent_to mi msgs = (if mi \<in> set (input_mirrors s) then input_queue s else [])" for mi
    using sent_to_propagate [OF p(1)] assms(1) by (simp add: open_input_def)
  with propagate_frame [OF p(1)] p(2) show "input_effect s [] s' msgs" "input_queue s' = []" "gis_IsClosed s' = gis_IsClosed s"
    by (simp_all add: input_effect_def same_input_def gis_IsClosed_def)
qed

lemma gis_Close_result:
  assumes "open_input s" "gis_Close s = (s', msgs)"
  shows "input_effect s [] s' msgs" "input_queue s' = []" "gis_IsClosed s'"
proof -
  obtain m sh msgs1 where p: "(if input_queue s \<noteq> [] then PropagateUpdatesToMirrors (gis_manager s) Timestamp_Done (gis_shard s)
      else (gis_manager s, gis_shard s, [])) = (m, sh, msgs1)" by (metis prod_cases3)
  have frame: "output_stream_spec m = input_spec s" "mirrors m = input_mirrors s" "osm_closed m = osm_closed (gis_manager s)"
    "sh = (gis_shard s)\<lparr>output_queue := []\<rparr>"
    using p propagate_frame [of "gis_manager s" Timestamp_Done "gis_shard s"] by (auto split: if_splits)
  have sent: "sent_to mi msgs1 = (if mi \<in> set (input_mirrors s) then input_queue s else [])" for mi
    using p sent_to_propagate [of "gis_manager s" Timestamp_Done "gis_shard s"] assms(1)
    by (auto simp: open_input_def split: if_splits)
  have s': "s' = \<lparr>gis_manager = fst (osm_Close m), gis_shard = sh\<rparr>" "msgs = msgs1 @ snd (osm_Close m)"
    using assms(2) p by (auto simp: gis_Close_def split: prod.splits)
  with frame sent show "input_effect s [] s' msgs" "input_queue s' = []" "gis_IsClosed s'"
    by (auto simp: input_effect_def same_input_def gis_IsClosed_def osm_Close_def)
qed

subsection \<open>The invariant of a run\<close>

text \<open>
  \<open>ss0\<close> are the streams at the start of the run, \<open>ss\<close> the streams now, after the actions \<open>as\<close>; \<open>err\<close> is whether
  an error has been recorded.
\<close>

definition input_served ::
    "string \<Rightarrow> 'a graph_input \<Rightarrow> 'a graph_action list \<Rightarrow> bool \<Rightarrow> 'a out_msg list \<Rightarrow> 'a graph_input \<Rightarrow> bool" where
  "input_served n s0 as err sent s \<longleftrightarrow> same_input s0 s \<and> (\<not> err \<longrightarrow> input_queue s = []) \<and>
     (\<forall>mi \<in> set (input_mirrors s0).
       sent_to mi sent @ input_queue s = filter (takes_packet (input_spec s0)) (pushed n as) \<and>
       (gis_IsClosed s \<longrightarrow> MsgSetNextTimestampBound mi Timestamp_Done \<in> set sent))"

definition all_mirrors_of :: "(string \<times> 'a graph_input) list \<Rightarrow> mirror list" where
  "all_mirrors_of ss = concat (map (\<lambda>x. input_mirrors (snd x)) ss)"

definition inputs_start :: "(string \<times> 'a graph_input) list \<Rightarrow> bool" where
  "inputs_start ss0 \<longleftrightarrow> distinct (map fst ss0) \<and> distinct (all_mirrors_of ss0) \<and>
     (\<forall>(n, s) \<in> set ss0. open_input s \<and> input_queue s = [] \<and> \<not> gis_IsClosed s)"

definition inputs_inv ::
    "(string \<times> 'a graph_input) list \<Rightarrow> 'a graph_action list \<Rightarrow> bool \<Rightarrow> 'a out_msg list \<Rightarrow>
     (string \<times> 'a graph_input) list \<Rightarrow> bool" where
  "inputs_inv ss0 as err sent ss \<longleftrightarrow> map fst ss = map fst ss0 \<and>
     list_all2 (\<lambda>(n, s0) (_, s). input_served n s0 as err sent s) ss0 ss"

definition closed_inputs :: "(string \<times> 'a graph_input) list \<Rightarrow> nat" where
  "closed_inputs ss = length (filter (\<lambda>(n, s). gis_IsClosed s) ss)"

definition run_inv ::
    "(string \<times> 'a graph_input) list \<Rightarrow> 'a graph_action list \<Rightarrow> 'a calculator_graph \<Rightarrow> 'a out_msg list \<Rightarrow> bool" where
  "run_inv ss0 as g sent \<longleftrightarrow> inputs_inv ss0 as (run_has_error g) sent (graph_inputs g) \<and>
     num_closed_graph_inputs g = closed_inputs (graph_inputs g) \<and>
     (graph_input_streams_closed (run_scheduler g) \<longleftrightarrow> closed_inputs (graph_inputs g) = length (graph_inputs g)) \<and>
     (run_has_error g \<longleftrightarrow> run_errors g \<noteq> []) \<and> OkStatus \<notin> set (run_errors g) \<and> length (run_errors g) \<le> length as"

lemma input_served_effect:
  assumes "input_served n s0 as err sent s" "input_effect s new s' out" "\<not> err' \<longrightarrow> input_queue s' = []"
    and "filter (takes_packet (input_spec s0)) (pushed n bs) = new"
  shows "input_served n s0 (as @ bs) err' (sent @ out) s'"
proof -
  have same: "same_input s0 s" and mirrors: "input_mirrors s = input_mirrors s0"
    using assms(1) by (auto simp: input_served_def same_input_def)
  have "sent_to mi (sent @ out) @ input_queue s' = filter (takes_packet (input_spec s0)) (pushed n (as @ bs)) \<and>
      (gis_IsClosed s' \<longrightarrow> MsgSetNextTimestampBound mi Timestamp_Done \<in> set (sent @ out))" if mi: "mi \<in> set (input_mirrors s0)" for mi
    using assms(1,2,4) mi mirrors input_effectD(2) [OF assms(2), of mi]
    by (auto simp: input_served_def input_effect_def)
  then show ?thesis using assms(3) same_input_trans [OF same input_effectD(1) [OF assms(2)]] by (simp add: input_served_def)
qed

lemma input_served_other:
  assumes "input_served n s0 as err sent s" "\<forall>mi \<in> set (input_mirrors s0). sent_to mi out = []" "pushed n bs = []" "err \<longrightarrow> err'"
  shows "input_served n s0 (as @ bs) err' (sent @ out) s"
  using assms by (auto simp: input_served_def)

lemma update_key_nth:
  assumes "distinct (map fst xs)" "i < length xs" "fst (xs ! i) = k"
  shows "AList.update k v xs = xs[i := (k, v)]"
  using assms
proof (induction xs arbitrary: i)
  case (Cons x xs)
  then show ?case by (cases x; cases i) (force simp: in_set_conv_nth)+
qed simp

lemma map_of_nth:
  assumes "distinct (map fst xs)" "map_of xs k = Some v"
  shows "\<exists>i < length xs. xs ! i = (k, v)"
  using map_of_SomeD [OF assms(2)] by (auto simp: in_set_conv_nth)

lemma inputs_inv_nth:
  "inputs_inv ss0 as err sent ss \<longleftrightarrow> length ss = length ss0 \<and>
     (\<forall>i < length ss0. fst (ss ! i) = fst (ss0 ! i) \<and> input_served (fst (ss0 ! i)) (snd (ss0 ! i)) as err sent (snd (ss ! i)))"
proof -
  have "map fst ss = map fst ss0 \<longleftrightarrow> length ss = length ss0 \<and> (\<forall>i < length ss0. fst (ss ! i) = fst (ss0 ! i))"
    by (auto simp: list_eq_iff_nth_eq)
  then show ?thesis
    by (auto simp: inputs_inv_def list_all2_conv_all_nth split_beta)
qed

lemma start_mirrors:
  assumes "inputs_start ss0" "i < length ss0" "j < length ss0"
    and "mi \<in> set (input_mirrors (snd (ss0 ! i)))" "mi \<in> set (input_mirrors (snd (ss0 ! j)))"
  shows "i = j"
  using assms distinct_concat_disjoint [of "map (\<lambda>x. input_mirrors (snd x)) ss0" i j mi]
  by (simp add: inputs_start_def all_mirrors_of_def)

lemma start_names:
  assumes "inputs_start ss0" "inputs_inv ss0 as err sent ss"
  shows "distinct (map fst ss)"
  using assms by (simp add: inputs_start_def inputs_inv_def)

lemma inputs_inv_open:
  assumes "inputs_start ss0" "inputs_inv ss0 as err sent ss" "(n, s) \<in> set ss"
  shows "open_input s"
proof -
  obtain i where i: "i < length ss" "ss ! i = (n, s)" using assms(3) by (auto simp: in_set_conv_nth)
  then have "same_input (snd (ss0 ! i)) s" "snd (ss0 ! i) \<in> snd ` set ss0"
    using assms(2) by (auto simp: inputs_inv_nth input_served_def)
  then show ?thesis using assms(1) same_input_open by (fastforce simp: inputs_start_def)
qed

lemma inputs_inv_update:
  assumes "inputs_start ss0" "inputs_inv ss0 as err sent ss" "map_of ss n = Some s"
    and "input_effect s new s' out" "\<not> err' \<longrightarrow> input_queue s' = []" "err \<longrightarrow> err'"
    and "filter (takes_packet (input_spec s)) (pushed n bs) = new" "\<And>m. m \<noteq> n \<Longrightarrow> pushed m bs = []"
  shows "inputs_inv ss0 (as @ bs) err' (sent @ out) (AList.update n s' ss)"
proof -
  have names: "distinct (map fst ss)" using start_names assms(1,2) by blast
  obtain i where i: "i < length ss" "ss ! i = (n, s)" using map_of_nth [OF names assms(3)] by blast
  have inv: "length ss = length ss0" "\<And>j. j < length ss0 \<Longrightarrow> fst (ss ! j) = fst (ss0 ! j)"
    "\<And>j. j < length ss0 \<Longrightarrow> input_served (fst (ss0 ! j)) (snd (ss0 ! j)) as err sent (snd (ss ! j))"
    using assms(2) by (auto simp: inputs_inv_nth)
  have upd: "AList.update n s' ss = ss[i := (n, s')]" using update_key_nth [OF names i(1)] i(2) by simp
  have same: "input_mirrors s = input_mirrors (snd (ss0 ! i))" "input_spec s = input_spec (snd (ss0 ! i))"
    using inv(3) [of i] i inv(1) by (auto simp: input_served_def same_input_def)
  have n: "fst (ss0 ! i) = n" using inv(1,2) i by (metis fst_conv)
  have "input_served (fst (ss0 ! j)) (snd (ss0 ! j)) (as @ bs) err' (sent @ out) (snd (ss[i := (n, s')] ! j))" if j: "j < length ss0" for j
  proof (cases "j = i")
    case True
    then show ?thesis using input_served_effect [OF _ assms(4,5), of n "snd (ss0 ! i)" as err sent bs] inv(3) [OF j] assms(7) same n i inv(1)
      by simp
  next
    case False
    have "sent_to mi out = []" if "mi \<in> set (input_mirrors (snd (ss0 ! j)))" for mi
    proof -
      have "mi \<notin> set (input_mirrors s)" using start_mirrors [OF assms(1) j, of i mi] that False i inv(1) same by auto
      then show ?thesis by (rule input_effectD(3) [OF assms(4)])
    qed
    moreover have "fst (ss0 ! j) \<noteq> n" using names False i j inv(1,2) by (metis distinct_conv_nth fst_conv length_map nth_map)
    ultimately show ?thesis using input_served_other [OF inv(3) [OF j], of out bs err'] False assms(6,8) by simp
  qed
  then show ?thesis unfolding upd inputs_inv_nth using inv(1,2) n i by (simp add: nth_list_update)
qed

lemma inputs_inv_error:
  assumes "inputs_inv ss0 as err sent ss" "err \<longrightarrow> err'" "\<And>m. pushed m bs = []"
  shows "inputs_inv ss0 (as @ bs) err' sent ss"
proof -
  have "input_served n s0 (as @ bs) err' sent s" if "input_served n s0 as err sent s" for n s0 s
    using that assms(2,3) by (auto simp: input_served_def)
  then show ?thesis using assms(1) by (simp add: inputs_inv_nth)
qed

text \<open>Closing all streams closes each, and sends to its mirrors what closing it alone would send.\<close>

definition closed_by :: "'a out_msg list \<Rightarrow> 'a graph_input \<Rightarrow> 'a graph_input \<Rightarrow> bool" where
  "closed_by out s s' \<longleftrightarrow> (\<exists>out'. input_effect s [] s' out' \<and> set out' \<subseteq> set out \<and>
     (\<forall>mi \<in> set (input_mirrors s). sent_to mi out = sent_to mi out') \<and> input_queue s' = [] \<and> gis_IsClosed s')"

lemma closed_by_append:
  assumes "closed_by out s s'" "\<And>mi. mi \<in> set (input_mirrors s) \<Longrightarrow> sent_to mi out1 = []"
  shows "closed_by (out1 @ out) s s'"
proof -
  obtain out' where "input_effect s [] s' out'" "set out' \<subseteq> set out" "\<forall>mi \<in> set (input_mirrors s). sent_to mi out = sent_to mi out'"
    "input_queue s' = []" "gis_IsClosed s'" using assms(1) by (auto simp: closed_by_def)
  with assms(2) show ?thesis unfolding closed_by_def by (intro exI [of _ out']) auto
qed

lemma close_inputs_result:
  assumes "\<forall>x \<in> set ss. open_input (snd x)" "distinct (all_mirrors_of ss)" "close_inputs ss = (ss', out)"
  shows "map fst ss' = map fst ss" "list_all2 (\<lambda>x x'. closed_by out (snd x) (snd x')) ss ss'"
    "mi \<notin> set (all_mirrors_of ss) \<Longrightarrow> sent_to mi out = []"
proof -
  have "map fst ss' = map fst ss \<and> list_all2 (\<lambda>x x'. closed_by out (snd x) (snd x')) ss ss' \<and>
      (\<forall>mi \<in> - set (all_mirrors_of ss). sent_to mi out = [])"
    using assms
  proof (induction ss arbitrary: ss' out)
    case Nil
    then show ?case by simp
  next
    case (Cons x ss)
    obtain n s where x: "x = (n, s)" by (cases x)
    obtain s' out1 where c1: "gis_Close s = (s', out1)" by (cases "gis_Close s")
    obtain ss1 out2 where c2: "close_inputs ss = (ss1, out2)" by (cases "close_inputs ss")
    have ss': "ss' = (n, s') # ss1" "out = out1 @ out2" using Cons.prems(3) x c1 c2 by auto
    have open_s: "open_input s" using Cons.prems(1) x by simp
    note e = gis_Close_result [OF open_s c1]
    have disj: "set (input_mirrors s) \<inter> set (all_mirrors_of ss) = {}" and dist: "distinct (all_mirrors_of ss)"
      using Cons.prems(2) x by (simp_all add: all_mirrors_of_def)
    have opens: "\<forall>x \<in> set ss. open_input (snd x)" using Cons.prems(1) by simp
    note IH = Cons.IH [OF opens dist c2]
    have own: "sent_to mi out2 = []" if "mi \<in> set (input_mirrors s)" for mi
      using IH disj that by blast
    have "closed_by out s s'" unfolding closed_by_def ss'(2) using e own by (intro exI [of _ out1]) simp
    moreover have "list_all2 (\<lambda>x x'. closed_by out (snd x) (snd x')) ss ss1"
    proof (rule list.rel_mono_strong)
      show "list_all2 (\<lambda>x x'. closed_by out2 (snd x) (snd x')) ss ss1" using IH by blast
      fix z z' assume z: "z \<in> set ss" "closed_by out2 (snd z) (snd z')"
      have "sent_to mi out1 = []" if "mi \<in> set (input_mirrors (snd z))" for mi
      proof (rule input_effectD(3) [OF e(1)])
        have "mi \<in> set (all_mirrors_of ss)" using that z(1) by (auto simp: all_mirrors_of_def)
        then show "mi \<notin> set (input_mirrors s)" using disj by blast
      qed
      then show "closed_by out (snd z) (snd z')" using closed_by_append [OF z(2)] ss'(2) by simp
    qed
    moreover have "\<forall>mi \<in> - set (all_mirrors_of (x # ss)). sent_to mi out = []"
    proof
      fix mi assume "mi \<in> - set (all_mirrors_of (x # ss))"
      then have "mi \<notin> set (input_mirrors s)" "mi \<in> - set (all_mirrors_of ss)" by (simp_all add: x all_mirrors_of_def)
      then show "sent_to mi out = []" using input_effectD(3) [OF e(1)] IH by (simp add: ss'(2))
    qed
    ultimately show ?case using IH x ss' by simp
  qed
  then show "map fst ss' = map fst ss" "list_all2 (\<lambda>x x'. closed_by out (snd x) (snd x')) ss ss'"
    "mi \<notin> set (all_mirrors_of ss) \<Longrightarrow> sent_to mi out = []" by auto
qed

lemma inputs_inv_mirrors:
  assumes "inputs_inv ss0 as err sent ss"
  shows "all_mirrors_of ss = all_mirrors_of ss0"
proof -
  have "length ss = length ss0" "\<And>i. i < length ss0 \<Longrightarrow> input_mirrors (snd (ss ! i)) = input_mirrors (snd (ss0 ! i))"
    using assms by (simp_all add: inputs_inv_nth input_served_def same_input_def)
  then have "map (\<lambda>x. input_mirrors (snd x)) ss = map (\<lambda>x. input_mirrors (snd x)) ss0"
    by (intro nth_equalityI) simp_all
  then show ?thesis by (simp add: all_mirrors_of_def)
qed

lemma inputs_inv_close:
  assumes "inputs_start ss0" "inputs_inv ss0 as err sent ss" "close_inputs ss = (ss', out)" "\<And>m. pushed m bs = []"
  shows "inputs_inv ss0 (as @ bs) err (sent @ out) ss'" "closed_inputs ss' = length ss" "length ss' = length ss"
    "\<forall>x \<in> set ss'. input_queue (snd x) = []"
proof -
  have len: "length ss = length ss0" using assms(2) by (simp add: inputs_inv_nth)
  have opens: "\<forall>x \<in> set ss. open_input (snd x)" using inputs_inv_open [OF assms(1,2)] by force
  have dist: "distinct (all_mirrors_of ss)" using assms(1) inputs_inv_mirrors [OF assms(2)] by (simp add: inputs_start_def)
  note c = close_inputs_result [OF opens dist assms(3)]
  have len': "length ss' = length ss" using arg_cong [OF c(1), of length] by simp
  have one: "closed_by out (snd (ss ! i)) (snd (ss' ! i))" if "i < length ss" for i
    using c(2) that by (simp add: list_all2_conv_all_nth)
  have "input_served n s0 (as @ bs) err (sent @ out) s'"
    if ok: "input_served n s0 as err sent s" and cb: "closed_by out s s'" for n s0 s s'
  proof -
    obtain out' where o: "input_effect s [] s' out'" "set out' \<subseteq> set out" "\<forall>mi \<in> set (input_mirrors s). sent_to mi out = sent_to mi out'"
      "input_queue s' = []" "gis_IsClosed s'" using cb by (auto simp: closed_by_def)
    have "input_served n s0 (as @ bs) err (sent @ out') s'"
      using input_served_effect [OF ok o(1), of err bs] o(4) assms(4) by simp
    moreover have "input_mirrors s = input_mirrors s0" using ok by (simp add: input_served_def same_input_def)
    ultimately show ?thesis using o(2,3) by (auto simp: input_served_def)
  qed
  moreover have "fst (ss' ! i) = fst (ss ! i)" if "i < length ss" for i
    using c(1) that len' by (metis nth_map)
  ultimately show "inputs_inv ss0 (as @ bs) err (sent @ out) ss'"
    using assms(2) one len len' by (auto simp: inputs_inv_nth)
  have "filter (\<lambda>(n, s). gis_IsClosed s) ss' = ss'"
    using one len' by (auto simp: filter_id_conv in_set_conv_nth closed_by_def) (metis snd_conv)
  then show "closed_inputs ss' = length ss" "length ss' = length ss" using len' by (simp_all add: closed_inputs_def)
  show "\<forall>x \<in> set ss'. input_queue (snd x) = []" using one len'
    by (auto simp: in_set_conv_nth closed_by_def) (metis snd_conv)
qed

lemma closed_inputs_update:
  assumes "distinct (map fst ss)" "map_of ss n = Some s"
  shows "closed_inputs (AList.update n s' ss) + (if gis_IsClosed s then 1 else 0) =
    closed_inputs ss + (if gis_IsClosed s' then 1 else 0)"
  using assms
proof (induction ss)
  case (Cons x ss)
  then show ?case by (cases x) (auto simp: closed_inputs_def split: if_splits)
qed simp

lemma update_length: "map_of ss n = Some s \<Longrightarrow> length (AList.update n s' ss) = length ss"
  by (induction ss) auto

subsection \<open>Each action keeps the invariant\<close>

definition with_errors :: "status list \<Rightarrow> 'a calculator_graph \<Rightarrow> 'a calculator_graph" where
  "with_errors es g = (if es = [] then g
     else g\<lparr>run_errors := run_errors g @ es, run_has_error := True, run_scheduler := (run_scheduler g)\<lparr>has_error := True\<rparr>,
       graph_outputs := map NotifyError (graph_outputs g)\<rparr>)"

lemma record_one:
  assumes "length es \<le> 1"
  shows "record_errors es g =
    (if es = [] \<or> length (run_errors g) < kMaxNumAccumulatedErrors then Some (with_errors es g) else None)"
  using assms by (cases es) (auto simp: RecordError_def with_errors_def)

lemma with_errors_simps [simp]:
  "graph_inputs (with_errors es g) = graph_inputs g"
  "num_closed_graph_inputs (with_errors es g) = num_closed_graph_inputs g"
  "graph_input_streams_closed (run_scheduler (with_errors es g)) = graph_input_streams_closed (run_scheduler g)"
  "run_errors (with_errors es g) = run_errors g @ es"
  "run_has_error (with_errors es g) \<longleftrightarrow> run_has_error g \<or> es \<noteq> []"
  "graph_info (with_errors es g) = graph_info g"
  "run_side_packets (with_errors es g) = run_side_packets g"
  by (auto simp: with_errors_def)

lemma replace_input_simps [simp]:
  "graph_inputs (replace_input n s g) = AList.update n s (graph_inputs g)"
  "num_closed_graph_inputs (replace_input n s g) = num_closed_graph_inputs g"
  "run_scheduler (replace_input n s g) = run_scheduler g"
  "run_errors (replace_input n s g) = run_errors g"
  "run_has_error (replace_input n s g) = run_has_error g"
  by (simp_all add: replace_input_def)

lemma HandleIdle_closed [simp]: "graph_input_streams_closed (fst (HandleIdle s)) = graph_input_streams_closed s"
  by (simp add: HandleIdle_def)

text \<open>
  The effect of an action on one stream, possibly with an error. Closing is the only action that changes
  whether the stream is closed, and tells the scheduler when it was the last one.
\<close>

lemma run_inv_update:
  assumes "inputs_start ss0" "run_inv ss0 as g sent" "map_of (graph_inputs g) n = Some s" "input_effect s new s' out"
    and "filter (takes_packet (input_spec s)) (pushed n [a]) = new" "\<And>m. m \<noteq> n \<Longrightarrow> pushed m [a] = []"
    and "length es \<le> 1" "OkStatus \<notin> set es" "run_has_error g \<or> es \<noteq> [] \<or> input_queue s' = []"
    and "graph_inputs g' = AList.update n s' (graph_inputs g)" "run_errors g' = run_errors g @ es"
    and "run_has_error g' \<longleftrightarrow> run_has_error g \<or> es \<noteq> []"
    and "num_closed_graph_inputs g' = num_closed_graph_inputs g + (if gis_IsClosed s' \<and> \<not> gis_IsClosed s then 1 else 0)"
    and "graph_input_streams_closed (run_scheduler g') \<longleftrightarrow> graph_input_streams_closed (run_scheduler g) \<or>
      gis_IsClosed s' \<and> \<not> gis_IsClosed s \<and> num_closed_graph_inputs g' = length (graph_inputs g)"
  shows "run_inv ss0 (as @ [a]) g' (sent @ out)"
proof -
  have inv: "inputs_inv ss0 as (run_has_error g) sent (graph_inputs g)" using assms(2) unfolding run_inv_def by blast
  have names: "distinct (map fst (graph_inputs g))" by (rule start_names [OF assms(1) inv])
  have "inputs_inv ss0 (as @ [a]) (run_has_error g') (sent @ out) (graph_inputs g')"
    unfolding assms(10) by (rule inputs_inv_update [OF assms(1) inv assms(3,4) _ _ assms(5,6)]) (use assms(9,12) in auto)
  moreover have "closed_inputs (graph_inputs g') = closed_inputs (graph_inputs g) + (if gis_IsClosed s' \<and> \<not> gis_IsClosed s then 1 else 0)"
    using closed_inputs_update [OF names assms(3), of s'] assms(4,10) by (auto simp: input_effect_def split: if_splits)
  moreover have "length (graph_inputs g') = length (graph_inputs g)" using update_length [OF assms(3)] assms(10) by simp
  moreover have "closed_inputs (graph_inputs g) \<noteq> length (graph_inputs g)" if "\<not> gis_IsClosed s"
  proof -
    have "(n, s) \<in> set (graph_inputs g)" using assms(3) by (rule map_of_SomeD)
    then have "length (filter (\<lambda>(n, s). gis_IsClosed s) (graph_inputs g)) < length (graph_inputs g)"
      using that by (intro length_filter_less) auto
    then show ?thesis by (simp add: closed_inputs_def)
  qed
  ultimately show ?thesis using assms(2,7,8,11-14) by (auto simp: run_inv_def)
qed

lemma inv_parts:
  assumes "inputs_start ss0" "run_inv ss0 as g sent" "map_of (graph_inputs g) n = Some s"
  shows "open_input s" "run_has_error g \<or> input_queue s = []"
proof -
  have inv: "inputs_inv ss0 as (run_has_error g) sent (graph_inputs g)" using assms(2) unfolding run_inv_def by blast
  show "open_input s" using inputs_inv_open [OF assms(1) inv map_of_SomeD [OF assms(3)]] .
  obtain i where "i < length (graph_inputs g)" "graph_inputs g ! i = (n, s)"
    using map_of_SomeD [OF assms(3)] by (auto simp: in_set_conv_nth)
  then show "run_has_error g \<or> input_queue s = []" using inv by (auto simp: inputs_inv_nth input_served_def)
qed

lemma push_pushed: "filter (takes_packet spec) (pushed n [Push n p]) = (if takes_packet spec p then [p] else [])"
  "m \<noteq> n \<Longrightarrow> pushed m [Push n p] = []"
  by simp_all

lemma input_effect_trans:
  assumes "input_effect s new s1 out1" "input_effect s1 [] s2 out2" "input_queue s2 = [] \<or> out1 = []"
  shows "input_effect s new s2 (out1 @ out2)"
  using assms by (auto simp: input_effect_def same_input_def)

lemma run_inv_push:
  assumes "inputs_start ss0" "run_inv ss0 as g sent"
  shows "(length (run_errors g) < kMaxNumAccumulatedErrors \<longrightarrow> graph_act (Push n p) g \<noteq> None) \<and>
    (\<forall>g' out. graph_act (Push n p) g = Some (g', out) \<longrightarrow> run_inv ss0 (as @ [Push n p]) g' (sent @ out))"
proof (cases "map_of (graph_inputs g) n")
  case None
  have inv: "inputs_inv ss0 as (run_has_error g) sent (graph_inputs g)" using assms(2) unfolding run_inv_def by blast
  have "n \<notin> fst ` set ss0" using None inv by (metis inputs_inv_def list.set_map map_of_eq_None_iff)
  then have "inputs_inv ss0 (as @ [Push n p]) (run_has_error g) sent (graph_inputs g)"
    using inv by (auto simp: inputs_inv_nth input_served_def)
  then have "run_inv ss0 (as @ [Push n p]) g sent" using assms(2) by (simp add: run_inv_def)
  then show ?thesis using None by (simp add: HasInputStream_def)
next
  case (Some s)
  note s = inv_parts [OF assms Some]
  obtain s1 es where add: "gis_AddPacket p s = Some (s1, map MsgError es)" "length es \<le> 1" "OkStatus \<notin> set es"
    "input_effect s (if takes_packet (input_spec s) p then [p] else []) s1 []" "gis_IsClosed s1 = gis_IsClosed s"
    using gis_AddPacket_result [OF s(1)] by blast
  obtain s2 out2 where pr: "gis_PropagateUpdatesToMirrors s1 = (s2, out2)" by (cases "gis_PropagateUpdatesToMirrors s1")
  have "open_input s1" using add(4) s(1) same_input_open by (auto simp: input_effect_def)
  note p2 = gis_Propagate_result [OF this pr]
  have eff2: "input_effect s (if takes_packet (input_spec s) p then [p] else []) s2 out2"
    using input_effect_trans [OF add(4) p2(1)] p2(2) by simp
  obtain sch called where sch: "AddedPacketToGraphInputStream (run_scheduler (with_errors es (replace_input n s1 g))) = (sch, called)"
    by (cases "AddedPacketToGraphInputStream (run_scheduler (with_errors es (replace_input n s1 g)))")
  have flag: "graph_input_streams_closed sch = graph_input_streams_closed (run_scheduler g)"
    using sch by (auto simp: AddedPacketToGraphInputStream_def HandleIdle_def with_errors_def split: if_splits)
  let ?g1 = "with_errors es (replace_input n s1 g)"
  let ?g2 = "(replace_input n s2 ?g1)\<lparr>run_scheduler := sch\<rparr>"
  have act: "graph_act (Push n p) g =
      (if es = [] \<or> length (run_errors g) < kMaxNumAccumulatedErrors
       then Some (if run_has_error ?g1 then (?g1, []) else (?g2, out2)) else None)"
    using Some add(1,2) pr sch by (auto simp: HasInputStream_def AddPacket_push_def record_one)
  have upd: "AList.update n s2 (AList.update n s1 (graph_inputs g)) = AList.update n s2 (graph_inputs g)"
    by (induction "graph_inputs g") auto
  have "run_inv ss0 (as @ [Push n p]) ?g1 (sent @ [])" if "run_has_error ?g1"
    by (rule run_inv_update [OF assms Some add(4) push_pushed add(2,3)]) (use that add(5) in auto)
  moreover have "run_inv ss0 (as @ [Push n p]) ?g2 (sent @ out2)" if "\<not> run_has_error ?g1"
    by (rule run_inv_update [OF assms Some eff2 push_pushed add(2,3)]) (use that p2 add(5) flag upd in auto)
  ultimately show ?thesis unfolding act by auto
qed

lemma run_inv_quiet:
  assumes "run_inv ss0 as g sent" "\<And>m. pushed m [a] = []"
    and "graph_inputs g' = graph_inputs g" "num_closed_graph_inputs g' = num_closed_graph_inputs g"
    and "graph_input_streams_closed (run_scheduler g') = graph_input_streams_closed (run_scheduler g)"
    and "run_errors g' = run_errors g @ es" "run_has_error g' \<longleftrightarrow> run_has_error g \<or> es \<noteq> []"
    and "length es \<le> 1" "OkStatus \<notin> set es"
  shows "run_inv ss0 (as @ [a]) g' sent"
proof -
  have "inputs_inv ss0 as (run_has_error g) sent (graph_inputs g)" using assms(1) unfolding run_inv_def by blast
  then have "inputs_inv ss0 (as @ [a]) (run_has_error g') sent (graph_inputs g')"
    using inputs_inv_error assms(2,3,7) by metis
  then show ?thesis using assms by (auto simp: run_inv_def)
qed

lemma run_inv_bound:
  assumes "inputs_start ss0" "run_inv ss0 as g sent"
  shows "(length (run_errors g) < kMaxNumAccumulatedErrors \<longrightarrow> graph_act (Set_Bound n t) g \<noteq> None) \<and>
    (\<forall>g' out. graph_act (Set_Bound n t) g = Some (g', out) \<longrightarrow> run_inv ss0 (as @ [Set_Bound n t]) g' (sent @ out))"
proof (cases "map_of (graph_inputs g) n")
  case None
  have "run_inv ss0 (as @ [Set_Bound n t]) g sent" by (rule run_inv_quiet [OF assms(2), where es = "[]"]) simp_all
  then show ?thesis using None by (simp add: SetInputStreamTimestampBound_def)
next
  case (Some s)
  note s = inv_parts [OF assms Some]
  obtain s1 es where set_b: "gis_SetNextTimestampBound t s = Some (s1, map MsgError es)" "length es \<le> 1" "OkStatus \<notin> set es"
    "input_effect s [] s1 []" "gis_IsClosed s1 = gis_IsClosed s"
    using gis_SetNextTimestampBound_result [OF s(1)] by blast
  obtain s2 out2 where pr: "gis_PropagateUpdatesToMirrors s1 = (s2, out2)" by (cases "gis_PropagateUpdatesToMirrors s1")
  have "open_input s1" using set_b(4) s(1) same_input_open by (auto simp: input_effect_def)
  note p2 = gis_Propagate_result [OF this pr]
  have eff2: "input_effect s [] s2 out2" using input_effect_trans [OF set_b(4) p2(1)] p2(2) by simp
  let ?g2 = "replace_input n s2 (with_errors es g)"
  have act: "graph_act (Set_Bound n t) g =
      (if es = [] \<or> length (run_errors g) < kMaxNumAccumulatedErrors then Some (?g2, out2) else None)"
    using Some set_b(1,2) pr by (auto simp: SetInputStreamTimestampBound_def record_one)
  have "run_inv ss0 (as @ [Set_Bound n t]) ?g2 (sent @ out2)"
    by (rule run_inv_update [OF assms Some eff2 _ _ set_b(2,3)]) (use p2 set_b(5) in auto)
  then show ?thesis unfolding act by auto
qed

lemma run_inv_close:
  assumes "inputs_start ss0" "run_inv ss0 as g sent"
  shows "\<exists>g' out. graph_act (Close_Input n) g = Some (g', out) \<and> run_inv ss0 (as @ [Close_Input n]) g' (sent @ out)"
proof (cases "map_of (graph_inputs g) n")
  case None
  have "run_inv ss0 (as @ [Close_Input n]) g sent" by (rule run_inv_quiet [OF assms(2), where es = "[]"]) simp_all
  then show ?thesis using None by (simp add: CloseInputStream_def)
next
  case (Some s)
  note s = inv_parts [OF assms Some]
  show ?thesis
  proof (cases "gis_IsClosed s")
    case True
    have "run_inv ss0 (as @ [Close_Input n]) g sent" by (rule run_inv_quiet [OF assms(2), where es = "[]"]) simp_all
    then show ?thesis using Some True by (simp add: CloseInputStream_def)
  next
    case False
    obtain s1 out where c: "gis_Close s = (s1, out)" by (cases "gis_Close s")
    note e = gis_Close_result [OF s(1) c]
    let ?g1 = "(replace_input n s1 g)\<lparr>num_closed_graph_inputs := num_closed_graph_inputs g + 1\<rparr>"
    let ?g2 = "?g1\<lparr>run_scheduler := fst (ClosedAllGraphInputStreams (run_scheduler ?g1))\<rparr>"
    have len: "length (AList.update n s1 (graph_inputs g)) = length (graph_inputs g)" by (rule update_length [OF Some])
    have act: "graph_act (Close_Input n) g =
        Some (if num_closed_graph_inputs g + 1 = length (graph_inputs g) then ?g2 else ?g1, out)"
      using Some False c len by (auto simp: CloseInputStream_def Let_def split: prod.splits)
    have "run_inv ss0 (as @ [Close_Input n]) ?g2 (sent @ out)" if "num_closed_graph_inputs g + 1 = length (graph_inputs g)"
      by (rule run_inv_update [OF assms Some e(1), where es = "[]"])
         (use that False e s in \<open>auto simp: ClosedAllGraphInputStreams_def HandleIdle_def\<close>)
    moreover have "run_inv ss0 (as @ [Close_Input n]) ?g1 (sent @ out)" if "num_closed_graph_inputs g + 1 \<noteq> length (graph_inputs g)"
      by (rule run_inv_update [OF assms Some e(1), where es = "[]"]) (use that False e s in auto)
    ultimately show ?thesis unfolding act by auto
  qed
qed

lemma run_inv_close_all:
  assumes "inputs_start ss0" "run_inv ss0 as g sent" "CloseAllInputStreams g = (g', out, called)" "\<And>m. pushed m [a] = []"
  shows "run_inv ss0 (as @ [a]) g' (sent @ out)"
proof -
  have inv: "inputs_inv ss0 as (run_has_error g) sent (graph_inputs g)" using assms(2) unfolding run_inv_def by blast
  obtain ss where c: "close_inputs (graph_inputs g) = (ss, out)"
    using assms(3) by (auto simp: CloseAllInputStreams_def Let_def split: prod.splits)
  have g': "g' = g\<lparr>graph_inputs := ss, num_closed_graph_inputs := length (graph_inputs g),
      run_scheduler := fst (ClosedAllGraphInputStreams (run_scheduler g))\<rparr>"
    using assms(3) c by (auto simp: CloseAllInputStreams_def Let_def split: prod.splits)
  show ?thesis using inputs_inv_close [OF assms(1) inv c, of "[a]"] assms(2,4)
    by (auto simp: run_inv_def g' ClosedAllGraphInputStreams_def)
qed

lemma run_inv_act:
  assumes "inputs_start ss0" "run_inv ss0 as g sent"
  shows "(length (run_errors g) < kMaxNumAccumulatedErrors \<longrightarrow> graph_act a g \<noteq> None) \<and>
    (\<forall>g' out. graph_act a g = Some (g', out) \<longrightarrow> run_inv ss0 (as @ [a]) g' (sent @ out))"
proof (cases a)
  case (Push n p)
  then show ?thesis using run_inv_push [OF assms] by blast
next
  case (Set_Bound n t)
  then show ?thesis using run_inv_bound [OF assms] by blast
next
  case (Close_Input n)
  obtain g' out where "graph_act (Close_Input n) g = Some (g', out)" "run_inv ss0 (as @ [Close_Input n]) g' (sent @ out)"
    using run_inv_close [OF assms] by blast
  then show ?thesis unfolding Close_Input by simp
next
  case Close_All
  obtain g' out c where c: "CloseAllInputStreams g = (g', out, c)" by (metis prod_cases3)
  show ?thesis using run_inv_close_all [OF assms c, of Close_All] c Close_All by simp
next
  case Close_Sources
  obtain g' out c where c: "CloseAllInputStreams g = (g', out, c)" by (metis prod_cases3)
  have "run_inv ss0 (as @ [Close_Sources]) g' (sent @ out)" using run_inv_close_all [OF assms c, of Close_Sources] by simp
  then have "run_inv ss0 (as @ [Close_Sources]) (g'\<lparr>run_scheduler := CloseAllSourceNodes (run_scheduler g')\<rparr>) (sent @ out)"
    by (auto simp: run_inv_def CloseAllSourceNodes_def)
  then show ?thesis using c Close_Sources by (simp add: CloseAllPacketSources_def)
next
  case (Node_Error s)
  show ?thesis
  proof (cases s)
    case OkStatus
    have "run_inv ss0 (as @ [a]) g sent" by (rule run_inv_quiet [OF assms(2), where es = "[]"]) (simp_all add: Node_Error)
    then show ?thesis using Node_Error OkStatus by simp
  next
    case (ErrorStatus c)
    have act: "graph_act a g = (if length (run_errors g) < kMaxNumAccumulatedErrors then Some (with_errors [s] g, []) else None)"
      using record_one [of "[s]" g] ErrorStatus Node_Error by (auto split: if_splits bind_splits)
    have "run_inv ss0 (as @ [a]) (with_errors [s] g) sent"
      by (rule run_inv_quiet [OF assms(2), where es = "[s]"]) (simp_all add: Node_Error ErrorStatus)
    then show ?thesis unfolding act by auto
  qed
next
  case (Others fs sch)
  have "run_inv ss0 (as @ [a]) g' sent" if "graph_act a g = Some (g', out)" for g' out
    by (rule run_inv_quiet [OF assms(2), where es = "[]"]) (use that Others in \<open>auto split: if_splits\<close>)
  then show ?thesis using Others by auto
qed

lemma run_inv_run:
  assumes "inputs_start ss0" "run_inv ss0 as g sent"
  shows "(length as + length bs \<le> kMaxNumAccumulatedErrors \<longrightarrow> graph_run bs g \<noteq> None) \<and>
    (\<forall>g' out. graph_run bs g = Some (g', out) \<longrightarrow> run_inv ss0 (as @ bs) g' (sent @ out))"
  using assms(2)
proof (induction bs arbitrary: as g sent)
  case (Cons b bs)
  note act = run_inv_act [OF assms(1) Cons.prems, of b]
  have len: "length (run_errors g) \<le> length as" using Cons.prems unfolding run_inv_def by blast
  show ?case
  proof (cases "graph_act b g")
    case None
    then show ?thesis using act len by auto
  next
    case (Some r)
    obtain g1 out1 where r: "r = (g1, out1)" by (cases r)
    have inv1: "run_inv ss0 (as @ [b]) g1 (sent @ out1)" using act Some r by blast
    note IH = Cons.IH [OF inv1]
    have "graph_run (b # bs) g = map_option (\<lambda>(g, out). (g, out1 @ out)) (graph_run bs g1)"
      using Some r by (cases "graph_run bs g1") auto
    then show ?thesis using IH by auto
  qed
qed simp

end
