(* ===== verification/GraphRunProperties.thy ===== *)
theory GraphRunProperties
  imports GraphInputRuns GraphTypes
begin

section \<open>Properties of the runs of a graph\<close>

subsection \<open>Recorded errors\<close>

lemma with_errors_Nil [simp]: "with_errors [] g = g"
  by (simp add: with_errors_def)

lemma NotifyError_idem [simp]: "NotifyError (NotifyError x) = NotifyError x"
  by (cases x) (simp_all add: Poller_NotifyError_def)

lemma with_errors_append [simp]: "with_errors es' (with_errors es g) = with_errors (es @ es') g"
  by (auto simp: with_errors_def comp_def)

lemma with_errors_frame [simp]:
  "full_sets (with_errors es g) = full_sets g"
  "graph_input_max_queue_sizes (with_errors es g) = graph_input_max_queue_sizes g"
  "non_default_queues (run_scheduler (with_errors es g)) = non_default_queues (run_scheduler g)"
  "sched_state (run_scheduler (with_errors es g)) = sched_state (run_scheduler g)"
  by (simp_all add: with_errors_def)

definition room :: "status list \<Rightarrow> 'a calculator_graph \<Rightarrow> bool" where
  "room es g \<longleftrightarrow> es = [] \<or> length (run_errors g) + length es \<le> kMaxNumAccumulatedErrors"

lemma record_errors_eq: "record_errors es g = (if room es g then Some (with_errors es g) else None)"
proof (induction es arbitrary: g)
  case (Cons e es)
  have one: "RecordError e g = (if length (run_errors g) < kMaxNumAccumulatedErrors then Some (with_errors [e] g) else None)"
    using record_one [of "[e]" g] by (auto split: if_splits bind_splits)
  have "room (e # es) g \<longleftrightarrow> length (run_errors g) < kMaxNumAccumulatedErrors \<and> room es (with_errors [e] g)"
    by (auto simp: room_def)
  then show ?case using Cons.IH [of "with_errors [e] g"] by (auto simp: one)
qed (simp add: room_def)

lemma RecordError_eq: "RecordError e g = (if room [e] g then Some (with_errors [e] g) else None)"
  using record_errors_eq [of "[e]" g] by (auto split: if_splits bind_splits)

lemma room_append: "room (es @ es') g \<longleftrightarrow> room es g \<and> room es' (with_errors es g)"
  by (auto simp: room_def)

subsection \<open>Status handlers\<close>

text \<open>The errors of the status handlers: a handler without its side packets is skipped, which is an error too.\<close>

definition handler_error ::
    "'a run_environment \<Rightarrow> graph_run_state \<Rightarrow> status \<Rightarrow> 'a calculator_graph \<Rightarrow> nat \<Rightarrow> status list" where
  "handler_error E state status g i =
     (let cfg = config_handlers (config (graph_info g)) ! i;
          ts = contract_input_side_packets (node_contract (status_handlers (graph_info g) ! i))
      in case FillPacketSet (packet_types (graph_info g)) ts (run_side_packets g) False of
           None \<Rightarrow> []
         | Some (Inl c) \<Rightarrow> [ErrorStatus c]
         | Some (Inr (ps, _)) \<Rightarrow>
             let r = handle_status E state (status_handler cfg) (handler_options cfg) ps status in if ok r then [] else [r])"

definition handler_errors ::
    "'a run_environment \<Rightarrow> graph_run_state \<Rightarrow> status \<Rightarrow> 'a calculator_graph \<Rightarrow> status list" where
  "handler_errors E state status g =
     concat (map (handler_error E state status g) [0..<length (config_handlers (config (graph_info g)))])"

definition handlers_registered :: "'a run_environment \<Rightarrow> 'a calculator_graph \<Rightarrow> bool" where
  "handlers_registered E g \<longleftrightarrow> (\<forall>h \<in> set (config_handlers (config (graph_info g))). handler_registered E (status_handler h))"

lemma handler_error_cong:
  "graph_info g' = graph_info g \<Longrightarrow> run_side_packets g' = run_side_packets g \<Longrightarrow> handler_error E state status g' = handler_error E state status g"
  by (rule ext) (simp add: handler_error_def)

lemma handler_errors_not_ok: "OkStatus \<notin> set (handler_errors E state status g)"
  by (auto simp: handler_errors_def handler_error_def Let_def split: option.splits sum.splits if_splits)

lemma Validate_total: "all_resolve st \<Longrightarrow> \<exists>s. Validate st a p = Some s"
  using resolve_total [of st a] by (auto simp: Validate_def Let_def split: bind_splits type_spec.splits option.splits)

lemma FillPacketSet_total:
  assumes "all_resolve st"
  shows "FillPacketSet st ts sp counting \<noteq> None"
proof -
  have "\<exists>r. fill_packets st ts sp counting is = Some r" for "is"
  proof (induction "is")
    case (Cons i "is")
    obtain ps n es where r: "fill_packets st ts sp counting is = Some (ps, n, es)" using Cons.IH by auto
    show ?case
    proof (cases "sp (names (set_tag_map ts) ! i)")
      case (Some p)
      obtain s where "Validate st (type_at ts i) p = Some s" using Validate_total [OF assms] by blast
      then show ?thesis using r Some by simp
    qed (simp add: r)
  qed simp
  then show ?thesis by (auto simp: FillPacketSet_def split: bind_splits)
qed

lemma call_status_handlers_Some:
  assumes "call_status_handlers E state status is g = Some g'"
  shows "g' = with_errors (concat (map (handler_error E state status g) is)) g"
  using assms
proof (induction "is" arbitrary: g)
  case (Cons i "is")
  let ?r = "handler_error E state status g i"
  from Cons.prems have "call_status_handlers E state status is (with_errors ?r g) = Some g'"
    by (auto simp: handler_error_def Let_def RecordError_eq split: bind_splits sum.splits prod.splits if_splits)
  then show ?case using Cons.IH [of "with_errors ?r g"] handler_error_cong [of "with_errors ?r g" g] by simp
qed simp

lemma call_status_handlers_total:
  assumes "all_resolve (packet_types (graph_info g))" "handlers_registered E g"
    and "\<forall>i \<in> set is. i < length (config_handlers (config (graph_info g)))"
    and "room (concat (map (handler_error E state status g) is)) g"
  shows "call_status_handlers E state status is g \<noteq> None"
  using assms
proof (induction "is" arbitrary: g)
  case (Cons i "is")
  let ?cfg = "config_handlers (config (graph_info g)) ! i"
  let ?r = "handler_error E state status g i"
  let ?g = "with_errors ?r g"
  obtain r where fill: "FillPacketSet (packet_types (graph_info g))
      (contract_input_side_packets (node_contract (status_handlers (graph_info g) ! i))) (run_side_packets g) False = Some r"
    using FillPacketSet_total [OF Cons.prems(1)] by blast
  have reg: "handler_registered E (status_handler ?cfg)" using Cons.prems(2,3) by (simp add: handlers_registered_def)
  have same: "handler_error E state status ?g = handler_error E state status g" by (rule handler_error_cong) simp_all
  have rooms: "room ?r g" "room (concat (map (handler_error E state status ?g) is)) ?g"
    using Cons.prems(4) by (simp_all add: room_append same)
  have step: "call_status_handlers E state status (i # is) g = call_status_handlers E state status is ?g"
    using fill reg rooms(1) by (auto simp: handler_error_def Let_def RecordError_eq split: sum.splits prod.splits)
  show ?case unfolding step
    by (rule Cons.IH) (use Cons.prems rooms in \<open>simp_all add: handlers_registered_def\<close>)
qed simp

lemma CallStatusHandlers_Some:
  "CallStatusHandlers E state status g = Some g' \<Longrightarrow> g' = with_errors (handler_errors E state status g) g"
  using call_status_handlers_Some by (auto simp: CallStatusHandlers_def handler_errors_def)

lemma CallStatusHandlers_total:
  assumes "all_resolve (packet_types (graph_info g))" "handlers_registered E g" "room (handler_errors E state status g) g"
  shows "CallStatusHandlers E state status g = Some (with_errors (handler_errors E state status g) g)"
proof -
  have "CallStatusHandlers E state status g \<noteq> None"
    unfolding CallStatusHandlers_def by (rule call_status_handlers_total) (use assms in \<open>auto simp: handler_errors_def\<close>)
  then show ?thesis using CallStatusHandlers_Some by blast
qed

subsection \<open>A started run\<close>

text \<open>Between runs the streams of a graph are not closed for the shards, and hold no packets.\<close>

definition quiescent_inputs :: "(string \<times> 'a graph_input) list \<Rightarrow> bool" where
  "quiescent_inputs ss \<longleftrightarrow> distinct (map fst ss) \<and> distinct (all_mirrors_of ss) \<and>
     (\<forall>x \<in> set ss. \<not> shard_closed (gis_shard (snd x)) \<and> input_queue (snd x) = [])"

definition prepared_input :: "'a graph_input \<Rightarrow> bool" where
  "prepared_input s \<longleftrightarrow> \<not> shard_closed (gis_shard s) \<and> input_queue s = [] \<and> error_callback (input_spec s) \<and>
     \<not> locked_intro_data (input_spec s) \<and> \<not> gis_IsClosed s"

definition header_set :: "'a graph_input \<Rightarrow> 'a graph_input \<Rightarrow> bool" where
  "header_set s s' \<longleftrightarrow> input_mirrors s' = input_mirrors s \<and> gis_shard s' = gis_shard s \<and>
     error_callback (input_spec s') = error_callback (input_spec s) \<and> gis_IsClosed s' = gis_IsClosed s"

lemma stream_errors_headers [simp]: "stream_errors (map (\<lambda>m. MsgSetHeader m h) ms) = []"
  by (induction ms) auto

lemma gis_SetHeader_result:
  assumes "prepared_input s"
  shows "\<exists>s' msgs. gis_SetHeader h s = Some (s', msgs) \<and> header_set s s' \<and> stream_errors msgs = []"
  using assms by (simp add: gis_SetHeader_def shard_SetHeader_def prepared_input_def PropagateHeader_def
      header_set_def LockIntroData_def gis_IsClosed_def)

lemma set_headers_result:
  assumes "\<forall>x \<in> set ss. prepared_input (snd x)"
  shows "\<exists>ss' msgs. set_headers headers ss = Some (ss', msgs) \<and> map fst ss' = map fst ss \<and>
    list_all2 (\<lambda>x x'. header_set (snd x) (snd x')) ss ss' \<and> stream_errors msgs = []"
  using assms
proof (induction ss)
  case (Cons x ss)
  obtain n s where x: "x = (n, s)" by (cases x)
  obtain ss' msgs where r: "set_headers headers ss = Some (ss', msgs)" "map fst ss' = map fst ss"
    "list_all2 (\<lambda>x x'. header_set (snd x) (snd x')) ss ss'" "stream_errors msgs = []"
    using Cons.IH Cons.prems by auto
  have "prepared_input s" using Cons.prems x by simp
  then obtain s' msgs' where "gis_SetHeader (case headers n of None \<Rightarrow> Packet_empty | Some p \<Rightarrow> p) s = Some (s', msgs')"
    "header_set s s'" "stream_errors msgs' = []" using gis_SetHeader_result by blast
  then show ?case using x r by simp
qed simp

lemma headers_start:
  assumes "quiescent_inputs ss" "\<forall>x \<in> set ss. prepared_input (snd x)" "map fst ss' = map fst ss"
    and "list_all2 (\<lambda>x x'. header_set (snd x) (snd x')) ss ss'"
  shows "inputs_start ss'" "closed_inputs ss' = 0" "length ss' = length ss" "inputs_inv ss' [] False [] ss'"
proof -
  have len: "length ss' = length ss" using assms(3) by (metis length_map)
  have hs: "header_set (snd (ss ! i)) (snd (ss' ! i))" if "i < length ss'" for i
    using assms(4) that len by (simp add: list_all2_conv_all_nth)
  have "map (\<lambda>x. input_mirrors (snd x)) ss' = map (\<lambda>x. input_mirrors (snd x)) ss"
    using hs len by (simp add: list_eq_iff_nth_eq header_set_def)
  then have dist: "distinct (all_mirrors_of ss')" using assms(1) by (simp add: all_mirrors_of_def quiescent_inputs_def)
  then have own: "distinct (input_mirrors (snd x))" if "x \<in> set ss'" for x
    using that by (auto simp: all_mirrors_of_def distinct_concat_iff)
  have each: "open_input (snd x) \<and> input_queue (snd x) = [] \<and> \<not> gis_IsClosed (snd x)" if x: "x \<in> set ss'" for x
  proof -
    obtain i where i: "i < length ss'" "ss' ! i = x" using x by (auto simp: in_set_conv_nth)
    then have "prepared_input (snd (ss ! i))" using assms(2) len by simp
    then show ?thesis using hs [OF i(1)] i(2) own [OF x] by (auto simp: prepared_input_def header_set_def open_input_def)
  qed
  show "inputs_start ss'" using assms(1,3) dist each by (auto simp: inputs_start_def quiescent_inputs_def)
  show "closed_inputs ss' = 0" using each by (auto simp: closed_inputs_def filter_empty_conv)
  show "length ss' = length ss" by (rule len)
  have "input_served n s [] False [] s" if "(n, s) \<in> set ss'" for n s
    using each [OF that] by (auto simp: input_served_def)
  then show "inputs_inv ss' [] False [] ss'" by (simp add: inputs_inv_nth)
qed

lemma prepare_nodes_Some:
  "prepare_nodes ns g = Some g' \<Longrightarrow> \<exists>es. OkStatus \<notin> set es \<and> g' = with_errors es g"
proof (induction ns arbitrary: g)
  case (Cons x ns)
  obtain executor result where x: "x = (executor, result)" by (cases x)
  have "\<exists>es. OkStatus \<notin> set es \<and> prepare_nodes ns (with_errors es g) = Some g'"
  proof (cases result)
    case OkStatus
    then show ?thesis using Cons.prems x by (intro exI [of _ "[]"]) (auto split: bind_splits)
  next
    case (ErrorStatus c)
    then show ?thesis using Cons.prems x
      by (intro exI [of _ "[result]"]) (auto simp: RecordError_eq split: bind_splits if_splits)
  qed
  then obtain es where es: "OkStatus \<notin> set es" "prepare_nodes ns (with_errors es g) = Some g'" by blast
  obtain es' where "OkStatus \<notin> set es'" "g' = with_errors es' (with_errors es g)" using Cons.IH [OF es(2)] by blast
  with es(1) show ?case by (intro exI [of _ "es @ es'"]) simp
qed (auto intro: exI [of _ "[]"])

lemma add_unopened_sources_frame:
  "add_unopened_sources layer ns s = Some s' \<Longrightarrow>
   graph_input_streams_closed s' = graph_input_streams_closed s \<and> sched_state s' = sched_state s"
  by (induction ns arbitrary: s) (force simp: AddUnopenedSourceNode_def split: bind_splits if_splits)+

lemma PrepareForRun_open_started:
  assumes "PrepareForRun_open E headers g = Some (g', msgs, opened, OkStatus)" "quiescent_inputs (graph_inputs g)"
    and "\<forall>x \<in> set (graph_inputs g). prepared_input (snd x)"
  shows "inputs_start (graph_inputs g')" "closed_inputs (graph_inputs g') = 0" "inputs_inv (graph_inputs g') [] False [] (graph_inputs g')"
    "map fst (graph_inputs g') = map fst (graph_inputs g)"
    "run_errors g' = run_errors g" "run_has_error g' = run_has_error g" "graph_info g' = graph_info g"
    "num_closed_graph_inputs g' = num_closed_graph_inputs g"
    "graph_input_streams_closed (run_scheduler g') = graph_input_streams_closed (run_scheduler g)"
proof -
  obtain ss' hmsgs where h: "set_headers headers (graph_inputs g) = Some (ss', hmsgs)" "map fst ss' = map fst (graph_inputs g)"
    "list_all2 (\<lambda>x x'. header_set (snd x) (snd x')) (graph_inputs g) ss'" "stream_errors hmsgs = []"
    using set_headers_result [OF assms(3)] by blast
  obtain sch where sch: "add_unopened_sources (node_layer E) (source_nodes E) (run_scheduler g) = Some sch"
    "g' = g\<lparr>graph_inputs := ss', run_scheduler := sch\<rparr>"
    using assms(1) h by (auto simp: PrepareForRun_open_def Let_def split: prod.splits if_splits bind_splits)
  show "inputs_start (graph_inputs g')" "closed_inputs (graph_inputs g') = 0" "inputs_inv (graph_inputs g') [] False [] (graph_inputs g')"
    "map fst (graph_inputs g') = map fst (graph_inputs g)"
    using headers_start [OF assms(2,3) h(2,3)] h(2) sch(2) by simp_all
  show "run_errors g' = run_errors g" "run_has_error g' = run_has_error g" "graph_info g' = graph_info g"
    "num_closed_graph_inputs g' = num_closed_graph_inputs g"
    "graph_input_streams_closed (run_scheduler g') = graph_input_streams_closed (run_scheduler g)"
    using sch add_unopened_sources_frame [OF sch(1)] by simp_all
qed

lemma prepared_inputs:
  assumes "quiescent_inputs ss"
  defines "ss' \<equiv> map (map_prod (\<lambda>n. n) gis_PrepareForRun) ss"
  shows "quiescent_inputs ss'" "\<forall>x \<in> set ss'. prepared_input (snd x)" "map fst ss' = map fst ss" "length ss' = length ss"
proof -
  have "all_mirrors_of ss' = all_mirrors_of ss"
    by (simp add: all_mirrors_of_def ss'_def gis_PrepareForRun_def osm_PrepareForRun_def comp_def)
  moreover show fsts: "map fst ss' = map fst ss" by (simp add: ss'_def)
  ultimately show "quiescent_inputs ss'"
    using assms(1) unfolding quiescent_inputs_def fsts by (auto simp: ss'_def gis_PrepareForRun_def)
  show "\<forall>x \<in> set ss'. prepared_input (snd x)"
    using assms(1) by (auto simp: ss'_def prepared_input_def gis_PrepareForRun_def osm_PrepareForRun_def gis_IsClosed_def quiescent_inputs_def)
  show "length ss' = length ss" by (simp add: ss'_def)
qed

lemma PrepareForRun_components_Some:
  assumes "PrepareForRun_components E g = Some g'"
  shows "graph_inputs g' = map (map_prod (\<lambda>n. n) gis_PrepareForRun) (graph_inputs g)" "graph_info g' = graph_info g"
    "num_closed_graph_inputs g' = num_closed_graph_inputs g"
    "graph_input_streams_closed (run_scheduler g') = graph_input_streams_closed (run_scheduler g)"
    "\<exists>es. OkStatus \<notin> set es \<and> run_errors g' = run_errors g @ es \<and> (run_has_error g' \<longleftrightarrow> run_has_error g \<or> es \<noteq> [])"
proof -
  let ?g = "g\<lparr>full_sets := replicate (length (calculators (graph_info g)) + length (graph_inputs g)) {},
      graph_inputs := map (map_prod (\<lambda>n. n) gis_PrepareForRun) (graph_inputs g),
      graph_side_packets := map osp_PrepareForRun (graph_side_packets g)\<rparr>"
  obtain g1 where g1: "prepare_nodes (prepare_node E) ?g = Some g1"
    "g' = g1\<lparr>graph_outputs := map output_PrepareForRun (graph_outputs g1)\<rparr>"
    using assms by (auto simp: PrepareForRun_components_def Let_def split: bind_splits)
  obtain es where es: "OkStatus \<notin> set es" "g1 = with_errors es ?g" using prepare_nodes_Some [OF g1(1)] by blast
  show "graph_inputs g' = map (map_prod (\<lambda>n. n) gis_PrepareForRun) (graph_inputs g)" "graph_info g' = graph_info g"
    "num_closed_graph_inputs g' = num_closed_graph_inputs g"
    "graph_input_streams_closed (run_scheduler g') = graph_input_streams_closed (run_scheduler g)"
    using g1(2) es(2) by simp_all
  show "\<exists>es. OkStatus \<notin> set es \<and> run_errors g' = run_errors g @ es \<and> (run_has_error g' \<longleftrightarrow> run_has_error g \<or> es \<noteq> [])"
    using g1(2) es by (intro exI [of _ es]) simp
qed

lemma CleanupAfterRun_error:
  assumes "graph_CleanupAfterRun E status g = Some (g', msgs, OkStatus)"
  shows "\<not> run_has_error g"
proof
  assume err: "run_has_error g"
  obtain ss out where c: "close_inputs (graph_inputs g) = (ss, out)" by (cases "close_inputs (graph_inputs g)")
  obtain g1 where g1: "CallStatusHandlers E POST_RUN status (g\<lparr>graph_inputs := ss\<rparr>) = Some g1"
    using assms c by (auto simp: graph_CleanupAfterRun_def split: bind_splits)
  have "run_has_error g1" using CallStatusHandlers_Some [OF g1] err by simp
  then show False using assms c g1 by (auto simp: graph_CleanupAfterRun_def Let_def split: bind_splits if_splits)
qed

lemma PrepareForRun_run_started:
  assumes "PrepareForRun_run E headers node_generators g = Some (g', msgs, opened, OkStatus)" "quiescent_inputs (graph_inputs g)"
    and "num_closed_graph_inputs g = 0" "run_errors g = []" "\<not> run_has_error g"
  shows "inputs_start (graph_inputs g') \<and> run_inv (graph_inputs g') [] g' [] \<and>
    map fst (graph_inputs g') = map fst (graph_inputs g) \<and> graph_info g' = graph_info g \<and> run_errors g' = []"
proof -
  let ?g3 = "fst (InitializePacketGeneratorNodes (initialize_generator_node E) node_generators
      (g\<lparr>run_scheduler := sched_Reset (GraphInputStreamsClosed g) (run_scheduler g)\<rparr>))"
  have g3: "graph_inputs ?g3 = graph_inputs g" "num_closed_graph_inputs ?g3 = 0" "run_errors ?g3 = []"
    "\<not> run_has_error ?g3" "graph_info ?g3 = graph_info g"
    "graph_input_streams_closed (run_scheduler ?g3) \<longleftrightarrow> graph_inputs g = []"
    using assms(3-5) by (auto simp: InitializePacketGeneratorNodes_def sched_Reset_def GraphInputStreamsClosed_def)
  obtain g4 where g4: "PrepareForRun_components E ?g3 = Some g4"
    using assms(1) by (auto simp: PrepareForRun_run_def Let_def split: prod.splits if_splits bind_splits)
  note c = PrepareForRun_components_Some [OF g4]
  obtain es where es: "OkStatus \<notin> set es" "run_errors g4 = es" "run_has_error g4 \<longleftrightarrow> es \<noteq> []" using c(5) g3 by auto
  have "es = []"
  proof (rule ccontr)
    assume "es \<noteq> []"
    then have "graph_CleanupAfterRun E (CombinedStatus es) g4 = Some (g', msgs, OkStatus)"
      using assms(1) g4 es by (auto simp: PrepareForRun_run_def Let_def GetCombinedErrors_def split: prod.splits if_splits bind_splits)
    then show False using CleanupAfterRun_error es \<open>es \<noteq> []\<close> by blast
  qed
  then have op: "PrepareForRun_open E headers g4 = Some (g', msgs, opened, OkStatus)"
    using assms(1) g4 es by (auto simp: PrepareForRun_run_def Let_def GetCombinedErrors_def split: prod.splits if_splits bind_splits)
  have ins: "graph_inputs g4 = map (map_prod (\<lambda>n. n) gis_PrepareForRun) (graph_inputs g)" using c(1) g3(1) by simp
  note p = prepared_inputs [OF assms(2)]
  note s = PrepareForRun_open_started [OF op p(1) [folded ins] p(2) [folded ins]]
  have len: "length (graph_inputs g') = length (graph_inputs g)" using s(4) ins by (metis length_map)
  show ?thesis using s c g3 es \<open>es = []\<close> ins p(3) len by (auto simp: run_inv_def)
qed

lemma PrepareForRun_started:
  assumes "graph_PrepareForRun E sides headers g = Some (g', msgs, opened, OkStatus)" "quiescent_inputs (graph_inputs g)"
  shows "inputs_start (graph_inputs g') \<and> run_inv (graph_inputs g') [] g' [] \<and>
    map fst (graph_inputs g') = map fst (graph_inputs g) \<and> graph_info g' = graph_info g \<and> run_errors g' = []"
proof -
  let ?start = "g\<lparr>run_errors := [], run_has_error := False, num_closed_graph_inputs := 0\<rparr>"
  obtain services side_packets node_generators where parts:
    "PrepareServices (default_service E) (requested_services E) (service_packets ?start) = (services, OkStatus)"
    "run_graph_setup E sides = (side_packets, node_generators, OkStatus)"
    using assms(1) by (auto simp: graph_PrepareForRun_def Let_def split: prod.splits if_splits bind_splits)
  let ?g1 = "?start\<lparr>service_packets := services, run_side_packets := side_packets\<rparr>"
  have errs: "\<not> run_has_error g2" if "CallStatusHandlers E PRE_RUN OkStatus ?g1 = Some g2" "CombinedStatus (run_errors g2) = OkStatus" for g2
    using CallStatusHandlers_Some [OF that(1)] that(2) handler_errors_not_ok [of E PRE_RUN OkStatus ?g1]
    by (auto simp: CombinedStatus_ok neq_Nil_conv)
  obtain g2 where g2: "CallStatusHandlers E PRE_RUN OkStatus ?g1 = Some g2" "\<not> run_has_error g2"
    "PrepareForRun_run E headers node_generators g2 = Some (g', msgs, opened, OkStatus)"
    using assms(1) parts errs CombinedStatus_ok [of "[]"]
    by (auto simp: graph_PrepareForRun_def Let_def combined_or_ok_def GetCombinedErrors_def split: prod.splits if_splits bind_splits)
  have none: "g2 = ?g1" using CallStatusHandlers_Some [OF g2(1)] g2(2) by (cases "handler_errors E PRE_RUN OkStatus ?g1") auto
  show ?thesis using PrepareForRun_run_started [OF g2(3)] assms(2) none by simp
qed

lemma StartRun_started:
  assumes "StartRun E sides headers g = Some (g', msgs, opened, called, OkStatus)" "quiescent_inputs (graph_inputs g)"
  shows "inputs_start (graph_inputs g') \<and> run_inv (graph_inputs g') [] g' [] \<and>
    map fst (graph_inputs g') = map fst (graph_inputs g) \<and> graph_info g' = graph_info g \<and> run_errors g' = []"
proof -
  obtain g1 sch where g1: "graph_PrepareForRun E sides headers g = Some (g1, msgs, opened, OkStatus)"
    "Start (run_scheduler g1) = Some (sch, called)" "g' = g1\<lparr>run_scheduler := sch\<rparr>"
    using assms(1) by (auto simp: StartRun_def split: if_splits bind_splits)
  have "graph_input_streams_closed sch = graph_input_streams_closed (run_scheduler g1)"
    using g1(2) by (auto simp: Start_def HandleIdle_def SetQueuesRunning_def split: bind_splits if_splits)
  then show ?thesis using PrepareForRun_started [OF g1(1) assms(2)] g1(3) by (auto simp: run_inv_def)
qed

subsection \<open>The end of a run\<close>

lemma cleanup_has_error [simp]: "sched_CleanupAfterRun (s\<lparr>has_error := b\<rparr>) = sched_CleanupAfterRun s"
  by (simp add: sched_CleanupAfterRun_def)

lemma cleanup_with_errors [simp]:
  "sched_CleanupAfterRun (run_scheduler (with_errors es g)) = sched_CleanupAfterRun (run_scheduler g)"
  by (simp add: with_errors_def)

lemma combined_not_ok: "OkStatus \<notin> set es \<Longrightarrow> CombinedStatus es = OkStatus \<longleftrightarrow> es = []"
  by (cases es) (auto simp: CombinedStatus_ok)

lemma graph_CleanupAfterRun_eq:
  assumes "close_inputs (graph_inputs g) = (ss, out)" "all_resolve (packet_types (graph_info g))" "handlers_registered E g"
    and "run_has_error g \<longleftrightarrow> run_errors g \<noteq> []" "OkStatus \<notin> set (run_errors g)" "status = combined_or_ok g"
    and "es = handler_errors E POST_RUN status g" "st = CombinedStatus (run_errors g @ es)"
    and "room (es @ node_cleanup E st) g" "sched_CleanupAfterRun (run_scheduler g) = Some sch"
  shows "\<exists>g'. graph_CleanupAfterRun E status g = Some (g', out, st) \<and> run_errors g' = [] \<and> \<not> run_has_error g' \<and>
    full_sets g' = [] \<and> graph_inputs g' = ss \<and> run_scheduler g' = sch \<and>
    (\<forall>x \<in> set (graph_outputs g'). close_output x = x)"
proof -
  let ?g = "g\<lparr>graph_inputs := ss\<rparr>"
  have same: "handler_errors E POST_RUN status ?g = es"
    using assms(7) handler_error_cong [of ?g g E POST_RUN status] by (simp add: handler_errors_def)
  have rooms: "room es ?g" "room (node_cleanup E st) (with_errors es ?g)" "handlers_registered E ?g"
    using assms(3,9) by (auto simp: room_append room_def handlers_registered_def)
  have call: "CallStatusHandlers E POST_RUN status ?g = Some (with_errors es ?g)"
    using CallStatusHandlers_total [of ?g E POST_RUN status] assms(2) rooms same by simp
  let ?h = "with_errors es ?g"
  have err: "OkStatus \<notin> set (run_errors g @ es)" "run_has_error ?h \<longleftrightarrow> run_errors g @ es \<noteq> []"
    using assms(4,5,7) handler_errors_not_ok [of E POST_RUN status g] by auto
  have rec: "record_errors (node_cleanup E st) ?h = Some (with_errors (es @ node_cleanup E st) ?g)"
    using rooms by (simp add: record_errors_eq)
  let ?g' = "(with_errors (es @ node_cleanup E st) ?g)\<lparr>graph_outputs := map close_output (graph_outputs (with_errors (es @ node_cleanup E st) ?g)),
      run_scheduler := sch, run_errors := [], run_has_error := False, full_sets := []\<rparr>"
  have "graph_CleanupAfterRun E status g = Some (?g', out, st)"
  proof (cases "run_errors g @ es = []")
    case True
    then have "status = OkStatus" "st = OkStatus" "\<not> run_has_error ?h"
      using assms(6,8) err(2) by (simp_all add: combined_or_ok_def GetCombinedErrors_def CombinedStatus_def)
    then show ?thesis using assms(1,10) call rec True by (simp add: graph_CleanupAfterRun_def Let_def)
  next
    case False
    then have "GetCombinedErrors ?h = Some st" "st \<noteq> OkStatus" "run_has_error ?h"
      using assms(8) err(2) combined_not_ok [OF err(1)] by (auto simp: GetCombinedErrors_def)
    then show ?thesis using assms(1,10) call rec by (simp add: graph_CleanupAfterRun_def Let_def del: with_errors_simps)
  qed
  moreover have "close_output (close_output x) = close_output x" for x :: "'a graph_output"
    by (cases x) (simp_all add: ism_Close_def)
  ultimately show ?thesis by (intro exI [of _ ?g']) auto
qed

lemma all_closed_iff: "closed_inputs ss = length ss \<longleftrightarrow> (\<forall>x \<in> set ss. gis_IsClosed (snd x))"
proof -
  have "length (filter P xs) = length xs \<longleftrightarrow> (\<forall>x \<in> set xs. P x)" for P and xs :: "(string \<times> 'a graph_input) list"
    by (metis filter_id_conv length_filter_less less_irrefl)
  then show ?thesis by (auto simp: closed_inputs_def)
qed

lemma inputs_inv_served:
  assumes "inputs_inv ss0 as err sent ss" "(n, s) \<in> set ss" "mi \<in> set (input_mirrors s)"
  shows "sent_to mi sent @ input_queue s = filter (takes_packet (input_spec s)) (pushed n as) \<and>
    (gis_IsClosed s \<longrightarrow> MsgSetNextTimestampBound mi Timestamp_Done \<in> set sent) \<and> (\<not> err \<longrightarrow> input_queue s = [])"
proof -
  obtain i where i: "i < length ss" "ss ! i = (n, s)" using assms(2) by (auto simp: in_set_conv_nth)
  then have "input_served n (snd (ss0 ! i)) as err sent s" using assms(1) by (auto simp: inputs_inv_nth)
  then show ?thesis using assms(3) by (auto simp: input_served_def same_input_def)
qed



subsection \<open>A run to try them on\<close>

definition demo_info :: validated_graph where
  "demo_info = (new_validated_graph \<lparr>config_nodes = [], config_generators = [],
       config_handlers = [\<lparr>status_handler = ''Logger'', handler_input_side_packet = [], handler_options = []\<rparr>],
       graph_input_stream = [''in''], graph_output_stream = [], graph_input_side_packet = [], graph_output_side_packet = [], config_executors = [], num_threads = 0,
       graph_handler = None, packet_factories = 0, config_package = []\<rparr>)
     \<lparr>status_handlers := [new_node_type_info StatusHandlerType 0
       (fst (new_contract empty_tag_map empty_tag_map empty_tag_map empty_tag_map 0))]\<rparr>"

definition demo_graph :: "nat calculator_graph" where
  "demo_graph = \<lparr>graph_info = demo_info, initialized = True,
     graph_inputs = [(''in'', new_graph_input ((demo_output 0)\<lparr>mirrors := [(0, 0)]\<rparr>))],
     graph_input_node_ids = [''in'' \<mapsto> 0], graph_input_max_queue_sizes = [], graph_input_add_mode = WAIT_TILL_NOT_FULL,
     num_closed_graph_inputs = 0, full_sets = [], graph_outputs = [], graph_side_packets = [], base_packets = Map.empty,
     run_side_packets = Map.empty, run_errors = [], run_has_error = False, run_scheduler = new_scheduler,
     service_packets = Map.empty, generator_nodes_added = False, executors = [[] \<mapsto> 0], use_application_thread = False\<rparr>"

text \<open>A status handler that fails when the run has failed.\<close>

definition demo_environment :: "nat run_environment" where
  "demo_environment = \<lparr>requested_services = [], default_service = (\<lambda>_. Inl NotFound),
     run_graph_setup = (\<lambda>sides. (sides, [], OkStatus)), initialize_generator_node = (\<lambda>_. OkStatus), prepare_node = [],
     source_nodes = [], node_layer = (\<lambda>_. 0), nodes_ready_for_open = [], handler_registered = (\<lambda>_. True),
     handle_status = (\<lambda>state _ _ _ status. if ok status then OkStatus else ErrorStatus FailedPrecondition),
     node_cleanup = (\<lambda>_. []), profiler_start = OkStatus, profiler_stop = OkStatus\<rparr>"

definition demo_actions :: "nat graph_action list" where
  "demo_actions = [Push ''in'' (demo_packet 1 10), Node_Error (ErrorStatus NotFound), Push ''in'' (demo_packet 2 11),
     Close_Input ''in'']"

definition run_summary ::
    "nat calculator_graph \<Rightarrow> nat out_msg list \<Rightarrow> status list \<times> nat packet list \<times> string list \<times> bool \<times> status list" where
  "run_summary g sent = (run_errors g, sent_to (0, 0) sent, map fst (graph_inputs g),
     sched_CleanupAfterRun (run_scheduler g) = None, handler_errors demo_environment POST_RUN (combined_or_ok g) g)"

lemma demo_graph_run:
  "\<exists>g1 msgs opened called. StartRun demo_environment Map.empty Map.empty demo_graph = Some (g1, msgs, opened, called, OkStatus) \<and>
     (\<exists>g sent. graph_run demo_actions g1 = Some (g, sent) \<and> run_summary g sent =
       ([ErrorStatus NotFound], [demo_packet 1 10, demo_packet 2 11], [''in''], False, [ErrorStatus FailedPrecondition]))"
proof -
  have "map_option (\<lambda>(g1, msgs, opened, called, s). (s, map_option (\<lambda>(g, sent). run_summary g sent) (graph_run demo_actions g1)))
      (StartRun demo_environment Map.empty Map.empty demo_graph) =
    Some (OkStatus, Some ([ErrorStatus NotFound], [demo_packet 1 10, demo_packet 2 11], [''in''], False,
      [ErrorStatus FailedPrecondition]))"
    by code_simp
  then show ?thesis by (auto simp: map_option_eq_Some)
qed

lemma graph_act_info: "graph_act a g = Some (g', out) \<Longrightarrow> graph_info g' = graph_info g"
  by (cases a)
     (auto simp: AddPacket_push_def SetInputStreamTimestampBound_def CloseInputStream_def CloseAllInputStreams_def
        CloseAllPacketSources_def record_errors_eq RecordError_eq replace_input_def Let_def
        split: if_splits bind_splits prod.splits option.splits)

lemma graph_run_info: "graph_run as g = Some (g', out) \<Longrightarrow> graph_info g' = graph_info g"
  by (induction as arbitrary: g out) (force split: bind_splits dest: graph_act_info)+

lemma demo_quiescent: "quiescent_inputs (graph_inputs demo_graph)"
  by (simp add: quiescent_inputs_def demo_graph_def all_mirrors_of_def new_graph_input_def new_output_shard_def demo_output_def)

lemma demo_info_ok: "all_resolve (packet_types demo_info)"
  using built_types_resolve [OF built_types.intros(1)] by (simp add: demo_info_def new_validated_graph_def)



end
