(* ===== verification/GraphWiring.thy ===== *)
theory GraphWiring
  imports GraphProperties GraphRunProperties
begin

section \<open>The streams of a graph and their connections\<close>

text \<open>
  \<open>CalculatorGraph::InitializeStreams\<close>, the maximum queue size of \<open>InitializeCalculatorNodes\<close>, and
  \<open>CalculatorNode::InitializeInputStreams\<close>, which makes the input streams of a node mirrors of the
  output streams they read. The arrays of managers are lists, in the order of the edges of the
  validated graph; a graph input stream is the index of its manager.
\<close>

text \<open>
  A packet type as the function its stream uses. In a validated graph every type resolves, so the \<open>CHECK\<close> in
  \<open>Validate\<close> never fails.
\<close>

definition stream_type :: "validated_graph \<Rightarrow> addr \<Rightarrow> 'a packet \<Rightarrow> status" where
  "stream_type g a p = (case Validate (packet_types g) a p of Some s \<Rightarrow> s | None \<Rightarrow> ErrorStatus Unknown)"

definition default_output_manager :: "'a output_stream_manager" where
  "default_output_manager =
     \<lparr>output_stream_spec = \<lparr>spec_name = [], spec_packet_type = (\<lambda>_. OkStatus), error_callback = False,
        locked_intro_data = False, offset_enabled = False, offset = TimestampDiff 0, spec_header = Packet_empty\<rparr>,
      mirrors = [], osm_next_timestamp_bound = Timestamp_Unset, osm_closed = False\<rparr>"

fun add_graph_inputs ::
    "validated_graph \<Rightarrow> string list \<Rightarrow> nat \<Rightarrow> (string \<times> nat) list \<times> (string \<Rightarrow> nat option) \<Rightarrow>
     ((string \<times> nat) list \<times> (string \<Rightarrow> nat option)) result" where
  "add_graph_inputs g [] index (ins, ids) = Inr (ins, ids)"
| "add_graph_inputs g (name # ns) index (ins, ids) =
     result_bind (ret_check (map_of ins name = None)) (\<lambda>_.
     let i = OutputStreamIndex g name
     in result_bind (ret_check (0 \<le> i)) (\<lambda>_.
        result_bind (ret_check (ref_type (parent_node (output_streams g ! nat i)) = GraphInputStreamType)) (\<lambda>_.
        add_graph_inputs g ns (Suc index)
          (ins @ [(name, nat i)], ids(name \<mapsto> length (calculators g) + index)))))"

definition InitializeStreams ::
    "strings \<Rightarrow> validated_graph \<Rightarrow>
     ('a input_stream list \<times> 'a output_stream_manager list \<times> (string \<times> nat) list \<times> (string \<Rightarrow> nat option)) result" where
  "InitializeStreams A g =
     result_bind (Create A (graph_input_stream (config g))) (\<lambda>tm.
     result_bind (add_graph_inputs g (names tm) 0 ([], Map.empty)) (\<lambda>(ins, ids).
       Inr (map (\<lambda>e. new_input_stream (edge_name e) (stream_type g (edge_type e)) (is_back_edge e)) (input_streams g),
            map (\<lambda>e. osm_Initialize default_output_manager (edge_name e) (stream_type g (edge_type e))) (output_streams g),
            ins, ids)))"

text \<open>The limit of the queues: 100 if none is configured, and no less than the largest buffer of a node.\<close>

definition max_queue_size_of :: "int32 \<Rightarrow> int32 list \<Rightarrow> int" where
  "max_queue_size_of configured buffer_size_hints =
     fold (\<lambda>hint m. if 0 < sint hint then max m (sint hint) else m) buffer_size_hints
       (if configured = 0 then 100 else sint configured)"

fun add_stream_mirrors ::
    "validated_graph \<Rightarrow> nat \<Rightarrow> nat list \<Rightarrow> 'a output_stream_manager list \<Rightarrow> 'a output_stream_manager list result" where
  "add_stream_mirrors g k [] ms = Inr ms"
| "add_stream_mirrors g k (i # is) ms =
     (case upstream (input_streams g ! (input_stream_base_index (calculators g ! k) + i)) of
        None \<Rightarrow> Inl Internal
      | Some u \<Rightarrow> add_stream_mirrors g k is (ms[u := AddMirror (ms ! u) (k, i)]))"

definition InitializeInputStreams ::
    "validated_graph \<Rightarrow> nat \<Rightarrow> 'a output_stream_manager list \<Rightarrow> 'a output_stream_manager list result" where
  "InitializeInputStreams g k ms =
     add_stream_mirrors g k [0..<set_NumEntries (contract_inputs (node_contract (calculators g ! k)))] ms"

fun connect_nodes ::
    "validated_graph \<Rightarrow> nat list \<Rightarrow> 'a output_stream_manager list \<Rightarrow> 'a output_stream_manager list result" where
  "connect_nodes g [] ms = Inr ms"
| "connect_nodes g (k # ks) ms = result_bind (InitializeInputStreams g k ms) (connect_nodes g ks)"

text \<open>An unlimited queue becomes a limited one as soon as a node announces a buffer.\<close>

lemma unlimited_becomes_limited: "max_queue_size_of (-1) [] = -1 \<and> max_queue_size_of (-1) [5] = 5"
  by code_simp

subsection \<open>The graph input streams come first\<close>

definition inputs_first :: "strings \<Rightarrow> validated_graph \<Rightarrow> bool" where
  "inputs_first A g \<longleftrightarrow> (\<exists>tm. Create A (graph_input_stream (config g)) = Inr tm \<and> length (names tm) \<le> length (output_streams g) \<and>
     (\<forall>i < length (names tm). edge_name (output_streams g ! i) = names tm ! i \<and>
        parent_node (output_streams g ! i) = \<lparr>ref_type = GraphInputStreamType, ref_index = i + length (config_nodes (config g))\<rparr>))"

lemma inputs_first_cong:
  "output_streams g' = output_streams g @ es \<Longrightarrow> config g' = config g \<Longrightarrow> inputs_first A g \<Longrightarrow> inputs_first A g'"
  by (auto simp: inputs_first_def nth_append)

lemma AddOutputStream_appends:
  "AddOutputStream ref name ty g = Inr g' \<Longrightarrow> config g' = config g \<and>
   output_streams g' = output_streams g @ [\<lparr>upstream = None, parent_node = ref, edge_name = name, edge_type = ty, is_back_edge = False\<rparr>]"
  by (auto simp: AddOutputStream_def Let_def split: if_splits)

lemma add_output_stream_edges_appends:
  "add_output_stream_edges ref ts is g = Inr g' \<Longrightarrow> config g' = config g \<and> (\<exists>es. output_streams g' = output_streams g @ es)"
  by (induction "is" arbitrary: g) (fastforce simp: result_bind_Inr dest: AddOutputStream_appends)+

lemma AddInputStreamsForNode_keeps:
  assumes "AddInputStreamsForNode A k need g = Inr (need', g')"
  shows "config g' = config g \<and> output_streams g' = output_streams g"
proof -
  have edges: "add_input_stream_edges ref ts bk is need g = Inr (need', g') \<Longrightarrow> config g' = config g \<and> output_streams g' = output_streams g"
    for ref ts bk "is" need and g :: validated_graph
    by (induction "is" arbitrary: need g) (auto simp: Let_def split: if_splits)
  show ?thesis using assms by (auto simp: AddInputStreamsForNode_def Let_def result_bind_Inr dest!: edges)
qed

lemma add_streams_appends:
  "add_streams A ks need g = Inr (need', g') \<Longrightarrow> config g' = config g \<and> (\<exists>es. output_streams g' = output_streams g @ es)"
proof (induction ks arbitrary: need g)
  case (Cons k ks)
  from Cons.prems obtain need1 g1 g2 where steps: "AddInputStreamsForNode A k need g = Inr (need1, g1)"
    "AddOutputStreamsForNode k g1 = Inr g2" "add_streams A ks need1 g2 = Inr (need', g')" by (auto simp: result_bind_Inr)
  have "config g2 = config g1 \<and> (\<exists>es. output_streams g2 = output_streams g1 @ es)"
    using steps(2) by (auto simp: AddOutputStreamsForNode_def Let_def dest!: add_output_stream_edges_appends)
  then show ?case using AddInputStreamsForNode_keeps [OF steps(1)] Cons.IH [OF steps(3)] by auto
qed simp

lemma add_graph_input_streams_edges:
  "add_graph_input_streams ns index g = Inr g' \<Longrightarrow> config g' = config g \<and>
   (\<exists>es. output_streams g' = output_streams g @ es \<and> length es = length ns \<and>
     (\<forall>i < length ns. edge_name (es ! i) = ns ! i \<and>
        parent_node (es ! i) = \<lparr>ref_type = GraphInputStreamType, ref_index = index + i + length (config_nodes (config g))\<rparr>))"
proof (induction ns arbitrary: index g)
  case (Cons n ns)
  let ?g = "g\<lparr>packet_types := SetAny (packet_types g) (next_type g), next_type := Suc (next_type g)\<rparr>"
  let ?ref = "\<lparr>ref_type = GraphInputStreamType, ref_index = index + length (config_nodes (config g))\<rparr>"
  from Cons.prems obtain g1 where g1: "AddOutputStream ?ref n (next_type g) ?g = Inr g1" "add_graph_input_streams ns (Suc index) g1 = Inr g'"
    by (auto simp: Let_def result_bind_Inr)
  let ?e = "\<lparr>upstream = None, parent_node = ?ref, edge_name = n, edge_type = next_type g, is_back_edge = False\<rparr>"
  have a: "config g1 = config g" "output_streams g1 = output_streams g @ [?e]" using AddOutputStream_appends [OF g1(1)] by simp_all
  obtain es where es: "config g' = config g1" "output_streams g' = output_streams g1 @ es" "length es = length ns"
    "\<And>i. i < length ns \<Longrightarrow> edge_name (es ! i) = ns ! i \<and>
        parent_node (es ! i) = \<lparr>ref_type = GraphInputStreamType, ref_index = Suc index + i + length (config_nodes (config g1))\<rparr>"
    using Cons.IH [OF g1(2)] by blast
  show ?case using a es by (intro conjI exI [of _ "?e # es"]) (auto simp: nth_Cons split: nat.splits)
qed simp

lemma InitializeStreamInfo_first:
  assumes "InitializeStreamInfo A need g = Inr (need', g')" "output_streams g = []"
  shows "inputs_first A g'"
proof -
  from assms(1) obtain tm g1 where steps: "Create A (graph_input_stream (config g)) = Inr tm"
    "add_graph_input_streams (names tm) 0 g = Inr g1" "add_streams A [0..<length (calculators g1)] need g1 = Inr (need', g')"
    by (auto simp: InitializeStreamInfo_def result_bind_Inr)
  note e = add_graph_input_streams_edges [OF steps(2)]
  have "inputs_first A g1" using e steps(1) assms(2) by (auto simp: inputs_first_def)
  then show ?thesis using add_streams_appends [OF steps(3)] inputs_first_cong by blast
qed

text \<open>The passes over the side packets and the later phases leave the output streams as they are.\<close>

definition same_outputs :: "validated_graph \<Rightarrow> validated_graph \<Rightarrow> bool" where
  "same_outputs g g' \<longleftrightarrow> output_streams g' = output_streams g \<and> config g' = config g"

lemma set_info_outputs [simp]: "output_streams (set_info ref i g) = output_streams g" "config (set_info ref i g) = config g"
  by (simp_all add: set_info_def split: node_type.split)

lemma add_input_side_outputs [simp]:
  "output_streams (add_input_side_packet_edges ref ts is g) = output_streams g"
  "config (add_input_side_packet_edges ref ts is g) = config g"
  by (induction "is" arbitrary: g) (simp_all add: Let_def)

lemma AddInputSide_outputs [simp]:
  "output_streams (AddInputSidePacketsForNode ref g) = output_streams g" "config (AddInputSidePacketsForNode ref g) = config g"
  by (simp_all add: AddInputSidePacketsForNode_def Let_def)

lemma add_output_side_outputs: "add_output_side_packet_edges ref ts is need g = Inr (need', g') \<Longrightarrow> same_outputs g g'"
  by (induction "is" arbitrary: need g) (auto simp: Let_def same_outputs_def split: if_splits)

lemma add_side_outputs: "add_side_packets refs need g = Inr (need', g') \<Longrightarrow> same_outputs g g'"
proof (induction refs arbitrary: need g)
  case (Cons ref refs)
  then obtain need1 g1 where s: "AddOutputSidePacketsForNode ref need (AddInputSidePacketsForNode ref g) = Inr (need1, g1)"
    "add_side_packets refs need1 g1 = Inr (need', g')" by (auto simp: result_bind_Inr)
  then show ?case using Cons.IH [OF s(2)]
    by (auto simp: AddOutputSidePacketsForNode_def Let_def same_outputs_def dest!: add_output_side_outputs)
qed (simp add: same_outputs_def)

lemma InitializeSidePacketInfo_outputs:
  assumes "InitializeSidePacketInfo need g = Inr (need', g')"
  shows "same_outputs g g'"
proof -
  have f: "output_streams (fold (\<lambda>i. AddInputSidePacketsForNode (r i)) is g) = output_streams g"
    "config (fold (\<lambda>i. AddInputSidePacketsForNode (r i)) is g) = config g" for r :: "nat \<Rightarrow> node_ref" and "is" and g :: validated_graph
    by (induction "is" arbitrary: g) auto
  show ?thesis using assms
    by (auto simp: f InitializeSidePacketInfo_def result_bind_Inr same_outputs_def dest!: add_side_outputs split: if_splits)
qed

lemma initialize_edges_first:
  assumes "initialize_edges A need g = Inr (need', g')" "output_streams g = []"
  shows "inputs_first A g'"
proof -
  from assms(1) obtain need1 g1 where "InitializeSidePacketInfo need g = Inr (need1, g1)" "InitializeStreamInfo A need1 g1 = Inr (need', g')"
    by (auto simp: initialize_edges_def result_bind_Inr)
  then show ?thesis using InitializeStreamInfo_first InitializeSidePacketInfo_outputs assms(2) by (simp add: same_outputs_def)
qed

lemma initialize_sorted_first:
  assumes "initialize_sorted A g = Some (Inr g')" "output_streams g = []"
  shows "inputs_first A g'"
proof -
  from assms(1) obtain need g1 where p: "initialize_edges A (Some False) g = Inr (need, g1)"
    by (auto simp: initialize_sorted_def outcome_bind_eq_Inr)
  show ?thesis
  proof (cases "need = Some True")
    case True
    then obtain g2 need' g3 where "initialize_edges A None (clear_analysis g2) = Inr (need', g3)" "g' = g3"
      using assms(1) p by (auto simp: initialize_sorted_def outcome_bind_eq_Inr)
    then show ?thesis using initialize_edges_first [of A None "clear_analysis g2"] by (simp add: clear_analysis_def)
  next
    case False
    then show ?thesis using assms p initialize_edges_first [OF p] by (simp add: initialize_sorted_def)
  qed
qed

lemma validated_inputs_first:
  assumes "strings_ok A" "registry_ok R" "ValidatedGraph_Initialize A R ExpandSubgraphs cfg = Some (Inr g)"
  shows "inputs_first A g"
proof -
  obtain cfg' g1 g2 g3 g4 where steps: "initialize_nodes A R (new_validated_graph cfg') = Inr g1"
    "initialize_sorted A g1 = Some (Inr g2)" "FillUpstreamFieldForBackEdges g2 = Inr g3" "resolve_and_validate g3 = Some (Inr g4)"
    "ComputeSourceDependence g4 = Inr g"
    using assms(3) by (auto simp: ValidatedGraph_Initialize_def outcome_bind_eq_Inr)
  have nodes: "nodes_ready g1 \<and> no_edges g1 \<and> config g1 = cfg'" by (rule initialize_nodes_ready [OF assms(2) steps(1)])
  have first: "inputs_first A g2" using initialize_sorted_first [OF steps(2)] nodes by (simp add: no_edges_def)
  have "after_edges cfg' g2" using initialize_sorted_stage [OF assms(1)] nodes steps(2) by (fastforce simp: outcome_sat_def)
  then have b: "after_back_edges cfg' g3" using fill_upstream_stage steps(3) by (fastforce simp: outcome_sat_def)
  have "output_streams g3 = output_streams g2" "config g3 = config g2"
    using steps(3) by (auto simp: FillUpstreamFieldForBackEdges_def result_bind_Inr)
  moreover have "g4 = g3\<lparr>packet_types := packet_types g4\<rparr>"
    using resolve_and_validate_typed [of g3] b steps(4) by (auto simp: after_back_edges_def)
  then have "output_streams g4 = output_streams g3" "config g4 = config g3" by (metis validated_graph.select_convs validated_graph.surjective validated_graph.update_convs(13))+
  moreover have "output_streams g = output_streams g4" "config g = config g4"
    using steps(5) by (auto simp: ComputeSourceDependence_def result_bind_Inr)
  ultimately show ?thesis using inputs_first_cong [of g "g2" "[]" A] first by simp
qed

subsection \<open>Wiring\<close>

lemma distinct_concatI:
  assumes "\<And>i. i < length xss \<Longrightarrow> distinct (xss ! i)"
    and "\<And>i j x. i < length xss \<Longrightarrow> j < length xss \<Longrightarrow> x \<in> set (xss ! i) \<Longrightarrow> x \<in> set (xss ! j) \<Longrightarrow> i = j"
  shows "distinct (concat xss)"
  using assms
proof (induction xss)
  case (Cons xs xss)
  have "distinct (concat xss)"
  proof (rule Cons.IH)
    show "distinct (xss ! i)" if "i < length xss" for i using Cons.prems(1) [of "Suc i"] that by simp
    show "i = j" if "i < length xss" "j < length xss" "x \<in> set (xss ! i)" "x \<in> set (xss ! j)" for i j x
      using Cons.prems(2) [of "Suc i" "Suc j" x] that by simp
  qed
  moreover have "x \<notin> set (concat xss)" if "x \<in> set xs" for x
  proof
    assume "x \<in> set (concat xss)"
    then obtain j where "j < length xss" "x \<in> set (xss ! j)" by (auto simp: in_set_conv_nth) (metis in_set_conv_nth)
    then show False using Cons.prems(2) [of 0 "Suc j" x] that by simp
  qed
  ultimately show ?case using Cons.prems(1) [of 0] by auto
qed simp

lemma add_graph_inputs_result:
  assumes "\<And>i. i < length ns \<Longrightarrow> OutputStreamIndex g (ns ! i) = int (j + i) \<and>
      ref_type (parent_node (output_streams g ! (j + i))) = GraphInputStreamType"
    and "distinct ns" "\<forall>n \<in> set ns. map_of ins n = None"
  shows "\<exists>ids'. add_graph_inputs g ns j (ins, ids) = Inr (ins @ zip ns [j..<j + length ns], ids') \<and>
    (\<forall>i < length ns. ids' (ns ! i) = Some (length (calculators g) + j + i)) \<and> (\<forall>n. n \<notin> set ns \<longrightarrow> ids' n = ids n)"
  using assms
proof (induction ns arbitrary: j ins ids)
  case (Cons n ns)
  let ?ins = "ins @ [(n, j)]" and ?ids = "ids(n \<mapsto> length (calculators g) + j)"
  have head: "OutputStreamIndex g n = int j" "ref_type (parent_node (output_streams g ! j)) = GraphInputStreamType"
    using Cons.prems(1) [of 0] by simp_all
  have step: "add_graph_inputs g (n # ns) j (ins, ids) = add_graph_inputs g ns (Suc j) (?ins, ?ids)"
    using head Cons.prems(3) by (simp add: Let_def)
  have "\<exists>ids'. add_graph_inputs g ns (Suc j) (?ins, ?ids) = Inr (?ins @ zip ns [Suc j..<Suc j + length ns], ids') \<and>
    (\<forall>i < length ns. ids' (ns ! i) = Some (length (calculators g) + Suc j + i)) \<and> (\<forall>n. n \<notin> set ns \<longrightarrow> ids' n = ?ids n)"
  proof (rule Cons.IH)
    show "OutputStreamIndex g (ns ! i) = int (Suc j + i) \<and> ref_type (parent_node (output_streams g ! (Suc j + i))) = GraphInputStreamType"
      if "i < length ns" for i using Cons.prems(1) [of "Suc i"] that by simp
    show "distinct ns" "\<forall>n' \<in> set ns. map_of ?ins n' = None" using Cons.prems(2,3) by (auto simp: map_add_def)
  qed
  then obtain ids' where ids': "add_graph_inputs g ns (Suc j) (?ins, ?ids) = Inr (?ins @ zip ns [Suc j..<Suc j + length ns], ids')"
    "\<forall>i < length ns. ids' (ns ! i) = Some (length (calculators g) + Suc j + i)" "\<forall>n. n \<notin> set ns \<longrightarrow> ids' n = ?ids n" by blast
  have "[j..<j + length (n # ns)] = j # [Suc j..<Suc j + length ns]" using upt_conv_Cons [of j "j + length (n # ns)"] by simp
  then show ?case using step ids' Cons.prems(2) by (auto simp: nth_Cons split: nat.splits)
qed simp

definition reads :: "validated_graph \<Rightarrow> nat \<Rightarrow> nat \<Rightarrow> nat \<Rightarrow> bool" where
  "reads g u k i \<longleftrightarrow> upstream (input_streams g ! (input_stream_base_index (calculators g ! k) + i)) = Some u"

lemma add_stream_mirrors_result:
  assumes "\<forall>i \<in> set is. \<exists>u < length ms. reads g u k i"
  shows "\<exists>ms'. add_stream_mirrors g k is ms = Inr ms' \<and> length ms' = length ms \<and>
    (\<forall>u < length ms. ms' ! u = (ms ! u)\<lparr>mirrors := mirrors (ms ! u) @ map (Pair k) (filter (reads g u k) is)\<rparr>)"
  using assms
proof (induction "is" arbitrary: ms)
  case (Cons i "is")
  obtain v where v: "v < length ms" "reads g v k i" using Cons.prems by auto
  obtain ms' where ms': "add_stream_mirrors g k is (ms[v := AddMirror (ms ! v) (k, i)]) = Inr ms'" "length ms' = length ms"
    "\<forall>u < length ms. ms' ! u = (ms[v := AddMirror (ms ! v) (k, i)] ! u)
       \<lparr>mirrors := mirrors (ms[v := AddMirror (ms ! v) (k, i)] ! u) @ map (Pair k) (filter (reads g u k) is)\<rparr>"
    using Cons.IH [of "ms[v := AddMirror (ms ! v) (k, i)]"] Cons.prems by auto
  have iff: "reads g u k i \<longleftrightarrow> u = v" for u using v(2) by (auto simp: reads_def)
  have "add_stream_mirrors g k (i # is) ms = Inr ms'" using ms'(1) v(2) by (simp add: reads_def)
  moreover have "ms' ! u = (ms ! u)\<lparr>mirrors := mirrors (ms ! u) @ map (Pair k) (filter (reads g u k) (i # is))\<rparr>" if "u < length ms" for u
    using ms'(3) that v(1) by (auto simp: iff AddMirror_def)
  ultimately show ?case using ms'(2) by blast
qed simp

lemma connect_nodes_result:
  assumes "\<forall>k \<in> set ks. \<forall>i < num_inputs g k. \<exists>u < length ms. reads g u k i"
  shows "\<exists>ms'. connect_nodes g ks ms = Inr ms' \<and> length ms' = length ms \<and>
    (\<forall>u < length ms. ms' ! u = (ms ! u)\<lparr>mirrors := mirrors (ms ! u) @
       concat (map (\<lambda>k. map (Pair k) (filter (reads g u k) [0..<num_inputs g k])) ks)\<rparr>)"
  using assms
proof (induction ks arbitrary: ms)
  case (Cons k ks)
  obtain ms1 where ms1: "InitializeInputStreams g k ms = Inr ms1" "length ms1 = length ms"
    "\<forall>u < length ms. ms1 ! u = (ms ! u)\<lparr>mirrors := mirrors (ms ! u) @ map (Pair k) (filter (reads g u k) [0..<num_inputs g k])\<rparr>"
    using add_stream_mirrors_result [of "[0..<num_inputs g k]" ms g k] Cons.prems by (auto simp: InitializeInputStreams_def num_inputs_def)
  obtain ms2 where "connect_nodes g ks ms1 = Inr ms2" "length ms2 = length ms1"
    "\<forall>u < length ms1. ms2 ! u = (ms1 ! u)\<lparr>mirrors := mirrors (ms1 ! u) @
       concat (map (\<lambda>k. map (Pair k) (filter (reads g u k) [0..<num_inputs g k])) ks)\<rparr>"
    using Cons.IH [of ms1] Cons.prems ms1(2) by auto
  then show ?case using ms1 by simp
qed simp

lemma validated_edge:
  assumes valid: "validated cfg' g" and ki: "k < length (calculators g)" "i < num_inputs g k"
  shows "\<exists>u. reads g u k i \<and> u < length (output_streams g) \<and>
      stream_to_producer g (edge_name (input_streams g ! (input_stream_base_index (calculators g ! k) + i))) = Some u"
proof -
  have prod: "is_producer_map (stream_to_producer g) (output_streams g)" and conn: "connected_streams g"
    and blocks: "input_blocks (length (calculators g)) g" using valid by (simp_all add: validated_def connected_streams_def)
  have "input_stream_base_index (calculators g ! k) + num_inputs g k \<le> length (input_streams g)"
    using blocks ki(1) by (simp add: input_blocks_def)
  then have "input_streams g ! (input_stream_base_index (calculators g ! k) + i) \<in> set (input_streams g)" using ki(2) by simp
  then obtain u where "upstream (input_streams g ! (input_stream_base_index (calculators g ! k) + i)) = Some u"
    "stream_to_producer g (edge_name (input_streams g ! (input_stream_base_index (calculators g ! k) + i))) = Some u"
    using conn by (auto simp: connected_streams_def)
  then show ?thesis using prod by (auto simp: reads_def is_producer_map_def)
qed

lemma validated_reads:
  assumes valid: "validated cfg' g" and ki: "k < length (calculators g)" "i < num_inputs g k" and u: "u < length (output_streams g)"
  shows "reads g u k i \<longleftrightarrow>
      edge_name (input_streams g ! (input_stream_base_index (calculators g ! k) + i)) = edge_name (output_streams g ! u)"
proof -
  let ?name = "edge_name (input_streams g ! (input_stream_base_index (calculators g ! k) + i))"
  have prod: "is_producer_map (stream_to_producer g) (output_streams g)" using valid by (simp add: validated_def connected_streams_def)
  obtain v where v: "reads g v k i" "stream_to_producer g ?name = Some v" using validated_edge [OF valid ki] by blast
  have "reads g u k i \<longleftrightarrow> stream_to_producer g ?name = Some u" using v by (simp add: reads_def)
  also have "\<dots> \<longleftrightarrow> ?name = edge_name (output_streams g ! u)" using prod u unfolding is_producer_map_def by metis
  finally show ?thesis .
qed

text \<open>Every node is connected to the managers of its upstream streams, each input once.\<close>

lemma connect_nodes_wired:
  assumes valid: "validated cfg' g" and len: "length osms = length (output_streams g)" and fresh: "\<forall>s \<in> set osms. mirrors s = []"
  shows "\<exists>osms'. connect_nodes g [0..<length (calculators g)] osms = Inr osms' \<and> length osms' = length osms \<and>
    distinct (concat (map mirrors osms')) \<and>
    (\<forall>u < length osms'. \<forall>k i. (k, i) \<in> set (mirrors (osms' ! u)) \<longleftrightarrow> k < length (calculators g) \<and> i < num_inputs g k \<and>
       edge_name (input_streams g ! (input_stream_base_index (calculators g ! k) + i)) = edge_name (output_streams g ! u))"
proof -
  note edge = validated_edge [OF valid] and reads = validated_reads [OF valid]
  have pre: "\<forall>k \<in> set [0..<length (calculators g)]. \<forall>i < num_inputs g k. \<exists>u < length osms. reads g u k i"
    unfolding len using edge by (metis atLeastLessThan_iff set_upt)
  obtain osms' where osms': "connect_nodes g [0..<length (calculators g)] osms = Inr osms'" "length osms' = length osms"
    "\<forall>u < length osms. osms' ! u = (osms ! u)\<lparr>mirrors := mirrors (osms ! u) @
       concat (map (\<lambda>k. map (Pair k) (filter (reads g u k) [0..<num_inputs g k])) [0..<length (calculators g)])\<rparr>"
    using connect_nodes_result [OF pre] by blast
  have mirrors: "mirrors (osms' ! u) = concat (map (\<lambda>k. map (Pair k) (filter (reads g u k) [0..<num_inputs g k])) [0..<length (calculators g)])"
    if "u < length osms'" for u
    using osms'(2,3) that fresh by simp
  then have mem: "(k, i) \<in> set (mirrors (osms' ! u)) \<longleftrightarrow> k < length (calculators g) \<and> i < num_inputs g k \<and> reads g u k i"
    if "u < length osms'" for u k i using that by auto
  have own: "distinct (mirrors (osms' ! u))" if "u < length osms'" for u
    unfolding mirrors [OF that] by (rule distinct_concatI) (auto simp: distinct_map inj_on_def)
  have "distinct (concat (map mirrors osms'))"
    by (rule distinct_concatI) (use own mem in \<open>auto simp: reads_def\<close>)
  then show ?thesis using osms'(1,2) mem reads len by (intro exI [of _ osms']) auto
qed

lemma prefix_inputs_quiescent:
  assumes "distinct ns" "length ns \<le> length osms" "distinct (concat (map mirrors osms))"
  shows "quiescent_inputs (map (\<lambda>(name, j). (name, new_graph_input (osms ! j))) (zip ns [0..<length ns]))"
proof -
  let ?inputs = "map (\<lambda>(name, j). (name, new_graph_input (osms ! j))) (zip ns [0..<length ns])"
  have "map (\<lambda>x. input_mirrors (snd x)) ?inputs = take (length ns) (map mirrors osms)"
    by (rule nth_equalityI) (use assms(2) in \<open>simp_all add: new_graph_input_def\<close>)
  then have "concat (map mirrors osms) = all_mirrors_of ?inputs @ concat (drop (length ns) (map mirrors osms))"
    unfolding all_mirrors_of_def by (metis append_take_drop_id concat_append)
  moreover have "map fst ?inputs = ns" by (rule nth_equalityI) simp_all
  moreover have "\<not> shard_closed (gis_shard (snd x)) \<and> input_queue (snd x) = []" if "x \<in> set ?inputs" for x
    using that by (auto simp: new_graph_input_def new_output_shard_def)
  ultimately show ?thesis using assms(1,3) by (auto simp: quiescent_inputs_def)
qed



end
