(* ===== verification/ThreadPool.thy ===== *)
theory ThreadPool
  imports Scheduler "HOL-Library.Multiset" "HOL-Library.Sublist"
begin

section \<open>Executors: the thread pool and the tasks of the application thread\<close>

text \<open>
  \<open>deps/threadpool.h\<close> and \<open>deps/threadpool_pthread_impl.cc\<close> (\<open>deps/threadpool_std_thread_impl.cc\<close> has the same
  \<open>RunWorker\<close>), \<open>thread_pool_executor.cc\<close> and \<open>delegating_executor.cc\<close>. A task is a value of a
  type parameter. A worker thread is the point it has reached in \<open>RunWorker\<close>: one section under the mutex is
  one step, and so is the execution of a task. \<open>Signal\<close> wakes some worker that waits, if any does; a wait may
  also end by itself. Priorities, processors and the names of threads only reach the operating system.
\<close>

subsection \<open>What a queue is told by its executor\<close>

text \<open>
  Whoever schedules tasks relies on this: a store of tasks hands out each task once, the oldest first. The
  \<open>deque\<close> of a thread pool and the tasks a \<open>DelegatingExecutor\<close> leaves to the application thread are such stores.
\<close>

datatype 't store_event = Put 't | Taken 't

locale task_store =
  fixes held :: "'s \<Rightarrow> 't list"
    and put :: "'t \<Rightarrow> 's \<Rightarrow> 's"
    and take_front :: "'s \<Rightarrow> ('t \<times> 's) option"
  assumes held_put: "held (put t s) = held s @ [t]"
    and held_take: "take_front s = Some (t, s') \<Longrightarrow> held s = t # held s'"
    and take_empty: "take_front s = None \<Longrightarrow> held s = []"
begin

fun store_run :: "'t store_event list \<Rightarrow> 's \<Rightarrow> 's option" where
  "store_run [] s = Some s"
| "store_run (Put t # es) s = store_run es (put t s)"
| "store_run (Taken t # es) s =
     (case take_front s of None \<Rightarrow> None | Some (t', s') \<Rightarrow> if t' = t then store_run es s' else None)"

fun puts :: "'t store_event list \<Rightarrow> 't list" where
  "puts [] = []"
| "puts (Put t # es) = t # puts es"
| "puts (Taken t # es) = puts es"

fun takens :: "'t store_event list \<Rightarrow> 't list" where
  "takens [] = []"
| "takens (Put t # es) = takens es"
| "takens (Taken t # es) = t # takens es"

lemma takens_before_puts: "store_run es s = Some s' \<Longrightarrow> held s @ puts es = takens es @ held s'"
proof (induction es arbitrary: s)
  case (Cons e es)
  show ?case
  proof (cases e)
    case (Put t)
    then show ?thesis using Cons.IH [of "put t s"] Cons.prems by (simp add: held_put)
  next
    case (Taken t)
    then obtain s1 where s1: "take_front s = Some (t, s1)" "store_run es s1 = Some s'"
      using Cons.prems by (auto split: option.splits if_splits)
    then show ?thesis using Cons.IH [OF s1(2)] held_take [OF s1(1)] Taken by simp
  qed
qed simp

lemma can_take: "held s = t # ts \<Longrightarrow> \<exists>s'. take_front s = Some (t, s') \<and> held s' = ts"
proof (cases "take_front s")
  case None
  then show "held s = t # ts \<Longrightarrow> ?thesis" using take_empty by simp
next
  case (Some x)
  obtain t' s' where "x = (t', s')" by (cases x)
  then show "held s = t # ts \<Longrightarrow> ?thesis" using Some held_take [of s t' s'] by simp
qed

end

definition take_app_task :: "scheduler \<Rightarrow> (nat \<times> scheduler) option" where
  "take_app_task s = (case app_thread_tasks s of [] \<Rightarrow> None | task # tasks \<Rightarrow> Some (task, s\<lparr>app_thread_tasks := tasks\<rparr>))"

lemma await_takes_app_task:
  "ApplicationThreadAwait w s = (s', RunsTask task) \<longleftrightarrow>
     \<not> snd (stop_condition w s) \<and> take_app_task (fst (stop_condition w s)) = Some (task, s')"
  by (auto simp: ApplicationThreadAwait_def take_app_task_def split: prod.splits list.splits if_splits)

text \<open>\<open>DelegatingExecutor::Schedule\<close> is its callback, \<open>AddApplicationThreadTask\<close> in a graph.\<close>

interpretation app_thread: task_store app_thread_tasks AddApplicationThreadTask take_app_task
  by unfold_locales (auto simp: AddApplicationThreadTask_def SignalAll_def take_app_task_def Let_def split: list.splits)

subsection \<open>The thread pool\<close>

datatype 't worker = AtLock | RunningTask 't | WaitingForTask | FinishedWorker

record 't thread_pool =
  pool_num_threads :: int32
  pool_tasks :: "'t list"
  pool_stopped :: bool
  pool_workers :: "'t worker list"

definition new_thread_pool :: "int32 \<Rightarrow> 't thread_pool" where
  "new_thread_pool num_threads = \<lparr>pool_num_threads = (if num_threads = 0 then 1 else num_threads),
     pool_tasks = [], pool_stopped = False, pool_workers = []\<rparr>"

definition StartWorkers :: "'t thread_pool \<Rightarrow> 't thread_pool" where
  "StartWorkers p = p\<lparr>pool_workers := pool_workers p @ replicate (nat (sint (pool_num_threads p))) AtLock\<rparr>"

text \<open>The argument is the worker that the signal wakes.\<close>

definition Signal :: "nat \<Rightarrow> 't worker list \<Rightarrow> 't worker list" where
  "Signal i ws = (if i < length ws \<and> ws ! i = WaitingForTask then ws[i := AtLock] else ws)"

definition pool_Schedule :: "nat \<Rightarrow> 't \<Rightarrow> 't thread_pool \<Rightarrow> 't thread_pool" where
  "pool_Schedule i task p = p\<lparr>pool_tasks := pool_tasks p @ [task], pool_workers := Signal i (pool_workers p)\<rparr>"

definition take_pool_task :: "'t thread_pool \<Rightarrow> ('t \<times> 't thread_pool) option" where
  "take_pool_task p = (case pool_tasks p of [] \<Rightarrow> None | task # tasks \<Rightarrow> Some (task, p\<lparr>pool_tasks := tasks\<rparr>))"

text \<open>One iteration of the loop of \<open>RunWorker\<close> by the worker \<open>i\<close>, up to where it releases the mutex.\<close>

definition RunWorker :: "nat \<Rightarrow> 't thread_pool \<Rightarrow> 't thread_pool" where
  "RunWorker i p =
     (case take_pool_task p of
        Some (task, p) \<Rightarrow> p\<lparr>pool_workers := (pool_workers p)[i := RunningTask task]\<rparr>
      | None \<Rightarrow>
          if pool_stopped p then p\<lparr>pool_workers := (pool_workers p)[i := FinishedWorker]\<rparr>
          else p\<lparr>pool_workers := (pool_workers p)[i := WaitingForTask]\<rparr>)"

text \<open>The destructor, up to where it joins the threads.\<close>

fun stop_wait :: "'t worker \<Rightarrow> 't worker" where
  "stop_wait WaitingForTask = AtLock"
| "stop_wait w = w"

definition StopPool :: "'t thread_pool \<Rightarrow> 't thread_pool" where
  "StopPool p = p\<lparr>pool_stopped := True, pool_workers := map stop_wait (pool_workers p)\<rparr>"

definition joined :: "'t thread_pool \<Rightarrow> bool" where
  "joined p \<longleftrightarrow> list_all (\<lambda>w. case w of FinishedWorker \<Rightarrow> True | _ \<Rightarrow> False) (pool_workers p)"

interpretation pool_store: task_store pool_tasks "pool_Schedule i" take_pool_task
  by unfold_locales (auto simp: pool_Schedule_def take_pool_task_def split: list.splits)

text \<open>Names of threads are cut to the 15 characters that \<open>pthread_setname_np\<close> takes.\<close>

definition CreateThreadName :: "(int \<Rightarrow> string) \<Rightarrow> string \<Rightarrow> int \<Rightarrow> string" where
  "CreateThreadName StrCat name_prefix thread_id =
     (let name = name_prefix @ ''/'' @ StrCat thread_id in take (min (length name) 15) name)"

subsection \<open>The pool and its threads\<close>

text \<open>The history: the tasks scheduled, those a worker has taken, and those that have been executed.\<close>

record 't pool_run =
  pool :: "'t thread_pool"
  scheduled_tasks :: "'t list"
  taken_tasks :: "'t list"
  executed_tasks :: "'t list"

definition start_pool :: "int32 \<Rightarrow> 't pool_run" where
  "start_pool n = \<lparr>pool = StartWorkers (new_thread_pool n), scheduled_tasks = [], taken_tasks = [], executed_tasks = []\<rparr>"

inductive worker_step :: "'t pool_run \<Rightarrow> 't pool_run \<Rightarrow> bool" where
  under_lock: "i < length (pool_workers (pool r)) \<Longrightarrow> pool_workers (pool r) ! i = AtLock \<Longrightarrow>
    worker_step r (r\<lparr>pool := RunWorker i (pool r),
      taken_tasks := taken_tasks r @ (case take_pool_task (pool r) of Some (task, _) \<Rightarrow> [task] | None \<Rightarrow> [])\<rparr>)"
| execute: "i < length (pool_workers (pool r)) \<Longrightarrow> pool_workers (pool r) ! i = RunningTask task \<Longrightarrow>
    worker_step r (r\<lparr>pool := (pool r)\<lparr>pool_workers := (pool_workers (pool r))[i := AtLock]\<rparr>,
      executed_tasks := executed_tasks r @ [task]\<rparr>)"

text \<open>
  Tasks are scheduled before the destructor runs, or by a task that a worker executes. A signal wakes a
  waiting worker if there is one.
\<close>

inductive pool_step :: "'t pool_run \<Rightarrow> 't pool_run \<Rightarrow> bool" where
  works: "worker_step r r' \<Longrightarrow> pool_step r r'"
| schedule: "\<not> pool_stopped (pool r) \<or> (\<exists>t. RunningTask t \<in> set (pool_workers (pool r))) \<Longrightarrow>
    WaitingForTask \<in> set (pool_workers (pool r)) \<longrightarrow> i < length (pool_workers (pool r)) \<and> pool_workers (pool r) ! i = WaitingForTask \<Longrightarrow>
    pool_step r (r\<lparr>pool := pool_Schedule i task (pool r), scheduled_tasks := scheduled_tasks r @ [task]\<rparr>)"
| wakes: "pool_step r (r\<lparr>pool := (pool r)\<lparr>pool_workers := Signal i (pool_workers (pool r))\<rparr>\<rparr>)"
| stop: "pool_step r (r\<lparr>pool := StopPool (pool r)\<rparr>)"

inductive_cases worker_stepE: "worker_step r r'"

fun running_of :: "'t worker \<Rightarrow> 't list" where
  "running_of (RunningTask t) = [t]"
| "running_of _ = []"

definition running_tasks :: "'t thread_pool \<Rightarrow> 't multiset" where
  "running_tasks p = mset (concat (map running_of (pool_workers p)))"

fun awake :: "'t worker \<Rightarrow> bool" where
  "awake AtLock = True"
| "awake (RunningTask t) = True"
| "awake _ = False"

definition pool_inv :: "int32 \<Rightarrow> 't pool_run \<Rightarrow> bool" where
  "pool_inv n r \<longleftrightarrow>
     length (pool_workers (pool r)) = nat (sint (if n = 0 then 1 else n)) \<and>
     scheduled_tasks r = taken_tasks r @ pool_tasks (pool r) \<and>
     mset (taken_tasks r) = mset (executed_tasks r) + running_tasks (pool r) \<and>
     (pool_workers (pool r) \<noteq> [] \<longrightarrow> pool_tasks (pool r) \<noteq> [] \<longrightarrow> (\<exists>w \<in> set (pool_workers (pool r)). awake w)) \<and>
     (pool_stopped (pool r) \<longrightarrow> WaitingForTask \<notin> set (pool_workers (pool r))) \<and>
     (FinishedWorker \<in> set (pool_workers (pool r)) \<longrightarrow> pool_stopped (pool r)) \<and>
     (length (pool_workers (pool r)) = 1 \<longrightarrow> taken_tasks r = executed_tasks r @ concat (map running_of (pool_workers (pool r))))"

text \<open>The list of workers, cut open at one of them.\<close>

lemma split_at: "i < length ws \<Longrightarrow> \<exists>xs ys. ws = xs @ ws ! i # ys \<and> length xs = i \<and> (\<forall>w. ws[i := w] = xs @ w # ys)"
  by (rule exI [of _ "take i ws"], rule exI [of _ "drop (Suc i) ws"]) (simp add: id_take_nth_drop upd_conv_take_nth_drop)

lemma Signal_cases:
  "Signal i ws = ws \<and> \<not> (i < length ws \<and> ws ! i = WaitingForTask) \<or>
   (\<exists>xs ys. ws = xs @ WaitingForTask # ys \<and> Signal i ws = xs @ AtLock # ys)"
proof (cases "i < length ws \<and> ws ! i = WaitingForTask")
  case True
  then show ?thesis using split_at [of i ws] by (metis Signal_def)
qed (auto simp: Signal_def)

lemma Signal_simps [simp]:
  "length (Signal i ws) = length ws"
  "map running_of (Signal i ws) = map running_of ws"
  "FinishedWorker \<in> set (Signal i ws) \<longleftrightarrow> FinishedWorker \<in> set ws"
  "RunningTask t \<in> set (Signal i ws) \<longleftrightarrow> RunningTask t \<in> set ws"
  using Signal_cases [of i ws] by auto

lemma Signal_keeps: "WaitingForTask \<in> set (Signal i ws) \<Longrightarrow> WaitingForTask \<in> set ws"
  "w \<in> set ws \<Longrightarrow> awake w \<Longrightarrow> \<exists>w \<in> set (Signal i ws). awake w"
  using Signal_cases [of i ws] by auto

lemma stop_wait_simps [simp]:
  "running_of (stop_wait w) = running_of w" "stop_wait w \<noteq> WaitingForTask" "awake w \<Longrightarrow> awake (stop_wait w)"
  "stop_wait w = FinishedWorker \<longleftrightarrow> w = FinishedWorker"
  by (cases w; simp)+

lemma stop_waits_simps [simp]:
  "map (running_of \<circ> stop_wait) ws = map running_of ws"
  "WaitingForTask \<notin> stop_wait ` set ws" "FinishedWorker \<in> stop_wait ` set ws \<longleftrightarrow> FinishedWorker \<in> set ws"
proof -
  show "map (running_of \<circ> stop_wait) ws = map running_of ws" by (simp add: o_def)
  show "WaitingForTask \<notin> stop_wait ` set ws" using stop_wait_simps(2) by (metis imageE)
  show "FinishedWorker \<in> stop_wait ` set ws \<longleftrightarrow> FinishedWorker \<in> set ws" using stop_wait_simps(4) by (metis imageE imageI)
qed

lemma pool_inv_start: "pool_inv n (start_pool n)"
  by (auto simp: pool_inv_def start_pool_def StartWorkers_def new_thread_pool_def running_tasks_def map_replicate_const)

lemma pool_inv_at:
  assumes "pool_workers (pool r) = xs @ w # ys"
  shows "pool_inv n r \<longleftrightarrow>
     Suc (length xs + length ys) = nat (sint (if n = 0 then 1 else n)) \<and>
     scheduled_tasks r = taken_tasks r @ pool_tasks (pool r) \<and>
     mset (taken_tasks r) = mset (executed_tasks r) + mset (running_of w) + mset (concat (map running_of xs)) + mset (concat (map running_of ys)) \<and>
     (pool_tasks (pool r) \<noteq> [] \<longrightarrow> awake w \<or> (\<exists>w \<in> set xs \<union> set ys. awake w)) \<and>
     (pool_stopped (pool r) \<longrightarrow> w \<noteq> WaitingForTask \<and> WaitingForTask \<notin> set xs \<union> set ys) \<and>
     (w = FinishedWorker \<or> FinishedWorker \<in> set xs \<union> set ys \<longrightarrow> pool_stopped (pool r)) \<and>
     (xs = [] \<and> ys = [] \<longrightarrow> taken_tasks r = executed_tasks r @ running_of w)"
proof -
  have len: "length (pool_workers (pool r)) = Suc (length xs + length ys)" and one: "length (pool_workers (pool r)) = 1 \<longleftrightarrow> xs = [] \<and> ys = []"
    using assms by simp_all
  have runs: "running_tasks (pool r) = mset (running_of w) + mset (concat (map running_of xs)) + mset (concat (map running_of ys))"
    using assms by (simp add: running_tasks_def)
  have up: "(pool_workers (pool r) \<noteq> [] \<longrightarrow> pool_tasks (pool r) \<noteq> [] \<longrightarrow> (\<exists>w \<in> set (pool_workers (pool r)). awake w)) \<longleftrightarrow>
      (pool_tasks (pool r) \<noteq> [] \<longrightarrow> awake w \<or> (\<exists>w \<in> set xs \<union> set ys. awake w))" using assms by auto
  have mem: "v \<in> set (pool_workers (pool r)) \<longleftrightarrow> w = v \<or> v \<in> set xs \<union> set ys" for v using assms by auto
  have last: "(xs = [] \<and> ys = [] \<longrightarrow> taken_tasks r = executed_tasks r @ concat (map running_of (pool_workers (pool r)))) \<longleftrightarrow>
      (xs = [] \<and> ys = [] \<longrightarrow> taken_tasks r = executed_tasks r @ running_of w)" using assms by auto
  show ?thesis unfolding pool_inv_def one up last mem de_Morgan_disj unfolding len runs by (simp only: add.assoc)
qed

lemma pool_inv_worker_step:
  assumes "worker_step r r'" "pool_inv n r"
  shows "pool_inv n r'"
  using assms(1)
proof (cases rule: worker_step.cases)
  case (under_lock i)
  obtain xs ys where ws: "pool_workers (pool r) = xs @ AtLock # ys" and i: "i = length xs"
    using split_at [OF under_lock(2)] under_lock(3) by metis
  note inv = assms(2) [unfolded pool_inv_at [OF ws]]
  show ?thesis
  proof (cases "pool_tasks (pool r)")
    case (Cons t ts)
    then have "pool_workers (pool r') = xs @ RunningTask t # ys"
      by (simp add: under_lock(1) RunWorker_def take_pool_task_def ws i)
    then show ?thesis using inv Cons
      by (simp add: pool_inv_at) (simp add: under_lock(1) RunWorker_def take_pool_task_def)
  next
    case Nil
    show ?thesis
    proof (cases "pool_stopped (pool r)")
      case True
      then have "pool_workers (pool r') = xs @ FinishedWorker # ys"
        using Nil by (simp add: under_lock(1) RunWorker_def take_pool_task_def ws i)
      then show ?thesis using inv Nil True
        by (simp add: pool_inv_at) (simp add: under_lock(1) RunWorker_def take_pool_task_def)
    next
      case False
      then have "pool_workers (pool r') = xs @ WaitingForTask # ys"
        using Nil by (simp add: under_lock(1) RunWorker_def take_pool_task_def ws i)
      then show ?thesis using inv Nil False
        by (simp add: pool_inv_at) (simp add: under_lock(1) RunWorker_def take_pool_task_def)
    qed
  qed
next
  case (execute i task)
  obtain xs ys where ws: "pool_workers (pool r) = xs @ RunningTask task # ys" and i: "i = length xs"
    using split_at [OF execute(2)] execute(3) by metis
  note inv = assms(2) [unfolded pool_inv_at [OF ws]]
  have "pool_workers (pool r') = xs @ AtLock # ys" by (simp add: execute(1) ws i)
  then show ?thesis using inv by (simp add: pool_inv_at) (simp add: execute(1))
qed

lemma worker_steps_keep: "(worker_step ^^ k) r r' \<Longrightarrow> pool_inv n r \<Longrightarrow> pool_inv n r' \<and> scheduled_tasks r' = scheduled_tasks r"
proof (induction k arbitrary: r')
  case (Suc k)
  then obtain r1 where r1: "(worker_step ^^ k) r r1" "worker_step r1 r'" by auto
  have "scheduled_tasks r' = scheduled_tasks r1" using r1(2) by (cases rule: worker_step.cases) simp_all
  then show ?case using Suc.IH [OF r1(1) Suc.prems(2)] pool_inv_worker_step [OF r1(2)] by simp
qed simp

lemma woken: "\<lbrakk>ws \<noteq> []; FinishedWorker \<notin> set ws \<or> (\<exists>t. RunningTask t \<in> set ws);
    WaitingForTask \<in> set ws \<longrightarrow> i < length ws \<and> ws ! i = WaitingForTask\<rbrakk> \<Longrightarrow> \<exists>w \<in> set (Signal i ws). awake w"
proof (cases "\<exists>w \<in> set ws. awake w")
  case True
  then show ?thesis using Signal_keeps(2) by blast
next
  case False
  assume a: "ws \<noteq> []" "FinishedWorker \<notin> set ws \<or> (\<exists>t. RunningTask t \<in> set ws)"
    "WaitingForTask \<in> set ws \<longrightarrow> i < length ws \<and> ws ! i = WaitingForTask"
  have "hd ws \<in> set ws" using a(1) by simp
  then have "WaitingForTask \<in> set ws" using False a(2) by (metis awake.elims(3) awake.simps(2))
  then show ?thesis using a(3) by (auto simp: Signal_def intro: bexI [OF _ set_update_memI])
qed

lemma pool_inv_Signal: "pool_inv n r \<Longrightarrow> pool_inv n (r\<lparr>pool := (pool r)\<lparr>pool_workers := Signal i (pool_workers (pool r))\<rparr>\<rparr>)"
proof (cases "Signal i (pool_workers (pool r)) = pool_workers (pool r)")
  case False
  assume inv: "pool_inv n r"
  obtain xs ys where ws: "pool_workers (pool r) = xs @ WaitingForTask # ys" "Signal i (pool_workers (pool r)) = xs @ AtLock # ys"
    using False Signal_cases [of i "pool_workers (pool r)"] by blast
  have "pool_workers (pool (r\<lparr>pool := (pool r)\<lparr>pool_workers := Signal i (pool_workers (pool r))\<rparr>\<rparr>)) = xs @ AtLock # ys" using ws(2) by simp
  then show ?thesis using inv unfolding pool_inv_at [OF ws(1)] by (simp add: pool_inv_at) auto
qed simp

lemma pool_inv_step:
  assumes "pool_step r r'" "pool_inv n r"
  shows "pool_inv n r'"
  using assms(1)
proof (cases rule: pool_step.cases)
  case works
  then show ?thesis using pool_inv_worker_step assms(2) by blast
next
  case (schedule i task)
  let ?ws = "pool_workers (pool r)"
  have up: "?ws \<noteq> [] \<Longrightarrow> \<exists>w \<in> set (Signal i ?ws). awake w"
    using woken [OF _ _ schedule(3)] schedule(2) assms(2) by (auto simp: pool_inv_def)
  have nil: "Signal i ?ws = [] \<longleftrightarrow> ?ws = []" using Signal_simps(1) by (metis length_0_conv)
  show ?thesis using pool_inv_Signal [OF assms(2), of i] up
    unfolding pool_inv_def running_tasks_def schedule(1) by (simp add: pool_Schedule_def nil)
next
  case (wakes i)
  then show ?thesis using pool_inv_Signal [OF assms(2), of i] by simp
next
  case stop
  have "\<exists>w \<in> set (pool_workers (pool r)). awake w \<Longrightarrow> \<exists>w \<in> set (pool_workers (pool r)). awake (stop_wait w)" by (metis stop_wait_simps(3))
  then show ?thesis using assms(2) unfolding pool_inv_def running_tasks_def stop by (simp add: StopPool_def)
qed

lemma pool_inv_reachable: "pool_step\<^sup>*\<^sup>* (start_pool n) r \<Longrightarrow> pool_inv n r"
  by (induction rule: rtranclp_induct) (auto intro: pool_inv_start pool_inv_step)

text \<open>How many more steps the workers can take if nothing else happens.\<close>

fun worker_weight :: "'t worker \<Rightarrow> nat" where
  "worker_weight AtLock = 1"
| "worker_weight (RunningTask t) = 2"
| "worker_weight _ = 0"

definition pool_weight :: "'t pool_run \<Rightarrow> nat" where
  "pool_weight r = 2 * length (pool_tasks (pool r)) + sum_list (map worker_weight (pool_workers (pool r)))"

lemma pool_weight_step:
  assumes "worker_step r r'"
  shows "pool_weight r' < pool_weight r"
  using assms
proof (cases rule: worker_step.cases)
  case (under_lock i)
  obtain xs ys where ws: "pool_workers (pool r) = xs @ AtLock # ys" and i: "i = length xs"
    using split_at [OF under_lock(2)] under_lock(3) by metis
  show ?thesis by (auto simp: under_lock(1) ws i pool_weight_def RunWorker_def take_pool_task_def split: list.splits)
next
  case (execute i task)
  obtain xs ys where ws: "pool_workers (pool r) = xs @ RunningTask task # ys" and i: "i = length xs"
    using split_at [OF execute(2)] execute(3) by metis
  show ?thesis by (simp add: execute(1) ws i pool_weight_def)
qed

lemma worker_steps_bounded: "(worker_step ^^ k) r r' \<Longrightarrow> k + pool_weight r' \<le> pool_weight r"
proof (induction k arbitrary: r')
  case (Suc k)
  then obtain r1 where "(worker_step ^^ k) r r1" "worker_step r1 r'" by auto
  then show ?case using Suc.IH pool_weight_step [of r1 r'] by fastforce
qed simp

lemma weight_bound: "pool_weight r \<le> 2 * length (pool_tasks (pool r)) + 2 * length (pool_workers (pool r))"
proof -
  have "sum_list (map worker_weight ws) \<le> 2 * length ws" for ws :: "'a worker list"
  proof (induction ws)
    case (Cons w ws)
    then show ?case by (cases w) simp_all
  qed simp
  then show ?thesis by (simp add: pool_weight_def)
qed

lemma resting_workers:
  assumes "\<nexists>r'. worker_step r r'" "w \<in> set (pool_workers (pool r))"
  shows "w = WaitingForTask \<or> w = FinishedWorker"
proof -
  obtain i where i: "i < length (pool_workers (pool r))" "pool_workers (pool r) ! i = w"
    using assms(2) by (auto simp: in_set_conv_nth)
  show ?thesis
    using assms(1) worker_step.under_lock [of i r] worker_step.execute [of i r] i by (cases w) blast+
qed

lemma resting_pool:
  assumes "pool_inv n r" "0 \<le> sint n" "\<nexists>r'. worker_step r r'"
  shows "pool_tasks (pool r) = [] \<and> running_tasks (pool r) = {#} \<and> (pool_stopped (pool r) \<longrightarrow> joined (pool r))"
proof (intro conjI impI)
  have sleeping: "running_of w = [] \<and> \<not> awake w" if "w \<in> set (pool_workers (pool r))" for w
    using resting_workers [OF assms(3) that] by auto
  have "0 < sint (if n = 0 then 1 else n)" using assms(2) signed_word_eqI [of n 0] by (auto simp: less_le)
  then have "pool_workers (pool r) \<noteq> []" using assms(1) by (auto simp: pool_inv_def)
  then show "pool_tasks (pool r) = []" using assms(1) sleeping by (auto simp: pool_inv_def)
  have "concat (map running_of (pool_workers (pool r))) = []" using sleeping by simp
  then show "running_tasks (pool r) = {#}" by (simp add: running_tasks_def)
  assume "pool_stopped (pool r)"
  then show "joined (pool r)" using assms(1) resting_workers [OF assms(3)] by (fastforce simp: pool_inv_def joined_def list_all_iff)
qed

text \<open>
  C9: A thread pool with at least one worker runs every task exactly once, whatever tasks, threads, wake-ups and
  the destructor do in whatever order: tasks are taken in the order in which they were scheduled, and no task is
  lost or run twice. The workers alone need at most two steps for each waiting task and each worker until
  they rest; then all tasks have been executed and, if the pool is being destroyed, all threads can
  be joined. A single worker executes the tasks in the order in which they were scheduled.
\<close>
theorem pool_runs_every_task:
  assumes "pool_step\<^sup>*\<^sup>* (start_pool n) r" and "0 \<le> sint n"
  shows "scheduled_tasks r = taken_tasks r @ pool_tasks (pool r) \<and>
    mset (taken_tasks r) = mset (executed_tasks r) + running_tasks (pool r) \<and>
    (\<forall>k r'. (worker_step ^^ k) r r' \<longrightarrow>
      k \<le> 2 * length (pool_tasks (pool r)) + 2 * length (pool_workers (pool r)) \<and>
      ((\<nexists>r''. worker_step r' r'') \<longrightarrow> mset (executed_tasks r') = mset (scheduled_tasks r) \<and>
        (pool_stopped (pool r') \<longrightarrow> joined (pool r')))) \<and>
    (sint n \<le> 1 \<longrightarrow> prefix (executed_tasks r) (scheduled_tasks r))"
proof (intro conjI allI impI)
  have inv: "pool_inv n r" by (rule pool_inv_reachable [OF assms(1)])
  show "scheduled_tasks r = taken_tasks r @ pool_tasks (pool r)" "mset (taken_tasks r) = mset (executed_tasks r) + running_tasks (pool r)"
    using inv unfolding pool_inv_def by blast+
  fix k r' assume run: "(worker_step ^^ k) r r'"
  show "k \<le> 2 * length (pool_tasks (pool r)) + 2 * length (pool_workers (pool r))"
    using worker_steps_bounded [OF run] weight_bound [of r] by simp
  have inv': "pool_inv n r'" "scheduled_tasks r' = scheduled_tasks r" using worker_steps_keep [OF run inv] by simp_all
  assume rest: "\<nexists>r''. worker_step r' r''"
  note at_rest = resting_pool [OF inv'(1) assms(2) rest]
  show "mset (executed_tasks r') = mset (scheduled_tasks r)" using at_rest inv' by (simp add: pool_inv_def)
  show "pool_stopped (pool r') \<Longrightarrow> joined (pool r')" using at_rest by blast
next
  assume one: "sint n \<le> 1"
  have inv: "pool_inv n r" by (rule pool_inv_reachable [OF assms(1)])
  have "sint (if n = 0 then 1 else n) = 1" using one assms(2) signed_word_eqI [of n 0] by (cases "sint n = 0") auto
  then have "taken_tasks r = executed_tasks r @ concat (map running_of (pool_workers (pool r)))"
    using inv by (simp add: pool_inv_def)
  then show "prefix (executed_tasks r) (scheduled_tasks r)" using inv by (simp add: pool_inv_def prefix_def)
qed

definition demo_pool_run :: "nat pool_run" where
  "demo_pool_run = \<lparr>pool = \<lparr>pool_num_threads = 1, pool_tasks = [8], pool_stopped = False, pool_workers = [RunningTask 7]\<rparr>,
     scheduled_tasks = [7, 8], taken_tasks = [7], executed_tasks = []\<rparr>"

lemma demo_pool_reachable: "pool_step\<^sup>*\<^sup>* (start_pool 1) demo_pool_run"
proof -
  define r where "r ts w s t = \<lparr>pool = \<lparr>pool_num_threads = 1, pool_tasks = ts, pool_stopped = False, pool_workers = [w]\<rparr>,
     scheduled_tasks = s, taken_tasks = t, executed_tasks = []\<rparr>" for ts s t :: "nat list" and w
  have 0: "start_pool 1 = r [] AtLock [] []" by (simp add: start_pool_def StartWorkers_def new_thread_pool_def r_def)
  have 1: "pool_step (r [] AtLock [] []) (r [7] AtLock [7] [])"
    using pool_step.schedule [of "r [] AtLock [] []" 0 7] by (simp add: r_def pool_Schedule_def Signal_def)
  have "worker_step (r [7] AtLock [7] []) (r [] (RunningTask 7) [7] [7])"
    using worker_step.under_lock [of 0 "r [7] AtLock [7] []"] by (simp add: r_def RunWorker_def take_pool_task_def)
  then have 2: "pool_step (r [7] AtLock [7] []) (r [] (RunningTask 7) [7] [7])" by (rule pool_step.works)
  have 3: "pool_step (r [] (RunningTask 7) [7] [7]) (r [8] (RunningTask 7) [7, 8] [7])"
    using pool_step.schedule [of "r [] (RunningTask 7) [7] [7]" 0 8] by (simp add: r_def pool_Schedule_def Signal_def)
  have "demo_pool_run = r [8] (RunningTask 7) [7, 8] [7]" by (simp add: demo_pool_run_def r_def)
  then show ?thesis using 0 1 2 3 by (metis (no_types) rtranclp.rtrancl_into_rtrancl rtranclp.rtrancl_refl)
qed

theorem pool_runs_every_task_witness:
  "scheduled_tasks demo_pool_run = taken_tasks demo_pool_run @ [8] \<and>
     mset (taken_tasks demo_pool_run) = mset (executed_tasks demo_pool_run) + {#7#} \<and>
     prefix (executed_tasks demo_pool_run) (scheduled_tasks demo_pool_run)"
  using pool_runs_every_task [OF demo_pool_reachable] by (simp add: demo_pool_run_def running_tasks_def)

end
