(* ===== verification/GraphExecutors.thy ===== *)
theory GraphExecutors
  imports ThreadPool GraphWiring
begin

section \<open>The executors of a graph\<close>

text \<open>
  \<open>thread_pool_executor.cc\<close> and, from \<open>calculator_graph.cc\<close>, \<open>SetExecutor\<close>, \<open>InitializeExecutors\<close> and what they
  call. An executor is its identity. What is not decided by this code is a record of arguments: the
  registry that makes executors by the name of their type, the number of processors, the sets of processors
  that \<open>util/cpu_util\<close> finds, and the identities of new executors.
\<close>

record thread_options =
  stack_size :: int
  nice_priority_level :: int32
  thread_name_prefix :: string
  cpu_set :: "int list"

record executor_environment =
  CreateByNameInNamespace :: "string \<Rightarrow> string \<Rightarrow> pool_options \<Rightarrow> nat result"
  NumCPUCores :: int32
  InferLowerCoreIds :: "int list"
  InferHigherCoreIds :: "int list"
  new_pool_executor :: "thread_options \<Rightarrow> int32 \<Rightarrow> nat"
  new_delegating_executor :: nat

definition ThreadPoolExecutor_Create :: "executor_environment \<Rightarrow> pool_options \<Rightarrow> (thread_options \<times> int32) result" where
  "ThreadPoolExecutor_Create E opts =
     (case opt_num_threads opts of
        None \<Rightarrow> Inl InvalidArgument
      | Some n \<Rightarrow>
          if sint n \<le> 0 then Inl InvalidArgument
          else if (case opt_stack_size opts of None \<Rightarrow> False | Some bytes \<Rightarrow> sint bytes \<le> 0) then Inl InvalidArgument
          else Inr
            (\<lparr>stack_size = (case opt_stack_size opts of None \<Rightarrow> 0 | Some bytes \<Rightarrow> sint bytes),
              nice_priority_level = (case opt_nice_priority_level opts of None \<Rightarrow> 0 | Some level \<Rightarrow> level),
              thread_name_prefix = (case opt_thread_name_prefix opts of None \<Rightarrow> [] | Some p \<Rightarrow> p),
              cpu_set = (case opt_performance opts of
                  LOW \<Rightarrow> InferLowerCoreIds E | HIGH \<Rightarrow> InferHigherCoreIds E | NORMAL \<Rightarrow> [])\<rparr>, n))"

text \<open>The prefix of the names of the threads of an executor.\<close>

definition pool_name_prefix :: "thread_options \<Rightarrow> string" where
  "pool_name_prefix opts = (if thread_name_prefix opts = [] then ''mediapipe'' else thread_name_prefix opts)"

definition SetExecutorInternal :: "string \<Rightarrow> nat \<Rightarrow> 'a calculator_graph \<Rightarrow> ('a calculator_graph \<times> status) option" where
  "SetExecutorInternal name executor g =
     (case executors g name of
        Some e \<Rightarrow> Some (g, if e = executor then OkStatus else ErrorStatus AlreadyExists)
      | None \<Rightarrow>
          let g = g\<lparr>executors := (executors g)(name \<mapsto> executor)\<rparr>
          in if name = [] then do { check (sched_state (run_scheduler g) = STATE_NOT_STARTED); Some (g, OkStatus) }
             else let (s, status) = SetNonDefaultExecutor name (run_scheduler g) in Some (g\<lparr>run_scheduler := s\<rparr>, status))"

definition SetExecutor :: "string \<Rightarrow> nat \<Rightarrow> 'a calculator_graph \<Rightarrow> ('a calculator_graph \<times> status) option" where
  "SetExecutor name executor g =
     (if initialized g then Some (g, ErrorStatus Internal)
      else if IsReservedExecutorName name then Some (g, ErrorStatus InvalidArgument)
      else SetExecutorInternal name executor g)"

definition CreateDefaultThreadPool ::
    "executor_environment \<Rightarrow> pool_options option \<Rightarrow> int32 \<Rightarrow> 'a calculator_graph \<Rightarrow> ('a calculator_graph \<times> status) option" where
  "CreateDefaultThreadPool E default_options n g =
     (let opts = (case default_options of None \<Rightarrow> no_pool_options | Some p \<Rightarrow> p)\<lparr>opt_num_threads := Some n\<rparr>
      in case ThreadPoolExecutor_Create E opts of
           Inl c \<Rightarrow> Some (g, ErrorStatus c)
         | Inr (thread_options, n) \<Rightarrow> SetExecutorInternal [] (new_pool_executor E thread_options n) g)"

text \<open>
  The number of threads of the default pool, and the executor itself. \<open>None\<close> as the result of \<open>SetExecutorInternal\<close>,
  or an error under \<open>MEDIAPIPE_CHECK_OK\<close>, aborts.
\<close>

definition default_num_threads :: "executor_environment \<Rightarrow> pool_options option \<Rightarrow> validated_graph \<Rightarrow> int32" where
  "default_num_threads E default_options v =
     (let n = (case default_options of None \<Rightarrow> 0 | Some p \<Rightarrow> (case opt_num_threads p of None \<Rightarrow> 0 | Some n \<Rightarrow> n))
      in if n = 0 \<or> n = -1
         then word_of_int (min (sint (NumCPUCores E))
                (max (int (length (config_nodes (config v)))) (max (int (length (config_generators (config v)))) 1)))
         else n)"

definition set_checked :: "string \<Rightarrow> nat \<Rightarrow> 'a calculator_graph \<Rightarrow> 'a calculator_graph option" where
  "set_checked name executor g = do {
     (g, status) \<leftarrow> SetExecutorInternal name executor g;
     check (ok status);
     Some g }"

definition InitializeDefaultExecutor ::
    "executor_environment \<Rightarrow> pool_options option \<Rightarrow> bool \<Rightarrow> 'a calculator_graph \<Rightarrow> ('a calculator_graph \<times> status) option" where
  "InitializeDefaultExecutor E default_options application_thread g =
     (if application_thread
      then do {
        g \<leftarrow> set_checked [] (new_delegating_executor E) (g\<lparr>use_application_thread := True\<rparr>);
        Some (g, OkStatus) }
      else CreateDefaultThreadPool E default_options (default_num_threads E default_options (graph_info g)) g)"

definition kApplicationThreadExecutorType :: string where
  "kApplicationThreadExecutorType = ''ApplicationThreadExecutor''"

text \<open>The loop over the configured executors; its result is the options of the default one, and whether it is the application thread.\<close>

fun initialize_executors ::
    "executor_environment \<Rightarrow> executor_config list \<Rightarrow> pool_options option \<times> bool \<Rightarrow> 'a calculator_graph \<Rightarrow>
     ('a calculator_graph \<times> (pool_options option \<times> bool) result) option" where
  "initialize_executors E [] (opts, thread) g = Some (g, Inr (opts, thread))"
| "initialize_executors E (c # cs) (opts, thread) g =
     (if executors g (executor_name c) \<noteq> None
      then if executor_type c \<noteq> [] then Some (g, Inl InvalidArgument) else initialize_executors E cs (opts, thread) g
      else if executor_name c = [] \<and> executor_type c = [] then initialize_executors E cs (Some (executor_options c), thread) g
      else if executor_name c = [] \<and> executor_type c = kApplicationThreadExecutorType then initialize_executors E cs (opts, True) g
      else if executor_type c = [] then Some (g, Inl InvalidArgument)
      else case CreateByNameInNamespace E (config_package (config (graph_info g))) (executor_type c) (executor_options c) of
          Inl e \<Rightarrow> Some (g, Inl e)
        | Inr executor \<Rightarrow> do {
            g \<leftarrow> set_checked (executor_name c) executor g;
            initialize_executors E cs (opts, thread) g })"

definition InitializeExecutors :: "executor_environment \<Rightarrow> 'a calculator_graph \<Rightarrow> ('a calculator_graph \<times> status) option" where
  "InitializeExecutors E g = do {
     (g, r) \<leftarrow> initialize_executors E (config_executors (config (graph_info g))) (None, False) g;
     case r of
       Inl c \<Rightarrow> Some (g, ErrorStatus c)
     | Inr (opts, thread) \<Rightarrow>
         if executors g [] = None then InitializeDefaultExecutor E opts thread g else Some (g, OkStatus) }"

subsection \<open>The queues of the executors\<close>

text \<open>
  A scheduler that has not started has a queue of its own for each executor with a name, and only for
  them; the queue 0 is the one of the default executor.
\<close>

definition queues_match :: "'a calculator_graph \<Rightarrow> bool" where
  "queues_match g \<longleftrightarrow> sched_state (run_scheduler g) = STATE_NOT_STARTED \<and>
     (\<forall>name. name \<noteq> [] \<longrightarrow> (executors g name = None \<longleftrightarrow> non_default_queues (run_scheduler g) name = None)) \<and>
     scheduler_queues (run_scheduler g) \<noteq> [] \<and>
     (\<forall>name i. non_default_queues (run_scheduler g) name = Some i \<longrightarrow> 0 < i \<and> i < length (scheduler_queues (run_scheduler g)) \<and>
       (\<forall>name'. non_default_queues (run_scheduler g) name' = Some i \<longrightarrow> name' = name))"

lemma SetExecutorInternal_new:
  assumes "queues_match g" "executors g name = None"
  shows "\<exists>g'. SetExecutorInternal name e g = Some (g', OkStatus) \<and> queues_match g' \<and> graph_info g' = graph_info g \<and>
    initialized g' = initialized g \<and> executors g' = (executors g)(name \<mapsto> e)"
  using assms by (auto simp: SetExecutorInternal_def SetNonDefaultExecutor_def queues_match_def Let_def less_Suc_eq)

lemma SetExecutorInternal_keeps:
  assumes "queues_match g"
  shows "\<exists>g' st. SetExecutorInternal name e g = Some (g', st) \<and> queues_match g' \<and> graph_info g' = graph_info g \<and>
    initialized g' = initialized g \<and> dom (executors g) \<subseteq> dom (executors g') \<and>
    (st = OkStatus \<longrightarrow> executors g' name = Some e) \<and> (st = ErrorStatus AlreadyExists \<or> st = OkStatus)"
proof (cases "executors g name")
  case None
  then show ?thesis using SetExecutorInternal_new [OF assms None, of e] by auto
next
  case (Some e')
  then show ?thesis using assms by (auto simp: SetExecutorInternal_def)
qed

lemma SetExecutor_keeps:
  assumes "queues_match g"
  shows "\<exists>g' st. SetExecutor name e g = Some (g', st) \<and> queues_match g' \<and> graph_info g' = graph_info g"
  using SetExecutorInternal_keeps [OF assms, of name e] assms by (cases "initialized g"; cases "IsReservedExecutorName name") (auto simp: SetExecutor_def)

text \<open>Before a graph is initialized, the application may set executors.\<close>

fun set_executors :: "(string \<times> nat) list \<Rightarrow> 'a calculator_graph \<Rightarrow> 'a calculator_graph option" where
  "set_executors [] g = Some g"
| "set_executors ((name, e) # xs) g = do { (g, _) \<leftarrow> SetExecutor name e g; set_executors xs g }"

lemma set_executors_keeps:
  "queues_match g \<Longrightarrow> \<exists>g'. set_executors xs g = Some g' \<and> queues_match g' \<and> graph_info g' = graph_info g"
proof (induction xs arbitrary: g)
  case (Cons x xs)
  obtain name e where x: "x = (name, e)" by (cases x)
  obtain g1 st where "SetExecutor name e g = Some (g1, st)" "queues_match g1" "graph_info g1 = graph_info g"
    using SetExecutor_keeps [OF Cons.prems, of name e] by blast
  then show ?case using Cons.IH [of g1] x by auto
qed simp

lemma initialize_executors_result:
  assumes "queues_match g"
  shows "\<exists>g' r. initialize_executors E cs (opts, thread) g = Some (g', r) \<and> queues_match g' \<and> graph_info g' = graph_info g \<and>
    dom (executors g) \<subseteq> dom (executors g') \<and>
    (\<forall>x. r = Inr x \<longrightarrow> (\<forall>c \<in> set cs. executor_name c \<noteq> [] \<longrightarrow> executors g' (executor_name c) \<noteq> None))"
  using assms
proof (induction cs arbitrary: opts thread g)
  case (Cons c cs)
  let ?init = "\<lambda>x. \<exists>g' r. x = Some (g', r) \<and> queues_match g' \<and> graph_info g' = graph_info g \<and> dom (executors g) \<subseteq> dom (executors g') \<and>
    (\<forall>x. r = Inr x \<longrightarrow> (\<forall>c \<in> set (c # cs). executor_name c \<noteq> [] \<longrightarrow> executors g' (executor_name c) \<noteq> None))"
  have err: "?init (Some (g, Inl e))" for e using Cons.prems by blast
  have skip: "?init (initialize_executors E cs (opts, thread) g)" if "executors g (executor_name c) \<noteq> None \<or> executor_name c = []" for opts thread
  proof -
    obtain g' r where "initialize_executors E cs (opts, thread) g = Some (g', r)" "queues_match g'" "graph_info g' = graph_info g"
      "dom (executors g) \<subseteq> dom (executors g')" "\<forall>x. r = Inr x \<longrightarrow> (\<forall>c \<in> set cs. executor_name c \<noteq> [] \<longrightarrow> executors g' (executor_name c) \<noteq> None)"
      using Cons.IH [OF Cons.prems, of opts thread] by blast
    then show ?thesis using that by (intro exI [of _ g'] exI [of _ r]) (auto simp: dom_def)
  qed
  have made: "?init (do { g \<leftarrow> set_checked (executor_name c) e g; initialize_executors E cs (opts, thread) g })"
    if new: "executors g (executor_name c) = None" for e
  proof -
    obtain g1 where g1: "SetExecutorInternal (executor_name c) e g = Some (g1, OkStatus)" "queues_match g1" "graph_info g1 = graph_info g"
      "executors g1 = (executors g)(executor_name c \<mapsto> e)" using SetExecutorInternal_new [OF Cons.prems new] by blast
    obtain g' r where g': "initialize_executors E cs (opts, thread) g1 = Some (g', r)" "queues_match g'" "graph_info g' = graph_info g1"
      "dom (executors g1) \<subseteq> dom (executors g')" "\<forall>x. r = Inr x \<longrightarrow> (\<forall>c \<in> set cs. executor_name c \<noteq> [] \<longrightarrow> executors g' (executor_name c) \<noteq> None)"
      using Cons.IH [OF g1(2), of opts thread] by blast
    have dom: "dom (executors g) \<subseteq> dom (executors g')" "executor_name c \<in> dom (executors g')"
      using g'(4) by (auto simp: g1(4))
    have "do { g \<leftarrow> set_checked (executor_name c) e g; initialize_executors E cs (opts, thread) g } = Some (g', r)"
      using g1(1) g'(1) by (simp add: set_checked_def)
    then show ?thesis using g'(2,3,5) dom g1(3) by (intro exI [of _ g'] exI [of _ r]) (simp add: domIff)
  qed
  show ?case
    unfolding initialize_executors.simps using err skip made
    by (auto split: sum.split simp del: initialize_executors.simps)
qed simp

lemma CreateDefaultThreadPool_result:
  assumes "queues_match g" "executors g [] = None"
  shows "\<exists>g' st. CreateDefaultThreadPool E opts n g = Some (g', st) \<and> queues_match g' \<and> graph_info g' = graph_info g \<and>
    dom (executors g) \<subseteq> dom (executors g') \<and> (st = OkStatus \<longrightarrow> executors g' [] \<noteq> None) \<and> 
    (0 < sint n \<and> (opts = None \<or> opts = Some no_pool_options) \<longrightarrow> st = OkStatus)"
proof -
  let ?p = "(case opts of None \<Rightarrow> no_pool_options | Some p \<Rightarrow> p)\<lparr>opt_num_threads := Some n\<rparr>"
  show ?thesis
  proof (cases "ThreadPoolExecutor_Create E ?p")
    case (Inl c)
    then show ?thesis using assms(1)
      by (auto simp: CreateDefaultThreadPool_def ThreadPoolExecutor_Create_def no_pool_options_def split: if_splits option.splits)
  next
    case (Inr x)
    obtain t m where "x = (t, m)" by (cases x)
    then show ?thesis using Inr SetExecutorInternal_new [OF assms, of "new_pool_executor E t m"]
      by (auto simp: CreateDefaultThreadPool_def)
  qed
qed

lemma default_num_threads_positive:
  assumes "0 < sint (NumCPUCores E)"
  shows "0 < sint (default_num_threads E None v)" "default_num_threads E (Some no_pool_options) v = default_num_threads E None v"
proof -
  define m where "m = max (int (length (config_nodes (config v)))) (max (int (length (config_generators (config v)))) 1)"
  have "0 < min (sint (NumCPUCores E)) m" "min (sint (NumCPUCores E)) m \<le> sint (NumCPUCores E)" using assms by (simp_all add: m_def)
  moreover have "sint (NumCPUCores E) < 2 ^ 31" using sint_lt [of "NumCPUCores E"] by simp
  ultimately have "sint (word_of_int (min (sint (NumCPUCores E)) m) :: int32) = min (sint (NumCPUCores E)) m"
    by (subst sint_sbintrunc') (simp add: signed_take_bit_int_eq_self)
  then show "0 < sint (default_num_threads E None v)" using \<open>0 < min _ m\<close> by (simp add: default_num_threads_def m_def)
qed (simp add: default_num_threads_def no_pool_options_def)

lemma declare_executors_names: "declare_executors es ns = Inr ns' \<Longrightarrow> set ns' = set ns \<union> executor_name ` set es"
  by (induction es arbitrary: ns) (auto split: if_splits)

lemma check_node_executors_declared:
  "check_node_executors nodes ns = Inr () \<Longrightarrow> n \<in> set nodes \<Longrightarrow> node_executor n \<noteq> [] \<Longrightarrow> node_executor n \<in> set ns"
  by (induction nodes) (auto split: if_splits)

lemma validated_executors:
  assumes "ValidatedGraph_Initialize A R ExpandSubgraphs cfg = Some (Inr g)" "n \<in> set (config_nodes (config g))" "node_executor n \<noteq> []"
  shows "\<exists>c \<in> set (config_executors (config g)). executor_name c = node_executor n"
proof -
  obtain ns where "declare_executors (config_executors (config g)) [] = Inr ns" "check_node_executors (config_nodes (config g)) ns = Inr ()"
    using assms(1) by (auto simp: ValidatedGraph_Initialize_def outcome_bind_eq_Inr ValidateExecutors_def result_bind_Inr)
  then show ?thesis using declare_executors_names check_node_executors_declared assms(2,3) by fastforce
qed

lemma InitializeExecutors_result:
  assumes "queues_match g"
  shows "\<exists>g' st. InitializeExecutors E g = Some (g', st) \<and> queues_match g' \<and>
    (st = OkStatus \<longrightarrow> executors g' [] \<noteq> None \<and>
      (\<forall>c \<in> set (config_executors (config (graph_info g))). executor_name c \<noteq> [] \<longrightarrow> executors g' (executor_name c) \<noteq> None))"
proof -
  obtain g1 r where g1: "initialize_executors E (config_executors (config (graph_info g))) (None, False) g = Some (g1, r)" "queues_match g1"
    "\<forall>x. r = Inr x \<longrightarrow> (\<forall>c \<in> set (config_executors (config (graph_info g))). executor_name c \<noteq> [] \<longrightarrow> executors g1 (executor_name c) \<noteq> None)"
    using initialize_executors_result [OF assms, of E "config_executors (config (graph_info g))" None False] by blast
  have default: "\<exists>g2 st. InitializeDefaultExecutor E opts thread g1 = Some (g2, st) \<and> queues_match g2 \<and> dom (executors g1) \<subseteq> dom (executors g2) \<and>
      (st = OkStatus \<longrightarrow> executors g2 [] \<noteq> None)" if new: "executors g1 [] = None" for opts thread
  proof (cases thread)
    case True
    let ?g = "g1\<lparr>use_application_thread := True\<rparr>"
    have "queues_match ?g" "executors ?g [] = None" using g1(2) new by (auto simp: queues_match_def)
    from SetExecutorInternal_new [OF this, of "new_delegating_executor E"]
    show ?thesis using True by (auto simp: InitializeDefaultExecutor_def set_checked_def)
  next
    case False
    then show ?thesis using CreateDefaultThreadPool_result [OF g1(2) new, of E opts "default_num_threads E opts (graph_info g1)"]
      by (auto simp: InitializeDefaultExecutor_def)
  qed
  show ?thesis
  proof (cases r)
    case (Inl e)
    then show ?thesis using g1(1,2) by (simp add: InitializeExecutors_def)
  next
    case (Inr x)
    obtain opts thread where x: "x = (opts, thread)" by (cases x)
    show ?thesis
    proof (cases "executors g1 []")
      case None
      then obtain g2 st where g2: "InitializeDefaultExecutor E opts thread g1 = Some (g2, st)" "queues_match g2"
        "dom (executors g1) \<subseteq> dom (executors g2)" "st = OkStatus \<longrightarrow> executors g2 [] \<noteq> None" using default by blast
      have "InitializeExecutors E g = Some (g2, st)" using g1(1) Inr x None g2(1) by (simp add: InitializeExecutors_def)
      then show ?thesis using g1(3) Inr g2(2-4) by (intro exI [of _ g2] exI [of _ st]) blast
    next
      case (Some e)
      then have "InitializeExecutors E g = Some (g1, OkStatus)" using g1(1) Inr x by (simp add: InitializeExecutors_def)
      then show ?thesis using g1(2,3) Inr Some by (intro exI [of _ g1] exI [of _ OkStatus]) simp
    qed
  qed
qed

text \<open>
  C19: Whatever executors the application has set before, the executors of a validated graph are initialized
  without a failed \<open>CHECK\<close>. If that succeeds, there is a default executor, every node can be assigned to a queue,
  so the \<open>CHECK\<close> in \<open>AssignNodeToSchedulerQueue\<close> never fails, and two nodes share a queue exactly if they name
  the same executor. A graph that configures nothing always succeeds: it gets a pool of at least one thread.
\<close>
theorem executors_cover_nodes:
  assumes "ValidatedGraph_Initialize A R ExpandSubgraphs cfg = Some (Inr (graph_info g0))"
    and "queues_match g0" and "set_executors xs g0 = Some g" and "0 < sint (NumCPUCores E)"
  shows "\<exists>g' st. InitializeExecutors E g = Some (g', st) \<and>
    (st = OkStatus \<longrightarrow> executors g' [] \<noteq> None \<and>
      (\<forall>n \<in> set (config_nodes (config (graph_info g))).
        \<exists>i < length (scheduler_queues (run_scheduler g')). AssignNodeToSchedulerQueue (node_executor n) (run_scheduler g') = Some i \<and>
          (\<forall>m. AssignNodeToSchedulerQueue m (run_scheduler g') = Some i \<longleftrightarrow> m = node_executor n))) \<and>
    (config_executors (config (graph_info g)) = [\<lparr>executor_name = [], executor_type = [], executor_options = no_pool_options\<rparr>] \<longrightarrow>
      st = OkStatus)"
proof -
  have g: "queues_match g" "graph_info g = graph_info g0" using set_executors_keeps [OF assms(2), of xs] assms(3) by auto
  obtain g' st where g': "InitializeExecutors E g = Some (g', st)" "queues_match g'" "st = OkStatus \<longrightarrow> executors g' [] \<noteq> None \<and>
      (\<forall>c \<in> set (config_executors (config (graph_info g))). executor_name c \<noteq> [] \<longrightarrow> executors g' (executor_name c) \<noteq> None)"
    using InitializeExecutors_result [OF g(1)] by blast
  have assigned: "\<exists>i < length (scheduler_queues (run_scheduler g')). AssignNodeToSchedulerQueue (node_executor n) (run_scheduler g') = Some i \<and>
      (\<forall>m. AssignNodeToSchedulerQueue m (run_scheduler g') = Some i \<longleftrightarrow> m = node_executor n)"
    if fine: "st = OkStatus" and n: "n \<in> set (config_nodes (config (graph_info g)))" for n
  proof (cases "node_executor n = []")
    case True
    then show ?thesis using g'(2) by (auto simp: AssignNodeToSchedulerQueue_def queues_match_def)
  next
    case False
    then obtain c where "c \<in> set (config_executors (config (graph_info g)))" "executor_name c = node_executor n"
      using validated_executors [OF assms(1), of n] n g(2) by auto
    then have "executors g' (node_executor n) \<noteq> None" using g'(3) fine False by metis
    then obtain i where "non_default_queues (run_scheduler g') (node_executor n) = Some i" using g'(2) False by (auto simp: queues_match_def)
    then show ?thesis using g'(2) False by (intro exI [of _ i]) (auto simp: AssignNodeToSchedulerQueue_def queues_match_def)
  qed
  have plain: "st = OkStatus" if one: "config_executors (config (graph_info g)) = [\<lparr>executor_name = [], executor_type = [], executor_options = no_pool_options\<rparr>]"
  proof (cases "executors g []")
    case None
    then have "InitializeExecutors E g = CreateDefaultThreadPool E (Some no_pool_options) (default_num_threads E None (graph_info g)) g"
      by (simp add: InitializeExecutors_def one InitializeDefaultExecutor_def default_num_threads_positive(2) [OF assms(4)])
    then show ?thesis using CreateDefaultThreadPool_result [OF g(1) None, of E "Some no_pool_options" "default_num_threads E None (graph_info g)"]
      default_num_threads_positive(1) [OF assms(4)] g'(1) by auto
  next
    case (Some e)
    then show ?thesis using g'(1) by (simp add: InitializeExecutors_def one)
  qed
  show ?thesis using g'(1,3) assigned plain by blast
qed

theorem executors_cover_nodes_witness:
  "\<exists>v g' st. ValidatedGraph_Initialize reference_strings demo_registry Inr demo_config = Some (Inr v) \<and>
     InitializeExecutors \<lparr>CreateByNameInNamespace = (\<lambda>_ _ _. Inl NotFound), NumCPUCores = 4, InferLowerCoreIds = [], InferHigherCoreIds = [],
        new_pool_executor = (\<lambda>_ _. 1), new_delegating_executor = 2\<rparr>
       (demo_graph\<lparr>graph_info := v, initialized := False, executors := Map.empty\<rparr>) = Some (g', st)"
proof -
  obtain v where v: "ValidatedGraph_Initialize reference_strings demo_registry Inr demo_config = Some (Inr v)"
    using demo_initialized by blast
  let ?E = "\<lparr>CreateByNameInNamespace = (\<lambda>_ _ _. Inl NotFound), NumCPUCores = 4, InferLowerCoreIds = [], InferHigherCoreIds = [],
        new_pool_executor = (\<lambda>_ _. 1), new_delegating_executor = 2\<rparr>"
  let ?g = "demo_graph\<lparr>graph_info := v, initialized := False, executors := Map.empty\<rparr>"
  have "queues_match ?g" by (simp add: queues_match_def demo_graph_def new_scheduler_def)
  then show ?thesis using executors_cover_nodes [of reference_strings demo_registry Inr demo_config ?g "[]" ?g ?E] v by auto
qed

end
