(* ===== verification/SubgraphExpansion.thy ===== *)
theory SubgraphExpansion
  imports GraphProperties "HOL-Library.Sublist"
begin

section \<open>The expansion of subgraphs\<close>

text \<open>
  \<open>tool/subgraph_expansion.cc\<close>: a node whose calculator is registered as a graph is replaced by the nodes of that
  graph, with prefixed names, connected to the streams and side packets of the node. What is
  registered is the record \<open>subgraphs\<close>: \<open>IsRegistered\<close> and \<open>CreateByName\<close> of \<open>GraphRegistry\<close>, by package and type, and
  \<open>DefineGraphOptions\<close>, which copies options. A subgraph is created from the configuration of the node.

  A \<open>std::map\<close> of names is a map, a \<open>std::set\<close> a set. The loop of \<open>ExpandSubgraphs\<close> ends only if no subgraph
  contains itself, so it is a partial function. \<open>tolower\<close> is the one of the C locale.
\<close>

record subgraphs =
  IsRegistered :: "string \<Rightarrow> string \<Rightarrow> bool"
  CreateByName :: "string \<Rightarrow> string \<Rightarrow> node_config \<Rightarrow> graph_config result"
  DefineGraphOptions :: "node_config \<Rightarrow> graph_config \<Rightarrow> graph_config result"

subsection \<open>Names\<close>

text \<open>The part up to the last colon, and the name.\<close>

definition split_stream :: "string \<Rightarrow> string \<times> string" where
  "split_stream s =
     (let name = rev (takeWhile (\<lambda>c. c \<noteq> CHR '':'') (rev s)) in (take (length s - length name) s, name))"

definition transform_stream :: "(string \<Rightarrow> string) \<Rightarrow> string \<Rightarrow> string" where
  "transform_stream f s = (let (port, name) = split_stream s in port @ f name)"

definition TransformStreamNames :: "(string \<Rightarrow> string) \<Rightarrow> string list \<Rightarrow> string list" where
  "TransformStreamNames f streams = map (transform_stream f) streams"

definition FindIgnoredStreams :: "strings \<Rightarrow> string list \<Rightarrow> string list \<Rightarrow> string set result" where
  "FindIgnoredStreams A src_streams dst_streams =
     result_bind (Create A src_streams) (\<lambda>src.
     result_bind (Create A dst_streams) (\<lambda>dst.
       Inr (set (map (\<lambda>i. names src ! i) (filter (\<lambda>i.
         let (tag, index) = TagAndIndexFromId src (int i) in GetId dst tag index < 0) [0..<nat (num_entries src)])))))"

text \<open>The loop runs from the last stream to the first.\<close>

fun RemoveIgnoredStreams :: "strings \<Rightarrow> string list \<Rightarrow> string set \<Rightarrow> string list result" where
  "RemoveIgnoredStreams A [] missing = Inr []"
| "RemoveIgnoredStreams A (s # ss) missing =
     result_bind (RemoveIgnoredStreams A ss missing) (\<lambda>ss.
     result_bind (ParseTagIndexName A s) (\<lambda>(tag, index, name).
       Inr (if name \<in> missing then ss else s # ss)))"

definition transform_node :: "(string \<Rightarrow> string) \<Rightarrow> node_config \<Rightarrow> node_config" where
  "transform_node f n = n\<lparr>
     input_stream := TransformStreamNames f (input_stream n),
     output_stream := TransformStreamNames f (output_stream n),
     input_side_packet := TransformStreamNames f (input_side_packet n),
     output_side_packet := TransformStreamNames f (output_side_packet n)\<rparr>"

definition transform_generator :: "(string \<Rightarrow> string) \<Rightarrow> generator_config \<Rightarrow> generator_config" where
  "transform_generator f g = g\<lparr>
     gen_input_side_packet := TransformStreamNames f (gen_input_side_packet g),
     gen_output_side_packet := TransformStreamNames f (gen_output_side_packet g)\<rparr>"

definition transform_handler :: "(string \<Rightarrow> string) \<Rightarrow> handler_config \<Rightarrow> handler_config" where
  "transform_handler f h = h\<lparr>handler_input_side_packet := TransformStreamNames f (handler_input_side_packet h)\<rparr>"

definition TransformNames :: "strings \<Rightarrow> (string \<Rightarrow> string) \<Rightarrow> graph_config \<Rightarrow> graph_config result" where
  "TransformNames A f cfg =
     result_bind (ret_check (packet_factories cfg = 0)) (\<lambda>_.
       let cfg = cfg\<lparr>
             graph_input_stream := TransformStreamNames f (graph_input_stream cfg),
             graph_output_stream := TransformStreamNames f (graph_output_stream cfg),
             graph_input_side_packet := TransformStreamNames f (graph_input_side_packet cfg),
             graph_output_side_packet := TransformStreamNames f (graph_output_side_packet cfg)\<rparr>;
           node_names = map (CanonicalNodeName A cfg) [0..<length (config_nodes cfg)];
           cfg = cfg\<lparr>config_nodes := map (\<lambda>(n, name). n\<lparr>node_name := f name\<rparr>) (zip (config_nodes cfg) node_names)\<rparr>
       in Inr (cfg\<lparr>config_nodes := map (transform_node f) (config_nodes cfg),
            config_generators := map (transform_generator f) (config_generators cfg),
            config_handlers := map (transform_handler f) (config_handlers cfg)\<rparr>))"

definition tolower :: "char \<Rightarrow> char" where
  "tolower c = (if isupper c then char_of (of_char c + (32 :: nat)) else c)"

definition name_prefix :: "string \<Rightarrow> string" where
  "name_prefix p = map (\<lambda>c. let c = tolower c in if c = CHR ''.'' \<or> c = CHR '' '' \<or> c = CHR '':'' then CHR ''_'' else c) p @ ''__''"

definition PrefixNames :: "strings \<Rightarrow> string \<Rightarrow> graph_config \<Rightarrow> graph_config result" where
  "PrefixNames A p cfg = TransformNames A (\<lambda>s. name_prefix p @ s) cfg"

subsection \<open>Connections\<close>

fun corresponding_tags ::
    "tag_map \<Rightarrow> tag_map \<Rightarrow> (string \<times> tag_data) list \<Rightarrow> (string \<Rightarrow> string option) \<Rightarrow> (string \<Rightarrow> string option) result" where
  "corresponding_tags src dst [] stream_map = Inr stream_map"
| "corresponding_tags src dst ((tag, dst_data) # ms) stream_map =
     (case map_of (mapping src) tag of
        None \<Rightarrow> Inl InvalidArgument
      | Some src_data \<Rightarrow>
          if td_count src_data < td_count dst_data then Inl InvalidArgument
          else corresponding_tags src dst ms
            (fold (\<lambda>i m. m(names src ! nat (td_id src_data + int i) \<mapsto> names dst ! nat (td_id dst_data + int i)))
              [0..<nat (min (td_count src_data) (td_count dst_data))] stream_map))"

definition FindCorrespondingStreams ::
    "strings \<Rightarrow> (string \<Rightarrow> string option) \<Rightarrow> string list \<Rightarrow> string list \<Rightarrow> (string \<Rightarrow> string option) result" where
  "FindCorrespondingStreams A stream_map src_streams dst_streams =
     result_bind (Create A src_streams) (\<lambda>src.
     result_bind (Create A dst_streams) (\<lambda>dst. corresponding_tags src dst (mapping dst) stream_map))"

definition ValidateSubgraphFields :: "node_config \<Rightarrow> unit result" where
  "ValidateSubgraphFields n =
     (if node_source_layer n \<noteq> 0 \<or> node_buffer_size_hint n \<noteq> 0 \<or> node_output_handler n \<noteq> None \<or>
         input_stream_infos n \<noteq> [] \<or> node_executor n \<noteq> []
      then Inl InvalidArgument else Inr ())"

definition replace_names :: "(string \<Rightarrow> string option) \<Rightarrow> string \<Rightarrow> string" where
  "replace_names name_map s = (case name_map s of None \<Rightarrow> s | Some r \<Rightarrow> r)"

definition connect_node ::
    "strings \<Rightarrow> (string \<Rightarrow> string option) \<Rightarrow> (string \<Rightarrow> string option) \<Rightarrow> string set \<Rightarrow> string set \<Rightarrow> node_config \<Rightarrow> node_config result" where
  "connect_node A stream_map side_map ignored_streams ignored_sides n =
     result_bind (RemoveIgnoredStreams A (TransformStreamNames (replace_names stream_map) (input_stream n)) ignored_streams) (\<lambda>ins.
     result_bind (RemoveIgnoredStreams A (TransformStreamNames (replace_names side_map) (input_side_packet n)) ignored_sides) (\<lambda>sides.
       Inr (n\<lparr>input_stream := ins,
              output_stream := TransformStreamNames (replace_names stream_map) (output_stream n),
              input_side_packet := sides,
              output_side_packet := TransformStreamNames (replace_names side_map) (output_side_packet n)\<rparr>)))"

definition connect_generator ::
    "strings \<Rightarrow> (string \<Rightarrow> string option) \<Rightarrow> string set \<Rightarrow> generator_config \<Rightarrow> generator_config result" where
  "connect_generator A side_map ignored_sides g =
     result_bind (RemoveIgnoredStreams A (TransformStreamNames (replace_names side_map) (gen_input_side_packet g)) ignored_sides) (\<lambda>sides.
       Inr (g\<lparr>gen_input_side_packet := sides,
              gen_output_side_packet := TransformStreamNames (replace_names side_map) (gen_output_side_packet g)\<rparr>))"

fun result_map :: "('a \<Rightarrow> 'b result) \<Rightarrow> 'a list \<Rightarrow> 'b list result" where
  "result_map f [] = Inr []"
| "result_map f (x # xs) = result_bind (f x) (\<lambda>y. result_bind (result_map f xs) (\<lambda>ys. Inr (y # ys)))"

definition ConnectSubgraphStreams :: "strings \<Rightarrow> node_config \<Rightarrow> graph_config \<Rightarrow> graph_config result" where
  "ConnectSubgraphStreams A nd cfg =
     result_bind (FindCorrespondingStreams A Map.empty (graph_input_stream cfg) (input_stream nd)) (\<lambda>stream_map.
     result_bind (FindCorrespondingStreams A stream_map (graph_output_stream cfg) (output_stream nd)) (\<lambda>stream_map.
     result_bind (FindCorrespondingStreams A Map.empty (graph_input_side_packet cfg) (input_side_packet nd)) (\<lambda>side_map.
     result_bind (FindCorrespondingStreams A side_map (graph_output_side_packet cfg) (output_side_packet nd)) (\<lambda>side_map.
     result_bind (FindIgnoredStreams A (graph_input_stream cfg) (input_stream nd)) (\<lambda>ignored_streams.
     result_bind (FindIgnoredStreams A (graph_input_side_packet cfg) (input_side_packet nd)) (\<lambda>ignored_sides.
     result_bind (result_map (connect_node A stream_map side_map ignored_streams ignored_sides) (config_nodes cfg)) (\<lambda>ns.
     result_bind (result_map (connect_generator A side_map ignored_sides) (config_generators cfg)) (\<lambda>gs.
       Inr (cfg\<lparr>config_nodes := ns, config_generators := gs\<rparr>)))))))))"

subsection \<open>ExpandSubgraphs\<close>

definition is_subgraph :: "subgraphs \<Rightarrow> string \<Rightarrow> node_config \<Rightarrow> bool" where
  "is_subgraph S pkg n = IsRegistered S pkg (calculator n)"

definition expand_node :: "strings \<Rightarrow> subgraphs \<Rightarrow> graph_config \<Rightarrow> nat \<Rightarrow> graph_config result" where
  "expand_node A S cfg node_id =
     (let nd = config_nodes cfg ! node_id; name = CanonicalNodeName A cfg node_id in
      result_bind (ValidateSubgraphFields nd) (\<lambda>_.
      result_bind (CreateByName S (config_package cfg) (calculator nd) nd) (\<lambda>subgraph.
      result_bind (DefineGraphOptions S nd subgraph) (\<lambda>subgraph.
      result_bind (PrefixNames A name subgraph) (\<lambda>subgraph.
        ConnectSubgraphStreams A nd subgraph)))))"

text \<open>One iteration of the loop, after the partition; there is a subgraph node.\<close>

definition expand_round :: "strings \<Rightarrow> subgraphs \<Rightarrow> graph_config \<Rightarrow> graph_config result" where
  "expand_round A S cfg =
     (let (subs, plain) = partition (is_subgraph S (config_package cfg)) (config_nodes cfg);
          cfg = cfg\<lparr>config_nodes := plain @ subs\<rparr> in
      result_bind (result_map (expand_node A S cfg) [length plain..<length plain + length subs]) (\<lambda>expanded.
        Inr (cfg\<lparr>config_nodes := plain @ concat (map config_nodes expanded),
             config_generators := config_generators cfg @ concat (map config_generators expanded),
             config_handlers := config_handlers cfg @ concat (map config_handlers expanded)\<rparr>)))"

partial_function (option) expand_loop :: "strings \<Rightarrow> subgraphs \<Rightarrow> graph_config \<Rightarrow> graph_config result option" where
  "expand_loop A S cfg =
     (if filter (is_subgraph S (config_package cfg)) (config_nodes cfg) = [] then Some (Inr cfg)
      else case expand_round A S cfg of Inl c \<Rightarrow> Some (Inl c) | Inr cfg \<Rightarrow> expand_loop A S cfg)"

text \<open>The argument is the options of the graph, as a node; an empty node if there are none.\<close>

definition ExpandSubgraphs :: "strings \<Rightarrow> subgraphs \<Rightarrow> node_config \<Rightarrow> graph_config \<Rightarrow> graph_config result option" where
  "ExpandSubgraphs A S graph_options cfg =
     outcome_bind (Some (DefineGraphOptions S graph_options cfg)) (expand_loop A S)"

definition MakeSingleNodeGraph :: "node_config \<Rightarrow> graph_config" where
  "MakeSingleNodeGraph n = \<lparr>config_nodes = [n], config_generators = [], config_handlers = [],
     graph_input_stream = input_stream n, graph_output_stream = output_stream n,
     graph_input_side_packet = input_side_packet n, graph_output_side_packet = output_side_packet n,
     config_executors = [], num_threads = 0, graph_handler = None, packet_factories = 0, config_package = []\<rparr>"

subsection \<open>What a round keeps\<close>

lemma result_map_Inr: "result_map f xs = Inr ys \<longleftrightarrow> length ys = length xs \<and> (\<forall>i < length xs. f (xs ! i) = Inr (ys ! i))"
proof (induction xs arbitrary: ys)
  case (Cons x xs)
  show ?case
  proof (cases ys)
    case (Cons y ys')
    then show ?thesis using Cons.IH [of ys'] by (auto simp: result_bind_Inr nth_Cons split: nat.splits)
  qed (simp add: result_bind_Inr)
qed auto

definition node_types :: "graph_config \<Rightarrow> string list" where
  "node_types cfg = map calculator (config_nodes cfg)"

lemma TransformNames_types: "TransformNames A f cfg = Inr cfg' \<Longrightarrow> node_types cfg' = node_types cfg"
  by (auto simp: TransformNames_def result_bind_Inr Let_def node_types_def transform_node_def split_def intro!: nth_equalityI)

lemma connect_node_type: "connect_node A m m' i i' n = Inr n' \<Longrightarrow> calculator n' = calculator n"
  by (auto simp: connect_node_def result_bind_Inr)

lemma ConnectSubgraphStreams_types:
  assumes "ConnectSubgraphStreams A nd cfg = Inr cfg'"
  shows "node_types cfg' = node_types cfg"
proof -
  from assms obtain m m' i i' ns gs where ns: "result_map (connect_node A m m' i i') (config_nodes cfg) = Inr ns"
    "cfg' = cfg\<lparr>config_nodes := ns, config_generators := gs\<rparr>"
    by (auto simp: ConnectSubgraphStreams_def result_bind_Inr)
  then show ?thesis using connect_node_type by (auto simp: node_types_def result_map_Inr intro!: nth_equalityI)
qed

text \<open>The graph that replaces a node, before its names are changed.\<close>

definition created :: "subgraphs \<Rightarrow> string \<Rightarrow> node_config \<Rightarrow> graph_config \<Rightarrow> bool" where
  "created S pkg nd sub \<longleftrightarrow> (\<exists>sub0. CreateByName S pkg (calculator nd) nd = Inr sub0 \<and> DefineGraphOptions S nd sub0 = Inr sub)"

lemma expand_node_types:
  "expand_node A S cfg i = Inr sub' \<Longrightarrow> \<exists>sub. created S (config_package cfg) (config_nodes cfg ! i) sub \<and> node_types sub' = node_types sub"
  by (auto simp: expand_node_def result_bind_Inr Let_def created_def PrefixNames_def
      dest!: ConnectSubgraphStreams_types TransformNames_types)

definition interface_of :: "graph_config \<Rightarrow> string list \<times> string list \<times> string list \<times> string list \<times> string \<times> executor_config list" where
  "interface_of cfg = (graph_input_stream cfg, graph_output_stream cfg, graph_input_side_packet cfg, graph_output_side_packet cfg,
     config_package cfg, config_executors cfg)"

definition subgraph_nodes :: "subgraphs \<Rightarrow> graph_config \<Rightarrow> node_config list" where
  "subgraph_nodes S cfg = filter (is_subgraph S (config_package cfg)) (config_nodes cfg)"

definition plain_nodes :: "subgraphs \<Rightarrow> graph_config \<Rightarrow> node_config list" where
  "plain_nodes S cfg = filter (\<lambda>n. \<not> is_subgraph S (config_package cfg) n) (config_nodes cfg)"

lemma expand_round_result:
  assumes "expand_round A S cfg = Inr cfg'"
  shows "interface_of cfg' = interface_of cfg"
    and "\<exists>es. config_nodes cfg' = plain_nodes S cfg @ es \<and>
      (\<forall>n \<in> set es. \<exists>nd \<in> set (subgraph_nodes S cfg). \<exists>sub. created S (config_package cfg) nd sub \<and> calculator n \<in> set (node_types sub))"
proof -
  let ?subs = "subgraph_nodes S cfg" and ?plain = "plain_nodes S cfg"
  let ?cfg = "cfg\<lparr>config_nodes := ?plain @ ?subs\<rparr>"
  obtain ex where ex: "result_map (expand_node A S ?cfg) [length ?plain..<length ?plain + length ?subs] = Inr ex"
    "cfg' = ?cfg\<lparr>config_nodes := ?plain @ concat (map config_nodes ex), config_generators := config_generators cfg @ concat (map config_generators ex),
       config_handlers := config_handlers cfg @ concat (map config_handlers ex)\<rparr>"
    using assms by (auto simp: expand_round_def result_bind_Inr Let_def subgraph_nodes_def plain_nodes_def o_def)
  then show "interface_of cfg' = interface_of cfg" by (simp add: interface_of_def)
  have "\<exists>nd \<in> set ?subs. \<exists>sub. created S (config_package cfg) nd sub \<and> calculator n \<in> set (node_types sub)"
    if n: "n \<in> set (concat (map config_nodes ex))" for n
  proof -
    obtain i where i: "i < length ex" "n \<in> set (config_nodes (ex ! i))" using n by auto (metis in_set_conv_nth)
    then have "i < length ?subs" "expand_node A S ?cfg (length ?plain + i) = Inr (ex ! i)"
      using ex(1) by (auto simp: result_map_Inr)
    then obtain sub where sub: "created S (config_package cfg) (?subs ! i) sub" "node_types (ex ! i) = node_types sub"
      using expand_node_types by (fastforce simp: nth_append)
    have "calculator n \<in> set (node_types (ex ! i))" using i(2) by (auto simp: node_types_def)
    then show ?thesis using sub \<open>i < length ?subs\<close> by (metis nth_mem)
  qed
  then show "\<exists>es. config_nodes cfg' = ?plain @ es \<and>
      (\<forall>n \<in> set es. \<exists>nd \<in> set ?subs. \<exists>sub. created S (config_package cfg) nd sub \<and> calculator n \<in> set (node_types sub))"
    using ex(2) by auto
qed

lemma expand_loop_result:
  assumes "expand_loop A S cfg = Some (Inr cfg')"
  shows "subgraph_nodes S cfg' = [] \<and> interface_of cfg' = interface_of cfg \<and> prefix (plain_nodes S cfg) (config_nodes cfg')"
proof -
  have "r = Inr cfg' \<longrightarrow> subgraph_nodes S cfg' = [] \<and> interface_of cfg' = interface_of cfg \<and> prefix (plain_nodes S cfg) (config_nodes cfg')"
    if "expand_loop A S cfg = Some r" for r
    using that
  proof (induction rule: expand_loop.raw_induct [rotated 1, consumes 1, case_names step])
    case (step expand_loop A S cfg r)
    show ?case
    proof (cases "filter (is_subgraph S (config_package cfg)) (config_nodes cfg) = []")
      case True
      then show ?thesis using step(2) by (auto simp: subgraph_nodes_def plain_nodes_def filter_empty_conv intro!: prefix_order.eq_refl filter_True)
    next
      case False
      show ?thesis
      proof (cases "expand_round A S cfg")
        case (Inl c)
        then show ?thesis using step(2) False by auto
      next
        case (Inr cfg1)
        note r = expand_round_result [OF Inr]
        have IH: "r = Inr cfg' \<longrightarrow> subgraph_nodes S cfg' = [] \<and> interface_of cfg' = interface_of cfg1 \<and> prefix (plain_nodes S cfg1) (config_nodes cfg')"
          using step(1) [of A S cfg1 r] step(2) False Inr by simp
        obtain es where es: "config_nodes cfg1 = plain_nodes S cfg @ es" using r(2) by blast
        have "config_package cfg1 = config_package cfg" using r(1) by (simp add: interface_of_def)
        then have "prefix (plain_nodes S cfg) (plain_nodes S cfg1)" by (simp add: plain_nodes_def es o_def)
        then show ?thesis using IH r(1) prefix_order.trans by metis
      qed
    qed
  qed
  then show ?thesis using assms by blast
qed

text \<open>A ranking of the types: a subgraph contains only subgraphs of a lower rank.\<close>

definition ranked :: "subgraphs \<Rightarrow> (string \<Rightarrow> nat) \<Rightarrow> bool" where
  "ranked S rank \<longleftrightarrow> (\<forall>pkg nd sub. created S pkg nd sub \<longrightarrow>
     (\<forall>n \<in> set (config_nodes sub). is_subgraph S pkg n \<longrightarrow> rank (calculator n) < rank (calculator nd)))"

lemma expand_loop_ends:
  assumes "ranked S rank" "\<forall>n \<in> set (subgraph_nodes S cfg). rank (calculator n) < k"
  shows "expand_loop A S cfg \<noteq> None"
  using assms(2)
proof (induction k arbitrary: cfg)
  case 0
  then have "filter (is_subgraph S (config_package cfg)) (config_nodes cfg) = []" by (auto simp: subgraph_nodes_def filter_empty_conv)
  then show ?case by (subst expand_loop.simps) simp
next
  case (Suc k)
  have "expand_loop A S cfg1 \<noteq> None" if r: "expand_round A S cfg = Inr cfg1" for cfg1
  proof (rule Suc.IH, rule ballI)
    fix n assume n: "n \<in> set (subgraph_nodes S cfg1)"
    have pkg: "config_package cfg1 = config_package cfg" using expand_round_result(1) [OF r] by (simp add: interface_of_def)
    obtain es where es: "config_nodes cfg1 = plain_nodes S cfg @ es"
      "\<forall>n \<in> set es. \<exists>nd \<in> set (subgraph_nodes S cfg). \<exists>sub. created S (config_package cfg) nd sub \<and> calculator n \<in> set (node_types sub)"
      using expand_round_result(2) [OF r] by blast
    have "n \<in> set es" using n by (auto simp: subgraph_nodes_def pkg es(1) plain_nodes_def)
    then obtain nd sub m where nd: "nd \<in> set (subgraph_nodes S cfg)" "created S (config_package cfg) nd sub"
      "m \<in> set (config_nodes sub)" "calculator m = calculator n" using es(2) by (force simp: node_types_def)
    have "is_subgraph S (config_package cfg) m" using n nd(4) by (simp add: subgraph_nodes_def is_subgraph_def pkg)
    then have "rank (calculator m) < rank (calculator nd)" using assms(1) nd(2,3) by (auto simp: ranked_def)
    then show "rank (calculator n) < k" using Suc.prems nd(1,4) by fastforce
  qed
  then show ?case by (subst expand_loop.simps) (auto split: sum.splits)
qed

text \<open>
  C20: Expanding subgraphs ends if no subgraph contains itself, however deep they are nested. If it succeeds, no node
  is a subgraph any more, the calculators of the configuration are there unchanged and in their
  order, and its streams, side packets and executors are the same.
\<close>
theorem expansion_complete:
  assumes "ranked S rank"
  shows "ExpandSubgraphs A S opts cfg \<noteq> None \<and>
    (\<forall>cfg' cfg0. ExpandSubgraphs A S opts cfg = Some (Inr cfg') \<longrightarrow> DefineGraphOptions S opts cfg = Inr cfg0 \<longrightarrow>
      (\<forall>n \<in> set (config_nodes cfg'). \<not> IsRegistered S (config_package cfg') (calculator n)) \<and>
      prefix (filter (\<lambda>n. \<not> IsRegistered S (config_package cfg0) (calculator n)) (config_nodes cfg0)) (config_nodes cfg') \<and>
      graph_input_stream cfg' = graph_input_stream cfg0 \<and> graph_output_stream cfg' = graph_output_stream cfg0 \<and>
      graph_input_side_packet cfg' = graph_input_side_packet cfg0 \<and> graph_output_side_packet cfg' = graph_output_side_packet cfg0 \<and>
      config_executors cfg' = config_executors cfg0)"
proof (intro conjI allI impI)
  have "expand_loop A S cfg1 \<noteq> None" for cfg1
    by (rule expand_loop_ends [OF assms, where k = "Suc (Max (insert 0 ((rank \<circ> calculator) ` set (subgraph_nodes S cfg1))))"])
      (auto simp: less_Suc_eq_le)
  then show "ExpandSubgraphs A S opts cfg \<noteq> None" by (auto simp: ExpandSubgraphs_def outcome_bind_def split: sum.splits)
qed (auto simp: ExpandSubgraphs_def outcome_bind_def interface_of_def subgraph_nodes_def plain_nodes_def is_subgraph_def filter_empty_conv
    dest!: expand_loop_result)

subsection \<open>Names and tags under a renaming\<close>

lemma split_stream_append:
  assumes "CHR '':'' \<notin> set n" "p = [] \<or> last p = CHR '':''"
  shows "split_stream (p @ n) = (p, n)"
proof -
  have "takeWhile (\<lambda>c. c \<noteq> CHR '':'') (rev n @ rev p) = rev n"
  proof (cases "p = []")
    case False
    then obtain q where "p = q @ [CHR '':'']" using assms(2) by (metis append_butlast_last_id)
    then show ?thesis using assms(1) by (subst takeWhile_append2) auto
  qed (use assms(1) in \<open>auto simp: takeWhile_eq_all_conv\<close>)
  then show ?thesis by (simp add: split_stream_def)
qed

lemma transform_keeps_tag:
  assumes A: "strings_ok A" and s: "ParseTagIndexName A s = Inr (tag, index, name)" and "matches NAME_REGEX (f name)"
  shows "ParseTagIndexName A (transform_stream f s) = Inr (tag, index, f name)"
proof -
  have "\<exists>p. s = p @ name \<and> (p = [] \<or> last p = CHR '':'') \<and> ParseTagIndexName A (p @ f name) = Inr (tag, index, f name)"
    using s assms(3) unfolding ParseTagIndexName_cases [OF A]
    by (elim disjE exE conjE) (rule exI [of _ "[]"], simp, rule exI [of _ "tag @ '':''"], simp,
      rule exI [of _ "tag @ '':'' @ _ @ '':''"], force)
  then obtain p where p: "s = p @ name" "p = [] \<or> last p = CHR '':''" "ParseTagIndexName A (p @ f name) = Inr (tag, index, f name)"
    by blast
  have "CHR '':'' \<notin> set name" using s no_colon(1) unfolding ParseTagIndexName_cases [OF A] by auto
  from split_stream_append [OF this p(2)] show ?thesis using p(1,3) by (simp add: transform_stream_def)
qed

lemma RemoveIgnoredStreams_filter:
  "RemoveIgnoredStreams A ss missing = Inr ss' \<Longrightarrow> ss' = filter (\<lambda>s. name_of A s \<notin> missing) ss"
  by (induction ss arbitrary: ss') (auto simp: result_bind_Inr name_of_def split: if_splits)

subsection \<open>Corresponding streams\<close>

definition name_updates :: "tag_map \<Rightarrow> tag_map \<Rightarrow> (string \<times> tag_data) list \<Rightarrow> (string \<times> string) list" where
  "name_updates src dst ms = concat (map (\<lambda>(tag, d). map (\<lambda>i. (names src ! nat (td_id (the (map_of (mapping src) tag)) + int i),
     names dst ! nat (td_id d + int i))) [0..<nat (td_count d)]) ms)"

lemma fold_updates: "fold (\<lambda>i m. m(f i \<mapsto> g i)) is m = m ++ map_of (rev (map (\<lambda>i. (f i, g i)) is))"
  by (induction "is" arbitrary: m) (auto simp: map_add_def fun_eq_iff split: option.splits)

lemma corresponding_tags_updates:
  "corresponding_tags src dst ms m0 = Inr m \<Longrightarrow> m = m0 ++ map_of (rev (name_updates src dst ms)) \<and>
     (\<forall>(tag, d) \<in> set ms. \<exists>d'. map_of (mapping src) tag = Some d' \<and> td_count d \<le> td_count d')"
proof (induction ms arbitrary: m0)
  case (Cons x ms)
  obtain tag d where x: "x = (tag, d)" by (cases x)
  then obtain d' where d': "map_of (mapping src) tag = Some d'" "td_count d \<le> td_count d'"
    using Cons.prems by (auto split: option.splits if_splits)
  let ?m = "m0 ++ map_of (rev (map (\<lambda>i. (names src ! nat (td_id d' + int i), names dst ! nat (td_id d + int i))) [0..<nat (td_count d)]))"
  have "corresponding_tags src dst ms ?m = Inr m"
    using Cons.prems x d' by (simp add: fold_updates min_def split: if_splits)
  then have "m = ?m ++ map_of (rev (name_updates src dst ms)) \<and>
      (\<forall>(tag, d) \<in> set ms. \<exists>d'. map_of (mapping src) tag = Some d' \<and> td_count d \<le> td_count d')" by (rule Cons.IH)
  moreover have "name_updates src dst (x # ms) =
      map (\<lambda>i. (names src ! nat (td_id d' + int i), names dst ! nat (td_id d + int i))) [0..<nat (td_count d)] @ name_updates src dst ms"
    by (simp add: name_updates_def x d'(1))
  ultimately show ?case using x d' by (simp only: rev_append map_of_append map_add_assoc) auto
qed (simp add: name_updates_def)

lemma map_of_rev_unique:
  assumes "(a, b) \<in> set xs" "\<And>b'. (a, b') \<in> set xs \<Longrightarrow> b' = b"
  shows "map_of (rev xs) a = Some b"
proof -
  obtain b' where b': "map_of (rev xs) a = Some b'" using assms(1) by (metis map_of_eq_None_iff not_Some_eq set_rev fst_conv image_eqI)
  then have "(a, b') \<in> set xs" by (auto dest: map_of_SomeD)
  then show ?thesis using b' assms(2) by simp
qed

text \<open>With distinct names, the ids of a tag map are those of its entries.\<close>

lemma id_of_name:
  assumes A: "strings_ok A" and c: "Create A es = Inr m" and d: "distinct (map (name_of A) es)"
  shows "set (names m) = name_of A ` set es" and "distinct (names m)"
    and "\<lbrakk>k < length es; 0 \<le> i; i < NumEntries m tag; names m ! nat (GetId m tag i) = name_of A (es ! k)\<rbrakk> \<Longrightarrow>
      tag = tag_of A (es ! k) \<and> i = index_of A es k"
proof -
  note parts = Create_parts [OF A c]
  have id: "0 \<le> GetId m tag i \<and> nat (GetId m tag i) < length (names m)" if "0 \<le> i" "i < NumEntries m tag" for tag i
    using tag_map_ids(1) [OF parts(1), of i tag] that parts(2,4) by auto
  have "name_of A (es ! k) \<in> set (names m)" if "k < length es" for k
    using parts(3) [OF that] id nth_mem by metis
  then have sub: "name_of A ` set es \<subseteq> set (names m)" by (auto simp: in_set_conv_nth)
  have card: "card (name_of A ` set es) = length es" using distinct_card [OF d] by simp
  then have "card (set (names m)) \<le> card (name_of A ` set es)" using card_length [of "names m"] parts(4) by simp
  then show eq: "set (names m) = name_of A ` set es" using sub by (metis List.finite_set card_seteq)
  show dist: "distinct (names m)" using card eq parts(4) by (metis card_distinct)
  assume k: "k < length es" "0 \<le> i" "i < NumEntries m tag" "names m ! nat (GetId m tag i) = name_of A (es ! k)"
  let ?t = "tag_of A (es ! k)" and ?i = "index_of A es k"
  have p: "0 \<le> ?i" "?i < NumEntries m ?t" "names m ! nat (GetId m ?t ?i) = name_of A (es ! k)" using parts(3) [OF k(1)] by simp_all
  have "nat (GetId m tag i) = nat (GetId m ?t ?i)"
    using dist id [OF k(2,3)] id [OF p(1,2)] k(4) p(3) by (metis nth_eq_iff_index_eq)
  then have "GetId m tag i = GetId m ?t ?i" using id [OF k(2,3)] id [OF p(1,2)] by (simp add: eq_nat_nat_iff)
  then show "tag = ?t \<and> i = ?i" using tag_map_ids(1) [OF parts(1)] k(2,3) p(1,2) by (metis prod.inject)
qed

lemma map_of_mapping: "tag_map_ok m \<Longrightarrow> (tag, d) \<in> set (mapping m) \<longleftrightarrow> map_of (mapping m) tag = Some d"
  by (auto simp: tag_map_ok_def strict_sorted_iff dest: map_of_SomeD)

text \<open>What the map of names is after the entries \<open>src\<close> of a subgraph have been matched with the entries \<open>dst\<close> of its node.\<close>

lemma FindCorrespondingStreams_map:
  assumes A: "strings_ok A" and f: "FindCorrespondingStreams A m0 src dst = Inr m" and d: "distinct (map (name_of A) src)"
  shows "\<exists>dm. Create A dst = Inr dm \<and>
    (\<forall>k < length src. m (name_of A (src ! k)) =
      (let tag = tag_of A (src ! k); i = index_of A src k
       in if i < NumEntries dm tag then Some (names dm ! nat (GetId dm tag i)) else m0 (name_of A (src ! k)))) \<and>
    (\<forall>n. n \<notin> name_of A ` set src \<longrightarrow> m n = m0 n)"
proof -
  obtain sm dm where sm: "Create A src = Inr sm" and dm: "Create A dst = Inr dm" and c: "corresponding_tags sm dm (mapping dm) m0 = Inr m"
    using f by (auto simp: FindCorrespondingStreams_def result_bind_Inr)
  let ?ups = "name_updates sm dm (mapping dm)"
  have m: "m = m0 ++ map_of (rev ?ups)" and counts: "\<And>tag d. (tag, d) \<in> set (mapping dm) \<Longrightarrow>
      \<exists>d'. map_of (mapping sm) tag = Some d' \<and> td_count d \<le> td_count d'" using corresponding_tags_updates [OF c] by auto
  note dok = Create_parts(1) [OF A dm] and sid = id_of_name [OF A sm d]
  have upd: "(a, b) \<in> set ?ups \<longleftrightarrow> (\<exists>tag i. 0 \<le> i \<and> i < NumEntries dm tag \<and> i < NumEntries sm tag \<and>
      a = names sm ! nat (GetId sm tag i) \<and> b = names dm ! nat (GetId dm tag i))" for a b
  proof
    assume "(a, b) \<in> set ?ups"
    then obtain tag d i where t0: "(tag, d) \<in> set (mapping dm)" "i < nat (td_count d)"
      "a = names sm ! nat (td_id (the (map_of (mapping sm) tag)) + int i)" "b = names dm ! nat (td_id d + int i)"
      by (auto simp: name_updates_def)
    have t: "(tag, d) \<in> set (mapping dm)" "int i < td_count d" using t0(1,2) by simp_all
    then show "\<exists>tag i. 0 \<le> i \<and> i < NumEntries dm tag \<and> i < NumEntries sm tag \<and>
        a = names sm ! nat (GetId sm tag i) \<and> b = names dm ! nat (GetId dm tag i)"
      using counts [OF t(1)] map_of_mapping [OF dok, of tag d]
      by (intro exI [of _ tag] exI [of _ "int i"]) (auto simp: t0(3,4) NumEntries_def GetId_def)
  next
    assume "\<exists>tag i. 0 \<le> i \<and> i < NumEntries dm tag \<and> i < NumEntries sm tag \<and>
        a = names sm ! nat (GetId sm tag i) \<and> b = names dm ! nat (GetId dm tag i)"
    then obtain tag i where t: "0 \<le> i" "i < NumEntries dm tag" "i < NumEntries sm tag"
      "a = names sm ! nat (GetId sm tag i)" "b = names dm ! nat (GetId dm tag i)" by blast
    obtain d d' where d: "map_of (mapping dm) tag = Some d" "map_of (mapping sm) tag = Some d'" "i < td_count d" "i < td_count d'"
      using t(1-3) by (auto simp: NumEntries_def split: option.splits)
    then have "(tag, d) \<in> set (mapping dm)" using map_of_mapping [OF dok] by simp
    moreover have "nat i < nat (td_count d)" "int (nat i) = i" using t(1) d(3) by simp_all
    ultimately show "(a, b) \<in> set ?ups" using t(1,4,5) d
      by (auto simp: name_updates_def GetId_def image_iff intro!: bexI [of _ "(tag, d)"] bexI [of _ "nat i"])
  qed
  have in_src: "nat (GetId sm tag i) < length (names sm)" if "0 \<le> i" "i < NumEntries sm tag" for tag i
    using tag_map_ids(1) [OF Create_parts(1) [OF A sm], of i tag] that Create_parts(2,4) [OF A sm] by auto
  have other: "m n = m0 n" if "n \<notin> name_of A ` set src" for n
  proof -
    have "(n, b) \<notin> set ?ups" for b using that in_src sid(1) nth_mem unfolding upd by metis
    then have "map_of (rev ?ups) n = None" by (auto simp: map_of_eq_None_iff image_iff)
    then show ?thesis by (simp add: m map_add_def)
  qed
  have entry: "m (name_of A (src ! k)) = (let tag = tag_of A (src ! k); i = index_of A src k
       in if i < NumEntries dm tag then Some (names dm ! nat (GetId dm tag i)) else m0 (name_of A (src ! k)))"
    if k: "k < length src" for k
  proof -
    let ?t = "tag_of A (src ! k)" and ?i = "index_of A src k"
    have p: "0 \<le> ?i" "?i < NumEntries sm ?t" "names sm ! nat (GetId sm ?t ?i) = name_of A (src ! k)" using Create_parts(3) [OF A sm k] by simp_all
    have iff: "(name_of A (src ! k), b) \<in> set ?ups \<longleftrightarrow> ?i < NumEntries dm ?t \<and> b = names dm ! nat (GetId dm ?t ?i)" for b
      unfolding upd using sid(3) [OF k] p by metis
    show ?thesis
    proof (cases "?i < NumEntries dm ?t")
      case True
      then have "map_of (rev ?ups) (name_of A (src ! k)) = Some (names dm ! nat (GetId dm ?t ?i))"
        using iff by (intro map_of_rev_unique) auto
      then show ?thesis using True by (simp add: m Let_def)
    next
      case False
      then have "map_of (rev ?ups) (name_of A (src ! k)) = None" using iff by (auto simp: map_of_eq_None_iff image_iff)
      then show ?thesis using False by (simp add: m map_add_def Let_def)
    qed
  qed
  show ?thesis using dm entry other by blast
qed

lemma FindIgnoredStreams_set:
  assumes A: "strings_ok A" and f: "FindIgnoredStreams A src dst = Inr X" and d: "distinct (map (name_of A) src)" and dm: "Create A dst = Inr dm"
  shows "X = {name_of A (src ! k) |k. k < length src \<and> NumEntries dm (tag_of A (src ! k)) \<le> index_of A src k}"
proof -
  obtain sm where sm: "Create A src = Inr sm"
    and X: "X = {names sm ! i |i. i < nat (num_entries sm) \<and> (case TagAndIndexFromId sm (int i) of (tag, index) \<Rightarrow> GetId dm tag index < 0)}"
    using f dm by (fastforce simp: FindIgnoredStreams_def result_bind_Inr)
  note sid = id_of_name [OF A sm d] and sids = tag_map_ids [OF Create_parts(1) [OF A sm]] and parts = Create_parts [OF A sm]
  have neg: "GetId dm tag i < 0 \<longleftrightarrow> NumEntries dm tag \<le> i" if "0 \<le> i" for tag i
    using tag_map_ids(1) [OF Create_parts(1) [OF A dm], of i tag] that by (auto simp: GetId_def NumEntries_def split: option.splits)
  show ?thesis unfolding X
  proof (intro set_eqI iffI)
    fix x assume "x \<in> {names sm ! i |i. i < nat (num_entries sm) \<and> (case TagAndIndexFromId sm (int i) of (tag, index) \<Rightarrow> GetId dm tag index < 0)}"
    then obtain i tag j where i: "x = names sm ! i" "i < nat (num_entries sm)" "TagAndIndexFromId sm (int i) = (tag, j)" "GetId dm tag j < 0" by auto
    have j: "0 \<le> j" "j < NumEntries sm tag" "GetId sm tag j = int i" using sids(2) [of "int i" tag j] i(2,3) by auto
    have "x \<in> set (names sm)" using i(1,2) parts(2,4) by simp
    then obtain k where k: "k < length src" "x = name_of A (src ! k)" unfolding sid(1) by (auto simp: in_set_conv_nth)
    then have "tag = tag_of A (src ! k) \<and> j = index_of A src k" using sid(3) [OF k(1) j(1,2)] i(1) j(3) by simp
    then show "x \<in> {name_of A (src ! k) |k. k < length src \<and> NumEntries dm (tag_of A (src ! k)) \<le> index_of A src k}"
      using k i(4) neg [OF j(1)] by blast
  next
    fix x assume "x \<in> {name_of A (src ! k) |k. k < length src \<and> NumEntries dm (tag_of A (src ! k)) \<le> index_of A src k}"
    then obtain k where k: "k < length src" "x = name_of A (src ! k)" "NumEntries dm (tag_of A (src ! k)) \<le> index_of A src k" by blast
    let ?t = "tag_of A (src ! k)" and ?i = "index_of A src k"
    have p: "0 \<le> ?i" "?i < NumEntries sm ?t" "names sm ! nat (GetId sm ?t ?i) = x" using parts(3) [OF k(1)] k(2) by simp_all
    have id: "0 \<le> GetId sm ?t ?i" "GetId sm ?t ?i < num_entries sm" "TagAndIndexFromId sm (GetId sm ?t ?i) = (?t, ?i)"
      using sids(1) [of ?i ?t] p by auto
    then show "x \<in> {names sm ! i |i. i < nat (num_entries sm) \<and> (case TagAndIndexFromId sm (int i) of (tag, index) \<Rightarrow> GetId dm tag index < 0)}"
      using p(3) k(3) neg [OF p(1)] by (intro CollectI exI [of _ "nat (GetId sm ?t ?i)"]) simp
  qed
qed

lemma TransformNames_streams:
  assumes "TransformNames A f cfg = Inr cfg'"
  shows "graph_input_stream cfg' = TransformStreamNames f (graph_input_stream cfg)"
    and "graph_output_stream cfg' = TransformStreamNames f (graph_output_stream cfg)"
    and "length (config_nodes cfg') = length (config_nodes cfg)"
    and "k < length (config_nodes cfg) \<Longrightarrow>
      input_stream (config_nodes cfg' ! k) = TransformStreamNames f (input_stream (config_nodes cfg ! k)) \<and>
      output_stream (config_nodes cfg' ! k) = TransformStreamNames f (output_stream (config_nodes cfg ! k))"
  using assms by (auto simp: TransformNames_def result_bind_Inr Let_def transform_node_def split_def)

lemma connected_nodes:
  assumes "PrefixNames A p sub0 = Inr sub" and "result_map (connect_node A m ms ign isd) (config_nodes sub) = Inr ns" and k: "k < length (config_nodes sub0)"
  shows "length ns = length (config_nodes sub0)" and "calculator (ns ! k) = calculator (config_nodes sub0 ! k)"
    and "output_stream (ns ! k) =
      TransformStreamNames (replace_names m) (TransformStreamNames (\<lambda>s. name_prefix p @ s) (output_stream (config_nodes sub0 ! k)))"
    and "input_stream (ns ! k) = filter (\<lambda>s. name_of A s \<notin> ign)
      (TransformStreamNames (replace_names m) (TransformStreamNames (\<lambda>s. name_prefix p @ s) (input_stream (config_nodes sub0 ! k))))"
proof -
  note pre = TransformNames_streams [OF assms(1) [unfolded PrefixNames_def]]
  have "map calculator (config_nodes sub) ! k = map calculator (config_nodes sub0) ! k"
    using TransformNames_types [OF assms(1) [unfolded PrefixNames_def]] by (simp add: node_types_def)
  then have types: "calculator (config_nodes sub ! k) = calculator (config_nodes sub0 ! k)" using k pre(3) by simp
  have node: "connect_node A m ms ign isd (config_nodes sub ! k) = Inr (ns ! k)" and "length ns = length (config_nodes sub0)"
    using assms(2) k pre(3) by (simp_all add: result_map_Inr)
  then show "length ns = length (config_nodes sub0)" by simp
  obtain ins sides where ins: "RemoveIgnoredStreams A (TransformStreamNames (replace_names m) (input_stream (config_nodes sub ! k))) ign = Inr ins"
    and n: "(config_nodes sub ! k)\<lparr>input_stream := ins,
        output_stream := TransformStreamNames (replace_names m) (output_stream (config_nodes sub ! k)), input_side_packet := sides,
        output_side_packet := TransformStreamNames (replace_names ms) (output_side_packet (config_nodes sub ! k))\<rparr> = ns ! k"
    using node unfolding connect_node_def result_bind_Inr sum.inject by blast
  show "calculator (ns ! k) = calculator (config_nodes sub0 ! k)"
    "output_stream (ns ! k) =
      TransformStreamNames (replace_names m) (TransformStreamNames (\<lambda>s. name_prefix p @ s) (output_stream (config_nodes sub0 ! k)))"
    "input_stream (ns ! k) = filter (\<lambda>s. name_of A s \<notin> ign)
      (TransformStreamNames (replace_names m) (TransformStreamNames (\<lambda>s. name_prefix p @ s) (input_stream (config_nodes sub0 ! k))))"
    using types pre(4) [OF k] RemoveIgnoredStreams_filter [OF ins] by (simp_all flip: n)
qed


subsection \<open>Examples\<close>

text \<open>A subgraph with two nodes, one input that its node does not connect, and an inner stream \<open>z\<close>.\<close>

definition demo_subgraph :: graph_config where
  "demo_subgraph = (MakeSingleNodeGraph (demo_node ''Work'' ''x'' ''z''))
     \<lparr>config_nodes := [(demo_node ''Work'' ''x'' ''z'')\<lparr>input_stream := [''A:x'', ''B:unused'']\<rparr>, demo_node ''Work'' ''z'' ''y''],
      graph_input_stream := [''IN:0:x'', ''IN:1:unused''], graph_output_stream := [''OUT:y'']\<rparr>"

definition demo_subgraphs :: subgraphs where
  "demo_subgraphs = \<lparr>IsRegistered = (\<lambda>pkg t. t = ''Twice''), CreateByName = (\<lambda>pkg t nd. Inr demo_subgraph),
     DefineGraphOptions = (\<lambda>nd cfg. Inr cfg)\<rparr>"

definition demo_twice :: node_config where
  "demo_twice = demo_node ''Twice'' ''IN:in'' ''OUT:out''"

definition demo_main :: graph_config where
  "demo_main = (MakeSingleNodeGraph demo_twice)\<lparr>config_nodes := [demo_twice, demo_node ''Sink'' ''out'' ''end'']\<rparr>"

definition expanded_nodes :: "graph_config \<Rightarrow> (string \<times> string \<times> string list \<times> string list) list" where
  "expanded_nodes cfg = map (\<lambda>n. (calculator n, node_name n, input_stream n, output_stream n)) (config_nodes cfg)"

lemma demo_round:
  "\<exists>c. expand_round reference_strings demo_subgraphs demo_main = Inr c \<and> expanded_nodes c =
     [(''Sink'', [], [''out''], [''end'']), (''Work'', ''twice__Work_1'', [''A:in''], [''twice__z'']),
      (''Work'', ''twice__Work_2'', [''twice__z''], [''out''])]"
proof -
  have "(case expand_round reference_strings demo_subgraphs demo_main of Inl _ \<Rightarrow> None | Inr c \<Rightarrow> Some (expanded_nodes c)) =
    Some [(''Sink'', [], [''out''], [''end'']), (''Work'', ''twice__Work_1'', [''A:in''], [''twice__z'']),
      (''Work'', ''twice__Work_2'', [''twice__z''], [''out''])]" by code_simp
  then show ?thesis by (auto split: sum.splits)
qed

lemma demo_ranked: "ranked demo_subgraphs (\<lambda>_. 0)"
  by (auto simp: ranked_def created_def demo_subgraphs_def is_subgraph_def demo_subgraph_def MakeSingleNodeGraph_def demo_node_def)

theorem expansion_complete_witness:
  "\<exists>c. ExpandSubgraphs reference_strings demo_subgraphs demo_twice demo_main = Some (Inr c) \<and>
     expanded_nodes c = [(''Sink'', [], [''out''], [''end'']), (''Work'', ''twice__Work_1'', [''A:in''], [''twice__z'']),
      (''Work'', ''twice__Work_2'', [''twice__z''], [''out''])] \<and>
     prefix [demo_node ''Sink'' ''out'' ''end''] (config_nodes c)"
proof -
  obtain c where c: "expand_round reference_strings demo_subgraphs demo_main = Inr c" "expanded_nodes c =
     [(''Sink'', [], [''out''], [''end'']), (''Work'', ''twice__Work_1'', [''A:in''], [''twice__z'']),
      (''Work'', ''twice__Work_2'', [''twice__z''], [''out''])]" using demo_round by blast
  have "map calculator (config_nodes c) = map fst (expanded_nodes c)" by (simp add: expanded_nodes_def)
  then have "\<forall>t \<in> set (map calculator (config_nodes c)). t \<noteq> ''Twice''" using c(2) by simp
  then have last: "filter (is_subgraph demo_subgraphs (config_package c)) (config_nodes c) = []"
    by (auto simp: filter_empty_conv is_subgraph_def demo_subgraphs_def)
  have "filter (is_subgraph demo_subgraphs (config_package demo_main)) (config_nodes demo_main) = [demo_twice]"
    by (simp add: demo_main_def demo_twice_def MakeSingleNodeGraph_def is_subgraph_def demo_subgraphs_def demo_node_def)
  then have "expand_loop reference_strings demo_subgraphs demo_main = Some (Inr c)"
    using c(1) last by (simp add: expand_loop.simps [of _ _ demo_main] expand_loop.simps [of _ _ c])
  moreover have "DefineGraphOptions demo_subgraphs demo_twice demo_main = Inr demo_main" by (simp add: demo_subgraphs_def)
  ultimately have r: "ExpandSubgraphs reference_strings demo_subgraphs demo_twice demo_main = Some (Inr c)"
    "DefineGraphOptions demo_subgraphs demo_twice demo_main = Inr demo_main" by (simp_all add: ExpandSubgraphs_def outcome_bind_def)
  have "filter (\<lambda>n. \<not> IsRegistered demo_subgraphs (config_package demo_main) (calculator n)) (config_nodes demo_main) = [demo_node ''Sink'' ''out'' ''end'']"
    by (simp add: demo_main_def demo_twice_def MakeSingleNodeGraph_def demo_subgraphs_def demo_node_def)
  then show ?thesis using expansion_complete [OF demo_ranked, of reference_strings demo_twice demo_main] r c(2) by metis
qed


text \<open>A subgraph that contains itself is expanded forever.\<close>

definition self_node :: node_config where
  "self_node = (demo_node ''Loop'' [] [])\<lparr>input_stream := [], output_stream := []\<rparr>"

definition self_subgraphs :: subgraphs where
  "self_subgraphs = \<lparr>IsRegistered = (\<lambda>pkg t. t = ''Loop''), CreateByName = (\<lambda>pkg t nd. Inr (MakeSingleNodeGraph self_node)),
     DefineGraphOptions = (\<lambda>nd cfg. Inr cfg)\<rparr>"

lemma self_round:
  assumes "config_nodes cfg = [self_node\<lparr>node_name := name\<rparr>]"
  shows "\<exists>cfg' name'. expand_round A self_subgraphs cfg = Inr cfg' \<and> config_nodes cfg' = [self_node\<lparr>node_name := name'\<rparr>]"
  by (simp add: expand_round_def assms Let_def is_subgraph_def self_subgraphs_def expand_node_def ValidateSubgraphFields_def
      self_node_def demo_node_def MakeSingleNodeGraph_def PrefixNames_def TransformNames_def TransformStreamNames_def transform_node_def
      ConnectSubgraphStreams_def FindCorrespondingStreams_def FindIgnoredStreams_def Create_def InitializeNames_def connect_node_def)

lemma self_reference_diverges:
  assumes "config_nodes cfg = [self_node]"
  shows "expand_loop A self_subgraphs cfg = None"
proof -
  have "S = self_subgraphs \<longrightarrow> (\<forall>name. config_nodes cfg \<noteq> [self_node\<lparr>node_name := name\<rparr>])" if "expand_loop A S cfg = Some r" for A S cfg r
    using that
  proof (induction rule: expand_loop.raw_induct [rotated 1, consumes 1, case_names step])
    case (step expand_loop A S cfg r)
    show ?case
    proof (intro impI allI notI)
      fix name assume S: "S = self_subgraphs" and n: "config_nodes cfg = [self_node\<lparr>node_name := name\<rparr>]"
      obtain cfg' name' where r: "expand_round A self_subgraphs cfg = Inr cfg'" "config_nodes cfg' = [self_node\<lparr>node_name := name'\<rparr>]"
        using self_round [OF n] by blast
      have "expand_loop A S cfg' = Some r"
        using step(2) r(1) S n by (simp add: is_subgraph_def self_subgraphs_def self_node_def demo_node_def)
      then show False using step(1) [of A S cfg' r] S r(2) by blast
    qed
  qed
  moreover have "config_nodes cfg = [self_node\<lparr>node_name := []\<rparr>]" using assms by (simp add: self_node_def demo_node_def)
  ultimately show ?thesis by (metis not_Some_eq)
qed

end
