(* ===== verification/Spec2Isabelle.thy ===== *)
theory Spec2Isabelle
  imports DefaultHandler InOrderPropagation SchedulerIdle NodeLifecycle Connection TopologicalTraversal TagMapLookup ThrottlingExact GraphProperties GraphOutputProperties SidePacketDelivery GraphRunProperties GraphWiring GraphExecutors SubgraphExpansion
begin

text \<open>
  The core of the MediaPipe framework, \<open>src/mediapipe/framework\<close>: what happens to a packet from the moment
  an application adds it to a graph until an observer or a poller sees what the graph made of it.

  \<^bold>\<open>The program.\<close> A configuration names nodes (calculators), the streams and side packets that connect
  them, and executors. \<open>ValidatedGraphConfig\<close> checks it, sorts the nodes and connects the edges.
  \<open>CalculatorGraph\<close> creates a queue for each input stream (\<open>InputStreamManager\<close>), a manager for each output
  stream (\<open>OutputStreamManager\<close>), a node for each calculator (\<open>CalculatorNode\<close>) and an executor for each queue
  of the \<open>Scheduler\<close>. When a stream changes, its \<open>InputStreamHandler\<close> decides whether the node can run and
  with which packets; the node is put into a \<open>SchedulerQueue\<close>, a thread of the executor takes it out and
  calls the calculator with a \<open>CalculatorContext\<close>; the \<open>OutputStreamHandler\<close> propagates what it has
  emitted, packets and timestamp bounds, to the input streams downstream. When no queue has work, the scheduler
  opens the next layer of sources, resolves deadlocks of full queues through the graph, or ends the run.

  \<^bold>\<open>How it is modelled.\<close> A class is a record with its fields, a method a function on it, in the order of the
  source. A failed \<open>CHECK\<close> or \<open>DCHECK\<close>, a null pointer and a loop that does not end are \<open>None\<close>; an
  \<open>absl::Status\<close> is a \<open>status\<close> or the left of a \<open>result\<close>, without its text. Code that several threads execute is cut
  where it takes or releases a mutex: each section is a function, and an inductive relation interleaves the
  sections of all threads. Calls of virtual methods, callbacks and calculators are arguments. Integers have
  their width where they can overflow (timestamps, options); counters are unbounded.

  \<^bold>\<open>Basic types.\<close>
  \<^item> \<open>Prelude\<close>: statuses, results, aborts; minima over lists; words.
  \<^item> \<open>SafeInt\<close> (\<open>deps/safe_int.h\<close>, \<open>deps/strong_int.h\<close>): checked arithmetic aborts exactly on overflow.
  \<^item> \<open>Timestamp\<close> (\<open>timestamp.h/.cc\<close>), \<open>Packet\<close> (\<open>packet.h/.cc\<close>, \<open>packet_type.h/.cc\<close>): the order of timestamps,
    stepping and clamping; packets, types and the store of linked types.

  \<^bold>\<open>Streams.\<close>
  \<^item> \<open>InputStreamManager\<close>, \<open>InputStreamManager_Inv\<close> (\<open>input_stream_manager.cc\<close>): the queue is sorted and below
    the bound, on error paths too; popping at a timestamp; the bound never decreases.
  \<^item> \<open>OutputStream\<close> (\<open>output_stream_shard.cc\<close>, \<open>output_stream_manager.cc\<close>): the announced bound covers what is sent.
  \<^item> \<open>Connection\<close>: the two ends of an edge; the model of a producer and a consumer refines a plain edge.
  \<^item> \<open>GraphOutputStream\<close>, \<open>ObserverInterleavings\<close>, \<open>GraphOutputProperties\<close> (\<open>graph_output_stream.cc\<close>): observers,
    with every interleaving of \<open>Notify\<close>, and pollers.
  \<^item> \<open>SidePackets\<close>, \<open>SidePacketDelivery\<close> (\<open>output_side_packet_impl.cc\<close>, \<open>input_side_packet_handler.cc\<close>,
    \<open>tool/fill_packet_set.cc\<close>): every side packet arrives and a node becomes ready once.

  \<^bold>\<open>Nodes.\<close>
  \<^item> \<open>CalculatorContext\<close> (\<open>calculator_context_manager.cc\<close>), \<open>InputStreamHandler\<close>, \<open>ScheduleInvocations\<close>
    (\<open>input_stream_handler.cc\<close>), \<open>StreamHandlers\<close> (\<open>stream_handler/\<close>): contexts, sync sets and the eight handlers.
  \<^item> \<open>HandlerContracts\<close>: the locale \<open>stream_pop\<close>, what filling an input set needs of a pop, interpreted by
    both pops; \<open>SyncSets\<close>, \<open>DefaultHandler\<close>: readiness is settled, complete, and scheduling never aborts.
  \<^item> \<open>OutputStreamHandler\<close>, \<open>InOrderPropagation\<close> (\<open>output_stream_handler.cc\<close>,
    \<open>in_order_output_stream_handler.cc\<close>): parallel invocations are propagated in order and none is lost.
  \<^item> \<open>NodeScheduling\<close>, \<open>CalculatorNode\<close>, \<open>NodeLifecycle\<close> (\<open>calculator_node.cc\<close>): one thread schedules a node, no
    readiness is lost, batches run in order, a closed node has closed its streams.

  \<^bold>\<open>Scheduling.\<close>
  \<^item> \<open>SchedulerQueue\<close> (\<open>scheduler_queue.cc\<close>): tasks and items match. \<open>Scheduler\<close>, \<open>SchedulerRuns\<close>, \<open>SchedulerIdle\<close>
    (\<open>scheduler.cc\<close>): the state machine, no abort, nothing left at rest, and the two situations in which
    something is.
  \<^item> \<open>ThreadPool\<close> (\<open>deps/threadpool_pthread_impl.cc\<close>): the locale \<open>task_store\<close>, what whoever schedules tasks relies
    on, interpreted by the pool and by the tasks of the application thread (\<open>delegating_executor.cc\<close>); every task
    of a pool is executed once.
  \<^item> \<open>GraphExecutors\<close> (\<open>thread_pool_executor.cc\<close>, \<open>calculator_graph.cc\<close>): every node gets a queue.
  \<^item> \<open>GraphThrottling\<close>, \<open>ThrottlingExact\<close> (\<open>calculator_graph.cc\<close>): a source is throttled exactly by the full streams
    below it, whatever the order of the callbacks; a deadlock is resolved.

  \<^bold>\<open>Validation.\<close>
  \<^item> \<open>TopologicalSorter\<close>, \<open>TopologicalOrder\<close>, \<open>TopologicalTraversal\<close> (\<open>deps/topologicalsorter.cc\<close>): the traversal is
    the naive one, least node first, and a cycle is found if there is one.
  \<^item> \<open>ValidateName\<close>, \<open>NameGrammar\<close>, \<open>TagMap\<close>, \<open>TagMapLookup\<close> (\<open>tool/validate_name.cc\<close>, \<open>tool/tag_map.cc\<close>): the
    parsers accept the documented grammar; ids, tags and indexes correspond.
  \<^item> \<open>GraphConfig\<close>, \<open>ValidatedGraph\<close>, \<open>GraphInitialize\<close> (\<open>calculator.proto\<close>, \<open>calculator_contract.cc\<close>,
    \<open>tool/name_util.cc\<close>, \<open>validated_graph_config.cc\<close>): the definitions. \<open>GraphEdges\<close>, \<open>GraphSidePackets\<close>,
    \<open>GraphSorting\<close>, \<open>GraphConnected\<close>, \<open>GraphTypes\<close>, \<open>GraphValidated\<close>: what each phase establishes.
    \<open>GraphProperties\<close>: validation ends, edges connect, types fit, dependences on sources are exact.
  \<^item> \<open>SubgraphExpansion\<close> (\<open>tool/subgraph_expansion.cc\<close>): the expansion ends unless a subgraph contains itself, and
    connects each subgraph to the streams of its node.

  \<^bold>\<open>The graph\<close> (\<open>calculator_graph.cc\<close>).
  \<^item> \<open>GraphRun\<close>, \<open>GraphLifecycle\<close>: graph input streams, errors, services, the beginning and the end of a run.
    \<open>GraphInputRuns\<close>, \<open>GraphRunProperties\<close>: in every sequence of actions the consumers get what the application
    has added, and the end of a run reports every error. \<open>GraphWiring\<close>: the streams of a validated graph
    connect, and satisfy what the theorems on runs assume of them.

  \<^bold>\<open>Bounds and fuel.\<close> No definition has fuel. A loop of the source that need not end is a partial function
  (following the links of packet types, \<open>ScheduleInvocations\<close>, the search for an unused name, the expansion of
  subgraphs), and
  that it returns is part of the properties. The limit of 1000 accumulated errors is the \<open>LOG(FATAL)\<close> of
  \<open>RecordError\<close>; it is a hypothesis where a run must not abort. A thread pool comes to rest after at most two steps
  for each waiting task and each worker.

  \<^bold>\<open>What the code relies on.\<close> \<open>strings_ok\<close>: \<open>StrSplit\<close>, \<open>SimpleAtoi\<close> and \<open>StrCat\<close> of Abseil, as documented, with
  \<open>reference_strings\<close> as an instance. \<open>registry_ok\<close>: registered contracts change packet types through their setters
  only, with \<open>demo_registry\<close> as an instance. A signal wakes a waiting thread if there is one.

  \<^bold>\<open>Not modelled.\<close>
  \<^item> Calculators, packet generators, status handlers and services by themselves: arguments.
  \<^item> The validation takes the expansion of subgraphs as a parameter, because it may not end: the theorems on validation
    hold for each expansion that returns, so for \<open>ExpandSubgraphs\<close> wherever \<open>expansion_complete\<close> applies.
    \<open>subgraph.cc\<close>, which creates a graph by its name, is a parameter of the expansion.
  \<^item> \<open>packet_generator_graph.cc\<close>: what a run gets from it is an argument of \<open>StartRun\<close>.
  \<^item> \<open>CalculatorNode::Initialize\<close>, apart from the connection of streams and side packets: it builds handlers by the
    names in registries.
  \<^item> \<open>tool/template_parser.cc\<close>, \<open>tool/options_*\<close>, \<open>tool/proto_util_lite.cc\<close>: they work on the reflection and the wire format
    of the protocol buffer library, which is not in the repository.
  \<^item> \<open>profiler/\<close>, \<open>formats/\<close>, \<open>gpu/\<close>, \<open>api2/\<close>, switch containers, simulation clocks, sources and sinks, test tools and
    examples: measurement, payloads, platform code and clients of the interface modelled here.
  \<^item> The texts of messages, names of types, logging, monitoring, and conversions of timestamps to seconds.
\<close>

end
